(* ===== verification/Prelude.thy ===== *)
theory Prelude
  imports Main "HOL-Library.Word" "HOL-Library.List_Lexorder" "HOL-Library.Char_ord"
    "HOL-Library.Monad_Syntax" "HOL-Library.Sublist"
begin

text \<open>
  Shared vocabulary of the development: the types that stand for C's scalars, ordered
  association lists (the in-order view of a red-black tree of \<^verbatim>\<open>bsd/tree.h\<close>), and the
  generic list lemmas the components use.  C strings are \<^typ>\<open>string\<close>s without their
  terminating NUL; \<^verbatim>\<open>tupid_t\<close> (\<^verbatim>\<open>sqlite3_int64\<close>) is \<^typ>\<open>int\<close>.
  An \<open>int\<close>-returning C function whose only failure is \<open>-1\<close> returns an \<open>option\<close>
  (\<open>None\<close> for \<open>-1\<close>), and functions with several failures return a sum.
\<close>

type_synonym tupid = int

named_theorems inv_intros \<open>operations preserve the invariants of their component\<close>
named_theorems exec_simps \<open>equations that evaluate an operation on a concrete state\<close>

section \<open>Ordered association lists\<close>

type_synonym ('k, 'v) omap = "('k \<times> 'v) list"

abbreviation om_keys :: "('k, 'v) omap \<Rightarrow> 'k list" where
  "om_keys m \<equiv> map fst m"

definition om_ok :: "('k::linorder, 'v) omap \<Rightarrow> bool" where
  "om_ok m \<longleftrightarrow> sorted (om_keys m) \<and> distinct (om_keys m)"

fun om_put :: "'k::linorder \<Rightarrow> 'v \<Rightarrow> ('k, 'v) omap \<Rightarrow> ('k, 'v) omap" where
  "om_put k v [] = [(k, v)]"
| "om_put k v ((k', v') # m) =
     (if k < k' then (k, v) # (k', v') # m
      else if k = k' then (k, v) # m
      else (k', v') # om_put k v m)"

definition om_del :: "'k \<Rightarrow> ('k, 'v) omap \<Rightarrow> ('k, 'v) omap" where
  "om_del k m = filter (\<lambda>p. fst p \<noteq> k) m"

lemma om_ok_Nil [simp, intro]: "om_ok []"
  by (simp add: om_ok_def)

lemma om_ok_Cons: "om_ok ((k, v) # m) \<longleftrightarrow> (\<forall>k' \<in> set (om_keys m). k < k') \<and> om_ok m"
  by (auto simp: om_ok_def order.strict_iff_order)

lemma set_om_put_keys [simp]: "set (om_keys (om_put k v m)) = insert k (set (om_keys m))"
  by (induction m rule: om_put.induct) auto

lemma om_ok_put [simp, intro]: "om_ok m \<Longrightarrow> om_ok (om_put k v m)"
proof (induction k v m rule: om_put.induct)
  case (2 k v k' v' m)
  then show ?case
    using set_om_put_keys [of k v m] by (auto simp: om_ok_Cons simp del: set_om_put_keys set_map)
qed (simp add: om_ok_Cons)

lemma om_del_simps [simp]:
  "om_del k [] = []"
  "om_del k (p # m) = (if fst p = k then om_del k m else p # om_del k m)"
  by (simp_all add: om_del_def)

lemma set_om_del [simp]: "set (om_del k m) = {p \<in> set m. fst p \<noteq> k}"
  by (auto simp: om_del_def)

lemma om_ok_del [simp, intro]: "om_ok m \<Longrightarrow> om_ok (om_del k m)"
  by (induction m) (auto simp: om_ok_Cons)

lemma map_of_om_put [simp]: "map_of (om_put k v m) x = (if x = k then Some v else map_of m x)"
  by (induction k v m rule: om_put.induct) auto

lemma map_of_om_del [simp]: "map_of (om_del k m) x = (if x = k then None else map_of m x)"
  by (induction m) auto

lemma om_ok_map_of_iff: "om_ok m \<Longrightarrow> map_of m k = Some v \<longleftrightarrow> (k, v) \<in> set m"
  by (simp add: om_ok_def)

lemma map_of_None_keys: "map_of m k = None \<longleftrightarrow> k \<notin> set (om_keys m)"
  by (auto simp: map_of_eq_None_iff)

lemma om_ok_eqI:
  assumes "om_ok m" and "om_ok m'" and "\<And>k. map_of m k = map_of m' k"
  shows "m = m'"
proof -
  have "set m = set m'"
    using assms by (force simp flip: om_ok_map_of_iff)
  moreover have "distinct m" and "distinct m'"
    using assms(1,2) by (auto simp: om_ok_def distinct_map)
  moreover have "sorted (om_keys m)" and "sorted (om_keys m')"
    and "inj_on fst (set m \<union> set m')"
    using assms(1,2) \<open>set m = set m'\<close> by (auto simp: om_ok_def distinct_map)
  ultimately show ?thesis
    by (metis map_sorted_distinct_set_unique sup.idem assms(1,2) om_ok_def)
qed

section \<open>Generic lemmas\<close>

lemma takeWhile_append_stop:
  "\<forall>x \<in> set xs. P x \<Longrightarrow> \<not> P y \<Longrightarrow> takeWhile P (xs @ y # ys) = xs"
  by (induction xs) auto

lemma dropWhile_append_stop:
  "\<forall>x \<in> set xs. P x \<Longrightarrow> \<not> P y \<Longrightarrow> dropWhile P (xs @ y # ys) = y # ys"
  by (induction xs) auto

lemma dropWhile_idem [simp]: "dropWhile P (dropWhile P xs) = dropWhile P xs"
  by (induction xs) auto

lemma dropWhile_length_less:
  "xs = y # ys \<Longrightarrow> P y \<Longrightarrow> length (dropWhile P xs) < length xs"
  using length_dropWhile_le [of P ys] by simp

end
