(* ===== verification/If_Stmt.thy ===== *)
theory If_Stmt
  imports Prelude
begin

unbundle bit_operations_syntax

text \<open>
  \<^verbatim>\<open>src/src/tup/if_stmt.c\<close>: the stack of nested \<^verbatim>\<open>ifdef\<close>/\<^verbatim>\<open>ifeq\<close> blocks
  of a Tupfile, packed into two bytes.  \<open>level\<close> is a one-hot bit for the innermost block and
  \<open>ifness\<close> has the bit of every block whose current branch is not taken.  The abstract
  specification is a list of booleans, outermost block first; the lemmas show that each
  operation refines the operation on the list.
\<close>

section \<open>The code\<close>

record if_stmt =
  ifness :: "8 word"
  level :: "8 word"

datatype if_error = Too_many_nested | Else_outside_if | Endif_outside_if

definition IFMAX :: "8 word" where
  "IFMAX = 0x80"

definition if_init :: if_stmt where
  "if_init = \<lparr>ifness = 0, level = 0\<rparr>"

definition if_add :: "if_stmt \<Rightarrow> bool \<Rightarrow> if_error + if_stmt" where
  "if_add ifs is_true =
     (if level ifs \<ge> IFMAX then Inl Too_many_nested
      else
        let l = (if level ifs = 0 then 1 else push_bit 1 (level ifs));
            i = (if \<not> is_true then ifness ifs OR l else ifness ifs)
        in Inr (ifs\<lparr>level := l, ifness := i\<rparr>))"

definition if_else :: "if_stmt \<Rightarrow> if_error + if_stmt" where
  "if_else ifs =
     (if level ifs = 0 then Inl Else_outside_if
      else Inr (ifs\<lparr>ifness := ifness ifs XOR level ifs\<rparr>))"

definition if_endif :: "if_stmt \<Rightarrow> if_error + if_stmt" where
  "if_endif ifs =
     (if level ifs = 0 then Inl Endif_outside_if
      else Inr (ifs\<lparr>ifness := ifness ifs AND NOT (level ifs), level := drop_bit 1 (level ifs)\<rparr>))"

definition if_true :: "if_stmt \<Rightarrow> bool" where
  "if_true ifs \<longleftrightarrow> \<not> (ifness ifs \<noteq> 0)"

definition if_check :: "if_stmt \<Rightarrow> bool" where
  "if_check ifs \<longleftrightarrow> level ifs = 0"

section \<open>The stack it represents\<close>

text \<open>Outermost block first; \<open>True\<close> means that the block's current branch is taken.\<close>

definition if_rep :: "bool list \<Rightarrow> if_stmt" where
  "if_rep bs = \<lparr>ifness = horner_sum of_bool 2 (map Not bs),
                level = (if bs = [] then 0 else push_bit (length bs - 1) 1)\<rparr>"

lemma bit_ifness_rep: "bit (ifness (if_rep bs)) n \<longleftrightarrow> n < 8 \<and> n < length bs \<and> \<not> bs ! n"
  by (auto simp: if_rep_def bit_horner_sum_bit_word_iff)

lemma level_rep_snoc [simp]: "level (if_rep (bs @ [b])) = push_bit (length bs) 1"
  by (simp add: if_rep_def)

lemma bit_level_rep_snoc: "bit (level (if_rep (bs @ [b]))) n \<longleftrightarrow> n < 8 \<and> n = length bs"
  by (auto simp: bit_simps)

lemma level_rep_eq_0: "length bs \<le> 8 \<Longrightarrow> level (if_rep bs) = 0 \<longleftrightarrow> bs = []"
proof (cases bs rule: rev_cases)
  case (snoc ys y)
  assume "length bs \<le> 8"
  with snoc have "bit (level (if_rep bs)) (length ys)"
    by (simp add: bit_level_rep_snoc del: level_rep_snoc)
  with snoc show ?thesis by (metis append_is_Nil_conv bit_0_eq bot_apply bot_bool_def not_Cons_self2)
qed (simp add: if_rep_def)

lemma less_8_cases: "n < (8::nat) \<Longrightarrow> n \<in> {0, 1, 2, 3, 4, 5, 6, 7}"
  by auto

lemma level_rep_IFMAX: "length bs \<le> 8 \<Longrightarrow> level (if_rep bs) \<ge> IFMAX \<longleftrightarrow> length bs = 8"
proof (cases bs rule: rev_cases)
  case (snoc ys y)
  assume "length bs \<le> 8"
  with snoc have "length ys < 8" by simp
  then have "length ys \<in> {0, 1, 2, 3, 4, 5, 6, 7}" by (rule less_8_cases)
  then have "push_bit (length ys) (1 :: 8 word) \<ge> 0x80 \<longleftrightarrow> length ys = 7"
    by (elim insertE emptyE) (simp_all add: push_bit_eq_mult word_le_nat_alt)
  with snoc show ?thesis by (simp add: IFMAX_def)
qed (simp add: if_rep_def IFMAX_def)

lemma level_rep_neq_0: "length bs < 8 \<Longrightarrow> level (if_rep (bs @ [b])) \<noteq> 0"
  using level_rep_eq_0 [of "bs @ [b]"] by simp

lemma next_level:
  "length bs < 8 \<Longrightarrow>
   (if level (if_rep bs) = 0 then 1 else push_bit 1 (level (if_rep bs))) = push_bit (length bs) 1"
  by (cases bs rule: rev_cases) (auto simp: if_rep_def level_rep_neq_0 level_rep_eq_0 push_bit_eq_mult)

section \<open>Each operation refines the operation on the stack\<close>

lemma if_init_rep: "if_init = if_rep []"
  by (simp add: if_init_def if_rep_def)

lemma if_add_rep:
  assumes "length bs < 8"
  shows "if_add (if_rep bs) b = Inr (if_rep (bs @ [b]))"
proof -
  have "level (if_rep bs) < IFMAX"
    using level_rep_IFMAX [of bs] assms by (auto simp: not_le)
  moreover have "ifness (if_rep (bs @ [b])) =
      (if b then ifness (if_rep bs) else ifness (if_rep bs) OR push_bit (length bs) 1)"
    by (rule bit_word_eqI) (auto simp: bit_ifness_rep bit_simps nth_append less_Suc_eq)
  ultimately show ?thesis
    using next_level [OF assms] by (auto simp: if_add_def Let_def)
qed

lemma if_add_full: "length bs = 8 \<Longrightarrow> if_add (if_rep bs) b = Inl Too_many_nested"
  using level_rep_IFMAX [of bs] by (simp add: if_add_def)

lemma if_else_rep:
  assumes "length bs < 8"
  shows "if_else (if_rep (bs @ [b])) = Inr (if_rep (bs @ [\<not> b]))"
proof -
  have "ifness (if_rep (bs @ [\<not> b])) = ifness (if_rep (bs @ [b])) XOR level (if_rep (bs @ [b]))"
    using assms by (intro bit_word_eqI) (auto simp: bit_ifness_rep bit_simps nth_append less_Suc_eq)
  then show ?thesis using level_rep_neq_0 [OF assms, of b] by (simp add: if_else_def)
qed

lemma if_endif_rep:
  assumes "length bs < 8"
  shows "if_endif (if_rep (bs @ [b])) = Inr (if_rep bs)"
proof -
  have "ifness (if_rep bs) = ifness (if_rep (bs @ [b])) AND NOT (level (if_rep (bs @ [b])))"
    using assms by (intro bit_word_eqI) (auto simp: bit_ifness_rep bit_simps nth_append less_Suc_eq)
  moreover have "drop_bit 1 (push_bit (length bs) 1) = level (if_rep bs)"
    using assms by (intro bit_word_eqI) (cases bs rule: rev_cases; auto simp: if_rep_def bit_simps)
  ultimately show ?thesis
    using level_rep_neq_0 [OF assms, of b] by (simp add: if_endif_def)
qed

lemma if_else_empty: "if_else (if_rep []) = Inl Else_outside_if"
  by (simp add: if_else_def if_rep_def)

lemma if_endif_empty: "if_endif (if_rep []) = Inl Endif_outside_if"
  by (simp add: if_endif_def if_rep_def)

lemma if_true_rep: "length bs \<le> 8 \<Longrightarrow> if_true (if_rep bs) \<longleftrightarrow> (\<forall>b \<in> set bs. b)"
proof -
  assume len: "length bs \<le> 8"
  have "ifness (if_rep bs) = 0 \<longleftrightarrow> (\<forall>n < length bs. bs ! n)"
  proof
    assume "ifness (if_rep bs) = 0"
    then have "\<not> bit (ifness (if_rep bs)) n" for n by simp
    with len show "\<forall>n < length bs. bs ! n" by (auto simp: bit_ifness_rep)
  next
    assume "\<forall>n < length bs. bs ! n"
    then show "ifness (if_rep bs) = 0" by (intro bit_word_eqI) (simp add: bit_ifness_rep)
  qed
  then show ?thesis by (simp add: if_true_def all_set_conv_all_nth)
qed

lemma if_check_rep: "length bs \<le> 8 \<Longrightarrow> if_check (if_rep bs) \<longleftrightarrow> bs = []"
  by (simp add: if_check_def level_rep_eq_0)

section \<open>Whole runs\<close>

text \<open>The conditional statements of a Tupfile, as the parser hands them to this component.\<close>

datatype if_op = If_add bool | If_else | If_endif

fun if_step :: "if_stmt \<Rightarrow> if_op \<Rightarrow> if_error + if_stmt" where
  "if_step s (If_add b) = if_add s b"
| "if_step s If_else = if_else s"
| "if_step s If_endif = if_endif s"

fun if_run :: "if_stmt \<Rightarrow> if_op list \<Rightarrow> if_error + if_stmt" where
  "if_run s [] = Inr s"
| "if_run s (x # xs) = (case if_step s x of Inl e \<Rightarrow> Inl e | Inr s' \<Rightarrow> if_run s' xs)"

fun spec_step :: "bool list \<Rightarrow> if_op \<Rightarrow> if_error + bool list" where
  "spec_step bs (If_add b) = (if length bs < 8 then Inr (bs @ [b]) else Inl Too_many_nested)"
| "spec_step bs If_else =
     (if bs = [] then Inl Else_outside_if else Inr (butlast bs @ [\<not> last bs]))"
| "spec_step bs If_endif = (if bs = [] then Inl Endif_outside_if else Inr (butlast bs))"

fun spec_run :: "bool list \<Rightarrow> if_op list \<Rightarrow> if_error + bool list" where
  "spec_run bs [] = Inr bs"
| "spec_run bs (x # xs) = (case spec_step bs x of Inl e \<Rightarrow> Inl e | Inr bs' \<Rightarrow> spec_run bs' xs)"

lemma if_step_refines:
  assumes "length bs \<le> 8"
  shows "if_step (if_rep bs) x = map_sum id if_rep (spec_step bs x)"
proof (cases x)
  case (If_add b)
  with assms show ?thesis by (auto simp: if_add_rep if_add_full)
next
  case If_else
  with assms show ?thesis
    by (cases bs rule: rev_cases) (auto simp: if_else_rep if_else_empty)
next
  case If_endif
  with assms show ?thesis
    by (cases bs rule: rev_cases) (auto simp: if_endif_rep if_endif_empty)
qed

lemma spec_step_bounded: "spec_step bs x = Inr bs' \<Longrightarrow> length bs \<le> 8 \<Longrightarrow> length bs' \<le> 8"
  by (cases x) (auto split: if_splits)

lemma if_run_refines_from:
  "length bs \<le> 8 \<Longrightarrow> if_run (if_rep bs) xs = map_sum id if_rep (spec_run bs xs)"
proof (induction xs arbitrary: bs)
  case (Cons x xs)
  show ?case
  proof (cases "spec_step bs x")
    case (Inr bs')
    with Cons spec_step_bounded [OF Inr] show ?thesis by (simp add: if_step_refines)
  qed (simp add: if_step_refines Cons.prems)
qed simp

lemma spec_run_bounded: "spec_run bs xs = Inr bs' \<Longrightarrow> length bs \<le> 8 \<Longrightarrow> length bs' \<le> 8"
  by (induction xs arbitrary: bs) (auto split: sum.splits dest: spec_step_bounded)

text \<open>
  C19: running any sequence of if/else/endif statements on the packed bytes gives
  exactly what the stack of at most eight booleans gives, errors included, and the two
  questions the parser asks (is this line live, is every block closed) are answered as on the stack.
\<close>

theorem if_run_refines:
  "case if_run if_init xs of
     Inl e \<Rightarrow> spec_run [] xs = Inl e
   | Inr s \<Rightarrow> \<exists>bs. spec_run [] xs = Inr bs \<and> length bs \<le> 8 \<and> s = if_rep bs
              \<and> if_true s = list_all id bs \<and> if_check s = (bs = [])"
proof (cases "spec_run [] xs")
  case (Inr bs)
  then have "length bs \<le> 8" by (rule spec_run_bounded) simp
  with Inr show ?thesis
    using if_run_refines_from [of "[]" xs]
    by (simp add: if_init_rep if_true_rep if_check_rep list_all_iff)
qed (use if_run_refines_from [of "[]" xs] in \<open>simp add: if_init_rep\<close>)

end
