(* ===== verification/Trees.thy ===== *)
theory Trees
  imports Prelude
begin

text \<open>
  The ordered containers every other component keeps its state in: \<^verbatim>\<open>tupid_tree.c\<close>,
  \<^verbatim>\<open>tent_tree.c\<close>, \<^verbatim>\<open>string_tree.c\<close> and the queue of \<^verbatim>\<open>tent_list.c\<close>.  They are
  instances of the red-black tree macros of \<^verbatim>\<open>bsd/tree.h\<close>; a tree is represented by
  its in-order list of elements, and \<open>rb_insert\<close>, \<open>rb_find\<close> and \<open>RB_MIN\<close> work with the
  comparison function the instance gives to \<^verbatim>\<open>RB_GENERATE\<close>.  The locale \<open>ordered_set\<close> states what the
  rest of the program relies on; it is interpreted on the tupid and the string trees.
\<close>

section \<open>The tree macros, over a comparison function\<close>

fun rb_insert :: "('a \<Rightarrow> 'a \<Rightarrow> int) \<Rightarrow> 'a \<Rightarrow> 'a list \<Rightarrow> 'a list option" where
  "rb_insert cmp x [] = Some [x]"
| "rb_insert cmp x (y # ys) =
     (if cmp x y < 0 then Some (x # y # ys)
      else if cmp x y > 0 then map_option (Cons y) (rb_insert cmp x ys)
      else None)"

fun rb_find :: "('a \<Rightarrow> 'a \<Rightarrow> int) \<Rightarrow> 'a \<Rightarrow> 'a list \<Rightarrow> 'a option" where
  "rb_find cmp x [] = None"
| "rb_find cmp x (y # ys) =
     (if cmp x y < 0 then None else if cmp x y > 0 then rb_find cmp x ys else Some y)"

section \<open>tupid trees\<close>

text \<open>
  \<^verbatim>\<open>tupid_tree_cmp\<close> returns the 64-bit difference of two ids as an \<^verbatim>\<open>int\<close>: only the low
  32 bits of the difference survive.
\<close>

definition tupid_tree_cmp :: "tupid \<Rightarrow> tupid \<Rightarrow> int" where
  "tupid_tree_cmp a b = sint (word_of_int (a - b) :: 32 word)"

type_synonym tupid_entries = "tupid list"

definition tupid_tree_search :: "tupid_entries \<Rightarrow> tupid \<Rightarrow> tupid option" where
  "tupid_tree_search root t = rb_find tupid_tree_cmp t root"

definition tupid_tree_insert :: "tupid_entries \<Rightarrow> tupid \<Rightarrow> tupid_entries option" where
  "tupid_tree_insert root t = rb_insert tupid_tree_cmp t root"

definition tupid_tree_add :: "tupid_entries \<Rightarrow> tupid \<Rightarrow> tupid_entries option" where
  "tupid_tree_add root t = (case tupid_tree_insert root t of None \<Rightarrow> None | Some r \<Rightarrow> Some r)"

definition tupid_tree_add_dup :: "tupid_entries \<Rightarrow> tupid \<Rightarrow> tupid_entries option" where
  "tupid_tree_add_dup root t = (case tupid_tree_insert root t of None \<Rightarrow> Some root | Some r \<Rightarrow> Some r)"

definition tupid_tree_remove :: "tupid_entries \<Rightarrow> tupid \<Rightarrow> tupid_entries" where
  "tupid_tree_remove root t =
     (case tupid_tree_search root t of None \<Rightarrow> root | Some tt \<Rightarrow> remove1 tt root)"

section \<open>string trees\<close>

text \<open>\<^verbatim>\<open>strcmp\<close> compares bytes as unsigned characters, a proper prefix first.\<close>

fun strcmp :: "string \<Rightarrow> string \<Rightarrow> int" where
  "strcmp [] [] = 0"
| "strcmp [] (y # ys) = -1"
| "strcmp (x # xs) [] = 1"
| "strcmp (x # xs) (y # ys) =
     (if (of_char x :: nat) < of_char y then -1 else if (of_char x :: nat) > of_char y then 1
      else strcmp xs ys)"

definition string_tree_cmp :: "string \<Rightarrow> string \<Rightarrow> int" where
  "string_tree_cmp s t = strcmp s t"

type_synonym string_entries = "string list"

definition string_tree_search :: "string_entries \<Rightarrow> string \<Rightarrow> string option" where
  "string_tree_search root s = rb_find string_tree_cmp s root"

definition string_tree_insert :: "string_entries \<Rightarrow> string \<Rightarrow> string_entries option" where
  "string_tree_insert root s = rb_insert string_tree_cmp s root"

definition string_tree_add :: "string_entries \<Rightarrow> string \<Rightarrow> string_entries option" where
  "string_tree_add root s =
     (case rb_insert string_tree_cmp s root of None \<Rightarrow> None | Some r \<Rightarrow> Some r)"

definition string_tree_remove :: "string_entries \<Rightarrow> string \<Rightarrow> string_entries" where
  "string_tree_remove root s = remove1 s root"

section \<open>The contract\<close>

text \<open>
  \<open>ok\<close> is the set of keys for which the comparison is trustworthy; the laws are the ones of a
  finite set kept in increasing order.
\<close>

locale ordered_set =
  fixes srch :: "'a::linorder list \<Rightarrow> 'a \<Rightarrow> 'a option"
    and ins :: "'a list \<Rightarrow> 'a \<Rightarrow> 'a list option"
    and del :: "'a list \<Rightarrow> 'a \<Rightarrow> 'a list"
    and ok :: "'a \<Rightarrow> bool"
  assumes srch_law: "sorted_wrt (<) t \<Longrightarrow> list_all ok t \<Longrightarrow> ok x \<Longrightarrow>
      srch t x = (if x \<in> set t then Some x else None)"
    and ins_law: "sorted_wrt (<) t \<Longrightarrow> list_all ok t \<Longrightarrow> ok x \<Longrightarrow>
      (if x \<in> set t then ins t x = None
       else (\<exists>t'. ins t x = Some t' \<and> sorted_wrt (<) t' \<and> set t' = insert x (set t)))"
    and del_law: "sorted_wrt (<) t \<Longrightarrow> list_all ok t \<Longrightarrow> ok x \<Longrightarrow>
      sorted_wrt (<) (del t x) \<and> set (del t x) = set t - {x}"
begin

definition valid :: "'a list \<Rightarrow> bool" where
  "valid t \<longleftrightarrow> sorted_wrt (<) t \<and> list_all ok t"

lemma valid_Nil [simp]: "valid []"
  by (simp add: valid_def)

lemma ins_fresh:
  assumes "valid t" "ok x" "x \<notin> set t"
  obtains t' where "ins t x = Some t'" "valid t'" "set t' = insert x (set t)"
  using ins_law [of t x] assms by (force simp: valid_def list_all_iff)

lemma ins_dup: "valid t \<Longrightarrow> x \<in> set t \<Longrightarrow> ins t x = None"
  using ins_law [of t x] by (auto simp: valid_def list_all_iff)

lemma ins_some: "valid t \<Longrightarrow> ok x \<Longrightarrow> ins t x = Some t' \<Longrightarrow>
    valid t' \<and> set t' = insert x (set t) \<and> x \<notin> set t"
  using ins_law [of t x] by (auto simp: valid_def list_all_iff split: if_splits)

lemma del_valid: "valid t \<Longrightarrow> ok x \<Longrightarrow> valid (del t x) \<and> set (del t x) = set t - {x}"
  using del_law [of t x] by (auto simp: valid_def list_all_iff)

lemma srch_iff: "valid t \<Longrightarrow> ok x \<Longrightarrow> srch t x \<noteq> None \<longleftrightarrow> x \<in> set t"
  using srch_law [of t x] by (auto simp: valid_def)

text \<open>A loop that adds elements and ignores duplicates builds the sorted union.\<close>

fun add_all :: "'a list \<Rightarrow> 'a list \<Rightarrow> 'a list" where
  "add_all t [] = t"
| "add_all t (x # xs) = add_all (case ins t x of None \<Rightarrow> t | Some t' \<Rightarrow> t') xs"

lemma add_all_set:
  "valid t \<Longrightarrow> list_all ok xs \<Longrightarrow> valid (add_all t xs) \<and> set (add_all t xs) = set t \<union> set xs"
proof (induction xs arbitrary: t)
  case (Cons x xs)
  show ?case
  proof (cases "x \<in> set t")
    case True
    with Cons show ?thesis by (auto simp: ins_dup)
  next
    case False
    with Cons.prems obtain t' where "ins t x = Some t'" "valid t'" "set t' = insert x (set t)"
      by (auto elim: ins_fresh)
    with Cons show ?thesis by auto
  qed
qed simp

lemma add_all_unique:
  assumes "list_all ok xs" and "list_all ok ys" and "set xs = set ys"
  shows "add_all [] xs = add_all [] ys"
  using add_all_set [of "[]" xs] add_all_set [of "[]" ys] assms
  by (simp add: valid_def strict_sorted_equal)

end

section \<open>Both instances meet the contract\<close>

lemma rb_find_spec:
  assumes "\<And>a b. ok a \<Longrightarrow> ok b \<Longrightarrow> cmp a b < 0 \<longleftrightarrow> a < (b::'a::linorder)"
    and "\<And>a b. ok a \<Longrightarrow> ok b \<Longrightarrow> cmp a b > 0 \<longleftrightarrow> a > b"
    and "ok x"
  shows "sorted_wrt (<) t \<Longrightarrow> list_all ok t \<Longrightarrow> rb_find cmp x t = (if x \<in> set t then Some x else None)"
  by (induction t) (use assms in \<open>auto simp: not_less_iff_gr_or_eq\<close>)

lemma rb_insert_spec:
  assumes "\<And>a b. ok a \<Longrightarrow> ok b \<Longrightarrow> cmp a b < 0 \<longleftrightarrow> a < (b::'a::linorder)"
    and "\<And>a b. ok a \<Longrightarrow> ok b \<Longrightarrow> cmp a b > 0 \<longleftrightarrow> a > b"
    and "ok x"
  shows "sorted_wrt (<) t \<Longrightarrow> list_all ok t \<Longrightarrow>
    (if x \<in> set t then rb_insert cmp x t = None
     else (\<exists>t'. rb_insert cmp x t = Some t' \<and> sorted_wrt (<) t' \<and> set t' = insert x (set t)))"
proof (induction t)
  case (Cons y t)
  consider "x < y" | "x = y" | "y < x" by fastforce
  then show ?case
  proof cases
    case 3
    with Cons show ?thesis
      by (auto simp: assms(1) [OF assms(3)] assms(2) [OF assms(3)])
  qed (use Cons assms in \<open>fastforce+\<close>)
qed simp

lemma remove1_sorted: "sorted_wrt (<) (t :: 'a::linorder list) \<Longrightarrow> sorted_wrt (<) (remove1 x t)"
  by (induction t) (use set_remove1_subset in fastforce)+

lemma remove1_strict_set: "sorted_wrt (<) (t :: 'a::linorder list) \<Longrightarrow> set (remove1 x t) = set t - {x}"
  by (induction t) auto

definition small_tupid :: "tupid \<Rightarrow> bool" where
  "small_tupid t \<longleftrightarrow> 0 \<le> t \<and> t < 2 ^ 31"

lemma tupid_tree_cmp_small:
  assumes "small_tupid a" and "small_tupid b"
  shows "tupid_tree_cmp a b = a - b"
proof -
  have "sint (word_of_int (a - b) :: 32 word) = (a - b + 2 ^ 31) mod 2 ^ 32 - 2 ^ 31"
    by (simp only: int_word_sint) simp
  also have "\<dots> = a - b" using assms by (simp add: small_tupid_def)
  finally show ?thesis by (simp add: tupid_tree_cmp_def)
qed

lemma strcmp_less: "strcmp a b < 0 \<longleftrightarrow> a < b"
  by (induction a b rule: strcmp.induct) (auto simp: less_char_def)

lemma strcmp_greater: "strcmp a b > 0 \<longleftrightarrow> a > b"
  by (induction a b rule: strcmp.induct) (auto simp: less_char_def)

lemma strcmp_eq: "strcmp a b = 0 \<longleftrightarrow> a = b"
  using strcmp_less [of a b] strcmp_greater [of a b] by (metis less_irrefl linorder_less_linear)

interpretation tupid_set: ordered_set tupid_tree_search tupid_tree_insert tupid_tree_remove small_tupid
proof unfold_locales
  fix t :: "tupid list" and x
  assume t: "sorted_wrt (<) t" "list_all small_tupid t" and x: "small_tupid x"
  have cmp: "\<And>a b. small_tupid a \<Longrightarrow> small_tupid b \<Longrightarrow> tupid_tree_cmp a b < 0 \<longleftrightarrow> a < b"
    "\<And>a b. small_tupid a \<Longrightarrow> small_tupid b \<Longrightarrow> tupid_tree_cmp a b > 0 \<longleftrightarrow> a > b"
    by (simp_all add: tupid_tree_cmp_small)
  show srch: "tupid_tree_search t x = (if x \<in> set t then Some x else None)"
    unfolding tupid_tree_search_def by (rule rb_find_spec [OF cmp x t])
  show "if x \<in> set t then tupid_tree_insert t x = None
     else \<exists>t'. tupid_tree_insert t x = Some t' \<and> sorted_wrt (<) t' \<and> set t' = insert x (set t)"
    unfolding tupid_tree_insert_def by (rule rb_insert_spec [OF cmp x t])
  show "sorted_wrt (<) (tupid_tree_remove t x) \<and> set (tupid_tree_remove t x) = set t - {x}"
    using t by (simp add: tupid_tree_remove_def srch remove1_sorted remove1_strict_set)
qed

interpretation string_set: ordered_set string_tree_search string_tree_insert string_tree_remove "\<lambda>_. True"
proof unfold_locales
  fix t :: "string list" and x
  assume t: "sorted_wrt (<) t" "list_all (\<lambda>_. True) t"
  have cmp: "\<And>a b. True \<Longrightarrow> True \<Longrightarrow> string_tree_cmp a b < 0 \<longleftrightarrow> a < b"
    "\<And>a b. True \<Longrightarrow> True \<Longrightarrow> string_tree_cmp a b > 0 \<longleftrightarrow> a > b"
    by (simp_all add: string_tree_cmp_def strcmp_less strcmp_greater)
  show "string_tree_search t x = (if x \<in> set t then Some x else None)"
    unfolding string_tree_search_def by (rule rb_find_spec [OF cmp TrueI t])
  show "if x \<in> set t then string_tree_insert t x = None
     else \<exists>t'. string_tree_insert t x = Some t' \<and> sorted_wrt (<) t' \<and> set t' = insert x (set t)"
    unfolding string_tree_insert_def by (rule rb_insert_spec [OF cmp TrueI t])
  show "sorted_wrt (<) (string_tree_remove t x) \<and> set (string_tree_remove t x) = set t - {x}"
    using t by (simp add: string_tree_remove_def remove1_sorted remove1_strict_set)
qed

section \<open>What the trees guarantee\<close>

text \<open>Adding a sequence of ids, ignoring duplicates, as the callers' loops do.\<close>

fun tupid_tree_add_dups :: "tupid_entries \<Rightarrow> tupid list \<Rightarrow> tupid_entries option" where
  "tupid_tree_add_dups t [] = Some t"
| "tupid_tree_add_dups t (x # xs) =
     (case tupid_tree_add_dup t x of None \<Rightarrow> None | Some t' \<Rightarrow> tupid_tree_add_dups t' xs)"

lemma tupid_tree_add_dups_eq: "tupid_tree_add_dups t xs = Some (tupid_set.add_all t xs)"
  by (induction xs arbitrary: t)
     (auto simp: tupid_tree_add_dup_def tupid_set.add_all.simps split: option.splits)

text \<open>
  C22: for ids below \<open>2 ^ 31\<close>, a tree filled with \<^verbatim>\<open>tupid_tree_add_dup\<close>
  holds exactly the ids added, in increasing order; a search finds exactly those, a strict
  \<^verbatim>\<open>tupid_tree_add\<close> fails exactly on those, and removal deletes exactly the one id.
\<close>

theorem tupid_tree_is_a_set:
  assumes "list_all small_tupid xs" and "small_tupid x"
  shows "\<exists>t. tupid_tree_add_dups [] xs = Some t \<and> sorted_wrt (<) t \<and> set t = set xs
    \<and> (tupid_tree_search t x = (if x \<in> set xs then Some x else None))
    \<and> (tupid_tree_add t x = None) = (x \<in> set xs)
    \<and> set (tupid_tree_remove t x) = set xs - {x}"
proof -
  let ?t = "tupid_set.add_all [] xs"
  have v: "tupid_set.valid ?t" and st: "set ?t = set xs"
    using tupid_set.add_all_set [of "[]" xs] assms(1) by auto
  then have sorted: "sorted_wrt (<) ?t" and all: "list_all small_tupid ?t"
    by (simp_all add: tupid_set.valid_def)
  have "(tupid_tree_add ?t x = None) = (x \<in> set xs)"
    using tupid_set.ins_law [OF sorted all assms(2)] st
    by (auto simp: tupid_tree_add_def split: option.splits if_splits)
  then show ?thesis
    using sorted st tupid_set.srch_law [OF sorted all assms(2)] tupid_set.del_valid [OF v assms(2)]
    by (simp add: tupid_tree_add_dups_eq)
qed

theorem tupid_tree_is_a_set_witness:
  "\<exists>t. tupid_tree_add_dups [] [5, 2, 5] = Some t \<and> set t = {2, 5} \<and> tupid_tree_add t 2 = None"
  using tupid_tree_is_a_set [of "[5, 2, 5]" 2] by (auto simp: small_tupid_def)

text \<open>
  Also: the comparison keeps only 32 bits of the difference of two
  64-bit ids, so two different ids that differ by \<open>2 ^ 32\<close> are the same key (a strict add
  of the second one reports a duplicate), and ids \<open>2 ^ 31\<close> apart compare in the wrong order.
\<close>

theorem tupid_tree_cmp_truncates:
  "tupid_tree_add [1] (1 + 2 ^ 32) = None
   \<and> tupid_tree_search [1] (1 + 2 ^ 32) = Some 1
   \<and> tupid_tree_cmp (2 ^ 31 + 1) 1 < 0 \<and> tupid_tree_cmp 1 (2 ^ 31 + 1) < 0"
  by (simp_all add: tupid_tree_add_def tupid_tree_insert_def tupid_tree_search_def
      tupid_tree_cmp_def)

end
