(* ===== verification/Db_Types.thy ===== *)
theory Db_Types
  imports Trees
begin

text \<open>
  The data shared by the database, the entry cache and the graph:
  \<^verbatim>\<open>src/src/tup/db_types.h\<close> and the fields of \<^verbatim>\<open>struct tup_entry\<close>
  (\<^verbatim>\<open>entry.h\<close>) that describe one row of the \<^verbatim>\<open>node\<close> table.  Two
  pointers to cached entries are equal exactly when their ids are, so a \<^verbatim>\<open>struct tup_entry *\<close>
  is represented by the entry itself where only its row is read, and by its id where identity matters.
\<close>

datatype tup_node_type =
    TUP_NODE_FILE | TUP_NODE_CMD | TUP_NODE_DIR | TUP_NODE_VAR | TUP_NODE_GENERATED
  | TUP_NODE_GHOST | TUP_NODE_GROUP | TUP_NODE_GENERATED_DIR | TUP_NODE_ROOT

text \<open>The numbers the enumerators have in C and in the database column \<^verbatim>\<open>node.type\<close>.\<close>

primrec node_type_num :: "tup_node_type \<Rightarrow> nat" where
  "node_type_num TUP_NODE_FILE = 0"
| "node_type_num TUP_NODE_CMD = 1"
| "node_type_num TUP_NODE_DIR = 2"
| "node_type_num TUP_NODE_VAR = 3"
| "node_type_num TUP_NODE_GENERATED = 4"
| "node_type_num TUP_NODE_GHOST = 5"
| "node_type_num TUP_NODE_GROUP = 6"
| "node_type_num TUP_NODE_GENERATED_DIR = 7"
| "node_type_num TUP_NODE_ROOT = 8"

lemma node_type_num_inj: "node_type_num a = node_type_num b \<Longrightarrow> a = b"
  by (cases a; cases b) simp_all

text \<open>Node types are ordered as their C enumerators are.\<close>

instantiation tup_node_type :: linorder
begin

definition less_eq_tup_node_type :: "tup_node_type \<Rightarrow> tup_node_type \<Rightarrow> bool" where
  "less_eq_tup_node_type a b \<longleftrightarrow> node_type_num a \<le> node_type_num b"

definition less_tup_node_type :: "tup_node_type \<Rightarrow> tup_node_type \<Rightarrow> bool" where
  "less_tup_node_type a b \<longleftrightarrow> node_type_num a < node_type_num b"

instance
  by standard
    (auto simp: less_eq_tup_node_type_def less_tup_node_type_def dest: node_type_num_inj)

end

datatype tup_link_type = TUP_LINK_NORMAL | TUP_LINK_STICKY | TUP_LINK_GROUP

datatype tup_flag = TUP_FLAGS_MODIFY | TUP_FLAGS_CREATE

definition DOT_DT :: tupid where
  "DOT_DT = 1"

record timespec =
  tv_sec :: int
  tv_nsec :: int

definition INVALID_MTIME :: timespec where
  "INVALID_MTIME = \<lparr>tv_sec = -1, tv_nsec = 0\<rparr>"

record tup_entry =
  tnode_tupid :: tupid
  dt :: tupid
  ntype :: tup_node_type
  mtime :: timespec
  srcid :: tupid
  name_s :: string
  flags_s :: string
  display_s :: "string option"

definition has_flag :: "tup_entry \<Rightarrow> char \<Rightarrow> bool" where
  "has_flag tent c \<longleftrightarrow> c \<in> set (flags_s tent)"

definition is_transient_tent :: "tup_entry \<Rightarrow> bool" where
  "is_transient_tent tent \<longleftrightarrow> has_flag tent CHR ''t''"

definition is_compiledb_tent :: "tup_entry \<Rightarrow> bool" where
  "is_compiledb_tent tent \<longleftrightarrow> has_flag tent CHR ''j''"

definition is_virtual_tent :: "tup_entry \<Rightarrow> bool" where
  "is_virtual_tent tent \<longleftrightarrow> dt tent = DOT_DT \<and> name_s tent \<in> {''$'', ''/'', ''^''}"

end
