(* ===== verification/Db_Tables.thy ===== *)
theory Db_Tables
  imports Db_Types
begin

text \<open>
  The dependency tables of \<^verbatim>\<open>src/src/tup/db.c\<close> (created by \<^verbatim>\<open>tup_db_create\<close>) and
  the functions that read and write them, one definition per C function.  A table is the list
  of its rows; the order of the rows is the order in which a query returns them, which SQL leaves
  open, so no lemma depends on it.  Each C function prepares, binds, steps and resets one
  statement and returns \<open>-1\<close> if SQLite reports an error: \<open>sql_ok\<close> says which statements SQLite runs
  without such an error, and a violated \<^verbatim>\<open>unique\<close> constraint is a failure of the insert.
  \<open>tup_entry_find_row\<close> stands for what \<^verbatim>\<open>tup_entry_add\<close> returns: the cached or loaded row of an id.
  Dependency sets (\<^verbatim>\<open>struct tent_entries\<close>) are the trees of \<open>Trees\<close>.
\<close>

section \<open>State\<close>

datatype sqlstmt =
    DB_MAYBE_ADD_CONFIG_LIST | DB_ADD_CONFIG_LIST | DB_MAYBE_ADD_CREATE_LIST | DB_ADD_CREATE_LIST
  | DB_ADD_MODIFY_LIST | DB_ADD_VARIANT_LIST | DB_ADD_TRANSIENT_LIST
  | DB_IN_CREATE_LIST | DB_IN_MODIFY_LIST | DB_IN_TRANSIENT_LIST
  | DB_UNFLAG_CONFIG | DB_UNFLAG_CREATE | DB_UNFLAG_MODIFY | DB_UNFLAG_VARIANT | DB_UNFLAG_TRANSIENT
  | DB_GET_OUTPUT_GROUP | DB_LINK_EXISTS1 | DB_LINK_EXISTS2
  | DB_DELETE_NORMAL_LINKS | DB_DELETE_NORMAL_INPUTS | DB_DELETE_STICKY_LINKS
  | DB_FLAG_GROUP_USERS1 | DB_FLAG_GROUP_USERS2
  | DB_MODIFY_CMDS_BY_OUTPUT | DB_MODIFY_CMDS_BY_INPUT
  | DB_SET_DEPENDENT_DIR_FLAGS | DB_SET_SRCID_DIR_FLAGS | DB_SET_DEPENDENT_CONFIG_FLAGS
  | DB_GET_OUTPUTS | DB_SELECT_NODE_BY_GROUP_LINK | DB_SELECT_NODE_BY_DISTINCT_GROUP_LINK
  | DB_GET_LINKS1 | DB_GET_LINKS2 | DB_GET_STICKY_OUTPUTS
  | DB_LINK_INSERT1 | DB_LINK_INSERT2 | DB_LINK_REMOVE1 | DB_LINK_REMOVE2
  | DB_GROUP_LINK_INSERT | DB_GROUP_LINK_REMOVE | DB_DELETE_GROUP_LINKS
  | DB_SET_MTIME | DB_SET_TYPE | DB_SET_SRCID | DB_SET_NAME | DB_SET_FLAGS
  | DB_NODE_INSERT | DB_DELETE_NODE | DB_NODE_HAS_GHOSTS | DB_GET_DIR_ENTRIES | DB_SELECT_NODE_DIR
  | DB_IS_GENERATED_DIR1 | DB_IS_GENERATED_DIR2
  | DB_EXCLUSION_RECLAIMABLE | DB_GROUP_RECLAIMABLE1 | DB_GROUP_RECLAIMABLE2 | DB_GHOST_RECLAIMABLE1 | DB_GHOST_RECLAIMABLE2

type_synonym tent_entries = "tupid list"

text \<open>
  A variant (\<^verbatim>\<open>variant.h\<close>): the directory and the \<^verbatim>\<open>tup.config\<close> file that define it.  Entries of the
  cache point to the variant that they belong to (\<open>tent_variant\<close>, by the id of the \<^verbatim>\<open>tup.config\<close>).
\<close>

record variant =
  v_dtnode :: tupid
  v_tnode :: tupid
  v_enabled :: bool
  v_root :: bool

record db =
  node_tbl :: "(tupid, tup_entry) omap"
  normal_link :: "(tupid \<times> tupid) list"
  sticky_link :: "(tupid \<times> tupid) list"
  group_link :: "(tupid \<times> tupid \<times> tupid) list"
  config_list :: "tupid list"
  create_list :: "tupid list"
  modify_list :: "tupid list"
  variant_list :: "tupid list"
  transient_list :: "tupid list"
  ghost_root :: tent_entries
  tent_stickies :: "tupid \<Rightarrow> tent_entries"
  tent_group_stickies :: "tupid \<Rightarrow> tent_entries"
  retrieved_stickies :: "tupid \<Rightarrow> int"
  tent_incoming :: "tupid \<Rightarrow> tupid option"
  sticky_count :: int
  expected_changes :: int
  local_exclusion_dt :: tupid
  local_slash_dt :: tupid
  variants :: "variant list"
  disabled_variants :: "variant list"
  tent_variant :: "tupid \<Rightarrow> tupid option"
  sql_ok :: "sqlstmt \<Rightarrow> bool"

definition tup_entry_find_row :: "db \<Rightarrow> tupid \<Rightarrow> tup_entry option" where
  "tup_entry_find_row d t = (if t < 0 then None else map_of (node_tbl d) t)"

definition step :: "db \<Rightarrow> sqlstmt \<Rightarrow> unit option" where
  "step d s = (if sql_ok d s then Some () else None)"

fun insert_or_ignore :: "tupid list \<Rightarrow> tupid list \<Rightarrow> tupid list" where
  "insert_or_ignore tbl [] = tbl"
| "insert_or_ignore tbl (x # xs) = insert_or_ignore (if x \<in> set tbl then tbl else tbl @ [x]) xs"

lemma set_insert_or_ignore [simp]: "set (insert_or_ignore tbl xs) = set tbl \<union> set xs"
  by (induction tbl xs rule: insert_or_ignore.induct) auto

lemma distinct_insert_or_ignore [simp]: "distinct tbl \<Longrightarrow> distinct (insert_or_ignore tbl xs)"
  by (induction tbl xs rule: insert_or_ignore.induct) auto

text \<open>Loading a list of ids into cached entries: fails if one of them has no row.\<close>

fun find_rows :: "db \<Rightarrow> tupid list \<Rightarrow> tup_entry list option" where
  "find_rows d [] = Some []"
| "find_rows d (t # ts) =
     do { e \<leftarrow> tup_entry_find_row d t; es \<leftarrow> find_rows d ts; Some (e # es) }"

section \<open>The flag lists\<close>

definition tup_db_maybe_add_config_list :: "db \<Rightarrow> tupid \<Rightarrow> db option" where
  "tup_db_maybe_add_config_list d t = do {
     step d DB_MAYBE_ADD_CONFIG_LIST;
     Some (d\<lparr>config_list := insert_or_ignore (config_list d) (filter (\<lambda>i. i = t) (variant_list d))\<rparr>)}"

definition tup_db_add_config_list :: "db \<Rightarrow> tupid \<Rightarrow> db option" where
  "tup_db_add_config_list d t = do {
     step d DB_ADD_CONFIG_LIST;
     Some (d\<lparr>config_list := insert_or_ignore (config_list d) [t]\<rparr>)}"

definition tup_db_maybe_add_create_list :: "db \<Rightarrow> tupid \<Rightarrow> db option" where
  "tup_db_maybe_add_create_list d t = do {
     step d DB_MAYBE_ADD_CREATE_LIST;
     Some (d\<lparr>create_list := insert_or_ignore (create_list d)
        (map fst (filter (\<lambda>(i, e). i = t \<and> ntype e = TUP_NODE_DIR) (node_tbl d)))\<rparr>)}"

definition tup_db_add_create_list :: "db \<Rightarrow> tupid \<Rightarrow> db option" where
  "tup_db_add_create_list d t = do {
     step d DB_ADD_CREATE_LIST;
     Some (d\<lparr>create_list := insert_or_ignore (create_list d) [t]\<rparr>)}"

definition tup_db_add_modify_list :: "db \<Rightarrow> tupid \<Rightarrow> db option" where
  "tup_db_add_modify_list d t = do {
     step d DB_ADD_MODIFY_LIST;
     Some (d\<lparr>modify_list := insert_or_ignore (modify_list d) [t]\<rparr>)}"

definition tup_db_add_variant_list :: "db \<Rightarrow> tupid \<Rightarrow> db option" where
  "tup_db_add_variant_list d t = do {
     step d DB_ADD_VARIANT_LIST;
     Some (d\<lparr>variant_list := insert_or_ignore (variant_list d) [t]\<rparr>)}"

definition tup_db_add_transient_list :: "db \<Rightarrow> tupid \<Rightarrow> db option" where
  "tup_db_add_transient_list d t = do {
     step d DB_ADD_TRANSIENT_LIST;
     Some (d\<lparr>transient_list := insert_or_ignore (transient_list d) [t]\<rparr>)}"

definition tup_db_in_create_list :: "db \<Rightarrow> tupid \<Rightarrow> bool option" where
  "tup_db_in_create_list d t = do { step d DB_IN_CREATE_LIST; Some (t \<in> set (create_list d)) }"

definition tup_db_in_modify_list :: "db \<Rightarrow> tupid \<Rightarrow> bool option" where
  "tup_db_in_modify_list d t = do { step d DB_IN_MODIFY_LIST; Some (t \<in> set (modify_list d)) }"

definition tup_db_in_transient_list :: "db \<Rightarrow> tupid \<Rightarrow> bool option" where
  "tup_db_in_transient_list d t = do { step d DB_IN_TRANSIENT_LIST; Some (t \<in> set (transient_list d)) }"

text \<open>The result is the set of flags or-ed together by the C code.\<close>

definition tup_db_get_node_flags :: "db \<Rightarrow> tupid \<Rightarrow> tup_flag set option" where
  "tup_db_get_node_flags d t = do {
     c \<leftarrow> tup_db_in_create_list d t;
     m \<leftarrow> tup_db_in_modify_list d t;
     Some ((if c then {TUP_FLAGS_CREATE} else {}) \<union> (if m then {TUP_FLAGS_MODIFY} else {}))}"

definition tup_db_unflag_config :: "db \<Rightarrow> tupid \<Rightarrow> db option" where
  "tup_db_unflag_config d t = do {
     step d DB_UNFLAG_CONFIG; Some (d\<lparr>config_list := removeAll t (config_list d)\<rparr>)}"

definition tup_db_unflag_create :: "db \<Rightarrow> tupid \<Rightarrow> db option" where
  "tup_db_unflag_create d t = do {
     step d DB_UNFLAG_CREATE;
     Some (d\<lparr>create_list := removeAll t (create_list d),
             expected_changes := expected_changes d + int (count_list (create_list d) t)\<rparr>)}"

definition tup_db_unflag_modify :: "db \<Rightarrow> tupid \<Rightarrow> db option" where
  "tup_db_unflag_modify d t = do {
     step d DB_UNFLAG_MODIFY; Some (d\<lparr>modify_list := removeAll t (modify_list d)\<rparr>)}"

definition tup_db_unflag_variant :: "db \<Rightarrow> tupid \<Rightarrow> db option" where
  "tup_db_unflag_variant d t = do {
     step d DB_UNFLAG_VARIANT; Some (d\<lparr>variant_list := removeAll t (variant_list d)\<rparr>)}"

definition tup_db_unflag_transient :: "db \<Rightarrow> tupid \<Rightarrow> db option" where
  "tup_db_unflag_transient d t = do {
     step d DB_UNFLAG_TRANSIENT; Some (d\<lparr>transient_list := removeAll t (transient_list d)\<rparr>)}"

definition tup_db_set_mtime :: "db \<Rightarrow> tupid \<Rightarrow> timespec \<Rightarrow> db option" where
  "tup_db_set_mtime d t ms = do {
     step d DB_SET_MTIME;
     Some (case map_of (node_tbl d) t of
       None \<Rightarrow> d | Some tent \<Rightarrow> d\<lparr>node_tbl := om_put t (tent\<lparr>mtime := ms\<rparr>) (node_tbl d)\<rparr>)}"

section \<open>Reading links\<close>

definition get_outputs :: "db \<Rightarrow> tupid \<Rightarrow> tup_entry list option" where
  "get_outputs d t = do {
     step d DB_GET_OUTPUTS;
     find_rows d (map snd (filter (\<lambda>(f, _). f = t) (normal_link d)))}"

fun for_each :: "('a \<Rightarrow> 's \<Rightarrow> 's option) \<Rightarrow> 'a list \<Rightarrow> 's \<Rightarrow> 's option" where
  "for_each cb [] s = Some s"
| "for_each cb (e # es) s = do { s' \<leftarrow> cb e s; for_each cb es s' }"

text \<open>
  The \<^verbatim>\<open>select_node\<close> functions load the entries of the rows and hand each one to a callback;
  a callback that fails stops the loop.  \<open>s\<close> is the state the callback works on.
\<close>

definition tup_db_select_node_by_link ::
    "db \<Rightarrow> (tup_entry \<Rightarrow> 's \<Rightarrow> 's option) \<Rightarrow> tupid \<Rightarrow> 's \<Rightarrow> 's option" where
  "tup_db_select_node_by_link d cb t s = do { es \<leftarrow> get_outputs d t; for_each cb es s }"

definition tent_tree_add_dup :: "tent_entries \<Rightarrow> tupid \<Rightarrow> tent_entries" where
  "tent_tree_add_dup root t = (case tupid_tree_insert root t of None \<Rightarrow> root | Some r \<Rightarrow> r)"

definition get_sticky_outputs :: "db \<Rightarrow> tupid \<Rightarrow> tent_entries \<Rightarrow> tent_entries option" where
  "get_sticky_outputs d t root = do {
     step d DB_GET_STICKY_OUTPUTS;
     es \<leftarrow> find_rows d (map snd (filter (\<lambda>(f, _). f = t) (sticky_link d)));
     Some (foldl (\<lambda>r e. tent_tree_add_dup r (tnode_tupid e)) root es)}"

definition tup_db_select_node_by_sticky_link ::
    "db \<Rightarrow> (tup_entry \<Rightarrow> 's \<Rightarrow> 's option) \<Rightarrow> tupid \<Rightarrow> 's \<Rightarrow> 's option" where
  "tup_db_select_node_by_sticky_link d cb t s = do {
     root \<leftarrow> get_sticky_outputs d t [];
     es \<leftarrow> find_rows d root;
     for_each cb es s}"

text \<open>The pairs are pushed on a list head as they are read and popped from it: the order is reversed.\<close>

fun for_each_pair ::
    "db \<Rightarrow> (tup_entry \<Rightarrow> tup_entry \<Rightarrow> 's \<Rightarrow> 's option) \<Rightarrow> (tupid \<times> tupid) list \<Rightarrow> 's \<Rightarrow> 's option" where
  "for_each_pair d cb [] s = Some s"
| "for_each_pair d cb ((to_id, cmdid) # ps) s = do {
     tent \<leftarrow> tup_entry_find_row d to_id;
     cmdtent \<leftarrow> tup_entry_find_row d cmdid;
     s' \<leftarrow> cb tent cmdtent s;
     for_each_pair d cb ps s'}"

definition tup_db_select_node_by_group_link ::
    "db \<Rightarrow> (tup_entry \<Rightarrow> tup_entry \<Rightarrow> 's \<Rightarrow> 's option) \<Rightarrow> tupid \<Rightarrow> 's \<Rightarrow> 's option" where
  "tup_db_select_node_by_group_link d cb t s = do {
     step d DB_SELECT_NODE_BY_GROUP_LINK;
     for_each_pair d cb (rev (map snd (filter (\<lambda>(f, _). f = t) (group_link d)))) s}"

fun for_each_id :: "db \<Rightarrow> (tup_entry \<Rightarrow> 's \<Rightarrow> 's option) \<Rightarrow> tupid list \<Rightarrow> 's \<Rightarrow> 's option" where
  "for_each_id d cb [] s = Some s"
| "for_each_id d cb (i # is) s = do {
     tent \<leftarrow> tup_entry_find_row d i; s' \<leftarrow> cb tent s; for_each_id d cb is s'}"

definition tup_db_select_node_by_distinct_group_link ::
    "db \<Rightarrow> (tup_entry \<Rightarrow> 's \<Rightarrow> 's option) \<Rightarrow> tupid \<Rightarrow> 's \<Rightarrow> 's option" where
  "tup_db_select_node_by_distinct_group_link d cb t s = do {
     step d DB_SELECT_NODE_BY_DISTINCT_GROUP_LINK;
     for_each_id d cb (remdups (map (\<lambda>(_, to_id, _). to_id) (filter (\<lambda>(f, _). f = t) (group_link d)))) s}"

definition tup_db_link_exists :: "db \<Rightarrow> tupid \<Rightarrow> tupid \<Rightarrow> tup_link_type \<Rightarrow> bool option" where
  "tup_db_link_exists d a b style =
     (case style of
        TUP_LINK_NORMAL \<Rightarrow> do { step d DB_LINK_EXISTS1; Some ((a, b) \<in> set (normal_link d)) }
      | TUP_LINK_STICKY \<Rightarrow> do { step d DB_LINK_EXISTS2; Some ((a, b) \<in> set (sticky_link d)) }
      | TUP_LINK_GROUP \<Rightarrow> None)"

text \<open>
  \<^verbatim>\<open>tent_tree_add\<close> is \<open>tupid_tree_insert\<close> of the entry's id: a duplicate is an error.
  A ghost check keeps only the entries that may have to be reclaimed.
\<close>

definition ghost_type :: "tup_entry \<Rightarrow> bool" where
  "ghost_type tent \<longleftrightarrow> ntype tent = TUP_NODE_GHOST \<or> ntype tent = TUP_NODE_GROUP
     \<or> ntype tent = TUP_NODE_GENERATED_DIR"

definition tup_entry_add_ghost_tree :: "tent_entries \<Rightarrow> tup_entry \<Rightarrow> tent_entries" where
  "tup_entry_add_ghost_tree root tent =
     (if ghost_type tent then tent_tree_add_dup root (tnode_tupid tent) else root)"

fun add_inputs :: "bool \<Rightarrow> tup_entry list \<Rightarrow> tent_entries \<Rightarrow> tent_entries option" where
  "add_inputs ghost_check [] root = Some root"
| "add_inputs ghost_check (e # es) root =
     (if ghost_check then add_inputs ghost_check es (tup_entry_add_ghost_tree root e)
      else do { root' \<leftarrow> tupid_tree_insert root (tnode_tupid e); add_inputs ghost_check es root' })"

text \<open>The C loop loads each entry just before it adds it; no step in between can observe the difference.\<close>

definition get_normal_inputs :: "db \<Rightarrow> tupid \<Rightarrow> tent_entries \<Rightarrow> bool \<Rightarrow> tent_entries option" where
  "get_normal_inputs d t root ghost_check = do {
     step d DB_GET_LINKS1;
     es \<leftarrow> find_rows d (map fst (filter (\<lambda>(_, to_id). to_id = t) (normal_link d)));
     add_inputs ghost_check es root}"

definition get_sticky_inputs ::
    "db \<Rightarrow> tupid \<Rightarrow> tent_entries \<Rightarrow> tent_entries \<Rightarrow> (tent_entries \<times> tent_entries) option" where
  "get_sticky_inputs d t root group_root = do {
     step d DB_GET_LINKS2;
     es \<leftarrow> find_rows d (map fst (filter (\<lambda>(_, to_id). to_id = t) (sticky_link d)));
     Some (foldl (\<lambda>r e. tent_tree_add_dup r (tnode_tupid e)) root es,
           foldl (\<lambda>r e. if ntype e = TUP_NODE_GROUP then tent_tree_add_dup r (tnode_tupid e) else r)
             group_root es)}"

text \<open>
  The sticky part of \<^verbatim>\<open>tup_db_get_inputs\<close>: the trees cached in the command's entry are reloaded
  when the global \<^verbatim>\<open>sticky_count\<close> has moved on, and copied into fresh trees of the caller.
\<close>

definition refresh_stickies :: "db \<Rightarrow> tupid \<Rightarrow> db option" where
  "refresh_stickies d cmdid = do {
     tup_entry_find_row d cmdid;
     let d1 = (if retrieved_stickies d cmdid \<noteq> sticky_count d
               then d\<lparr>tent_stickies := (tent_stickies d)(cmdid := []),
                      tent_group_stickies := (tent_group_stickies d)(cmdid := []),
                      retrieved_stickies := (retrieved_stickies d)(cmdid := 0)\<rparr>
               else d);
     if retrieved_stickies d1 cmdid = 0
     then do {
       let d2 = d1\<lparr>retrieved_stickies := (retrieved_stickies d1)(cmdid := sticky_count d)\<rparr>;
       (st, gst) \<leftarrow> get_sticky_inputs d2 cmdid (tent_stickies d2 cmdid) (tent_group_stickies d2 cmdid);
       Some (d2\<lparr>tent_stickies := (tent_stickies d2)(cmdid := st),
                tent_group_stickies := (tent_group_stickies d2)(cmdid := gst)\<rparr>)}
     else Some d1}"

text \<open>
  The callers pass NULL for the trees they do not want: the two booleans say whether a sticky
  and a normal tree were passed.  All callers pass empty trees.
\<close>

definition tup_db_get_inputs ::
    "db \<Rightarrow> tupid \<Rightarrow> bool \<Rightarrow> bool \<Rightarrow> (db \<times> tent_entries \<times> tent_entries \<times> tent_entries) option" where
  "tup_db_get_inputs d cmdid sticky_root normal_root = do {
     nr \<leftarrow> (if normal_root then get_normal_inputs d cmdid [] False else Some []);
     if sticky_root then do {
       d' \<leftarrow> refresh_stickies d cmdid;
       Some (d', tent_stickies d' cmdid, nr, tent_group_stickies d' cmdid)}
     else Some (d, [], nr, [])}"

fun sort_outputs :: "db \<Rightarrow> tup_entry list \<Rightarrow> tent_entries \<Rightarrow> tent_entries \<Rightarrow> tupid option
    \<Rightarrow> (tent_entries \<times> tent_entries \<times> tupid option) option" where
  "sort_outputs d [] output_root exclusion_root grp = Some (output_root, exclusion_root, grp)"
| "sort_outputs d (tent # ts) output_root exclusion_root grp =
     (if ntype tent = TUP_NODE_GROUP then
        (if grp = None then sort_outputs d ts output_root exclusion_root (Some (tnode_tupid tent))
         else None)
      else if dt tent = local_exclusion_dt d then
        do { r \<leftarrow> tupid_tree_insert exclusion_root (tnode_tupid tent);
             sort_outputs d ts output_root r grp }
      else
        do { r \<leftarrow> tupid_tree_insert output_root (tnode_tupid tent);
             sort_outputs d ts r exclusion_root grp })"

definition tup_db_get_outputs ::
    "db \<Rightarrow> tupid \<Rightarrow> (tent_entries \<times> tent_entries \<times> tupid option) option" where
  "tup_db_get_outputs d cmdid = do { es \<leftarrow> get_outputs d cmdid; sort_outputs d es [] [] None }"

end
