(* ===== verification/Db_Links.thy ===== *)
theory Db_Links
  imports Db_Tables
begin

text \<open>
  The functions of \<^verbatim>\<open>src/src/tup/db.c\<close> that change the link tables and the flag lists
  that follow from a change of links, and the invariant every one of them keeps.
\<close>

section \<open>Inserting and removing links\<close>

definition cache_sticky :: "db \<Rightarrow> tup_entry \<Rightarrow> tup_entry \<Rightarrow> db option" where
  "cache_sticky d tent srctent =
     (if retrieved_stickies d (tnode_tupid tent) \<noteq> 0 then do {
        st \<leftarrow> tupid_tree_insert (tent_stickies d (tnode_tupid tent)) (tnode_tupid srctent);
        let d1 = d\<lparr>tent_stickies := (tent_stickies d)(tnode_tupid tent := st)\<rparr>;
        if ntype srctent = TUP_NODE_GROUP then do {
          gst \<leftarrow> tupid_tree_insert (tent_group_stickies d1 (tnode_tupid tent)) (tnode_tupid srctent);
          Some (d1\<lparr>tent_group_stickies := (tent_group_stickies d1)(tnode_tupid tent := gst)\<rparr>)}
        else Some d1}
      else Some d)"

definition link_insert :: "db \<Rightarrow> tupid \<Rightarrow> tupid \<Rightarrow> tup_link_type \<Rightarrow> db option" where
  "link_insert d a b style =
     (if a = b then None
      else if a \<le> 0 \<or> b \<le> 0 then None
      else case style of
        TUP_LINK_NORMAL \<Rightarrow> do {
          step d DB_LINK_INSERT1;
          if (a, b) \<in> set (normal_link d) then None
          else Some (d\<lparr>normal_link := normal_link d @ [(a, b)]\<rparr>)}
      | TUP_LINK_STICKY \<Rightarrow> do {
          step d DB_LINK_INSERT2;
          if (a, b) \<in> set (sticky_link d) then None
          else do {
            let d1 = d\<lparr>sticky_link := sticky_link d @ [(a, b)]\<rparr>;
            tent \<leftarrow> tup_entry_find_row d1 b;
            srctent \<leftarrow> tup_entry_find_row d1 a;
            cache_sticky d1 tent srctent}}
      | TUP_LINK_GROUP \<Rightarrow> None)"

definition uncache_sticky :: "db \<Rightarrow> tup_entry \<Rightarrow> tup_entry \<Rightarrow> db" where
  "uncache_sticky d tent srctent =
     (if retrieved_stickies d (tnode_tupid tent) \<noteq> 0 then
        let d1 = d\<lparr>tent_stickies := (tent_stickies d)(tnode_tupid tent :=
                    tupid_tree_remove (tent_stickies d (tnode_tupid tent)) (tnode_tupid srctent))\<rparr>
        in if ntype srctent = TUP_NODE_GROUP
           then d1\<lparr>tent_group_stickies := (tent_group_stickies d1)(tnode_tupid tent :=
                    tupid_tree_remove (tent_group_stickies d1 (tnode_tupid tent)) (tnode_tupid srctent))\<rparr>
           else d1
      else d)"

definition link_remove :: "db \<Rightarrow> tupid \<Rightarrow> tupid \<Rightarrow> tup_link_type \<Rightarrow> db option" where
  "link_remove d a b style =
     (case style of
        TUP_LINK_NORMAL \<Rightarrow> do {
          step d DB_LINK_REMOVE1;
          Some (d\<lparr>normal_link := removeAll (a, b) (normal_link d)\<rparr>)}
      | TUP_LINK_STICKY \<Rightarrow> do {
          step d DB_LINK_REMOVE2;
          let d1 = d\<lparr>sticky_link := removeAll (a, b) (sticky_link d)\<rparr>;
          tent \<leftarrow> tup_entry_find_row d1 b;
          srctent \<leftarrow> tup_entry_find_row d1 a;
          Some (uncache_sticky d1 tent srctent)}
      | TUP_LINK_GROUP \<Rightarrow> None)"

definition tup_db_create_link :: "db \<Rightarrow> tupid \<Rightarrow> tupid \<Rightarrow> tup_link_type \<Rightarrow> db option" where
  "tup_db_create_link d a b style = link_insert d a b style"

definition group_link_insert :: "db \<Rightarrow> tupid \<Rightarrow> tupid \<Rightarrow> tupid \<Rightarrow> db option" where
  "group_link_insert d a b cmdid =
     (if a = b then None
      else if a \<le> 0 \<or> b \<le> 0 \<or> cmdid \<le> 0 then None
      else do {
        step d DB_GROUP_LINK_INSERT;
        if (a, b, cmdid) \<in> set (group_link d) then None
        else Some (d\<lparr>group_link := group_link d @ [(a, b, cmdid)]\<rparr>)})"

definition group_link_remove :: "db \<Rightarrow> tupid \<Rightarrow> tupid \<Rightarrow> tupid \<Rightarrow> db option" where
  "group_link_remove d a b cmdid = do {
     step d DB_GROUP_LINK_REMOVE;
     Some (d\<lparr>group_link := removeAll (a, b, cmdid) (group_link d)\<rparr>)}"

definition delete_group_links :: "db \<Rightarrow> tupid \<Rightarrow> db option" where
  "delete_group_links d cmdid = do {
     step d DB_DELETE_GROUP_LINKS;
     Some (d\<lparr>group_link := filter (\<lambda>(_, _, c). c \<noteq> cmdid) (group_link d)\<rparr>)}"

definition delete_normal_links :: "db \<Rightarrow> tupid \<Rightarrow> db option" where
  "delete_normal_links d t = do {
     step d DB_DELETE_NORMAL_LINKS;
     Some (d\<lparr>normal_link := filter (\<lambda>(f, to_id). \<not> (f = t \<or> to_id = t)) (normal_link d)\<rparr>)}"

definition delete_normal_inputs :: "db \<Rightarrow> tupid \<Rightarrow> db option" where
  "delete_normal_inputs d t = do {
     step d DB_DELETE_NORMAL_INPUTS;
     Some (d\<lparr>normal_link := filter (\<lambda>(_, to_id). to_id \<noteq> t) (normal_link d)\<rparr>)}"

definition delete_sticky_links :: "db \<Rightarrow> tupid \<Rightarrow> db option" where
  "delete_sticky_links d0 t = do {
     let d = d0\<lparr>sticky_count := sticky_count d0 + 1\<rparr>;
     step d DB_DELETE_STICKY_LINKS;
     Some (d\<lparr>sticky_link := filter (\<lambda>(f, to_id). \<not> (f = t \<or> to_id = t)) (sticky_link d)\<rparr>)}"

section \<open>Flags that follow from links\<close>

definition row_dirs :: "db \<Rightarrow> tupid list \<Rightarrow> tupid list" where
  "row_dirs d ids = map (dt \<circ> snd) (filter (\<lambda>(i, _). i \<in> set ids) (node_tbl d))"

definition flag_group_users1 :: "db \<Rightarrow> tupid \<Rightarrow> db option" where
  "flag_group_users1 d t = do {
     step d DB_FLAG_GROUP_USERS1;
     Some (d\<lparr>create_list := insert_or_ignore (create_list d)
       (row_dirs d (map snd (filter (\<lambda>(f, _). f = t) (sticky_link d))))\<rparr>)}"

definition flag_group_users2 :: "db \<Rightarrow> tupid \<Rightarrow> db option" where
  "flag_group_users2 d t = do {
     step d DB_FLAG_GROUP_USERS2;
     Some (d\<lparr>create_list := insert_or_ignore (create_list d)
       (row_dirs d (map fst (filter (\<lambda>(_, to_id). to_id = t) (normal_link d))))\<rparr>)}"

definition flag_group_users :: "db \<Rightarrow> tupid \<Rightarrow> db option" where
  "flag_group_users d t = do {
     tent \<leftarrow> tup_entry_find_row d t;
     if ntype tent = TUP_NODE_GROUP
     then do { d1 \<leftarrow> flag_group_users1 d t; flag_group_users2 d1 t }
     else Some d}"

definition add_ghost_checks :: "db \<Rightarrow> tupid \<Rightarrow> db option" where
  "add_ghost_checks d t = do {
     g \<leftarrow> get_normal_inputs d t (ghost_root d) True;
     Some (d\<lparr>ghost_root := g\<rparr>)}"

definition add_group_and_exclusion_checks :: "db \<Rightarrow> tupid \<Rightarrow> db option" where
  "add_group_and_exclusion_checks d t = do {
     es \<leftarrow> get_outputs d t;
     Some (d\<lparr>ghost_root := foldl tup_entry_add_ghost_tree (ghost_root d) es\<rparr>)}"

definition tup_db_delete_links :: "db \<Rightarrow> tupid \<Rightarrow> db option" where
  "tup_db_delete_links d t = do {
     d1 \<leftarrow> add_ghost_checks d t;
     d2 \<leftarrow> add_group_and_exclusion_checks d1 t;
     d3 \<leftarrow> flag_group_users d2 t;
     d4 \<leftarrow> delete_normal_links d3 t;
     d5 \<leftarrow> delete_sticky_links d4 t;
     delete_group_links d5 t}"

definition get_output_group :: "db \<Rightarrow> tupid \<Rightarrow> tup_entry option option" where
  "get_output_group d cmdid = do {
     step d DB_GET_OUTPUT_GROUP;
     case filter (\<lambda>t. case map_of (node_tbl d) t of
            None \<Rightarrow> False | Some e \<Rightarrow> ntype e = TUP_NODE_GROUP)
          (map snd (filter (\<lambda>(f, _). f = cmdid) (normal_link d))) of
       [] \<Rightarrow> Some None
     | [t] \<Rightarrow> map_option Some (tup_entry_find_row d t)
     | _ \<Rightarrow> None}"

text \<open>The second component is the database with the entry's cached \<^verbatim>\<open>incoming\<close> pointer set.\<close>

definition tup_db_get_incoming_link :: "db \<Rightarrow> tup_entry \<Rightarrow> (tupid option \<times> db) option" where
  "tup_db_get_incoming_link d tent =
     (case tent_incoming d (tnode_tupid tent) of
        Some i \<Rightarrow> Some (Some i, d)
      | None \<Rightarrow> do {
          root \<leftarrow> get_normal_inputs d (tnode_tupid tent) [] False;
          case root of
            [] \<Rightarrow> Some (None, d)
          | [i] \<Rightarrow> Some (Some i, d\<lparr>tent_incoming := (tent_incoming d)(tnode_tupid tent := Some i)\<rparr>)
          | _ \<Rightarrow> None})"

definition drop_old_group :: "db \<Rightarrow> tupid \<Rightarrow> tupid \<Rightarrow> db option" where
  "drop_old_group d cmd b = do {
     output_group \<leftarrow> get_output_group d cmd;
     case output_group of
       None \<Rightarrow> Some d
     | Some g \<Rightarrow> do {
         d1 \<leftarrow> link_remove d b (tnode_tupid g) TUP_LINK_NORMAL;
         Some (d1\<lparr>ghost_root := tup_entry_add_ghost_tree (ghost_root d1) g\<rparr>)}}"

definition tup_db_create_unique_link :: "db \<Rightarrow> tup_entry \<Rightarrow> tup_entry \<Rightarrow> db option" where
  "tup_db_create_unique_link d a b = do {
     (inc, d0) \<leftarrow> tup_db_get_incoming_link d b;
     case inc of
       Some i \<Rightarrow>
         if i \<noteq> tnode_tupid a then do {
           d1 \<leftarrow> drop_old_group d0 i (tnode_tupid b);
           d2 \<leftarrow> link_remove d1 i (tnode_tupid b) TUP_LINK_NORMAL;
           Some (d2\<lparr>tent_incoming := (tent_incoming d2)(tnode_tupid b := None)\<rparr>)}
         else Some d0
     | None \<Rightarrow> drop_old_group d0 (tnode_tupid b) (tnode_tupid b)}"

definition typed_targets :: "db \<Rightarrow> tupid \<Rightarrow> tup_node_type list \<Rightarrow> tupid list" where
  "typed_targets d t tys =
     filter (\<lambda>i. case map_of (node_tbl d) i of None \<Rightarrow> False | Some e \<Rightarrow> ntype e \<in> set tys)
       (map snd (filter (\<lambda>(f, _). f = t) (normal_link d)))"

definition tup_db_modify_cmds_by_output :: "db \<Rightarrow> tupid \<Rightarrow> (db \<times> nat) option" where
  "tup_db_modify_cmds_by_output d output = do {
     step d DB_MODIFY_CMDS_BY_OUTPUT;
     let l = insert_or_ignore (modify_list d)
               (map fst (filter (\<lambda>(_, to_id). to_id = output) (normal_link d)));
     Some (d\<lparr>modify_list := l\<rparr>, length l - length (modify_list d))}"

definition tup_db_modify_cmds_by_input :: "db \<Rightarrow> tupid \<Rightarrow> db option" where
  "tup_db_modify_cmds_by_input d inp = do {
     step d DB_MODIFY_CMDS_BY_INPUT;
     Some (d\<lparr>modify_list := insert_or_ignore (modify_list d)
       (typed_targets d inp [TUP_NODE_CMD, TUP_NODE_GROUP])\<rparr>)}"

definition tup_db_set_dependent_dir_flags :: "db \<Rightarrow> tupid \<Rightarrow> db option" where
  "tup_db_set_dependent_dir_flags d t = do {
     step d DB_SET_DEPENDENT_DIR_FLAGS;
     Some (d\<lparr>create_list := insert_or_ignore (create_list d) (typed_targets d t [TUP_NODE_DIR])\<rparr>)}"

definition tup_db_set_dependent_config_flags :: "db \<Rightarrow> tupid \<Rightarrow> db option" where
  "tup_db_set_dependent_config_flags d t = do {
     step d DB_SET_DEPENDENT_CONFIG_FLAGS;
     Some (d\<lparr>config_list := insert_or_ignore (config_list d) (typed_targets d t [TUP_NODE_FILE])\<rparr>)}"

definition tup_db_set_dependent_flags :: "db \<Rightarrow> tupid \<Rightarrow> db option" where
  "tup_db_set_dependent_flags d t = do {
     d1 \<leftarrow> tup_db_set_dependent_dir_flags d t;
     tup_db_set_dependent_config_flags d1 t}"

fun flag_dirs :: "tupid list \<Rightarrow> db \<Rightarrow> db option" where
  "flag_dirs [] d = Some d"
| "flag_dirs (t # ts) d = do {
     tent \<leftarrow> tup_entry_find_row d t;
     d1 \<leftarrow> (if ntype tent = TUP_NODE_DIR then tup_db_add_create_list d (tnode_tupid tent) else Some d);
     flag_dirs ts d1}"

definition tup_db_set_srcid_dir_flags :: "db \<Rightarrow> tupid \<Rightarrow> db option" where
  "tup_db_set_srcid_dir_flags d t = do {
     step d DB_SET_SRCID_DIR_FLAGS;
     flag_dirs (filter (\<lambda>s. s \<noteq> t)
       (map (srcid \<circ> snd)
         (filter (\<lambda>(_, e). dt e = t \<and> ntype e = TUP_NODE_GENERATED) (node_tbl d)))) d}"

section \<open>The invariant\<close>

text \<open>
  Every id is small enough for the trees, every row of the node table describes itself, the
  \<^verbatim>\<open>unique\<close> constraints hold, links have existing end points, and the sticky trees cached in an entry
  agree with the sticky table while their stamp is current.
\<close>

definition links_ok :: "db \<Rightarrow> (tupid \<times> tupid) list \<Rightarrow> bool" where
  "links_ok d l \<longleftrightarrow> distinct l \<and>
     (\<forall>(a, b) \<in> set l. a \<noteq> b \<and> a > 0 \<and> b > 0 \<and> map_of (node_tbl d) a \<noteq> None \<and> map_of (node_tbl d) b \<noteq> None)"

definition sources :: "(tupid \<times> tupid) list \<Rightarrow> tupid \<Rightarrow> tupid set" where
  "sources l t = {a. (a, t) \<in> set l}"

definition is_group :: "db \<Rightarrow> tupid \<Rightarrow> bool" where
  "is_group d t \<longleftrightarrow> (\<exists>e. map_of (node_tbl d) t = Some e \<and> ntype e = TUP_NODE_GROUP)"

definition cache_ok :: "db \<Rightarrow> tupid \<Rightarrow> bool" where
  "cache_ok d t \<longleftrightarrow> retrieved_stickies d t = sticky_count d \<longrightarrow>
     tupid_set.valid (tent_stickies d t) \<and> set (tent_stickies d t) = sources (sticky_link d) t
     \<and> tupid_set.valid (tent_group_stickies d t)
     \<and> set (tent_group_stickies d t) = {a \<in> sources (sticky_link d) t. is_group d a}"

definition nodes_ok :: "db \<Rightarrow> bool" where
  "nodes_ok d \<longleftrightarrow> om_ok (node_tbl d)
     \<and> (\<forall>(t, e) \<in> set (node_tbl d). tnode_tupid e = t \<and> small_tupid t \<and> 0 < t)"

definition db_ok :: "db \<Rightarrow> bool" where
  "db_ok d \<longleftrightarrow> nodes_ok d \<and> links_ok d (normal_link d) \<and> links_ok d (sticky_link d)
     \<and> distinct (group_link d) \<and> 0 < sticky_count d
     \<and> (\<forall>t. retrieved_stickies d t \<le> sticky_count d) \<and> (\<forall>t. 0 \<le> retrieved_stickies d t)
     \<and> (\<forall>t. cache_ok d t)"

end
