(* ===== verification/Graph.thy ===== *)
theory Graph
  imports Db_Links
begin

text \<open>
  The partial DAG of \<^verbatim>\<open>src/src/tup/graph.c\<close>: its nodes and edges, the construction of the
  graph from the link tables (\<^verbatim>\<open>build_graph\<close>), transient nodes, pruning, trimming and the check
  for circular groups.  A \<^verbatim>\<open>struct node *\<close> is the id of its entry, looked up in
  \<open>node_root\<close>; the three queues of a graph are lists of ids, and a node remembers in
  \<open>active_list\<close> the queue it is on.  A \<^verbatim>\<open>struct edge *\<close> is the edge with its allocation number
  \<open>e_id\<close>, so parallel edges stay distinct.  Functions that can return \<open>-1\<close> return an option.
\<close>

section \<open>Nodes, edges and queues\<close>

datatype node_state = STATE_INITIALIZED | STATE_PROCESSING | STATE_FINISHED | STATE_REMOVING

datatype transient_type = TRANSIENT_NONE | TRANSIENT_PROCESSING | TRANSIENT_DELETE

datatype graph_prune_type = GRAPH_PRUNE_GENERATED | GRAPH_PRUNE_ALL

datatype list_id = NODE_LIST | PLIST | REMOVING_LIST

record edge =
  e_id :: nat
  e_src :: tupid
  e_dest :: tupid
  e_style :: tup_link_type

record node =
  n_tent :: tup_entry
  n_edges :: "edge list"
  n_incoming :: "edge list"
  active_list :: "list_id option"
  n_state :: node_state
  already_used :: bool
  expanded :: bool
  parsing :: bool
  marked :: bool
  skip :: bool
  counted :: bool
  transient :: transient_type

record graph =
  node_list :: "tupid list"
  plist :: "tupid list"
  removing_list :: "tupid list"
  transient_root :: tent_entries
  g_root :: tupid
  g_cur :: tupid
  num_nodes :: int
  node_root :: "(tupid, node) omap"
  count_flags :: tup_node_type
  total_mtime :: int
  gen_delete_root :: tent_entries
  save_root :: tent_entries
  cmd_delete_root :: tent_entries
  normal_dir_root :: tent_entries
  parse_gitignore_root :: tent_entries
  g_style :: tup_link_type
  next_edge :: nat

primrec queue :: "list_id \<Rightarrow> graph \<Rightarrow> tupid list" where
  "queue NODE_LIST g = node_list g"
| "queue PLIST g = plist g"
| "queue REMOVING_LIST g = removing_list g"

primrec set_queue :: "list_id \<Rightarrow> tupid list \<Rightarrow> graph \<Rightarrow> graph" where
  "set_queue NODE_LIST l g = g\<lparr>node_list := l\<rparr>"
| "set_queue PLIST l g = g\<lparr>plist := l\<rparr>"
| "set_queue REMOVING_LIST l g = g\<lparr>removing_list := l\<rparr>"

definition find_node :: "graph \<Rightarrow> tupid \<Rightarrow> node option" where
  "find_node g t = map_of (node_root g) t"

text \<open>Writing fields of a node through its pointer.\<close>

definition upd_node :: "tupid \<Rightarrow> (node \<Rightarrow> node) \<Rightarrow> graph \<Rightarrow> graph" where
  "upd_node t f g = (case find_node g t of
     None \<Rightarrow> g | Some n \<Rightarrow> g\<lparr>node_root := om_put t (f n) (node_root g)\<rparr>)"

definition node_insert_tail :: "list_id \<Rightarrow> tupid \<Rightarrow> graph \<Rightarrow> graph option" where
  "node_insert_tail head t g = do {
     n \<leftarrow> find_node g t;
     if active_list n \<noteq> None then None
     else Some (upd_node t (\<lambda>n. n\<lparr>active_list := Some head\<rparr>) (set_queue head (queue head g @ [t]) g))}"

definition node_insert_head :: "list_id \<Rightarrow> tupid \<Rightarrow> graph \<Rightarrow> graph option" where
  "node_insert_head head t g = do {
     n \<leftarrow> find_node g t;
     if active_list n \<noteq> None then None
     else Some (upd_node t (\<lambda>n. n\<lparr>active_list := Some head\<rparr>) (set_queue head (t # queue head g) g))}"

definition node_remove_list :: "list_id \<Rightarrow> tupid \<Rightarrow> graph \<Rightarrow> graph option" where
  "node_remove_list head t g = do {
     n \<leftarrow> find_node g t;
     if active_list n = None then None
     else if active_list n \<noteq> Some head then None
     else Some (upd_node t (\<lambda>n. n\<lparr>active_list := None\<rparr>) (set_queue head (remove1 t (queue head g)) g))}"

text \<open>
  \<^verbatim>\<open>create_node\<close> appends the node to \<open>node_list\<close> and enters it into the tree of nodes;
  an id that is already in the tree is a failure.
\<close>

definition new_node :: "tup_entry \<Rightarrow> node" where
  "new_node tent = \<lparr>n_tent = tent, n_edges = [], n_incoming = [], active_list = Some NODE_LIST,
     n_state = STATE_INITIALIZED, already_used = False, expanded = False, parsing = False,
     marked = False, skip = True, counted = False,
     transient = (if ntype tent = TUP_NODE_GENERATED \<and> is_transient_tent tent
                  then TRANSIENT_PROCESSING else TRANSIENT_NONE)\<rparr>"

definition create_node :: "graph \<Rightarrow> tup_entry \<Rightarrow> graph option" where
  "create_node g tent =
     (if find_node g (tnode_tupid tent) \<noteq> None then None
      else Some (g\<lparr>node_list := node_list g @ [tnode_tupid tent],
                   node_root := om_put (tnode_tupid tent) (new_node tent) (node_root g)\<rparr>))"

definition remove_node :: "graph \<Rightarrow> tupid \<Rightarrow> graph" where
  "remove_node g t = g\<lparr>node_root := om_del t (node_root g)\<rparr>"

definition create_edge :: "tupid \<Rightarrow> tupid \<Rightarrow> tup_link_type \<Rightarrow> graph \<Rightarrow> graph" where
  "create_edge n1 n2 style g =
     (let e = \<lparr>e_id = next_edge g, e_src = n1, e_dest = n2, e_style = style\<rparr>
      in upd_node n2 (\<lambda>n. n\<lparr>n_incoming := e # n_incoming n\<rparr>)
          (upd_node n1 (\<lambda>n. n\<lparr>n_edges := e # n_edges n\<rparr>) (g\<lparr>next_edge := next_edge g + 1\<rparr>)))"

text \<open>\<^verbatim>\<open>create_edge_sorted\<close> keeps both lists in decreasing order of the id at the other end.\<close>

fun insert_edge_by :: "(edge \<Rightarrow> tupid) \<Rightarrow> edge \<Rightarrow> edge list \<Rightarrow> edge list" where
  "insert_edge_by key e [] = [e]"
| "insert_edge_by key e (e2 # es) =
     (if key e > key e2 then e # e2 # es else e2 # insert_edge_by key e es)"

definition create_edge_sorted :: "tupid \<Rightarrow> tupid \<Rightarrow> tup_link_type \<Rightarrow> graph \<Rightarrow> graph" where
  "create_edge_sorted n1 n2 style g =
     (let e = \<lparr>e_id = next_edge g, e_src = n1, e_dest = n2, e_style = style\<rparr>
      in upd_node n2 (\<lambda>n. n\<lparr>n_incoming := insert_edge_by e_src e (n_incoming n)\<rparr>)
          (upd_node n1 (\<lambda>n. n\<lparr>n_edges := insert_edge_by e_dest e (n_edges n)\<rparr>)
            (g\<lparr>next_edge := next_edge g + 1\<rparr>)))"

definition remove_edge :: "edge \<Rightarrow> graph \<Rightarrow> graph" where
  "remove_edge e g =
     upd_node (e_dest e) (\<lambda>n. n\<lparr>n_incoming := filter (\<lambda>e'. e_id e' \<noteq> e_id e) (n_incoming n)\<rparr>)
       (upd_node (e_src e) (\<lambda>n. n\<lparr>n_edges := filter (\<lambda>e'. e_id e' \<noteq> e_id e) (n_edges n)\<rparr>) g)"

definition edges_of :: "graph \<Rightarrow> tupid \<Rightarrow> edge list" where
  "edges_of g t = (case find_node g t of None \<Rightarrow> [] | Some n \<Rightarrow> n_edges n)"

definition incoming_of :: "graph \<Rightarrow> tupid \<Rightarrow> edge list" where
  "incoming_of g t = (case find_node g t of None \<Rightarrow> [] | Some n \<Rightarrow> n_incoming n)"

text \<open>The two \<^verbatim>\<open>while\<close> loops of \<^verbatim>\<open>remove_node_internal\<close> take the first edge until none is left.\<close>

definition remove_node_internal :: "graph \<Rightarrow> tupid \<Rightarrow> graph" where
  "remove_node_internal g t =
     (let g1 = (case find_node g t of
                  None \<Rightarrow> g
                | Some n \<Rightarrow> (case active_list n of
                     None \<Rightarrow> g
                   | Some l \<Rightarrow> (case node_remove_list l t g of None \<Rightarrow> g | Some g' \<Rightarrow> g')));
          g2 = fold remove_edge (edges_of g1 t) g1;
          g3 = fold remove_edge (incoming_of g2 t) g2
      in remove_node g3 t)"

definition root_entry :: tup_entry where
  "root_entry = \<lparr>tnode_tupid = 0, dt = 0, ntype = TUP_NODE_ROOT, mtime = INVALID_MTIME, srcid = 0,
     name_s = ''root'', flags_s = '''', display_s = None\<rparr>"

definition create_graph :: "tup_node_type \<Rightarrow> graph" where
  "create_graph flags =
     \<lparr>node_list = [0], plist = [], removing_list = [], transient_root = [], g_root = 0, g_cur = 0,
      num_nodes = 0, node_root = [(0, new_node root_entry)], count_flags = flags, total_mtime = 0,
      gen_delete_root = [], save_root = [], cmd_delete_root = [], normal_dir_root = [],
      parse_gitignore_root = [],
      g_style = (if flags = TUP_NODE_GROUP then TUP_LINK_GROUP else TUP_LINK_NORMAL),
      next_edge = 0\<rparr>"

definition destroy_graph :: "graph \<Rightarrow> graph" where
  "destroy_graph g =
     (let g1 = fold (\<lambda>t g. remove_node_internal g t) (plist g) g;
          g2 = fold (\<lambda>t g. remove_node_internal g t) (node_list g1) g1
      in g2\<lparr>normal_dir_root := [], parse_gitignore_root := []\<rparr>)"

section \<open>Building the graph\<close>

text \<open>The result code of \<^verbatim>\<open>expand_node\<close> is the boolean; \<^verbatim>\<open>make_edge\<close> ignores it.\<close>

definition expand_node :: "graph \<Rightarrow> tupid \<Rightarrow> graph \<times> bool" where
  "expand_node g t =
     (let g1 = upd_node t (\<lambda>n. n\<lparr>expanded := True\<rparr>) g
      in case node_remove_list NODE_LIST t g1 of
           None \<Rightarrow> (g1, False)
         | Some g2 \<Rightarrow> (case node_insert_head PLIST t g2 of None \<Rightarrow> (g2, False) | Some g3 \<Rightarrow> (g3, True)))"

definition count_node :: "graph \<Rightarrow> tupid \<Rightarrow> node \<Rightarrow> graph" where
  "count_node g t n =
     (if ntype (n_tent n) = count_flags g \<or> count_flags g = TUP_NODE_ROOT
      then (upd_node t (\<lambda>n. n\<lparr>counted := True\<rparr>) g)
             \<lparr>num_nodes := num_nodes g + 1,
              total_mtime := (if total_mtime g \<noteq> -1
                then (if tv_sec (mtime (n_tent n)) = -1 then -1
                      else total_mtime g + tv_sec (mtime (n_tent n)))
                else -1)\<rparr>
      else g)"

definition make_edge :: "graph \<Rightarrow> tupid \<Rightarrow> graph option" where
  "make_edge g t = do {
     n \<leftarrow> find_node g t;
     if n_state n = STATE_PROCESSING then None
     else
       let g1 = (if \<not> expanded n then fst (expand_node (count_node g t n) t) else g);
           g2 = (if g_cur g1 = g_root g1 then upd_node t (\<lambda>n. n\<lparr>skip := False\<rparr>) g1 else g1)
       in Some (create_edge (g_cur g2) t TUP_LINK_NORMAL g2)}"

definition attach_transient_cb :: "tup_entry \<Rightarrow> graph \<Rightarrow> graph option" where
  "attach_transient_cb tent g =
     (case find_node g (tnode_tupid tent) of
        Some n \<Rightarrow> make_edge g (tnode_tupid tent)
      | None \<Rightarrow> Some g)"

definition build_graph_cb :: "tup_entry \<Rightarrow> graph \<Rightarrow> graph option" where
  "build_graph_cb tent g = do {
     g1 \<leftarrow> (case find_node g (tnode_tupid tent) of None \<Rightarrow> create_node g tent | Some n \<Rightarrow> Some g);
     make_edge g1 (tnode_tupid tent)}"

definition build_graph_transient_cb :: "tup_entry \<Rightarrow> graph \<Rightarrow> graph option" where
  "build_graph_transient_cb tent g =
     (if ntype tent = TUP_NODE_CMD then build_graph_cb tent g
      else (case find_node g (tnode_tupid tent) of
              None \<Rightarrow> do {
                let t = tnode_tupid tent;
                g1 \<leftarrow> create_node g tent;
                g2 \<leftarrow> make_edge g1 t;
                g3 \<leftarrow> node_remove_list PLIST t g2;
                g4 \<leftarrow> node_insert_tail NODE_LIST t g3;
                Some (upd_node t (\<lambda>n. n\<lparr>n_state := STATE_FINISHED\<rparr>) g4)}
            | Some n \<Rightarrow> Some g))"

definition build_graph_non_transient_cb :: "tup_entry \<Rightarrow> graph \<Rightarrow> graph option" where
  "build_graph_non_transient_cb tent g =
     (if ntype tent = TUP_NODE_CMD \<and> is_transient_tent tent
      then do { r \<leftarrow> tupid_tree_insert (transient_root g) (tnode_tupid tent);
                Some (g\<lparr>transient_root := r\<rparr>) }
      else build_graph_cb tent g)"

definition find_or_create_node :: "graph \<Rightarrow> tup_entry \<Rightarrow> graph option" where
  "find_or_create_node g tent =
     (case find_node g (tnode_tupid tent) of Some n \<Rightarrow> Some g | None \<Rightarrow> create_node g tent)"

text \<open>\<open>if(n->expanded == 0) if(expand_node(g, n) < 0) return -1;\<close>\<close>

definition expand_new :: "graph \<Rightarrow> tupid \<Rightarrow> graph option" where
  "expand_new g t = do {
     n \<leftarrow> find_node g t;
     if \<not> expanded n then (case expand_node g t of (g', ok) \<Rightarrow> if ok then Some g' else None)
     else Some g}"

definition build_graph_group_cb :: "tup_entry \<Rightarrow> graph \<Rightarrow> graph option" where
  "build_graph_group_cb tent g = do {
     g1 \<leftarrow> find_or_create_node g tent;
     g2 \<leftarrow> expand_new g1 (tnode_tupid tent);
     Some (create_edge (g_cur g2) (tnode_tupid tent) TUP_LINK_NORMAL g2)}"

definition build_group_cb :: "tup_entry \<Rightarrow> tup_entry \<Rightarrow> graph \<Rightarrow> graph option" where
  "build_group_cb tent cmdtent g = do {
     g1 \<leftarrow> find_or_create_node g tent;
     g2 \<leftarrow> find_or_create_node g1 cmdtent;
     g3 \<leftarrow> expand_new g2 (tnode_tupid tent);
     g4 \<leftarrow> expand_new g3 (tnode_tupid cmdtent);
     let g5 = create_edge (g_cur g4) (tnode_tupid cmdtent) TUP_LINK_NORMAL g4;
     Some (create_edge (tnode_tupid cmdtent) (tnode_tupid tent) TUP_LINK_NORMAL g5)}"

text \<open>One iteration of the first loop of \<^verbatim>\<open>build_graph\<close>, on the node at the head of \<open>plist\<close>.\<close>

definition find_deps :: "db \<Rightarrow> graph \<Rightarrow> tupid \<Rightarrow> graph option" where
  "find_deps d g t =
     (if g_style g = TUP_LINK_GROUP
      then tup_db_select_node_by_group_link d build_group_cb t g
      else do {
        g1 \<leftarrow> tup_db_select_node_by_link d build_graph_cb t g;
        n \<leftarrow> find_node g1 (g_cur g1);
        if ntype (n_tent n) = TUP_NODE_GROUP
        then tup_db_select_node_by_distinct_group_link d build_graph_group_cb t g1
        else Some g1})"

definition set_state :: "tupid \<Rightarrow> node_state \<Rightarrow> graph \<Rightarrow> graph" where
  "set_state t s g = upd_node t (\<lambda>n. n\<lparr>n_state := s\<rparr>) g"

definition finish_node :: "graph \<Rightarrow> tupid \<Rightarrow> graph option" where
  "finish_node g t = do {
     g1 \<leftarrow> node_remove_list PLIST t g;
     g2 \<leftarrow> node_insert_tail NODE_LIST t g1;
     Some (set_state t STATE_FINISHED g2)}"

definition build_iter :: "db \<Rightarrow> graph \<Rightarrow> tupid \<Rightarrow> graph option" where
  "build_iter d g t = do {
     n \<leftarrow> find_node g t;
     case n_state n of
       STATE_INITIALIZED \<Rightarrow> do {
         g1 \<leftarrow> find_deps d (g\<lparr>g_cur := t\<rparr>) t;
         Some (set_state t STATE_PROCESSING g1)}
     | STATE_PROCESSING \<Rightarrow> finish_node g t
     | STATE_FINISHED \<Rightarrow> None
     | STATE_REMOVING \<Rightarrow> Some g}"

text \<open>
  The loop returns \<open>None\<close> when it never ends, \<open>Some None\<close> when it returns \<open>-1\<close> and
  \<open>Some (Some g)\<close> when it reaches an empty \<open>plist\<close>.
\<close>

partial_function (option) build_loop :: "db \<Rightarrow> graph \<Rightarrow> graph option option" where
  "build_loop d g = (case plist g of
     [] \<Rightarrow> Some (Some g)
   | t # _ \<Rightarrow> (case build_iter d g t of None \<Rightarrow> Some None | Some g' \<Rightarrow> build_loop d g'))"

section \<open>Transient nodes\<close>

text \<open>
  The outputs of a transient command are tried in turn until one attaches to the graph;
  \<open>!tup_db_in_transient_list(..)\<close> is true only for the result 0.
\<close>

definition not_in_transient_list :: "db \<Rightarrow> tupid \<Rightarrow> bool" where
  "not_in_transient_list d t = (tup_db_in_transient_list d t = Some False)"

fun attach_outputs :: "db \<Rightarrow> edge list \<Rightarrow> graph \<Rightarrow> (graph \<times> bool) option" where
  "attach_outputs d [] g = Some (g, False)"
| "attach_outputs d (e # es) g = do {
     g1 \<leftarrow> tup_db_select_node_by_sticky_link d attach_transient_cb (e_dest e) (g\<lparr>g_cur := e_dest e\<rparr>);
     if not_in_transient_list d (g_cur g1) \<and> edges_of g1 (g_cur g1) \<noteq> []
     then Some (g1, True)
     else attach_outputs d es g1}"

fun finish_outputs :: "edge list \<Rightarrow> graph \<Rightarrow> graph option" where
  "finish_outputs [] g = Some g"
| "finish_outputs (e # es) g = do { g1 \<leftarrow> finish_node g (e_dest e); finish_outputs es g1 }"

definition keep_transient :: "tupid \<Rightarrow> graph \<Rightarrow> graph option" where
  "keep_transient t g = do {
     g1 \<leftarrow> finish_outputs (edges_of g t) g;
     g2 \<leftarrow> make_edge (g1\<lparr>g_cur := g_root g1\<rparr>) t;
     g3 \<leftarrow> node_remove_list PLIST t g2;
     g4 \<leftarrow> node_insert_tail NODE_LIST t g3;
     Some (g4\<lparr>transient_root := remove1 t (transient_root g4)\<rparr>)}"

definition drop_transient :: "db \<Rightarrow> tupid \<Rightarrow> graph \<Rightarrow> graph" where
  "drop_transient d t g =
     remove_node_internal
       (fold (\<lambda>e g. if not_in_transient_list d (e_dest e) then remove_node_internal g (e_dest e) else g)
         (edges_of g t) g) t"

definition attach_transient_node :: "db \<Rightarrow> tupid \<Rightarrow> graph \<Rightarrow> (graph \<times> bool) option" where
  "attach_transient_node d t g =
     (if find_node g t \<noteq> None then Some (g, False)
      else do {
        tent \<leftarrow> tup_entry_find_row d t;
        g1 \<leftarrow> create_node g tent;
        g2 \<leftarrow> tup_db_select_node_by_link d build_graph_cb t (g1\<lparr>g_cur := t\<rparr>);
        (g3, keep_cmd) \<leftarrow> attach_outputs d (edges_of g2 t) g2;
        if keep_cmd then do { g4 \<leftarrow> keep_transient t g3; Some (g4, True) }
        else Some (drop_transient d t g3, False)})"

text \<open>One pass over \<open>transient_root\<close>; the boolean is the result code 1.\<close>

fun attach_transient_pass :: "db \<Rightarrow> tupid list \<Rightarrow> graph \<Rightarrow> bool \<Rightarrow> (graph \<times> bool) option" where
  "attach_transient_pass d [] g rc = Some (g, rc)"
| "attach_transient_pass d (t # ts) g rc = do {
     (g1, kept) \<leftarrow> attach_transient_node d t g;
     attach_transient_pass d ts g1 (rc \<or> kept)}"

definition attach_transient_nodes :: "db \<Rightarrow> graph \<Rightarrow> (graph \<times> bool) option" where
  "attach_transient_nodes d g = attach_transient_pass d (transient_root g) g False"

partial_function (option) attach_loop :: "db \<Rightarrow> graph \<Rightarrow> graph option option" where
  "attach_loop d g = (case attach_transient_nodes d g of
     None \<Rightarrow> Some None
   | Some (g', rc) \<Rightarrow> if rc then attach_loop d g' else Some (Some g'))"

fun add_sticky_edges :: "tupid list \<Rightarrow> tupid \<Rightarrow> graph \<Rightarrow> graph" where
  "add_sticky_edges [] t g = g"
| "add_sticky_edges (s # ss) t g =
     add_sticky_edges ss t (if find_node g s \<noteq> None then create_edge s t TUP_LINK_STICKY g else g)"

fun stickies_of_nodes :: "tupid list \<Rightarrow> db \<Rightarrow> graph \<Rightarrow> (db \<times> graph) option" where
  "stickies_of_nodes [] d g = Some (d, g)"
| "stickies_of_nodes (t # ts) d g = do {
     n \<leftarrow> find_node g t;
     if ntype (n_tent n) = TUP_NODE_CMD then do {
       (d1, sticky_root, _, _) \<leftarrow> tup_db_get_inputs d t True False;
       stickies_of_nodes ts d1 (add_sticky_edges sticky_root t g)}
     else stickies_of_nodes ts d g}"

definition add_graph_stickies :: "db \<Rightarrow> graph \<Rightarrow> (db \<times> graph) option" where
  "add_graph_stickies d g = stickies_of_nodes (node_list g) d g"

definition build_graph :: "db \<Rightarrow> graph \<Rightarrow> (db \<times> graph) option option" where
  "build_graph d g0 = do {
     r1 \<leftarrow> build_loop d g0;
     case r1 of None \<Rightarrow> Some None | Some g1 \<Rightarrow> do {
       r2 \<leftarrow> attach_loop d g1;
       case r2 of None \<Rightarrow> Some None | Some g2 \<Rightarrow>
         let g3 = g2\<lparr>transient_root := []\<rparr> in
         Some (do {
           (d4, g4) \<leftarrow> (if g_style g3 \<noteq> TUP_LINK_GROUP \<and> count_flags g3 \<noteq> TUP_NODE_DIR
                         then add_graph_stickies d g3 else Some (d, g3));
           if plist g4 \<noteq> [] then None else Some (d4, g4)})}}"

text \<open>\<open>tqh_last\<close> points to the next field of the root exactly when the root is the last of the list.\<close>

definition graph_empty :: "graph \<Rightarrow> bool" where
  "graph_empty g \<longleftrightarrow> node_list g \<noteq> [] \<and> last (node_list g) = g_root g"

section \<open>Connected files\<close>

definition add_file_cb :: "tup_entry \<Rightarrow> graph \<Rightarrow> graph option" where
  "add_file_cb tent g = do {
     let t = tnode_tupid tent;
     g1 \<leftarrow> find_or_create_node g tent;
     n \<leftarrow> find_node g1 t;
     if n_state n = STATE_PROCESSING then None
     else do {
       g2 \<leftarrow> expand_new g1 t;
       Some (create_edge (g_cur g2) t TUP_LINK_NORMAL g2)}}"

definition connected_iter :: "db \<Rightarrow> graph \<Rightarrow> tupid \<Rightarrow> graph option" where
  "connected_iter d g t = do {
     n \<leftarrow> find_node g t;
     case n_state n of
       STATE_INITIALIZED \<Rightarrow> do {
         g1 \<leftarrow> tup_db_select_node_by_link d add_file_cb t (g\<lparr>g_cur := t\<rparr>);
         Some (set_state t STATE_PROCESSING g1)}
     | STATE_PROCESSING \<Rightarrow> finish_node g t
     | STATE_FINISHED \<Rightarrow> None
     | STATE_REMOVING \<Rightarrow> Some g}"

partial_function (option) connected_loop ::
    "db \<Rightarrow> tupid \<Rightarrow> tent_entries \<Rightarrow> graph \<Rightarrow> bool option option" where
  "connected_loop d src valid_root g = (case plist g of
     [] \<Rightarrow> Some (Some False)
   | t # _ \<Rightarrow>
       if src \<noteq> t \<and> tupid_tree_search valid_root t \<noteq> None then Some (Some True)
       else (case connected_iter d g t of
               None \<Rightarrow> Some None | Some g' \<Rightarrow> connected_loop d src valid_root g'))"

definition nodes_are_connected :: "db \<Rightarrow> tup_entry \<Rightarrow> tent_entries \<Rightarrow> bool option option" where
  "nodes_are_connected d src valid_root =
     (let t = tnode_tupid src in
      case do {
        g1 \<leftarrow> create_node (create_graph TUP_NODE_CMD) src;
        let g2 = upd_node t (\<lambda>n. n\<lparr>expanded := True\<rparr>) (create_edge (g_cur g1) t TUP_LINK_NORMAL g1);
        g3 \<leftarrow> node_remove_list NODE_LIST t g2;
        node_insert_head PLIST t g3}
      of None \<Rightarrow> Some None
       | Some g \<Rightarrow> connected_loop d t valid_root g)"

section \<open>Marking and pruning\<close>

text \<open>
  \<^verbatim>\<open>mark_nodes\<close> with its call stack made explicit: marking never changes an edge, and every
  recursive call is followed only by further calls, so the calls a node makes are pushed in order.
\<close>

definition mark_calls :: "db \<Rightarrow> graph \<Rightarrow> node \<Rightarrow> tupid list" where
  "mark_calls d g n =
     (if ntype (n_tent n) = TUP_NODE_CMD
      then map e_dest (filter (\<lambda>e. case find_node g (e_dest e) of
             None \<Rightarrow> False
           | Some m \<Rightarrow> ntype (n_tent m) \<noteq> TUP_NODE_GROUP \<and> dt (n_tent m) \<noteq> local_exclusion_dt d)
             (n_edges n))
      else [])
     @ map e_src (n_incoming n)"

definition is_marked :: "graph \<Rightarrow> tupid \<Rightarrow> bool" where
  "is_marked g t = (case find_node g t of None \<Rightarrow> False | Some n \<Rightarrow> marked n)"

definition unmarked :: "graph \<Rightarrow> nat" where
  "unmarked g = card {t. \<exists>n. find_node g t = Some n \<and> \<not> marked n}"

lemma unmarked_finite: "finite {t. \<exists>n. find_node g t = Some n \<and> P n}"
  by (rule finite_subset [of _ "set (om_keys (node_root g))"])
     (auto simp: find_node_def dest!: map_of_SomeD intro: rev_image_eqI)

lemma unmarked_decreases:
  assumes "find_node g t = Some n" and "\<not> marked n"
  shows "unmarked (upd_node t (\<lambda>n. n\<lparr>marked := True\<rparr>) g) < unmarked g"
  unfolding unmarked_def
  by (rule psubset_card_mono [OF unmarked_finite])
     (use assms in \<open>auto simp: upd_node_def find_node_def split: if_splits\<close>)

function mark_stack :: "db \<Rightarrow> tupid list \<Rightarrow> graph \<Rightarrow> graph" where
  "mark_stack d [] g = g"
| "mark_stack d (t # ts) g =
     (case find_node g t of
        None \<Rightarrow> mark_stack d ts g
      | Some n \<Rightarrow>
          if marked n then mark_stack d ts g
          else mark_stack d (mark_calls d g n @ ts) (upd_node t (\<lambda>n. n\<lparr>marked := True\<rparr>) g))"
  by pat_completeness auto
termination
  by (relation "measures [\<lambda>(d, ts, g). unmarked g, \<lambda>(d, ts, g). length ts]")
     (auto simp: unmarked_decreases)

definition mark_nodes :: "db \<Rightarrow> tupid \<Rightarrow> graph \<Rightarrow> graph" where
  "mark_nodes d t g = mark_stack d [t] g"

definition prune_node ::
    "graph_prune_type \<Rightarrow> tupid \<Rightarrow> db \<times> graph \<times> int \<Rightarrow> (db \<times> graph \<times> int) option" where
  "prune_node gpt t = (\<lambda>(d, g, num_pruned). do {
     n \<leftarrow> find_node g t;
     (d1, g1, p1) \<leftarrow>
       (if counted n then
          if ntype (n_tent n) \<noteq> TUP_NODE_CMD then None
          else do {
            d' \<leftarrow> tup_db_add_modify_list d t;
            Some (d', g\<lparr>num_nodes := num_nodes g - 1,
                        total_mtime := (if total_mtime g \<noteq> -1 \<and> tv_sec (mtime (n_tent n)) \<noteq> -1
                           then total_mtime g - tv_sec (mtime (n_tent n)) else total_mtime g)\<rparr>,
                  num_pruned + 1)}
        else Some (d, g, num_pruned));
     let g2 = fold (\<lambda>e. upd_node (e_src e) (\<lambda>m. if transient m \<noteq> TRANSIENT_NONE
                 then m\<lparr>transient := TRANSIENT_NONE\<rparr> else m)) (n_incoming n) g1;
     Some (d1, if gpt = GRAPH_PRUNE_ALL \<or> ntype (n_tent n) \<noteq> TUP_NODE_FILE
               then remove_node_internal g2 t else g2, p1)})"

text \<open>
  The arguments are resolved by \<open>find_target\<close>, which stands for the call
  \<open>get_tent_dt(get_sub_dir_dt(), argv[x])\<close>.  Arguments before \<^verbatim>\<open>--\<close> that begin
  with a dash, and \<^verbatim>\<open>--\<close> itself, are options.
\<close>

fun prune_args :: "(string \<Rightarrow> tup_entry option) \<Rightarrow> bool \<Rightarrow> string list \<Rightarrow> bool
    \<Rightarrow> tupid list \<Rightarrow> tupid_entries \<Rightarrow> (bool \<times> tupid list \<times> tupid_entries) option" where
  "prune_args find_target dashdash [] do_prune prune_list dir_root =
     Some (do_prune, prune_list, dir_root)"
| "prune_args find_target dashdash (arg # args) do_prune prune_list dir_root =
     (let dashdash' = (dashdash \<or> arg = ''--'') in
      if \<not> dashdash \<and> take 1 arg = ''-''
      then prune_args find_target dashdash' args do_prune prune_list dir_root
      else do {
        tent \<leftarrow> find_target arg;
        if ntype tent = TUP_NODE_DIR \<or> ntype tent = TUP_NODE_GENERATED_DIR
        then do { r \<leftarrow> tupid_tree_add_dup dir_root (tnode_tupid tent);
                  prune_args find_target dashdash' args True prune_list r }
        else prune_args find_target dashdash' args True (tnode_tupid tent # prune_list) dir_root})"

text \<open>The chain of parent directories of an entry; there are no more of them than rows.\<close>

fun parent_chain :: "db \<Rightarrow> nat \<Rightarrow> tup_entry \<Rightarrow> tupid list" where
  "parent_chain d 0 tent = []"
| "parent_chain d (Suc k) tent = (case map_of (node_tbl d) (dt tent) of
     None \<Rightarrow> [] | Some p \<Rightarrow> tnode_tupid p # parent_chain d k p)"

definition mark_under :: "db \<Rightarrow> tupid_entries \<Rightarrow> tupid \<Rightarrow> graph \<Rightarrow> graph" where
  "mark_under d dir_root t g = (case find_node g t of
     None \<Rightarrow> g
   | Some n \<Rightarrow>
       if \<not> marked n \<and> ntype (n_tent n) \<noteq> TUP_NODE_ROOT
       then fold (\<lambda>p g. if tupid_tree_search dir_root p \<noteq> None then mark_nodes d t g else g)
              (parent_chain d (Suc (length (node_tbl d))) (n_tent n)) g
       else g)"

fun prune_nodes :: "graph_prune_type \<Rightarrow> tupid list \<Rightarrow> db \<times> graph \<times> int \<Rightarrow> (db \<times> graph \<times> int) option" where
  "prune_nodes gpt [] s = Some s"
| "prune_nodes gpt (t # ts) (d, g, p) =
     (if \<not> is_marked g t \<and> t \<noteq> g_root g
      then do { s \<leftarrow> prune_node gpt t (d, g, p); prune_nodes gpt ts s }
      else prune_nodes gpt ts (d, g, p))"

definition prune_graph ::
    "(string \<Rightarrow> tup_entry option) \<Rightarrow> db \<Rightarrow> graph \<Rightarrow> string list \<Rightarrow> graph_prune_type
     \<Rightarrow> (db \<times> graph \<times> int) option" where
  "prune_graph find_target d g argv gpt = do {
     (do_prune, prune_list, dir_root) \<leftarrow> prune_args find_target False argv False [] [];
     if do_prune then
       let g1 = fold (\<lambda>t g. if find_node g t \<noteq> None then mark_nodes d t g else g) prune_list g;
           g2 = (if dir_root \<noteq> [] then fold (mark_under d dir_root) (node_list g1) g1 else g1)
       in prune_nodes gpt (node_list g2) (d, g2, 0)
     else Some (d, g, 0)}"

section \<open>Trimming and circular groups\<close>

definition trim_node :: "tupid \<Rightarrow> graph \<times> bool \<Rightarrow> graph \<times> bool" where
  "trim_node t = (\<lambda>(g, nodes_removed).
     if incoming_of g t = [] \<or> edges_of g t = []
     then (remove_node_internal g t, True) else (g, nodes_removed))"

definition trim_pass :: "graph \<Rightarrow> graph \<times> bool" where
  "trim_pass g = fold trim_node (node_list g) (g, False)"

partial_function (option) trim_graph :: "graph \<Rightarrow> graph option" where
  "trim_graph g = (case trim_pass g of (g', nodes_removed) \<Rightarrow>
     if nodes_removed then trim_graph g' else Some g')"

text \<open>The static \<open>group_graph\<close> is \<open>None\<close> until \<open>group_graph_inited\<close> is set.\<close>

definition add_group_circ_check :: "graph option \<Rightarrow> tup_entry \<Rightarrow> graph option option" where
  "add_group_circ_check gg tent =
     (let g = (case gg of None \<Rightarrow> create_graph TUP_NODE_GROUP | Some g \<Rightarrow> g); t = tnode_tupid tent in
      if find_node g t \<noteq> None then Some (Some g)
      else do {
        g1 \<leftarrow> create_node g tent;
        g2 \<leftarrow> node_remove_list NODE_LIST t g1;
        g3 \<leftarrow> node_insert_head PLIST t g2;
        Some (Some (upd_node t (\<lambda>n. n\<lparr>expanded := True\<rparr>) g3))})"

definition group_circ_check :: "db \<Rightarrow> graph option \<Rightarrow> unit option option" where
  "group_circ_check d gg = (case gg of
     None \<Rightarrow> Some (Some ())
   | Some g0 \<Rightarrow> do {
       r \<leftarrow> build_graph d g0;
       case r of None \<Rightarrow> Some None | Some (d1, g1) \<Rightarrow> do {
         g2 \<leftarrow> trim_graph g1;
         if node_list g2 \<noteq> [] then Some None else Some (Some ())}})"

end
