(* ===== verification/Graph_Inv.thy ===== *)
theory Graph_Inv
  imports Graph
begin

text \<open>
  The representation invariant of a graph (\<open>graph_ok\<close>: queues against \<^verbatim>\<open>active_list\<close>, outgoing
  against incoming edge lists) and its preservation by every operation of \<^verbatim>\<open>graph.c\<close>.
\<close>

section \<open>Reading an updated graph\<close>

lemma find_node_upd_node [simp]:
  "find_node (upd_node t f g) x = (if x = t then map_option f (find_node g t) else find_node g x)"
  by (cases "find_node g t") (auto simp: upd_node_def find_node_def)

lemma upd_node_fields [simp]:
  "node_list (upd_node t f g) = node_list g" "plist (upd_node t f g) = plist g"
  "removing_list (upd_node t f g) = removing_list g" "g_cur (upd_node t f g) = g_cur g"
  "g_root (upd_node t f g) = g_root g" "g_style (upd_node t f g) = g_style g"
  "transient_root (upd_node t f g) = transient_root g" "next_edge (upd_node t f g) = next_edge g"
  "count_flags (upd_node t f g) = count_flags g" "num_nodes (upd_node t f g) = num_nodes g"
  "total_mtime (upd_node t f g) = total_mtime g"
  by (auto simp: upd_node_def split: option.split)

lemma queue_upd_node [simp]: "queue L (upd_node t f g) = queue L g"
  by (cases L) simp_all

lemma queue_set_queue [simp]: "queue L (set_queue M l g) = (if L = M then l else queue L g)"
  by (cases L; cases M) simp_all

lemma set_queue_fields [simp]:
  "find_node (set_queue L l g) = find_node g" "g_cur (set_queue L l g) = g_cur g"
  "g_root (set_queue L l g) = g_root g" "g_style (set_queue L l g) = g_style g"
  "transient_root (set_queue L l g) = transient_root g" "next_edge (set_queue L l g) = next_edge g"
  "count_flags (set_queue L l g) = count_flags g"
  by (cases L; simp add: find_node_def fun_eq_iff)+

lemma find_node_more [simp]:
  "find_node (g\<lparr>g_cur := c\<rparr>) = find_node g" "find_node (g\<lparr>next_edge := k\<rparr>) = find_node g"
  "find_node (g\<lparr>num_nodes := k'\<rparr>) = find_node g" "find_node (g\<lparr>total_mtime := m\<rparr>) = find_node g"
  "find_node (g\<lparr>transient_root := r\<rparr>) = find_node g" "find_node (g\<lparr>node_list := l\<rparr>) = find_node g"
  by (simp_all add: find_node_def fun_eq_iff)

lemma queue_more [simp]:
  "queue L (g\<lparr>g_cur := c\<rparr>) = queue L g" "queue L (g\<lparr>next_edge := k\<rparr>) = queue L g"
  "queue L (g\<lparr>num_nodes := k'\<rparr>) = queue L g" "queue L (g\<lparr>total_mtime := m\<rparr>) = queue L g"
  "queue L (g\<lparr>transient_root := r\<rparr>) = queue L g"
  by (cases L; simp)+

lemma find_node_put [simp]:
  "find_node (g\<lparr>node_list := l, node_root := om_put t n (node_root g)\<rparr>) x = (if x = t then Some n else find_node g x)"
  by (simp add: find_node_def)

lemma find_node_remove_node [simp]:
  "find_node (remove_node g t) x = (if x = t then None else find_node g x)"
  by (simp add: remove_node_def find_node_def)

lemma queue_remove_node [simp]: "queue L (remove_node g t) = queue L g"
  by (cases L) (simp_all add: remove_node_def)

section \<open>The invariant\<close>

definition graph_edges :: "graph \<Rightarrow> edge set" where
  "graph_edges g = {e. \<exists>t. e \<in> set (edges_of g t)}"

definition queues_ok :: "graph \<Rightarrow> bool" where
  "queues_ok g \<longleftrightarrow> (\<forall>L. distinct (queue L g))
     \<and> (\<forall>L t. t \<in> set (queue L g) \<longleftrightarrow> map_option active_list (find_node g t) = Some (Some L))
     \<and> (\<forall>t n. find_node g t = Some n \<longrightarrow> tnode_tupid (n_tent n) = t)"

definition edges_ok :: "graph \<Rightarrow> bool" where
  "edges_ok g \<longleftrightarrow>
     (\<forall>t. \<forall>e \<in> set (edges_of g t). e_src e = t \<and> e \<in> set (incoming_of g (e_dest e)))
   \<and> (\<forall>t. \<forall>e \<in> set (incoming_of g t). e_dest e = t \<and> e \<in> set (edges_of g (e_src e)))
   \<and> (\<forall>e \<in> graph_edges g. e_id e < next_edge g) \<and> inj_on e_id (graph_edges g)"

lemma edges_okD:
  assumes "edges_ok g"
  shows "e \<in> set (edges_of g t) \<Longrightarrow> e_src e = t \<and> e \<in> set (incoming_of g (e_dest e))"
    and "e \<in> set (incoming_of g t) \<Longrightarrow> e_dest e = t \<and> e \<in> set (edges_of g (e_src e))"
    and "inj_on e_id (graph_edges g)"
  using assms by (auto simp: edges_ok_def)

definition graph_ok :: "graph \<Rightarrow> bool" where
  "graph_ok g \<longleftrightarrow> queues_ok g \<and> edges_ok g"

definition arcs :: "graph \<Rightarrow> (tupid \<times> tupid) set" where
  "arcs g = {(a, b). \<exists>e \<in> graph_edges g. e_src e = a \<and> e_dest e = b}"

lemma queues_okD:
  assumes "queues_ok g"
  shows "distinct (queue L g)"
    and "t \<in> set (queue L g) \<longleftrightarrow> map_option active_list (find_node g t) = Some (Some L)"
    and "find_node g t = Some n \<Longrightarrow> tnode_tupid (n_tent n) = t"
  using assms by (simp_all add: queues_ok_def)

lemma queues_ok_cong:
  assumes "queues_ok g" and "\<And>L. queue L g' = queue L g"
    and "\<And>t. map_option (\<lambda>n. (active_list n, n_tent n)) (find_node g' t)
            = map_option (\<lambda>n. (active_list n, n_tent n)) (find_node g t)"
  shows "queues_ok g'"
proof -
  have "map_option active_list (find_node g' t) = map_option active_list (find_node g t)"
    "map_option n_tent (find_node g' t) = map_option n_tent (find_node g t)" for t
    using assms(3) [of t] by (cases "find_node g t"; cases "find_node g' t"; simp)+
  then show ?thesis
    using assms(1,2) unfolding queues_ok_def by (metis option.map_disc_iff option.map_sel option.sel option.distinct(1) option.collapse)
qed

lemma edges_ok_cong:
  assumes "edges_ok g" and "\<And>t. edges_of g' t = edges_of g t" "\<And>t. incoming_of g' t = incoming_of g t"
    and "next_edge g' = next_edge g"
  shows "edges_ok g'"
  using assms by (simp add: edges_ok_def graph_edges_def)

lemma edges_of_upd [simp]:
  "edges_of (upd_node t f g) x = (if x = t \<and> find_node g t \<noteq> None then n_edges (f (the (find_node g t))) else edges_of g x)"
  "incoming_of (upd_node t f g) x = (if x = t \<and> find_node g t \<noteq> None then n_incoming (f (the (find_node g t))) else incoming_of g x)"
  by (auto simp: edges_of_def incoming_of_def split: option.split)

lemma edges_of_cong:
  "find_node g' = find_node g \<Longrightarrow> edges_of g' = edges_of g"
  "find_node g' = find_node g \<Longrightarrow> incoming_of g' = incoming_of g"
  by (simp_all add: edges_of_def incoming_of_def fun_eq_iff)

text \<open>Updates that touch neither the queues nor the edges.\<close>

lemma graph_ok_upd_node:
  assumes "graph_ok g"
    and "\<And>n. active_list (f n) = active_list n" "\<And>n. n_tent (f n) = n_tent n"
    and "\<And>n. n_edges (f n) = n_edges n" "\<And>n. n_incoming (f n) = n_incoming n"
  shows "graph_ok (upd_node t f g)"
proof -
  have "queues_ok (upd_node t f g)"
    by (rule queues_ok_cong [of g]) (use assms in \<open>auto simp: graph_ok_def option.map_comp comp_def\<close>)
  moreover have "edges_ok (upd_node t f g)"
    by (rule edges_ok_cong [of g])
       (use assms in \<open>auto simp: graph_ok_def edges_of_def incoming_of_def split: option.split\<close>)
  ultimately show ?thesis by (simp add: graph_ok_def)
qed

lemma graph_ok_more:
  assumes "graph_ok g" and "find_node g' = find_node g" and "\<And>L. queue L g' = queue L g"
    and "next_edge g' = next_edge g"
  shows "graph_ok g'"
  using assms edges_of_cong [OF assms(2)]
  by (auto simp: graph_ok_def intro: edges_ok_cong queues_ok_cong)

section \<open>Queues\<close>

lemma node_remove_list_spec:
  assumes "node_remove_list L t g = Some g'" and "queues_ok g"
  shows "queues_ok g'" and "queue M g' = (if M = L then remove1 t (queue L g) else queue M g)"
    and "t \<in> set (queue L g)"
    and "find_node g' x = (if x = t then map_option (\<lambda>n. n\<lparr>active_list := None\<rparr>) (find_node g t) else find_node g x)"
proof -
  from assms(1) obtain n where n: "find_node g t = Some n" "active_list n = Some L"
    and g': "g' = upd_node t (\<lambda>n. n\<lparr>active_list := None\<rparr>) (set_queue L (remove1 t (queue L g)) g)"
    by (auto simp: node_remove_list_def split: if_splits Option.bind_splits)
  show q: "queue M g' = (if M = L then remove1 t (queue L g) else queue M g)" for M
    by (simp add: g')
  show f: "find_node g' x = (if x = t then map_option (\<lambda>n. n\<lparr>active_list := None\<rparr>) (find_node g t) else find_node g x)" for x
    by (simp add: g')
  show "t \<in> set (queue L g)" using n queues_okD(2) [OF assms(2)] by simp
  have "t \<in> set (queue M g) \<longleftrightarrow> M = L" for M
    using n queues_okD(2) [OF assms(2)] by auto
  moreover have "set (remove1 t (queue L g)) = set (queue L g) - {t}"
    using queues_okD(1) [OF assms(2)] by simp
  ultimately show "queues_ok g'"
    using assms(2) n unfolding queues_ok_def by (simp add: q f)
qed

lemma node_insert_spec:
  assumes "find_node g t = Some n" and "active_list n = None" and "queues_ok g"
    and "l = t # queue L g \<or> l = queue L g @ [t]"
    and g': "g' = upd_node t (\<lambda>n. n\<lparr>active_list := Some L\<rparr>) (set_queue L l g)"
  shows "queues_ok g'"
proof -
  have "t \<notin> set (queue M g)" for M
    using assms(1,2) queues_okD(2) [OF assms(3)] by simp
  moreover have "set l = insert t (set (queue L g))"
    using assms(4) by auto
  moreover have "distinct l"
    using assms(4) calculation(1) queues_okD(1) [OF assms(3)] by auto
  ultimately show ?thesis
    using assms(1-3) unfolding queues_ok_def g' by simp
qed

lemma edges_ok_nodes:
  assumes "edges_ok g" and "\<And>x. edges_of g' x = edges_of g x" "\<And>x. incoming_of g' x = incoming_of g x"
    and "next_edge g' = next_edge g"
  shows "edges_ok g' \<and> arcs g' = arcs g"
  using edges_ok_cong [OF assms] assms by (simp add: arcs_def graph_edges_def)

lemma node_remove_list_ok:
  assumes "node_remove_list L t g = Some g'" and "graph_ok g"
  shows "graph_ok g' \<and> arcs g' = arcs g \<and> next_edge g' = next_edge g
    \<and> (\<forall>x. edges_of g' x = edges_of g x \<and> incoming_of g' x = incoming_of g x)"
proof -
  have g': "g' = upd_node t (\<lambda>n. n\<lparr>active_list := None\<rparr>) (set_queue L (remove1 t (queue L g)) g)"
    using assms(1) by (auto simp: node_remove_list_def split: if_splits Option.bind_splits)
  have "edges_of g' x = edges_of g x" "incoming_of g' x = incoming_of g x" for x
    by (auto simp: g' edges_of_def incoming_of_def split: option.split)
  moreover have "next_edge g' = next_edge g" by (simp add: g')
  ultimately show ?thesis
    using edges_ok_nodes [of g g'] node_remove_list_spec(1) [OF assms(1)] assms(2)
    by (simp add: graph_ok_def)
qed

lemma node_insert_ok:
  assumes "node_insert_head L t g = Some g' \<or> node_insert_tail L t g = Some g'" and "graph_ok g"
  shows "graph_ok g' \<and> arcs g' = arcs g \<and> next_edge g' = next_edge g
    \<and> (\<forall>x. edges_of g' x = edges_of g x \<and> incoming_of g' x = incoming_of g x)"
proof -
  obtain n l where n: "find_node g t = Some n" "active_list n = None"
    and l: "l = t # queue L g \<or> l = queue L g @ [t]"
    and g': "g' = upd_node t (\<lambda>n. n\<lparr>active_list := Some L\<rparr>) (set_queue L l g)"
    using assms(1) by (auto simp: node_insert_head_def node_insert_tail_def split: if_splits Option.bind_splits)
  have "edges_of g' x = edges_of g x" "incoming_of g' x = incoming_of g x" for x
    using n by (auto simp: g' edges_of_def incoming_of_def)
  moreover have "next_edge g' = next_edge g" by (simp add: g')
  ultimately show ?thesis
    using edges_ok_nodes [of g g'] node_insert_spec [OF n _ l g'] assms(2)
    by (simp add: graph_ok_def)
qed

section \<open>Creating and removing nodes and edges\<close>

lemma queue_create_node [simp]:
  "queue L (g\<lparr>node_list := l, node_root := r\<rparr>) = (if L = NODE_LIST then l else queue L g)"
  by (cases L) simp_all

lemma create_node_ok:
  assumes "create_node g tent = Some g'" and "graph_ok g"
  shows "graph_ok g' \<and> arcs g' = arcs g \<and> next_edge g' = next_edge g
    \<and> find_node g (tnode_tupid tent) = None
    \<and> (\<forall>x. find_node g' x = (if x = tnode_tupid tent then Some (new_node tent) else find_node g x))"
proof -
  let ?t = "tnode_tupid tent"
  have none: "find_node g ?t = None"
    and g': "g' = g\<lparr>node_list := node_list g @ [?t], node_root := om_put ?t (new_node tent) (node_root g)\<rparr>"
    using assms(1) by (auto simp: create_node_def split: if_splits)
  have e: "edges_of g' x = edges_of g x" "incoming_of g' x = incoming_of g x" for x
    using none by (auto simp: g' edges_of_def incoming_of_def new_node_def)
  have f: "find_node g' x = (if x = ?t then Some (new_node tent) else find_node g x)" for x
    by (simp add: g')
  have q: "queue L g' = (if L = NODE_LIST then queue NODE_LIST g @ [?t] else queue L g)" for L
    by (simp add: g')
  have "?t \<notin> set (queue L g)" for L
    using none assms(2) by (simp add: graph_ok_def queues_okD(2))
  then have "queues_ok g'"
    using assms(2) none unfolding graph_ok_def queues_ok_def
    by (simp add: f q new_node_def del: queue.simps)
  then show ?thesis
    using edges_ok_nodes [OF _ e] assms(2) none f by (simp add: graph_ok_def g')
qed

lemma create_edge_find [simp]:
  "map_option active_list (find_node (create_edge a b s g) x) = map_option active_list (find_node g x)"
  "map_option n_tent (find_node (create_edge a b s g) x) = map_option n_tent (find_node g x)"
  "map_option n_state (find_node (create_edge a b s g) x) = map_option n_state (find_node g x)"
  "map_option expanded (find_node (create_edge a b s g) x) = map_option expanded (find_node g x)"
  "map_option marked (find_node (create_edge a b s g) x) = map_option marked (find_node g x)"
  "map_option (\<lambda>n. (active_list n, n_tent n)) (find_node (create_edge a b s g) x)
     = map_option (\<lambda>n. (active_list n, n_tent n)) (find_node g x)"
  by (simp_all add: create_edge_def Let_def option.map_comp comp_def)

lemma create_edge_fields [simp]:
  "queue L (create_edge a b s g) = queue L g" "g_cur (create_edge a b s g) = g_cur g"
  "g_root (create_edge a b s g) = g_root g" "g_style (create_edge a b s g) = g_style g"
  "transient_root (create_edge a b s g) = transient_root g"
  "count_flags (create_edge a b s g) = count_flags g" "plist (create_edge a b s g) = plist g"
  "node_list (create_edge a b s g) = node_list g"
  by (simp_all add: create_edge_def Let_def)

lemma create_edge_edges:
  assumes "find_node g a \<noteq> None" and "find_node g b \<noteq> None"
  shows "edges_of (create_edge a b s g) x =
      (if x = a then \<lparr>e_id = next_edge g, e_src = a, e_dest = b, e_style = s\<rparr> # edges_of g a else edges_of g x)"
    and "incoming_of (create_edge a b s g) x =
      (if x = b then \<lparr>e_id = next_edge g, e_src = a, e_dest = b, e_style = s\<rparr> # incoming_of g b else incoming_of g x)"
  using assms by (auto simp: create_edge_def Let_def edges_of_def incoming_of_def)

lemma graph_edges_iff: "edges_ok g \<Longrightarrow> e \<in> graph_edges g \<longleftrightarrow> e \<in> set (edges_of g (e_src e))"
  by (auto simp: graph_edges_def edges_ok_def)

lemma edges_mem: "edges_ok g \<Longrightarrow> e \<in> set (edges_of g t) \<longleftrightarrow> e \<in> graph_edges g \<and> e_src e = t"
  by (metis edges_okD(1) graph_edges_iff)

lemma incoming_mem: "edges_ok g \<Longrightarrow> e \<in> set (incoming_of g t) \<longleftrightarrow> e \<in> graph_edges g \<and> e_dest e = t"
  by (metis edges_okD(1,2) graph_edges_iff)

lemma create_edge_ok:
  assumes "graph_ok g" and "find_node g a \<noteq> None" and "find_node g b \<noteq> None"
  shows "graph_ok (create_edge a b s g) \<and> arcs (create_edge a b s g) = insert (a, b) (arcs g)"
proof -
  let ?g = "create_edge a b s g"
  let ?e = "\<lparr>e_id = next_edge g, e_src = a, e_dest = b, e_style = s\<rparr>"
  note es = create_edge_edges [OF assms(2,3), of s]
  have new: "graph_edges ?g = insert ?e (graph_edges g)"
    by (force simp: graph_edges_def es split: if_splits)
  have ok: "edges_ok g" and less: "\<forall>e \<in> graph_edges g. e_id e < next_edge g"
    using assms(1) by (auto simp: graph_ok_def edges_ok_def)
  have "next_edge ?g = Suc (next_edge g)"
    by (simp add: create_edge_def Let_def)
  have mem: "e \<in> set (edges_of ?g t) \<longleftrightarrow> t = a \<and> e = ?e \<or> e \<in> set (edges_of g t)"
    "e \<in> set (incoming_of ?g t) \<longleftrightarrow> t = b \<and> e = ?e \<or> e \<in> set (incoming_of g t)" for e t
    by (auto simp: es)
  have "inj_on e_id (graph_edges ?g)"
    using ok less by (auto simp: new edges_ok_def inj_on_insert)
  moreover have "\<forall>e \<in> graph_edges ?g. e_id e < next_edge ?g"
    using less \<open>next_edge ?g = _\<close> by (auto simp: new intro: less_SucI)
  moreover have "e_src e = t \<and> e \<in> set (incoming_of ?g (e_dest e))" if "e \<in> set (edges_of ?g t)" for e t
    using that edges_okD(1) [OF ok, of e t] by (auto simp only: mem edge.simps)
  moreover have "e_dest e = t \<and> e \<in> set (edges_of ?g (e_src e))" if "e \<in> set (incoming_of ?g t)" for e t
    using that edges_okD(2) [OF ok, of e t] by (auto simp only: mem edge.simps)
  ultimately have "edges_ok ?g" by (simp add: edges_ok_def)
  moreover have "queues_ok ?g"
    by (rule queues_ok_cong [of g]) (use assms(1) in \<open>simp_all add: graph_ok_def\<close>)
  moreover have "arcs ?g = insert (a, b) (arcs g)"
    by (auto simp: arcs_def new)
  ultimately show ?thesis by (simp add: graph_ok_def)
qed

lemma remove_edge_edges:
  assumes "edges_ok g" and "inj_on e_id (insert e (graph_edges g))"
  shows "edges_of (remove_edge e g) x = filter (\<lambda>e'. e' \<noteq> e) (edges_of g x)"
    and "incoming_of (remove_edge e g) x = filter (\<lambda>e'. e' \<noteq> e) (incoming_of g x)"
proof -
  have id: "e_id e' \<noteq> e_id e \<longleftrightarrow> e' \<noteq> e" if "e' \<in> graph_edges g" for e'
    using assms(2) that by (auto simp: inj_on_def)
  have out: "e' \<in> graph_edges g \<and> e_src e' = x" if "e' \<in> set (edges_of g x)" for e' x
    using edges_okD(1) [OF assms(1) that] that by (auto simp: graph_edges_def)
  have inc: "e' \<in> graph_edges g \<and> e_dest e' = x" if "e' \<in> set (incoming_of g x)" for e' x
    using edges_okD(2) [OF assms(1) that] by (auto simp: graph_edges_def)
  have "edges_of (remove_edge e g) x = (if x = e_src e then filter (\<lambda>e'. e_id e' \<noteq> e_id e) (edges_of g x) else edges_of g x)"
    "incoming_of (remove_edge e g) x = (if x = e_dest e then filter (\<lambda>e'. e_id e' \<noteq> e_id e) (incoming_of g x) else incoming_of g x)"
    by (auto simp: remove_edge_def edges_of_def incoming_of_def split: option.splits)
  then show "edges_of (remove_edge e g) x = filter (\<lambda>e'. e' \<noteq> e) (edges_of g x)"
    and "incoming_of (remove_edge e g) x = filter (\<lambda>e'. e' \<noteq> e) (incoming_of g x)"
    using out inc id by (auto intro!: filter_cong filter_id_conv [THEN iffD2, symmetric])
qed

lemma remove_edge_fields [simp]:
  "queue L (remove_edge e g) = queue L g" "next_edge (remove_edge e g) = next_edge g"
  "map_option (\<lambda>n. (active_list n, n_tent n)) (find_node (remove_edge e g) x)
     = map_option (\<lambda>n. (active_list n, n_tent n)) (find_node g x)"
  "find_node (remove_edge e g) x = None \<longleftrightarrow> find_node g x = None"
  by (simp_all add: remove_edge_def option.map_comp comp_def)

lemma remove_edge_ok:
  assumes "graph_ok g" and "inj_on e_id (insert e (graph_edges g))"
  shows "graph_ok (remove_edge e g)" and "graph_edges (remove_edge e g) = graph_edges g - {e}"
proof -
  have ok: "edges_ok g" using assms(1) by (simp add: graph_ok_def)
  note es = remove_edge_edges [OF ok assms(2)]
  show new: "graph_edges (remove_edge e g) = graph_edges g - {e}"
    by (auto simp: graph_edges_def es)
  have "edges_ok (remove_edge e g)"
    using ok unfolding edges_ok_def new by (simp add: es inj_on_diff) blast
  moreover have "queues_ok (remove_edge e g)"
    by (rule queues_ok_cong [of g]) (use assms(1) in \<open>simp_all add: graph_ok_def\<close>)
  ultimately show "graph_ok (remove_edge e g)" by (simp add: graph_ok_def)
qed

lemma fold_remove_edge:
  assumes "graph_ok g" and "inj_on e_id (set es \<union> graph_edges g)"
  shows "graph_ok (fold remove_edge es g)
    \<and> edges_of (fold remove_edge es g) x = filter (\<lambda>e. e \<notin> set es) (edges_of g x)
    \<and> incoming_of (fold remove_edge es g) x = filter (\<lambda>e. e \<notin> set es) (incoming_of g x)
    \<and> graph_edges (fold remove_edge es g) = graph_edges g - set es
    \<and> queue L (fold remove_edge es g) = queue L g
    \<and> map_option (\<lambda>n. (active_list n, n_tent n)) (find_node (fold remove_edge es g) y)
     = map_option (\<lambda>n. (active_list n, n_tent n)) (find_node g y)"
  using assms
proof (induction es arbitrary: g)
  case (Cons e es)
  have inj: "inj_on e_id (insert e (graph_edges g))"
    by (rule inj_on_subset [OF Cons.prems(2)]) auto
  note one = remove_edge_ok [OF Cons.prems(1) inj]
    and es = remove_edge_edges [OF _ inj] 
  have "edges_ok g" using Cons.prems(1) by (simp add: graph_ok_def)
  moreover have "inj_on e_id (set es \<union> graph_edges (remove_edge e g))"
    by (rule inj_on_subset [OF Cons.prems(2)]) (auto simp: one)
  ultimately show ?case
    using Cons.IH [OF one(1)] es by (auto simp: one intro: filter_cong)
qed simp

text \<open>The first step of \<^verbatim>\<open>remove_node_internal\<close> takes the node off its queue.\<close>

definition off_list :: "graph \<Rightarrow> tupid \<Rightarrow> graph" where
  "off_list g t = (case find_node g t of
     None \<Rightarrow> g
   | Some n \<Rightarrow> (case active_list n of
        None \<Rightarrow> g | Some l \<Rightarrow> (case node_remove_list l t g of None \<Rightarrow> g | Some g' \<Rightarrow> g')))"

lemma off_list_ok:
  assumes "graph_ok g"
  shows "graph_ok (off_list g t) \<and> queue L (off_list g t) = remove1 t (queue L g)
    \<and> edges_of (off_list g t) x = edges_of g x \<and> incoming_of (off_list g t) x = incoming_of g x
    \<and> map_option n_tent (find_node (off_list g t) x) = map_option n_tent (find_node g x)"
proof (cases "map_option active_list (find_node g t)")
  case None
  then have "t \<notin> set (queue L g)" using assms by (simp add: graph_ok_def queues_okD(2))
  with None show ?thesis using assms by (simp add: off_list_def remove1_idem)
next
  case (Some l)
  then obtain n where n: "find_node g t = Some n" "active_list n = l" by auto
  show ?thesis
  proof (cases l)
    case None
    then have "t \<notin> set (queue L g)" using assms n by (simp add: graph_ok_def queues_okD(2))
    with None n show ?thesis using assms by (simp add: off_list_def remove1_idem)
  next
    case l: (Some M)
    then obtain g' where g': "node_remove_list M t g = Some g'" "off_list g t = g'"
      using n by (simp add: node_remove_list_def off_list_def)
    have q: "queues_ok g" using assms by (simp add: graph_ok_def)
    have "t \<notin> set (queue L g)" if "L \<noteq> M" using n l that q by (simp add: queues_okD(2))
    then have "queue L g' = remove1 t (queue L g)"
      by (simp add: node_remove_list_spec(2) [OF g'(1) q] remove1_idem)
    moreover have "map_option n_tent (find_node g' x) = map_option n_tent (find_node g x)"
      by (simp add: node_remove_list_spec(4) [OF g'(1) q] option.map_comp comp_def)
    ultimately show ?thesis using node_remove_list_ok [OF g'(1) assms] g'(2) by simp
  qed
qed

lemma off_list_find: "find_node (off_list g t) x = None \<longleftrightarrow> find_node g x = None"
  by (auto simp: off_list_def node_remove_list_def split: option.split)

lemma pair_tent:
  assumes "map_option (\<lambda>n. (active_list n, n_tent n)) a = map_option (\<lambda>n. (active_list n, n_tent n)) b"
  shows "map_option n_tent a = map_option n_tent b" and "map_option active_list a = map_option active_list b"
  using assms by (cases a; cases b; simp)+

lemma remove_node_internal_ok:
  assumes "graph_ok g"
  shows "graph_ok (remove_node_internal g t)
    \<and> graph_edges (remove_node_internal g t) = {e \<in> graph_edges g. e_src e \<noteq> t \<and> e_dest e \<noteq> t}
    \<and> queue L (remove_node_internal g t) = remove1 t (queue L g)
    \<and> map_option n_tent (find_node (remove_node_internal g t) x) = (if x = t then None else map_option n_tent (find_node g x))"
proof -
  define g1 where "g1 = off_list g t"
  define g2 where "g2 = fold remove_edge (edges_of g1 t) g1"
  define g3 where "g3 = fold remove_edge (incoming_of g2 t) g2"
  have r: "remove_node_internal g t = remove_node g3 t"
    by (simp add: remove_node_internal_def off_list_def g1_def g2_def g3_def Let_def)
  note off = off_list_ok [OF assms, of t, folded g1_def]
  have ok1: "graph_ok g1" using off by simp
  then have inj1: "inj_on e_id (graph_edges g1)" by (simp add: graph_ok_def edges_okD)
  have sub1: "set (edges_of g1 t) \<subseteq> graph_edges g1" by (auto simp: graph_edges_def)
  have i1: "inj_on e_id (set (edges_of g1 t) \<union> graph_edges g1)"
    using inj1 sub1 by (simp add: Un_absorb1)
  note s2 = fold_remove_edge [OF ok1 i1, folded g2_def]
  have ok2: "graph_ok g2" using s2 by simp
  then have inj2: "inj_on e_id (graph_edges g2)" by (simp add: graph_ok_def edges_okD)
  have sub2: "set (incoming_of g2 t) \<subseteq> graph_edges g2"
    using ok2 edges_okD(2) [of g2] by (auto simp: graph_ok_def graph_edges_def)
  have i2: "inj_on e_id (set (incoming_of g2 t) \<union> graph_edges g2)"
    using inj2 sub2 by (simp add: Un_absorb1)
  note s3 = fold_remove_edge [OF ok2 i2, folded g3_def]
  have ok3: "graph_ok g3" and ge3: "graph_edges g3 = graph_edges g1 - set (edges_of g1 t) - set (incoming_of g2 t)"
    and q3: "queue L g3 = queue L g1" for L
    using s3 s2 by simp_all
  have inc2: "incoming_of g2 t = filter (\<lambda>e. e \<notin> set (edges_of g1 t)) (incoming_of g1 t)"
    using s2 by simp
  have tents: "map_option n_tent (find_node g3 x) = map_option n_tent (find_node g x)" for x
  proof -
    have "map_option n_tent (find_node g3 x) = map_option n_tent (find_node g2 x)"
      by (rule pair_tent(1)) (use s3 in simp)
    also have "\<dots> = map_option n_tent (find_node g1 x)"
      by (rule pair_tent(1)) (use s2 in simp)
    finally show ?thesis using off by simp
  qed
  have eo1: "edges_ok g1" using ok1 by (simp add: graph_ok_def)
  have src: "e \<in> set (edges_of g1 t) \<longleftrightarrow> e \<in> graph_edges g1 \<and> e_src e = t" for e
    using edges_mem [OF eo1] .
  have dest: "e \<in> set (incoming_of g1 t) \<longleftrightarrow> e \<in> graph_edges g1 \<and> e_dest e = t" for e
    using incoming_mem [OF eo1] .
  have ge: "graph_edges g3 = {e \<in> graph_edges g1. e_src e \<noteq> t \<and> e_dest e \<noteq> t}"
    by (auto simp: ge3 inc2 edges_mem [OF eo1] incoming_mem [OF eo1])
  have eo3: "edges_ok g3" using ok3 by (simp add: graph_ok_def)
  have "e \<notin> set (edges_of g3 t)" for e
    using ge by (auto simp: edges_mem [OF eo3])
  moreover have "e \<notin> set (incoming_of g3 t)" for e
    using ge by (auto simp: incoming_mem [OF eo3])
  ultimately have t3: "edges_of g3 t = []" "incoming_of g3 t = []"
    by (meson last_in_set)+
  have e4: "edges_of (remove_node g3 t) x = edges_of g3 x" "incoming_of (remove_node g3 t) x = incoming_of g3 x" for x
    using t3 by (auto simp: edges_of_def incoming_of_def split: option.splits)
  have ge4: "graph_edges (remove_node g3 t) = graph_edges g3" by (simp add: graph_edges_def e4)
  have "edges_ok (remove_node g3 t)"
    by (rule edges_ok_cong [of g3]) (use ok3 e4 in \<open>simp_all add: graph_ok_def remove_node_def\<close>)
  moreover have "queues_ok (remove_node g3 t)"
  proof -
    have "t \<notin> set (queue L g3)" for L
      using off q3 assms by (simp add: graph_ok_def queues_ok_def)
    then show ?thesis using ok3 unfolding graph_ok_def queues_ok_def by auto
  qed
  moreover have "graph_edges g1 = graph_edges g"
    using off by (simp add: graph_edges_def)
  ultimately show ?thesis
    using ge ge4 off q3 tents by (auto simp: r graph_ok_def)
qed

end
