(* ===== verification/Graph_Build.thy ===== *)
theory Graph_Build
  imports Graph_Inv
begin

text \<open>
  What the first loop of \<^verbatim>\<open>build_graph\<close> computes.  The callbacks are described by how they
  extend the graph (\<open>ext\<close>); the locale \<open>dep_walk\<close> proves termination and the result of the loop
  from the contract of one visit, and is interpreted for the normal and for the group links.
\<close>

section \<open>Extending a graph\<close>

definition st :: "graph \<Rightarrow> tupid \<Rightarrow> node_state option" where
  "st g t = map_option n_state (find_node g t)"

definition same_hdr :: "graph \<Rightarrow> graph \<Rightarrow> bool" where
  "same_hdr g g' \<longleftrightarrow> g_cur g' = g_cur g \<and> g_root g' = g_root g \<and> g_style g' = g_style g
     \<and> count_flags g' = count_flags g \<and> transient_root g' = transient_root g"

definition ext :: "tupid set \<Rightarrow> graph \<Rightarrow> graph \<Rightarrow> bool" where
  "ext C g g' \<longleftrightarrow> same_hdr g g'
     \<and> (\<exists>new. plist g' = new @ plist g \<and> set new \<subseteq> C)
     \<and> (\<forall>x. find_node g x \<noteq> None \<longrightarrow> st g' x = st g x
            \<and> map_option n_tent (find_node g' x) = map_option n_tent (find_node g x))
     \<and> (\<forall>x. find_node g x = None \<longrightarrow> find_node g' x = None \<or> st g' x = Some STATE_INITIALIZED \<and> x \<in> C)"

definition node_fits :: "tupid set \<Rightarrow> tupid \<Rightarrow> node \<Rightarrow> bool" where
  "node_fits P t n \<longleftrightarrow>
     (if t \<in> P then \<not> expanded n \<and> active_list n = Some NODE_LIST \<and> n_state n = STATE_INITIALIZED
      else expanded n \<and> (active_list n = Some PLIST \<and> n_state n \<in> {STATE_INITIALIZED, STATE_PROCESSING}
             \<or> active_list n = Some NODE_LIST \<and> n_state n = STATE_FINISHED))"

text \<open>
  The nodes in \<open>P\<close> have been created but not expanded; the root always is such a node.
  Every other node carries its row \<open>R\<close>.
\<close>

definition pending :: "(tupid \<Rightarrow> tup_entry option) \<Rightarrow> tupid set \<Rightarrow> graph \<Rightarrow> bool" where
  "pending R P g \<longleftrightarrow> graph_ok g \<and> (\<forall>t \<in> P. find_node g t \<noteq> None)
     \<and> (\<forall>t n. find_node g t = Some n \<longrightarrow> node_fits P t n \<and> (t \<noteq> 0 \<longrightarrow> R t = Some (n_tent n)))"

lemma same_hdr_refl [simp]: "same_hdr g g"
  by (simp add: same_hdr_def)

lemma same_hdr_trans: "same_hdr g g' \<Longrightarrow> same_hdr g' g'' \<Longrightarrow> same_hdr g g''"
  by (simp add: same_hdr_def)

lemma ext_refl [simp]: "ext C g g"
  by (auto simp: ext_def)

lemma st_None [simp]: "st g x = None \<longleftrightarrow> find_node g x = None"
  by (simp add: st_def)

lemma ext_mono: "ext C g g' \<Longrightarrow> C \<subseteq> D \<Longrightarrow> ext D g g'"
  unfolding ext_def by blast

lemma ext_old:
  "ext C g g' \<Longrightarrow> find_node g x \<noteq> None \<Longrightarrow> st g' x = st g x
     \<and> map_option n_tent (find_node g' x) = map_option n_tent (find_node g x)"
  unfolding ext_def by simp

lemma ext_new:
  "ext C g g' \<Longrightarrow> find_node g x = None \<Longrightarrow> find_node g' x \<noteq> None
    \<Longrightarrow> st g' x = Some STATE_INITIALIZED \<and> x \<in> C"
  unfolding ext_def by metis

lemma ext_find: "ext C g g' \<Longrightarrow> find_node g x \<noteq> None \<Longrightarrow> find_node g' x \<noteq> None"
  unfolding ext_def by (metis st_None)

lemma ext_trans:
  assumes "ext C g g'" and "ext C g' g''"
  shows "ext C g g''"
proof -
  obtain n1 n2 where "plist g' = n1 @ plist g" "plist g'' = n2 @ plist g'" "set n1 \<subseteq> C" "set n2 \<subseteq> C"
    using assms unfolding ext_def by blast
  then have "\<exists>new. plist g'' = new @ plist g \<and> set new \<subseteq> C"
    by (intro exI [of _ "n2 @ n1"]) simp
  moreover have "same_hdr g g''"
    using assms same_hdr_trans unfolding ext_def by blast
  moreover have "st g'' x = st g x \<and> map_option n_tent (find_node g'' x) = map_option n_tent (find_node g x)"
    if "find_node g x \<noteq> None" for x
    using assms that ext_find [OF assms(1) that] by (simp add: ext_def)
  moreover have "find_node g'' x = None \<or> st g'' x = Some STATE_INITIALIZED \<and> x \<in> C"
    if "find_node g x = None" for x
  proof (cases "find_node g' x = None")
    case True
    with assms(2) ext_new show ?thesis by blast
  next
    case False
    then have "st g' x = Some STATE_INITIALIZED \<and> x \<in> C" using assms(1) that ext_new by simp
    moreover have "st g'' x = st g' x" using ext_old [OF assms(2) False] by simp
    ultimately show ?thesis by simp
  qed
  ultimately show ?thesis by (simp add: ext_def)
qed

lemma pending_ok: "pending R P g \<Longrightarrow> graph_ok g"
  by (simp add: pending_def)

lemma find_node_plist [simp]: "find_node (g\<lparr>plist := l\<rparr>) = find_node g"
  by (simp add: find_node_def fun_eq_iff)

lemma expand_node_spec:
  assumes ok: "graph_ok g" and n: "find_node g x = Some n" "active_list n = Some NODE_LIST"
  obtains g' where "expand_node g x = (g', True)" and "graph_ok g'" and "arcs g' = arcs g"
    and "plist g' = x # plist g" and "same_hdr g g'"
    and "\<And>y. find_node g' y = (if y = x then Some (n\<lparr>expanded := True, active_list := Some PLIST\<rparr>) else find_node g y)"
proof -
  define g1 where "g1 = upd_node x (\<lambda>n. n\<lparr>expanded := True\<rparr>) g"
  have ok1: "graph_ok g1" unfolding g1_def by (rule graph_ok_upd_node [OF ok]) simp_all
  have arcs1: "arcs g1 = arcs g"
  proof -
    have "edges_of g1 = edges_of g" using n by (auto simp: fun_eq_iff g1_def edges_of_def)
    then show ?thesis by (simp add: arcs_def graph_edges_def)
  qed
  define g2 where "g2 = upd_node x (\<lambda>n. n\<lparr>active_list := None\<rparr>) (set_queue NODE_LIST (remove1 x (queue NODE_LIST g1)) g1)"
  have rm: "node_remove_list NODE_LIST x g1 = Some g2"
    using n by (simp add: node_remove_list_def g1_def g2_def)
  note ok2 = node_remove_list_ok [OF rm ok1]
  define g3 where "g3 = upd_node x (\<lambda>n. n\<lparr>active_list := Some PLIST\<rparr>) (set_queue PLIST (x # queue PLIST g2) g2)"
  have ins: "node_insert_head PLIST x g2 = Some g3"
    using n by (simp add: node_insert_head_def g1_def g2_def g3_def)
  note ok3 = node_insert_ok [OF disjI1 [OF ins]]
  show thesis
  proof (rule that [of g3])
    show "expand_node g x = (g3, True)"
      using rm ins by (simp add: expand_node_def g1_def)
    show "graph_ok g3" "arcs g3 = arcs g" using ok2 ok3 arcs1 by simp_all
    show "plist g3 = x # plist g" "same_hdr g g3"
      by (simp_all add: g3_def g2_def g1_def same_hdr_def)
    show "find_node g3 y = (if y = x then Some (n\<lparr>expanded := True, active_list := Some PLIST\<rparr>) else find_node g y)" for y
      using n by (simp add: g3_def g2_def g1_def)
  qed
qed

lemma create_pending:
  assumes "pending R P g" and "R (tnode_tupid tent) = Some tent" and "find_node g (tnode_tupid tent) = None"
  obtains g' where "create_node g tent = Some g'" and "pending R (insert (tnode_tupid tent) P) g'"
    and "ext {tnode_tupid tent} g g'" and "arcs g' = arcs g" and "find_node g' (tnode_tupid tent) = Some (new_node tent)"
    and "plist g' = plist g"
proof -
  let ?x = "tnode_tupid tent"
  obtain g' where g': "create_node g tent = Some g'"
    using assms(3) by (simp add: create_node_def)
  have hdr: "same_hdr g g'" "plist g' = plist g"
    using g' by (auto simp: create_node_def same_hdr_def split: if_splits)
  note c = create_node_ok [OF g' pending_ok [OF assms(1)]]
  have f: "find_node g' y = (if y = ?x then Some (new_node tent) else find_node g y)" for y
    using c by simp
  show thesis
  proof (rule that [OF g'])
    show "pending R (insert ?x P) g'"
      using assms c by (auto simp: pending_def node_fits_def new_node_def f split: if_splits)
    show "ext {?x} g g'" using assms(3) hdr by (auto simp: ext_def st_def f new_node_def)
    show "arcs g' = arcs g" "find_node g' ?x = Some (new_node tent)" "plist g' = plist g"
      using c f hdr by simp_all
  qed
qed

lemma expand_pending:
  assumes "pending R P g" and "x \<in> P"
  obtains g' where "expand_node g x = (g', True)" and "pending R (P - {x}) g'" and "ext {x} g g'"
    and "arcs g' = arcs g" and "plist g' = x # plist g"
proof -
  obtain n where n: "find_node g x = Some n" "active_list n = Some NODE_LIST" "n_state n = STATE_INITIALIZED"
    using assms unfolding pending_def node_fits_def by (metis option.exhaust)
  from expand_node_spec [OF pending_ok [OF assms(1)] n(1,2)] obtain g' where g':
    "expand_node g x = (g', True)" "graph_ok g'" "arcs g' = arcs g" "plist g' = x # plist g" "same_hdr g g'"
    "\<And>y. find_node g' y = (if y = x then Some (n\<lparr>expanded := True, active_list := Some PLIST\<rparr>) else find_node g y)"
    by metis
  show thesis
  proof (rule that [OF g'(1)])
    show "pending R (P - {x}) g'"
      using assms n g'(2) by (auto simp: pending_def node_fits_def g'(6) split: if_splits)
    show "ext {x} g g'"
      using n g'(4,5) by (auto simp: ext_def st_def g'(6))
  qed (use g' in auto)
qed

lemma find_or_create_pending:
  assumes "pending R P g" and "R (tnode_tupid tent) = Some tent"
  obtains g' Q where "find_or_create_node g tent = Some g'" and "pending R Q g'"
    and "Q = (if find_node g (tnode_tupid tent) = None then insert (tnode_tupid tent) P else P)"
    and "ext {tnode_tupid tent} g g'" and "arcs g' = arcs g" and "find_node g' (tnode_tupid tent) \<noteq> None"
proof (cases "find_node g (tnode_tupid tent)")
  case None
  from create_pending [OF assms(1,2) None] obtain g' where
    "create_node g tent = Some g'" "pending R (insert (tnode_tupid tent) P) g'" "ext {tnode_tupid tent} g g'"
    "arcs g' = arcs g" "find_node g' (tnode_tupid tent) = Some (new_node tent)" by metis
  with None that show thesis by (simp add: find_or_create_node_def)
next
  case (Some n)
  with assms that [of g P] show thesis by (auto simp: find_or_create_node_def)
qed

lemma expand_new_pending:
  assumes "pending R P g" and "find_node g x \<noteq> None"
  obtains g' where "expand_new g x = Some g'" and "pending R (P - {x}) g'" and "ext {x} g g'"
    and "arcs g' = arcs g"
proof (cases "x \<in> P")
  case True
  from expand_pending [OF assms(1) True] obtain g' where g': "expand_node g x = (g', True)"
    "pending R (P - {x}) g'" "ext {x} g g'" "arcs g' = arcs g" by metis
  moreover obtain n where "find_node g x = Some n" "\<not> expanded n"
    using assms True by (auto simp: pending_def node_fits_def)
  ultimately show thesis using that by (simp add: expand_new_def)
next
  case False
  then obtain n where "find_node g x = Some n" "expanded n"
    using assms by (auto simp: pending_def node_fits_def)
  then show thesis using that [of g] assms False by (simp add: expand_new_def)
qed

lemma edge_pending:
  assumes "pending R P g" and "find_node g a \<noteq> None" and "find_node g b \<noteq> None"
  shows "pending R P (create_edge a b s g)" and "ext C g (create_edge a b s g)"
    and "arcs (create_edge a b s g) = insert (a, b) (arcs g)"
proof -
  let ?g = "create_edge a b s g"
  have f: "map_option (\<lambda>n. (expanded n, active_list n, n_state n, n_tent n)) (find_node ?g x)
    = map_option (\<lambda>n. (expanded n, active_list n, n_state n, n_tent n)) (find_node g x)" for x
    by (simp add: create_edge_def Let_def option.map_comp comp_def)
  have "node_fits P x n \<and> (x \<noteq> 0 \<longrightarrow> R x = Some (n_tent n))" if n: "find_node ?g x = Some n" for x n
  proof -
    obtain m where "find_node g x = Some m" "expanded m = expanded n" "active_list m = active_list n"
      "n_state m = n_state n" "n_tent m = n_tent n"
      using f [of x] n by (cases "find_node g x") auto
    moreover from this have "node_fits P x m = node_fits P x n" by (simp add: node_fits_def)
    ultimately show ?thesis using assms(1) by (auto simp add: pending_def)
  qed
  moreover have some: "find_node ?g x = None \<longleftrightarrow> find_node g x = None" for x
    using create_edge_find(1) [of a b s g x] by (metis option.map_disc_iff)
  ultimately show "pending R P ?g"
    using create_edge_ok [OF pending_ok [OF assms(1)] assms(2,3)] assms(1) by (simp add: pending_def)
  show "ext C g ?g" by (simp add: ext_def same_hdr_def st_def some)
  show "arcs ?g = insert (a, b) (arcs g)"
    using create_edge_ok [OF pending_ok [OF assms(1)] assms(2,3)] by simp
qed

lemma upd_pending:
  assumes "pending R P g"
    and "\<And>n. active_list (f n) = active_list n" "\<And>n. n_tent (f n) = n_tent n"
    and "\<And>n. n_edges (f n) = n_edges n" "\<And>n. n_incoming (f n) = n_incoming n"
    and "\<And>n. n_state (f n) = n_state n" "\<And>n. expanded (f n) = expanded n"
  shows "pending R P (upd_node t f g)" and "ext C g (upd_node t f g)" and "arcs (upd_node t f g) = arcs g"
proof -
  have "graph_ok (upd_node t f g)"
    by (rule graph_ok_upd_node [OF pending_ok [OF assms(1)]]) (simp_all add: assms)
  moreover have "node_fits P x (f n) = node_fits P x n" for x n
    using assms by (simp add: node_fits_def)
  ultimately show "pending R P (upd_node t f g)"
    using assms by (auto simp: pending_def)
  show "ext C g (upd_node t f g)"
    using assms by (auto simp: ext_def same_hdr_def st_def option.map_comp comp_def)
  have "edges_of (upd_node t f g) = edges_of g"
    using assms by (auto simp: fun_eq_iff edges_of_def split: option.split)
  then show "arcs (upd_node t f g) = arcs g" by (simp add: arcs_def graph_edges_def)
qed

lemma counters_pending:
  assumes "pending R P g"
  shows "pending R P (g\<lparr>num_nodes := k, total_mtime := m\<rparr>)"
    and "ext C g (g\<lparr>num_nodes := k, total_mtime := m\<rparr>)" and "arcs (g\<lparr>num_nodes := k, total_mtime := m\<rparr>) = arcs g"
proof -
  have "graph_ok (g\<lparr>num_nodes := k, total_mtime := m\<rparr>)"
    by (rule graph_ok_more [OF pending_ok [OF assms]]) simp_all
  then show "pending R P (g\<lparr>num_nodes := k, total_mtime := m\<rparr>)"
    using assms by (simp add: pending_def)
  show "ext C g (g\<lparr>num_nodes := k, total_mtime := m\<rparr>)"
    by (simp add: ext_def same_hdr_def st_def)
  show "arcs (g\<lparr>num_nodes := k, total_mtime := m\<rparr>) = arcs g"
    by (simp add: arcs_def graph_edges_def edges_of_def)
qed

lemma count_node_pending:
  assumes "pending R P g"
  shows "pending R P (count_node g x n)" and "ext C g (count_node g x n)" and "arcs (count_node g x n) = arcs g"
proof -
  let ?u = "upd_node x (\<lambda>n. n\<lparr>counted := True\<rparr>) g"
  have u: "pending R P ?u" "ext C g ?u" "arcs ?u = arcs g"
    by (rule upd_pending [OF assms]; simp)+
  note c = counters_pending [OF u(1)]
  show "pending R P (count_node g x n)" using assms c by (simp add: count_node_def)
  show "ext C g (count_node g x n)" using ext_trans [OF u(2) c(2)] by (simp add: count_node_def)
  show "arcs (count_node g x n) = arcs g" using u(3) c(3) by (simp add: count_node_def)
qed

lemma ext_cur: "ext C g g' \<Longrightarrow> g_cur g' = g_cur g"
  by (simp add: ext_def same_hdr_def)

lemma make_edge_pending:
  assumes "pending R P g" and "find_node g (g_cur g) \<noteq> None" and "find_node g x \<noteq> None"
    and "st g x \<noteq> Some STATE_PROCESSING"
  obtains g' where "make_edge g x = Some g'" and "pending R (P - {x}) g'" and "ext {x} g g'"
    and "arcs g' = insert (g_cur g, x) (arcs g)"
proof -
  obtain n where n: "find_node g x = Some n" using assms(3) by auto
  define g1 where "g1 = (if \<not> expanded n then fst (expand_node (count_node g x n) x) else g)"
  have x: "x \<in> P \<longleftrightarrow> \<not> expanded n"
    using assms(1) n by (auto simp: pending_def node_fits_def split: if_splits)
  have g1: "pending R (P - {x}) g1 \<and> ext {x} g g1 \<and> arcs g1 = arcs g"
  proof (cases "x \<in> P")
    case True
    note c = count_node_pending [OF assms(1)]
    from expand_pending [OF c(1) True] obtain g' where "expand_node (count_node g x n) x = (g', True)"
      "pending R (P - {x}) g'" "ext {x} (count_node g x n) g'" "arcs g' = arcs (count_node g x n)" by metis
    with True x c show ?thesis using ext_trans [OF c(2)] by (simp add: g1_def)
  qed (use assms(1) x in \<open>simp add: g1_def\<close>)
  define g2 where "g2 = (if g_cur g1 = g_root g1 then upd_node x (\<lambda>n. n\<lparr>skip := False\<rparr>) g1 else g1)"
  have u: "pending R (P - {x}) (upd_node x (\<lambda>n. n\<lparr>skip := False\<rparr>) g1)"
    "ext {x} g1 (upd_node x (\<lambda>n. n\<lparr>skip := False\<rparr>) g1)"
    "arcs (upd_node x (\<lambda>n. n\<lparr>skip := False\<rparr>) g1) = arcs g1"
    by (rule upd_pending [OF conjunct1 [OF g1]]; simp)+
  then have g2: "pending R (P - {x}) g2" "ext {x} g g2" "arcs g2 = arcs g"
    using g1 ext_trans [of "{x}" g g1] by (auto simp: g2_def)
  have "find_node g2 (g_cur g2) \<noteq> None" "find_node g2 x \<noteq> None"
    using ext_find [OF g2(2)] assms(2,3) ext_cur [OF g2(2)] by simp_all
  note e = edge_pending [OF g2(1) this, where s = TUP_LINK_NORMAL]
  show thesis
  proof (rule that)
    show "make_edge g x = Some (create_edge (g_cur g2) x TUP_LINK_NORMAL g2)"
      using n assms(4) by (simp add: make_edge_def st_def Let_def g1_def g2_def)
    show "pending R (P - {x}) (create_edge (g_cur g2) x TUP_LINK_NORMAL g2)" by (rule e(1))
    show "ext {x} g (create_edge (g_cur g2) x TUP_LINK_NORMAL g2)"
      using ext_trans [OF g2(2)] e(2) by blast
    show "arcs (create_edge (g_cur g2) x TUP_LINK_NORMAL g2) = insert (g_cur g, x) (arcs g)"
      using e(3) g2 ext_cur [OF g2(2)] by simp
  qed
qed

section \<open>The callbacks\<close>

text \<open>
  A callback that the \<^verbatim>\<open>tup_db_select_node_by\<close> functions run on one element of their result:
  it enters the nodes \<open>keys e\<close>, adds the arcs \<open>new_arcs\<close> from the current node, and fails exactly
  when one of \<open>blocked e\<close> is being processed.
\<close>

definition row_entry :: "(tupid \<Rightarrow> tup_entry option) \<Rightarrow> tup_entry \<Rightarrow> bool" where
  "row_entry R e \<longleftrightarrow> tnode_tupid e \<noteq> 0 \<and> R (tnode_tupid e) = Some e"

definition processing :: "graph \<Rightarrow> tupid list \<Rightarrow> bool" where
  "processing g xs \<longleftrightarrow> (\<exists>x \<in> set xs. st g x = Some STATE_PROCESSING)"

definition entered :: "(tupid \<Rightarrow> tup_entry option) \<Rightarrow> tupid list \<Rightarrow> (tupid \<times> tupid) set \<Rightarrow> graph \<Rightarrow> graph \<Rightarrow> bool" where
  "entered R xs A g g' \<longleftrightarrow> pending R {0} g' \<and> ext (set xs) g g'
     \<and> (\<forall>x \<in> set xs. find_node g' x \<noteq> None) \<and> arcs g' = arcs g \<union> A"

lemma ext_processing: "ext C g g' \<Longrightarrow> processing g' xs \<longleftrightarrow> processing g xs"
  unfolding processing_def
  by (metis ext_new ext_old node_state.distinct(1) option.inject st_None option.distinct(1))

lemma entered_refl [simp]: "pending R {0} g \<Longrightarrow> entered R [] {} g g"
  by (simp add: entered_def)

lemma entered_trans:
  assumes "entered R xs A g g'" and "entered R ys B g' g''"
  shows "entered R (xs @ ys) (A \<union> B) g g''"
proof -
  have "ext (set (xs @ ys)) g g''"
    by (rule ext_trans [of _ _ g']) (use assms in \<open>auto simp: entered_def elim: ext_mono\<close>)
  then show ?thesis using assms ext_find [of "set ys" g' g''] by (auto simp: entered_def)
qed

locale visit_cb =
  fixes cb :: "'e \<Rightarrow> graph \<Rightarrow> graph option"
    and keys :: "'e \<Rightarrow> tupid list"
    and new_arcs :: "tupid \<Rightarrow> 'e \<Rightarrow> (tupid \<times> tupid) set"
    and blocked :: "'e \<Rightarrow> tupid list"
    and entries :: "'e \<Rightarrow> tup_entry list"
  assumes cb_law: "pending R {0} g \<Longrightarrow> find_node g (g_cur g) \<noteq> None \<Longrightarrow> list_all (row_entry R) (entries e) \<Longrightarrow>
    (if processing g (blocked e) then cb e g = None
     else (\<exists>g'. cb e g = Some g' \<and> entered R (keys e) (new_arcs (g_cur g) e) g g'))"
begin

lemma for_each_law:
  assumes "pending R {0} g" and "find_node g (g_cur g) \<noteq> None"
    and "list_all (\<lambda>e. list_all (row_entry R) (entries e)) es"
  shows "if processing g (concat (map blocked es)) then for_each cb es g = None
     else (\<exists>g'. for_each cb es g = Some g'
            \<and> entered R (concat (map keys es)) (\<Union>e \<in> set es. new_arcs (g_cur g) e) g g')"
  using assms
proof (induction es arbitrary: g)
  case Nil
  then show ?case by (simp add: processing_def)
next
  case (Cons e es)
  have valid: "list_all (row_entry R) (entries e)" using Cons.prems(3) by simp
  note law = cb_law [OF Cons.prems(1,2) valid]
  have split: "processing g (concat (map blocked (e # es))) \<longleftrightarrow>
      processing g (blocked e) \<or> processing g (concat (map blocked es))"
    by (auto simp: processing_def)
  show ?case
  proof (cases "processing g (blocked e)")
    case True
    with law split show ?thesis by simp
  next
    case False
    with law obtain g' where g': "cb e g = Some g'" "entered R (keys e) (new_arcs (g_cur g) e) g g'"
      by auto
    then have p: "pending R {0} g'" and x: "ext (set (keys e)) g g'" by (simp_all add: entered_def)
    have cur: "g_cur g' = g_cur g" by (rule ext_cur [OF x])
    have "find_node g' (g_cur g') \<noteq> None" using ext_find [OF x Cons.prems(2)] cur by simp
    note ih = Cons.IH [OF p this] and pr = ext_processing [OF x]
    show ?thesis
    proof (cases "processing g (concat (map blocked es))")
      case True
      with ih pr g'(1) Cons.prems(3) split show ?thesis by simp
    next
      case F2: False
      then obtain g'' where "for_each cb es g' = Some g''"
        "entered R (concat (map keys es)) (\<Union>e \<in> set es. new_arcs (g_cur g) e) g' g''"
        using ih pr Cons.prems(3) cur by auto
      with g' False F2 split entered_trans [OF g'(2)] show ?thesis by fastforce
    qed
  qed
qed

end

lemma enter_one:
  assumes "pending R P g" and "R (tnode_tupid tent) = Some tent"
  obtains g1 g2 where "find_or_create_node g tent = Some g1" and "expand_new g1 (tnode_tupid tent) = Some g2"
    and "pending R (P - {tnode_tupid tent}) g2" and "ext {tnode_tupid tent} g g2" and "arcs g2 = arcs g"
    and "find_node g2 (tnode_tupid tent) \<noteq> None"
proof -
  let ?x = "tnode_tupid tent"
  from find_or_create_pending [OF assms] obtain g1 Q where 1: "find_or_create_node g tent = Some g1"
    "pending R Q g1" "Q = (if find_node g ?x = None then insert ?x P else P)" "ext {?x} g g1"
    "arcs g1 = arcs g" "find_node g1 ?x \<noteq> None" by metis
  from expand_new_pending [OF 1(2,6)] obtain g2 where 2: "expand_new g1 ?x = Some g2"
    "pending R (Q - {?x}) g2" "ext {?x} g1 g2" "arcs g2 = arcs g1" by metis
  have "Q - {?x} = P - {?x}" using 1(3) by auto
  with 1 2 show thesis
    using that ext_trans [OF 1(4) 2(3)] ext_find [OF 2(3) 1(6)] by simp
qed

interpretation link_cb: visit_cb build_graph_cb "\<lambda>e. [tnode_tupid e]" "\<lambda>c e. {(c, tnode_tupid e)}"
  "\<lambda>e. [tnode_tupid e]" "\<lambda>e. [e]"
proof unfold_locales
  fix R g and e :: tup_entry
  assume a: "pending R {0} g" "find_node g (g_cur g) \<noteq> None" "list_all (row_entry R) [e]"
  let ?x = "tnode_tupid e"
  from a(3) have e: "R ?x = Some e" "?x \<noteq> 0" by (simp_all add: row_entry_def)
  from find_or_create_pending [OF a(1) e(1)] obtain g1 Q where 1: "find_or_create_node g e = Some g1"
    "pending R Q g1" "Q = (if find_node g ?x = None then insert ?x {0} else {0})" "ext {?x} g g1"
    "arcs g1 = arcs g" "find_node g1 ?x \<noteq> None" by metis
  have cb: "build_graph_cb e g = make_edge g1 ?x"
    using 1(1) by (auto simp: build_graph_cb_def find_or_create_node_def split: option.splits)
  have pr: "processing g [?x] \<longleftrightarrow> st g1 ?x = Some STATE_PROCESSING"
    using ext_processing [OF 1(4), of "[?x]"] by (simp add: processing_def)
  show "if processing g [?x] then build_graph_cb e g = None
     else \<exists>g'. build_graph_cb e g = Some g' \<and> entered R [?x] {(g_cur g, ?x)} g g'"
  proof (cases "processing g [?x]")
    case True
    then show ?thesis using pr 1(6) by (auto simp: cb make_edge_def st_def)
  next
    case False
    have "find_node g1 (g_cur g1) \<noteq> None" using ext_find [OF 1(4) a(2)] ext_cur [OF 1(4)] by simp
    from make_edge_pending [OF 1(2) this 1(6)] False pr obtain g' where g': "make_edge g1 ?x = Some g'"
      "pending R (Q - {?x}) g'" "ext {?x} g1 g'" "arcs g' = insert (g_cur g1, ?x) (arcs g1)" by metis
    have "Q - {?x} = {0}" using 1(3) e(2) by auto
    with False g' show ?thesis
      using ext_trans [OF 1(4) g'(3)] ext_find [OF g'(3) 1(6)] 1(5) ext_cur [OF 1(4)]
      by (simp add: cb entered_def)
  qed
qed

interpretation group_user_cb: visit_cb build_graph_group_cb "\<lambda>e. [tnode_tupid e]"
  "\<lambda>c e. {(c, tnode_tupid e)}" "\<lambda>e. []" "\<lambda>e. [e]"
proof unfold_locales
  fix R g and e :: tup_entry
  assume a: "pending R {0} g" "find_node g (g_cur g) \<noteq> None" "list_all (row_entry R) [e]"
  let ?x = "tnode_tupid e"
  from a(3) have e: "R ?x = Some e" "?x \<noteq> 0" by (simp_all add: row_entry_def)
  from enter_one [OF a(1) e(1)] obtain g1 g2 where 1: "find_or_create_node g e = Some g1"
    "expand_new g1 ?x = Some g2" "pending R ({0} - {?x}) g2" "ext {?x} g g2" "arcs g2 = arcs g"
    "find_node g2 ?x \<noteq> None" by metis
  have "find_node g2 (g_cur g2) \<noteq> None" using ext_find [OF 1(4) a(2)] ext_cur [OF 1(4)] by simp
  note ed = edge_pending [OF 1(3) this 1(6), where s = TUP_LINK_NORMAL]
  let ?g' = "create_edge (g_cur g2) ?x TUP_LINK_NORMAL g2"
  have "build_graph_group_cb e g = Some ?g'"
    using 1 by (simp add: build_graph_group_cb_def)
  moreover have "entered R [?x] {(g_cur g, ?x)} g ?g'"
    using ed(1,3) ext_trans [OF 1(4) ed(2)] ext_find [OF ed(2) 1(6)] 1(5) ext_cur [OF 1(4)] e(2)
    by (simp add: entered_def)
  ultimately show "if processing g [] then build_graph_group_cb e g = None
     else \<exists>g'. build_graph_group_cb e g = Some g' \<and> entered R [?x] {(g_cur g, ?x)} g g'"
    by (simp add: processing_def)
qed

interpretation group_pair_cb: visit_cb "\<lambda>(tent, cmdtent). build_group_cb tent cmdtent"
  "\<lambda>(tent, cmdtent). [tnode_tupid tent, tnode_tupid cmdtent]"
  "\<lambda>c (tent, cmdtent). {(c, tnode_tupid cmdtent), (tnode_tupid cmdtent, tnode_tupid tent)}"
  "\<lambda>e. []" "\<lambda>(tent, cmdtent). [tent, cmdtent]"
proof unfold_locales
  fix R g and e :: "tup_entry \<times> tup_entry"
  obtain tent cmd where [simp]: "e = (tent, cmd)" by (cases e)
  let ?t = "tnode_tupid tent" and ?c = "tnode_tupid cmd"
  assume a: "pending R {0} g" "find_node g (g_cur g) \<noteq> None"
    and "list_all (row_entry R) (case e of (tent, cmdtent) \<Rightarrow> [tent, cmdtent])"
  then have t: "R ?t = Some tent" "?t \<noteq> 0" and c: "R ?c = Some cmd" "?c \<noteq> 0"
    by (simp_all add: row_entry_def)
  from find_or_create_pending [OF a(1) t(1)] obtain g1 P1 where 1: "find_or_create_node g tent = Some g1"
    "pending R P1 g1" "P1 = (if find_node g ?t = None then insert ?t {0} else {0})" "ext {?t} g g1"
    "arcs g1 = arcs g" "find_node g1 ?t \<noteq> None" by metis
  from find_or_create_pending [OF 1(2) c(1)] obtain g2 P2 where 2: "find_or_create_node g1 cmd = Some g2"
    "pending R P2 g2" "P2 = (if find_node g1 ?c = None then insert ?c P1 else P1)" "ext {?c} g1 g2"
    "arcs g2 = arcs g1" "find_node g2 ?c \<noteq> None" by metis
  from expand_new_pending [OF 2(2) ext_find [OF 2(4) 1(6)]] obtain g3 where 3: "expand_new g2 ?t = Some g3"
    "pending R (P2 - {?t}) g3" "ext {?t} g2 g3" "arcs g3 = arcs g2" by metis
  from expand_new_pending [OF 3(2) ext_find [OF 3(3) 2(6)]] obtain g4 where 4: "expand_new g3 ?c = Some g4"
    "pending R (P2 - {?t} - {?c}) g4" "ext {?c} g3 g4" "arcs g4 = arcs g3" by metis
  let ?K = "{?t, ?c}"
  have "ext ?K g g1" "ext ?K g1 g2" "ext ?K g2 g3" "ext ?K g3 g4"
    using 1(4) 2(4) 3(3) 4(3) by (auto elim: ext_mono)
  then have x4: "ext ?K g g4" using ext_trans by meson
  have P: "P2 - {?t} - {?c} = {0}" using 1(3) 2(3) t(2) c(2) by auto
  have f4: "find_node g4 (g_cur g4) \<noteq> None" "find_node g4 ?t \<noteq> None" "find_node g4 ?c \<noteq> None"
    using ext_find [OF x4 a(2)] ext_cur [OF x4] ext_find [OF 4(3) ext_find [OF 3(3) ext_find [OF 2(4) 1(6)]]]
      ext_find [OF 4(3) ext_find [OF 3(3) 2(6)]] by simp_all
  define g5 where "g5 = create_edge (g_cur g4) ?c TUP_LINK_NORMAL g4"
  note e5 = edge_pending [OF 4(2) f4(1,3), where s = TUP_LINK_NORMAL, folded g5_def]
  have f5: "find_node g5 ?c \<noteq> None" "find_node g5 ?t \<noteq> None"
    using ext_find [OF e5(2)] f4 by simp_all
  define g6 where "g6 = create_edge ?c ?t TUP_LINK_NORMAL g5"
  note e6 = edge_pending [OF e5(1) f5, where s = TUP_LINK_NORMAL, folded g6_def]
  have "build_group_cb tent cmd g = Some g6"
    using 1(1) 2(1) 3(1) 4(1) by (simp add: build_group_cb_def g5_def g6_def)
  moreover have "entered R [?t, ?c] {(g_cur g, ?c), (?c, ?t)} g g6"
    using e6(1,3) e5(3) P ext_trans [OF ext_trans [OF x4 e5(2)] e6(2)] ext_find [OF e6(2)] f5
      ext_cur [OF x4] 1(5) 2(5) 3(4) 4(4) by (auto simp: entered_def)
  ultimately show "if processing g [] then (case e of (tent, cmdtent) \<Rightarrow> build_group_cb tent cmdtent) g = None
     else \<exists>g'. (case e of (tent, cmdtent) \<Rightarrow> build_group_cb tent cmdtent) g = Some g' \<and>
       entered R (case e of (tent, cmdtent) \<Rightarrow> [tnode_tupid tent, tnode_tupid cmdtent])
         (case e of (tent, cmdtent) \<Rightarrow> {(g_cur g, tnode_tupid cmdtent), (tnode_tupid cmdtent, tnode_tupid tent)}) g g'"
    by (simp add: processing_def)
qed

interpretation file_cb: visit_cb add_file_cb "\<lambda>e. [tnode_tupid e]" "\<lambda>c e. {(c, tnode_tupid e)}"
  "\<lambda>e. [tnode_tupid e]" "\<lambda>e. [e]"
proof unfold_locales
  fix R g and e :: tup_entry
  assume a: "pending R {0} g" "find_node g (g_cur g) \<noteq> None" "list_all (row_entry R) [e]"
  let ?x = "tnode_tupid e"
  from a(3) have e: "R ?x = Some e" "?x \<noteq> 0" by (simp_all add: row_entry_def)
  from enter_one [OF a(1) e(1)] obtain g1 g2 where 1: "find_or_create_node g e = Some g1"
    "expand_new g1 ?x = Some g2" "pending R ({0} - {?x}) g2" "ext {?x} g g2" "arcs g2 = arcs g"
    "find_node g2 ?x \<noteq> None" by metis
  from find_or_create_pending [OF a(1) e(1)] 1(1) have g1: "ext {?x} g g1" "find_node g1 ?x \<noteq> None"
    by (metis option.inject)+
  then obtain n where n: "find_node g1 ?x = Some n" by auto
  have pr: "processing g [?x] \<longleftrightarrow> n_state n = STATE_PROCESSING"
    using ext_processing [OF g1(1), of "[?x]"] n by (simp add: processing_def st_def)
  have "find_node g2 (g_cur g2) \<noteq> None" using ext_find [OF 1(4) a(2)] ext_cur [OF 1(4)] by simp
  note ed = edge_pending [OF 1(3) this 1(6), where s = TUP_LINK_NORMAL]
  let ?g' = "create_edge (g_cur g2) ?x TUP_LINK_NORMAL g2"
  have "entered R [?x] {(g_cur g, ?x)} g ?g'"
    using ed(1,3) ext_trans [OF 1(4) ed(2)] ext_find [OF ed(2) 1(6)] 1(5) ext_cur [OF 1(4)] e(2)
    by (simp add: entered_def)
  then show "if processing g [?x] then add_file_cb e g = None
     else \<exists>g'. add_file_cb e g = Some g' \<and> entered R [?x] {(g_cur g, ?x)} g g'"
    using 1(1,2) n pr by (simp add: add_file_cb_def)
qed

section \<open>Rows of the node table\<close>

lemma find_rows_ids: "find_rows d ts = Some es \<Longrightarrow> list_all2 (\<lambda>t e. map_of (node_tbl d) t = Some e) ts es"
  by (induction ts arbitrary: es)
     (auto simp: tup_entry_find_row_def split: Option.bind_splits if_splits)

lemma for_each_id_rows:
  "for_each_id d cb ts s = (case find_rows d ts of Some es \<Rightarrow> for_each cb es s | None \<Rightarrow> None) \<or>
   find_rows d ts = None"
  by (induction ts arbitrary: s) (auto split: Option.bind_splits option.splits)

lemma for_each_id_None: "find_rows d ts = None \<Longrightarrow> for_each_id d cb ts s = None"
  by (induction ts arbitrary: s) (auto split: Option.bind_splits)

fun find_row_pairs :: "db \<Rightarrow> (tupid \<times> tupid) list \<Rightarrow> (tup_entry \<times> tup_entry) list option" where
  "find_row_pairs d [] = Some []"
| "find_row_pairs d ((a, b) # ps) = do {
     e \<leftarrow> tup_entry_find_row d a; f \<leftarrow> tup_entry_find_row d b; es \<leftarrow> find_row_pairs d ps;
     Some ((e, f) # es)}"

lemma for_each_pair_rows:
  "for_each_pair d cb ps s = (case find_row_pairs d ps of
     Some es \<Rightarrow> for_each (\<lambda>(a, b). cb a b) es s | None \<Rightarrow> None)"
  by (induction d ps arbitrary: s rule: find_row_pairs.induct)
     (auto split: Option.bind_splits option.splits)

end
