(* ===== verification/Graph_Walk.thy ===== *)
theory Graph_Walk
  imports Graph_Build
begin

text \<open>
  The depth-first loop of \<^verbatim>\<open>build_graph\<close> (\<open>build_loop\<close>): it ends, its nodes are exactly what
  the links reach, its edges are the links, and without a cycle it reports none.
\<close>

section \<open>State changes of a node\<close>

lemma set_state_find [simp]:
  "find_node (set_state t s g) x = (if x = t then map_option (\<lambda>n. n\<lparr>n_state := s\<rparr>) (find_node g t) else find_node g x)"
  by (simp add: set_state_def)

lemma set_state_arcs [simp]: "arcs (set_state t s g) = arcs g"
proof -
  have "edges_of (set_state t s g) = edges_of g"
    by (auto simp: fun_eq_iff set_state_def edges_of_def split: option.split)
  then show ?thesis by (simp add: arcs_def graph_edges_def)
qed

lemma set_state_fields [simp]:
  "plist (set_state t s g) = plist g" "node_list (set_state t s g) = node_list g"
  "same_hdr g (set_state t s g)"
  by (simp_all add: set_state_def same_hdr_def)

lemma st_set_state [simp]:
  "st (set_state t s g) x = (if x = t \<and> find_node g t \<noteq> None then Some s else st g x)"
  by (auto simp: st_def)

lemma set_state_ok: "graph_ok g \<Longrightarrow> graph_ok (set_state t s g)"
  unfolding set_state_def by (rule graph_ok_upd_node) simp_all

lemma on_plist:
  assumes "pending R P g" and "x \<in> set (plist g)"
  obtains n where "find_node g x = Some n" and "active_list n = Some PLIST" and "x \<notin> P"
    and "n_state n = STATE_INITIALIZED \<or> n_state n = STATE_PROCESSING" and "expanded n"
proof -
  have "map_option active_list (find_node g x) = Some (Some PLIST)"
    using assms queues_okD(2) [of g x PLIST] by (simp add: pending_def graph_ok_def)
  then obtain n where n: "find_node g x = Some n" "active_list n = Some PLIST" by auto
  moreover have "node_fits P x n" using assms(1) n by (simp add: pending_def)
  ultimately show thesis using that by (auto simp: node_fits_def split: if_splits)
qed

lemma pending_change:
  assumes "pending R P g" and "graph_ok g'" and "find_node g t = Some n"
    and "\<And>x. find_node g' x = (if x = t then Some n' else find_node g x)"
    and "node_fits P t n'" and "n_tent n' = n_tent n"
  shows "pending R P g'"
  using assms by (simp add: pending_def)

lemma set_processing_pending:
  assumes "pending R P g" and "t \<in> set (plist g)"
  shows "pending R P (set_state t STATE_PROCESSING g)"
proof -
  from on_plist [OF assms] obtain n where n: "find_node g t = Some n" "active_list n = Some PLIST" "t \<notin> P" "expanded n"
    by metis
  moreover have "graph_ok (set_state t STATE_PROCESSING g)"
    using assms(1) by (simp add: pending_def set_state_ok)
  ultimately show ?thesis
    by (intro pending_change [OF assms(1), of _ t n "n\<lparr>n_state := STATE_PROCESSING\<rparr>"])
       (simp_all add: node_fits_def)
qed

lemma finish_node_pending:
  assumes "pending R P g" and "plist g = t # ts"
  obtains g' where "finish_node g t = Some g'" and "pending R P g'" and "plist g' = ts"
    and "same_hdr g g'" and "arcs g' = arcs g" and "\<And>x. find_node g' x = None \<longleftrightarrow> find_node g x = None"
    and "\<And>x. st g' x = (if x = t then Some STATE_FINISHED else st g x)"
proof -
  have t: "t \<in> set (plist g)" using assms(2) by simp
  from on_plist [OF assms(1) t] obtain n where n: "find_node g t = Some n" "active_list n = Some PLIST" "t \<notin> P" "expanded n"
    by metis
  define g1 where "g1 = upd_node t (\<lambda>n. n\<lparr>active_list := None\<rparr>) (set_queue PLIST (remove1 t (queue PLIST g)) g)"
  have rm: "node_remove_list PLIST t g = Some g1"
    using n by (simp add: node_remove_list_def g1_def)
  note ok1 = node_remove_list_ok [OF rm pending_ok [OF assms(1)]]
  define g2 where "g2 = upd_node t (\<lambda>n. n\<lparr>active_list := Some NODE_LIST\<rparr>) (set_queue NODE_LIST (queue NODE_LIST g1 @ [t]) g1)"
  have ins: "node_insert_tail NODE_LIST t g1 = Some g2"
    using n by (simp add: node_insert_tail_def g1_def g2_def)
  note ok2 = node_insert_ok [OF disjI2 [OF ins]]
  define g3 where "g3 = set_state t STATE_FINISHED g2"
  have f: "find_node g3 x = (if x = t then Some (n\<lparr>active_list := Some NODE_LIST, n_state := STATE_FINISHED\<rparr>) else find_node g x)" for x
    using n by (simp add: g3_def g2_def g1_def)
  show thesis
  proof (rule that)
    show "finish_node g t = Some g3" using rm ins by (simp add: finish_node_def g3_def)
    have "graph_ok g3" using ok1 ok2 by (simp add: g3_def set_state_ok)
    then show "pending R P g3"
      using n by (intro pending_change [OF assms(1) _ n(1) f]) (simp_all add: node_fits_def)
    show "plist g3 = ts" using assms(2) by (simp add: g3_def g2_def g1_def)
    show "same_hdr g g3" by (simp add: g3_def g2_def g1_def same_hdr_def set_state_def)
    show "arcs g3 = arcs g" using ok1 ok2 by (simp add: g3_def)
    show "find_node g3 x = None \<longleftrightarrow> find_node g x = None" for x using n by (simp add: f)
    show "st g3 x = (if x = t then Some STATE_FINISHED else st g x)" for x by (simp add: st_def f)
  qed
qed

lemma pending_cur: "pending R P g \<Longrightarrow> pending R P (g\<lparr>g_cur := c\<rparr>)"
  by (auto simp: pending_def intro: graph_ok_more)

lemma arcs_cur [simp]: "arcs (g\<lparr>g_cur := c\<rparr>) = arcs g"
  by (simp add: arcs_def graph_edges_def edges_of_def)

lemma st_cur [simp]: "st (g\<lparr>g_cur := c\<rparr>) = st g"
  by (simp add: st_def fun_eq_iff)

section \<open>Nodes, weight and the walk invariant\<close>

abbreviation row :: "db \<Rightarrow> tupid \<Rightarrow> tup_entry option" where
  "row d \<equiv> map_of (node_tbl d)"

definition nodes :: "graph \<Rightarrow> tupid set" where
  "nodes g = {x. x \<noteq> 0 \<and> find_node g x \<noteq> None}"

definition hdr :: "graph \<Rightarrow> tupid \<times> tup_link_type \<times> tup_node_type \<times> tent_entries" where
  "hdr g = (g_root g, g_style g, count_flags g, transient_root g)"

lemma hdr_same: "same_hdr g g' \<Longrightarrow> hdr g' = hdr g"
  by (simp add: same_hdr_def hdr_def)

lemma hdr_cur [simp]: "hdr (g\<lparr>g_cur := c\<rparr>) = hdr g"
  by (simp add: hdr_def)

text \<open>A graph whose nodes, the root apart, all wait on \<open>plist\<close>.\<close>

definition fresh_graph :: "db \<Rightarrow> graph \<Rightarrow> bool" where
  "fresh_graph d g \<longleftrightarrow> nodes_ok d \<and> pending (row d) {0} g
     \<and> (\<forall>x \<in> nodes g. st g x = Some STATE_INITIALIZED)"

definition weight :: "graph \<Rightarrow> tupid \<Rightarrow> nat" where
  "weight g x = (case st g x of
     None \<Rightarrow> 2 | Some STATE_INITIALIZED \<Rightarrow> 2 | Some STATE_PROCESSING \<Rightarrow> 1 | Some _ \<Rightarrow> 0)"

definition work :: "db \<Rightarrow> graph \<Rightarrow> nat" where
  "work d g = sum (weight g) (set (om_keys (node_tbl d)))"

lemma nodes_rows:
  assumes "pending (row d) {0} g" and "x \<in> nodes g"
  shows "x \<in> set (om_keys (node_tbl d))"
proof -
  obtain n where "find_node g x = Some n" "x \<noteq> 0" using assms(2) by (auto simp: nodes_def)
  then have "row d x = Some (n_tent n)" using assms(1) by (simp add: pending_def)
  then show ?thesis using map_of_None_keys [of "node_tbl d" x] by auto
qed

lemma processing_on_plist:
  assumes "pending R P g" and "st g p = Some STATE_PROCESSING"
  shows "p \<in> set (plist g)"
proof -
  obtain n where n: "find_node g p = Some n" "n_state n = STATE_PROCESSING"
    using assms(2) by (auto simp: st_def)
  then have "node_fits P p n" using assms(1) by (simp add: pending_def)
  then have "active_list n = Some PLIST" using n(2) by (auto simp: node_fits_def split: if_splits)
  then show ?thesis
    using assms(1) n(1) queues_okD(2) [of g p PLIST] by (simp add: pending_def graph_ok_def)
qed

lemma work_less:
  assumes "t \<in> set (om_keys (node_tbl d))" and "weight g' t < weight g t"
    and "\<And>x. x \<noteq> t \<Longrightarrow> weight g' x = weight g x"
  shows "work d g' < work d g"
proof -
  have "sum (weight g') (set (om_keys (node_tbl d)) - {t}) = sum (weight g) (set (om_keys (node_tbl d)) - {t})"
    by (rule sum.cong) (use assms(3) in auto)
  then show ?thesis
    using assms(1,2) by (simp add: work_def sum.remove [of _ t])
qed

lemma ext_weight: "ext C g g' \<Longrightarrow> weight g' x = weight g x"
proof (cases "find_node g x = None")
  case True
  assume x: "ext C g g'"
  have "weight g x = 2" using True by (simp add: weight_def st_def)
  moreover have "weight g' x = 2"
    using ext_new [OF x True] by (cases "find_node g' x") (auto simp: weight_def st_def)
  ultimately show ?thesis by simp
qed (simp add: weight_def ext_old)

locale dep_walk =
  fixes deps :: "db \<Rightarrow> (tupid \<times> tupid) set"
    and dep_arcs :: "db \<Rightarrow> tupid \<Rightarrow> (tupid \<times> tupid) set"
    and blk :: "db \<Rightarrow> tupid \<Rightarrow> tupid set"
    and runs :: "db \<Rightarrow> bool"
    and mode :: "tup_link_type \<Rightarrow> bool"
  assumes blk_deps: "blk d t \<subseteq> deps d `` {t}"
    and visit_some: "nodes_ok d \<Longrightarrow> mode (g_style g) \<Longrightarrow> pending (row d) {0} g \<Longrightarrow> t \<in> nodes g \<Longrightarrow> g_cur g = t \<Longrightarrow>
      find_deps d g t = Some g' \<Longrightarrow> \<exists>xs. entered (row d) xs (dep_arcs d t) g g' \<and> set xs = deps d `` {t} \<and> 0 \<notin> set xs"
    and visit_runs: "nodes_ok d \<Longrightarrow> mode (g_style g) \<Longrightarrow> pending (row d) {0} g \<Longrightarrow> t \<in> nodes g \<Longrightarrow> g_cur g = t \<Longrightarrow>
      runs d \<Longrightarrow> \<forall>x \<in> blk d t. st g x \<noteq> Some STATE_PROCESSING \<Longrightarrow> find_deps d g t \<noteq> None"
begin

definition seen :: "graph \<Rightarrow> tupid set" where
  "seen g = {x \<in> nodes g. st g x \<noteq> Some STATE_INITIALIZED}"

text \<open>\<open>g0\<close> is the graph the walk starts from.\<close>

definition walk_inv :: "db \<Rightarrow> graph \<Rightarrow> graph \<Rightarrow> bool" where
  "walk_inv d g0 g \<longleftrightarrow> nodes_ok d \<and> mode (g_style g) \<and> pending (row d) {0} g
     \<and> hdr g = hdr g0 \<and> nodes g0 \<subseteq> nodes g \<and> nodes g \<subseteq> (deps d)\<^sup>* `` nodes g0
     \<and> deps d `` seen g \<subseteq> nodes g
     \<and> arcs g = arcs g0 \<union> (\<Union>x \<in> seen g. dep_arcs d x)
     \<and> (\<forall>xs p ys. plist g = xs @ p # ys \<longrightarrow> st g p = Some STATE_PROCESSING
           \<longrightarrow> set xs \<subseteq> (deps d)\<^sup>+ `` {p})"

lemma walk_start:
  assumes s: "fresh_graph d g" and m: "mode (g_style g)"
  shows "walk_inv d g g"
proof -
  have "seen g = {}" using s by (auto simp: fresh_graph_def seen_def)
  moreover have "st g p = Some STATE_INITIALIZED" if "p \<in> set (plist g)" for p
  proof -
    have "pending (row d) {0} g" using s by (simp add: fresh_graph_def)
    from on_plist [OF this that] have "p \<in> nodes g" by (auto simp: nodes_def)
    then show ?thesis using s by (simp add: fresh_graph_def)
  qed
  ultimately show ?thesis
    using s m by (auto simp: walk_inv_def fresh_graph_def)
qed

lemma head_node:
  assumes "walk_inv d g0 g" and "plist g = t # ts"
  obtains n where "find_node g t = Some n" and "t \<in> nodes g"
    and "n_state n = STATE_INITIALIZED \<or> n_state n = STATE_PROCESSING"
proof -
  have "t \<in> set (plist g)" "pending (row d) {0} g" using assms by (simp_all add: walk_inv_def)
  from on_plist [OF this(2,1)] show thesis using that by (auto simp: nodes_def)
qed

lemma visit_step:
  assumes inv: "walk_inv d g0 g" and pl: "plist g = t # ts" and init: "st g t = Some STATE_INITIALIZED"
    and g1: "find_deps d (g\<lparr>g_cur := t\<rparr>) t = Some g1"
  shows "walk_inv d g0 (set_state t STATE_PROCESSING g1)"
    and "work d (set_state t STATE_PROCESSING g1) < work d g"
proof -
  let ?g = "g\<lparr>g_cur := t\<rparr>" and ?g' = "set_state t STATE_PROCESSING g1"
  from inv have ok: "nodes_ok d" "mode (g_style g)" "pending (row d) {0} g" by (simp_all add: walk_inv_def)
  from head_node [OF inv pl] have tn: "t \<in> nodes g" by auto
  have m: "mode (g_style ?g)" using ok(2) by simp
  from visit_some [OF ok(1) m pending_cur [OF ok(3)] _ _ g1] tn obtain xs where
    xs: "entered (row d) xs (dep_arcs d t) ?g g1" "set xs = deps d `` {t}" and x0: "0 \<notin> set xs"
    by (auto simp: nodes_def)
  have p1: "pending (row d) {0} g1" and x1: "ext (set xs) ?g g1" and a1: "arcs g1 = arcs g \<union> dep_arcs d t"
    and e1: "\<forall>x \<in> set xs. find_node g1 x \<noteq> None"
    using xs(1) by (simp_all add: entered_def)
  obtain new where new: "plist g1 = new @ t # ts" "set new \<subseteq> set xs"
    using x1 pl by (auto simp: ext_def)
  have keep: "find_node g x \<noteq> None \<Longrightarrow> find_node g1 x \<noteq> None \<and> st g1 x = st g x" for x
    using ext_find [OF x1, of x] ext_old [OF x1, of x] by simp
  have fresh: "find_node g x = None \<Longrightarrow> find_node g1 x \<noteq> None \<Longrightarrow> st g1 x = Some STATE_INITIALIZED \<and> x \<in> set xs" for x
    using ext_new [OF x1, of x] by simp
  have mem: "find_node g1 x \<noteq> None \<longleftrightarrow> find_node g x \<noteq> None \<or> x \<in> set xs" for x
    using keep fresh e1 by blast
  have nodes1: "nodes ?g' = nodes g \<union> set xs"
    using mem x0 tn by (auto simp: nodes_def)
  have st1: "x \<in> nodes g \<union> set xs \<Longrightarrow> st g1 x = (if x \<in> nodes g then st g x else Some STATE_INITIALIZED)" for x
    using keep [of x] fresh [of x] mem [of x] x0 by (auto simp: nodes_def)
  have seen1: "seen ?g' = insert t (seen g)"
  proof -
    have "find_node g1 t \<noteq> None" using keep [of t] tn by (simp add: nodes_def)
    then show ?thesis using tn unfolding seen_def nodes1 by (auto simp: st1 split: if_splits)
  qed
  show "walk_inv d g0 ?g'"
    unfolding walk_inv_def
  proof (intro conjI allI impI)
    show "hdr ?g' = hdr g0"
      using inv x1 hdr_same [of ?g g1] hdr_same [of g1 ?g'] by (simp add: walk_inv_def ext_def)
    show "nodes_ok d" "mode (g_style ?g')" using ok x1 by (auto simp: ext_def same_hdr_def set_state_def)
    show "pending (row d) {0} ?g'"
      by (rule set_processing_pending [OF p1]) (simp add: new)
    show "nodes g0 \<subseteq> nodes ?g'" using inv nodes1 by (auto simp: walk_inv_def)
    have "t \<in> (deps d)\<^sup>* `` nodes g0" using tn inv by (auto simp: walk_inv_def)
    then have "set xs \<subseteq> (deps d)\<^sup>* `` nodes g0"
      unfolding xs(2) by (blast intro: rtrancl_into_rtrancl)
    then show "nodes ?g' \<subseteq> (deps d)\<^sup>* `` nodes g0" using inv nodes1 by (simp add: walk_inv_def)
    show "deps d `` seen ?g' \<subseteq> nodes ?g'"
      using inv xs(2) seen1 nodes1 by (auto simp: walk_inv_def)
    show "arcs ?g' = arcs g0 \<union> (\<Union>x \<in> seen ?g'. dep_arcs d x)"
      using inv a1 seen1 by (auto simp: walk_inv_def)
    fix ys p zs
    assume split: "plist ?g' = ys @ p # zs" and pr: "st ?g' p = Some STATE_PROCESSING"
    have dist: "distinct (plist g1)"
      using p1 queues_okD(1) [of g1 PLIST] by (simp add: pending_def graph_ok_def)
    show "set ys \<subseteq> (deps d)\<^sup>+ `` {p}"
    proof (cases "p = t")
      case True
      have "t \<notin> set new" "t \<notin> set ts" using dist new(1) by simp_all
      then have "ys = new" using split new(1) True append_Cons_eq_iff [of t new ts ys zs] by simp
      then show ?thesis using True new(2) xs(2) by auto
    next
      case False
      then have "st g1 p = Some STATE_PROCESSING" using pr by (simp split: if_splits)
      then have p: "st g p = Some STATE_PROCESSING"
        using fresh [of p] keep [of p] by (cases "find_node g p = None") (auto simp: st_def)
      have "p \<in> set ts" using processing_on_plist [OF ok(3) p] pl False by simp
      then obtain ts1 zs1 where ts: "ts = ts1 @ p # zs1" by (auto simp: in_set_conv_decomp)
      have "p \<notin> set (new @ t # ts1)" "p \<notin> set zs1" using dist new(1) ts by auto
      then have "ys = new @ t # ts1"
        using split new(1) ts append_Cons_eq_iff [of p "new @ t # ts1" zs1 ys zs] by simp
      moreover have "set (t # ts1) \<subseteq> (deps d)\<^sup>+ `` {p}"
        using inv pl ts p unfolding walk_inv_def by (metis append_Cons)
      moreover have "set new \<subseteq> (deps d)\<^sup>+ `` {p}"
        using calculation(2) new(2) xs(2) by (auto intro: trancl_into_trancl)
      ultimately show ?thesis by auto
    qed
  qed
  have "weight ?g' x = weight g x" if "x \<noteq> t" for x
    using that ext_weight [OF x1, of x] by (simp add: weight_def)
  moreover have "weight ?g' t < weight g t"
    using init keep [of t] tn by (auto simp: weight_def nodes_def)
  ultimately show "work d ?g' < work d g"
    using nodes_rows [OF ok(3) tn] by (intro work_less) auto
qed

lemma finish_step:
  assumes inv: "walk_inv d g0 g" and pl: "plist g = t # ts" and pr: "st g t = Some STATE_PROCESSING"
  obtains g' where "finish_node g t = Some g'" and "walk_inv d g0 g'" and "work d g' < work d g"
proof -
  have p: "pending (row d) {0} g" using inv by (simp add: walk_inv_def)
  from finish_node_pending [OF p pl] obtain g' where g': "finish_node g t = Some g'" "pending (row d) {0} g'"
    "plist g' = ts" "same_hdr g g'" "arcs g' = arcs g" "\<And>x. find_node g' x = None \<longleftrightarrow> find_node g x = None"
    "\<And>x. st g' x = (if x = t then Some STATE_FINISHED else st g x)" by metis
  from head_node [OF inv pl] have tn: "t \<in> nodes g" by auto
  have n: "nodes g' = nodes g" by (simp add: nodes_def g'(6))
  have s: "seen g' = seen g" using tn pr by (auto simp: seen_def n g'(7))
  have "set xs \<subseteq> (deps d)\<^sup>+ `` {p}" if "plist g' = xs @ p # ys" "st g' p = Some STATE_PROCESSING" for xs p ys
  proof -
    have "plist g = (t # xs) @ p # ys" "st g p = Some STATE_PROCESSING"
      using that pl g'(3,7) by (auto split: if_splits)
    then have "set (t # xs) \<subseteq> (deps d)\<^sup>+ `` {p}" using inv unfolding walk_inv_def by blast
    then show ?thesis by simp
  qed
  then have "walk_inv d g0 g'"
    using inv g'(2,4,5) n s hdr_same [OF g'(4)] by (auto simp: walk_inv_def same_hdr_def)
  moreover have "work d g' < work d g"
    using nodes_rows [OF p tn] pr by (intro work_less) (auto simp: weight_def g'(7))
  ultimately show thesis using that g'(1) by blast
qed

text \<open>No link leads back to a node that is still being processed.\<close>

definition no_back :: "db \<Rightarrow> graph \<Rightarrow> bool" where
  "no_back d g0 \<longleftrightarrow> (\<forall>t \<in> (deps d)\<^sup>* `` nodes g0. \<forall>x \<in> blk d t. (x, t) \<notin> (deps d)\<^sup>*)"

lemma find_deps_runs:
  assumes inv: "walk_inv d g0 g" and pl: "plist g = t # ts" and init: "st g t = Some STATE_INITIALIZED"
    and "runs d" and "no_back d g0"
  shows "find_deps d (g\<lparr>g_cur := t\<rparr>) t \<noteq> None"
proof (rule visit_runs)
  from head_node [OF inv pl] have tn: "t \<in> nodes g" by auto
  then show "t \<in> nodes (g\<lparr>g_cur := t\<rparr>)" by (simp add: nodes_def)
  show "nodes_ok d" "mode (g_style (g\<lparr>g_cur := t\<rparr>))" "pending (row d) {0} (g\<lparr>g_cur := t\<rparr>)" "runs d"
    using inv assms(4) by (simp_all add: walk_inv_def pending_cur)
  show "\<forall>x \<in> blk d t. st (g\<lparr>g_cur := t\<rparr>) x \<noteq> Some STATE_PROCESSING"
  proof (intro ballI notI)
    fix x assume x: "x \<in> blk d t" and "st (g\<lparr>g_cur := t\<rparr>) x = Some STATE_PROCESSING"
    then have pr: "st g x = Some STATE_PROCESSING" by simp
    have p: "pending (row d) {0} g" using inv by (simp add: walk_inv_def)
    have "x \<in> set ts" using processing_on_plist [OF p pr] pl pr init by auto
    then obtain xs ys where "plist g = (t # xs) @ x # ys" using pl by (auto simp: in_set_conv_decomp)
    then have "set (t # xs) \<subseteq> (deps d)\<^sup>+ `` {x}" using inv pr unfolding walk_inv_def by blast
    then have "(x, t) \<in> (deps d)\<^sup>*" by (simp add: trancl_into_rtrancl)
    moreover have "t \<in> (deps d)\<^sup>* `` nodes g0" using tn inv by (auto simp: walk_inv_def)
    ultimately show False using assms(5) x by (auto simp: no_back_def)
  qed
qed simp

theorem walk:
  assumes "walk_inv d g0 g"
  shows "\<exists>r. build_loop d g = Some r \<and> (\<forall>g'. r = Some g' \<longrightarrow> walk_inv d g0 g' \<and> plist g' = [])
    \<and> (runs d \<longrightarrow> no_back d g0 \<longrightarrow> r \<noteq> None)"
  using assms
proof (induction "work d g" arbitrary: g rule: less_induct)
  case less
  show ?case
  proof (cases "plist g")
    case Nil
    with less.prems show ?thesis by (simp add: build_loop.simps)
  next
    case (Cons t ts)
    from head_node [OF less.prems Cons] obtain n where n: "find_node g t = Some n"
      and cases: "n_state n = STATE_INITIALIZED \<or> n_state n = STATE_PROCESSING" by auto
    show ?thesis
    proof (cases "n_state n = STATE_INITIALIZED")
      case True
      then have init: "st g t = Some STATE_INITIALIZED" using n by (simp add: st_def)
      show ?thesis
      proof (cases "find_deps d (g\<lparr>g_cur := t\<rparr>) t")
        case None
        then have "build_iter d g t = None" using n True by (simp add: build_iter_def)
        then have "build_loop d g = Some None" using Cons by (simp add: build_loop.simps [of d g])
        then show ?thesis using find_deps_runs [OF less.prems Cons init] None by auto
      next
        case (Some g1)
        then have "build_iter d g t = Some (set_state t STATE_PROCESSING g1)"
          using n True by (simp add: build_iter_def)
        then have "build_loop d g = build_loop d (set_state t STATE_PROCESSING g1)"
          using Cons by (simp add: build_loop.simps [of d g])
        then show ?thesis
          using less.hyps [OF visit_step(2,1) [OF less.prems Cons init Some]] by simp
      qed
    next
      case False
      then have pr: "st g t = Some STATE_PROCESSING" "n_state n = STATE_PROCESSING"
        using n cases by (simp_all add: st_def)
      from finish_step [OF less.prems Cons pr(1)] obtain g' where g': "finish_node g t = Some g'"
        "walk_inv d g0 g'" "work d g' < work d g" by metis
      then have "build_iter d g t = Some g'" using n pr(2) by (simp add: build_iter_def)
      then have "build_loop d g = build_loop d g'" using Cons by (simp add: build_loop.simps [of d g])
      then show ?thesis using less.hyps [OF g'(3,2)] by simp
    qed
  qed
qed

text \<open>The finished graph: everything reachable, everything processed, the edges of every node.\<close>

lemma walk_result:
  assumes "walk_inv d g0 g" and "plist g = []"
  shows "nodes g = (deps d)\<^sup>* `` nodes g0" and "seen g = nodes g"
    and "arcs g = arcs g0 \<union> (\<Union>x \<in> (deps d)\<^sup>* `` nodes g0. dep_arcs d x)"
    and "x \<in> nodes g \<Longrightarrow> st g x = Some STATE_FINISHED"
proof -
  have p: "pending (row d) {0} g" using assms(1) by (simp add: walk_inv_def)
  show fin: "st g x = Some STATE_FINISHED" if x: "x \<in> nodes g" for x
  proof -
    obtain n where n: "find_node g x = Some n" "x \<noteq> 0" using x by (auto simp: nodes_def)
    then have "node_fits {0} x n" using p by (simp add: pending_def)
    moreover have "x \<notin> set (queue PLIST g)" using assms(2) by simp
    then have "active_list n \<noteq> Some PLIST"
      using n p queues_okD(2) [of g x PLIST] by (simp add: pending_def graph_ok_def)
    ultimately show ?thesis using n by (simp add: node_fits_def st_def)
  qed
  then show s: "seen g = nodes g" by (auto simp: seen_def)
  have "(deps d)\<^sup>* `` nodes g0 \<subseteq> nodes g"
  proof
    fix x assume "x \<in> (deps d)\<^sup>* `` nodes g0"
    then obtain a where a: "a \<in> nodes g0" "(a, x) \<in> (deps d)\<^sup>*" by auto
    from a(2) show "x \<in> nodes g"
    proof (induction rule: rtrancl_induct)
      case base
      then show ?case using a(1) assms(1) by (auto simp: walk_inv_def)
    next
      case (step y z)
      then show ?case using assms(1) s by (auto simp: walk_inv_def)
    qed
  qed
  then show n: "nodes g = (deps d)\<^sup>* `` nodes g0" using assms(1) by (auto simp: walk_inv_def)
  show "arcs g = arcs g0 \<union> (\<Union>x \<in> (deps d)\<^sup>* `` nodes g0. dep_arcs d x)"
    using assms(1) s n by (simp add: walk_inv_def)
qed

end

section \<open>The two kinds of links\<close>

definition group_links_ok :: "db \<Rightarrow> bool" where
  "group_links_ok d \<longleftrightarrow> distinct (group_link d)
     \<and> (\<forall>(a, b, c) \<in> set (group_link d). row d a \<noteq> None \<and> row d b \<noteq> None \<and> row d c \<noteq> None)"

definition normal_deps :: "db \<Rightarrow> (tupid \<times> tupid) set" where
  "normal_deps d = set (normal_link d)
     \<union> {(a, b). is_group d a \<and> (\<exists>c. (a, b, c) \<in> set (group_link d))}"

definition normal_runs :: "db \<Rightarrow> bool" where
  "normal_runs d \<longleftrightarrow> links_ok d (normal_link d) \<and> group_links_ok d \<and> sql_ok d DB_GET_OUTPUTS
     \<and> sql_ok d DB_SELECT_NODE_BY_DISTINCT_GROUP_LINK"

definition group_deps :: "db \<Rightarrow> (tupid \<times> tupid) set" where
  "group_deps d = {(a, x). \<exists>b c. (a, b, c) \<in> set (group_link d) \<and> (x = b \<or> x = c)}"

definition group_arcs :: "db \<Rightarrow> tupid \<Rightarrow> (tupid \<times> tupid) set" where
  "group_arcs d t = {(x, y). \<exists>b c. (t, b, c) \<in> set (group_link d) \<and> (x = t \<and> y = c \<or> x = c \<and> y = b)}"

definition group_runs :: "db \<Rightarrow> bool" where
  "group_runs d \<longleftrightarrow> group_links_ok d \<and> sql_ok d DB_SELECT_NODE_BY_GROUP_LINK"

lemma row_id: "nodes_ok d \<Longrightarrow> row d t = Some e \<Longrightarrow> tnode_tupid e = t \<and> 0 < t \<and> row_entry (row d) e"
  by (auto simp: nodes_ok_def row_entry_def dest!: map_of_SomeD [of "node_tbl d"] split: prod.splits)
     (metis (mono_tags, lifting) map_of_is_SomeI om_ok_def case_prodD)+

lemma find_rows_entries:
  assumes "nodes_ok d" and "find_rows d ts = Some es"
  shows "map tnode_tupid es = ts" and "list_all (row_entry (row d)) es" and "0 \<notin> set ts"
proof -
  have "list_all2 (\<lambda>t e. row d t = Some e) ts es" by (rule find_rows_ids [OF assms(2)])
  then have "map tnode_tupid es = ts \<and> list_all (row_entry (row d)) es \<and> 0 \<notin> set ts"
  proof (induction rule: list_all2_induct)
    case (Cons t ts e es)
    then show ?case using row_id [OF assms(1), of t e] by auto
  qed simp
  then show "map tnode_tupid es = ts" and "list_all (row_entry (row d)) es" and "0 \<notin> set ts"
    by simp_all
qed

lemma find_rows_some:
  assumes "nodes_ok d" and "\<forall>t \<in> set ts. row d t \<noteq> None"
  shows "find_rows d ts \<noteq> None"
  using assms(2)
proof (induction ts)
  case (Cons t ts)
  then obtain e where "row d t = Some e" by auto
  then show ?case using Cons row_id [OF assms(1), of t e] by (auto simp: tup_entry_find_row_def)
qed simp

lemma find_row_pairs_entries:
  assumes "nodes_ok d" and "find_row_pairs d ps = Some es"
  shows "map (\<lambda>(a, b). (tnode_tupid a, tnode_tupid b)) es = ps
    \<and> list_all (\<lambda>(a, b). list_all (row_entry (row d)) [a, b]) es \<and> 0 \<notin> fst ` set ps \<and> 0 \<notin> snd ` set ps"
  using assms
proof (induction d ps arbitrary: es rule: find_row_pairs.induct)
  case (2 d a b ps)
  then obtain e f es' where r: "row d a = Some e" "row d b = Some f" "find_row_pairs d ps = Some es'"
    "es = (e, f) # es'"
    by (auto simp: tup_entry_find_row_def split: Option.bind_splits if_splits)
  with 2 row_id [OF 2(2) r(1)] row_id [OF 2(2) r(2)] show ?case
    by (auto simp: tup_entry_find_row_def)
qed simp

lemma find_row_pairs_some:
  assumes "nodes_ok d" and "\<forall>(a, b) \<in> set ps. row d a \<noteq> None \<and> row d b \<noteq> None"
  shows "find_row_pairs d ps \<noteq> None"
  using assms(2)
proof (induction ps)
  case (Cons p ps)
  obtain a b e f where p: "p = (a, b)" "row d a = Some e" "row d b = Some f" using Cons.prems by (cases p) auto
  then show ?case
    using Cons row_id [OF assms(1), of a e] row_id [OF assms(1), of b f] by (auto simp: tup_entry_find_row_def)
qed simp

lemma pending_node_row:
  assumes "pending (row d) {0} g" and "t \<in> nodes g"
  obtains n where "find_node g t = Some n" and "row d t = Some (n_tent n)"
  using assms by (auto simp: pending_def nodes_def)

lemma links_visit:
  assumes ok: "nodes_ok d" and p: "pending (row d) {0} g" and t: "t \<in> nodes g" and c: "g_cur g = t"
  defines "xs \<equiv> map snd (filter (\<lambda>(f, _). f = t) (normal_link d))"
  shows "tup_db_select_node_by_link d build_graph_cb t g = Some g' \<Longrightarrow>
      entered (row d) xs ({t} \<times> set xs) g g' \<and> 0 \<notin> set xs \<and> \<not> processing g xs"
    and "\<forall>x \<in> set xs. row d x \<noteq> None \<Longrightarrow> sql_ok d DB_GET_OUTPUTS \<Longrightarrow> \<not> processing g xs \<Longrightarrow>
      tup_db_select_node_by_link d build_graph_cb t g \<noteq> None"
proof -
  have cur: "find_node g (g_cur g) \<noteq> None" using t c by (simp add: nodes_def)
  have law: "if processing g xs then for_each build_graph_cb es g = None
     else \<exists>g'. for_each build_graph_cb es g = Some g' \<and> entered (row d) xs ({t} \<times> set xs) g g'"
    if "find_rows d xs = Some es" for es
  proof -
    note e = find_rows_entries [OF ok that]
    have c1: "concat (map (\<lambda>e. [tnode_tupid e]) es) = xs" using e(1) by simp
    have c2: "(\<Union>e \<in> set es. {(g_cur g, tnode_tupid e)}) = {t} \<times> set xs"
      unfolding e(1) [symmetric] using c by auto
    have v: "list_all (\<lambda>e. list_all (row_entry (row d)) [e]) es" using e(2) by (simp add: list_all_iff)
    show ?thesis using link_cb.for_each_law [OF p cur v] unfolding c1 c2 .
  qed
  show "tup_db_select_node_by_link d build_graph_cb t g = Some g' \<Longrightarrow>
      entered (row d) xs ({t} \<times> set xs) g g' \<and> 0 \<notin> set xs \<and> \<not> processing g xs"
    using law find_rows_entries(3) [OF ok]
    by (auto simp: tup_db_select_node_by_link_def get_outputs_def xs_def [symmetric] split: Option.bind_splits if_splits)
  show "tup_db_select_node_by_link d build_graph_cb t g \<noteq> None"
    if "\<forall>x \<in> set xs. row d x \<noteq> None" "sql_ok d DB_GET_OUTPUTS" "\<not> processing g xs"
    using law find_rows_some [OF ok that(1)] that(2,3)
    by (auto simp: tup_db_select_node_by_link_def get_outputs_def xs_def [symmetric] step_def)
qed

lemma group_users_visit:
  assumes ok: "nodes_ok d" and p: "pending (row d) {0} g" and cur: "find_node g (g_cur g) \<noteq> None" and c: "g_cur g = t"
  defines "xs \<equiv> remdups (map (\<lambda>(_, to_id, _). to_id) (filter (\<lambda>(f, _). f = t) (group_link d)))"
  shows "tup_db_select_node_by_distinct_group_link d build_graph_group_cb t g = Some g' \<Longrightarrow>
      entered (row d) xs ({t} \<times> set xs) g g' \<and> 0 \<notin> set xs"
    and "\<forall>x \<in> set xs. row d x \<noteq> None \<Longrightarrow> sql_ok d DB_SELECT_NODE_BY_DISTINCT_GROUP_LINK \<Longrightarrow>
      tup_db_select_node_by_distinct_group_link d build_graph_group_cb t g \<noteq> None"
proof -
  have law: "\<exists>g'. for_each_id d build_graph_group_cb xs g = Some g' \<and> entered (row d) xs ({t} \<times> set xs) g g'"
    if r: "find_rows d xs = Some es" for es
  proof -
    note e = find_rows_entries [OF ok that]
    have c1: "concat (map (\<lambda>e. [tnode_tupid e]) es) = xs" using e(1) by simp
    have c2: "(\<Union>e \<in> set es. {(g_cur g, tnode_tupid e)}) = {t} \<times> set xs"
      unfolding e(1) [symmetric] using c by auto
    have v: "list_all (\<lambda>e. list_all (row_entry (row d)) [e]) es" using e(2) by (simp add: list_all_iff)
    have np: "\<not> processing g (concat (map (\<lambda>e. []) es))" by (simp add: processing_def)
    show ?thesis
      using group_user_cb.for_each_law [OF p cur v] np for_each_id_rows [of d build_graph_group_cb xs g] r
      unfolding c1 c2 by simp
  qed
  show "tup_db_select_node_by_distinct_group_link d build_graph_group_cb t g = Some g' \<Longrightarrow>
      entered (row d) xs ({t} \<times> set xs) g g' \<and> 0 \<notin> set xs"
    using law find_rows_entries(3) [OF ok] for_each_id_None [of d xs build_graph_group_cb g]
    by (cases "find_rows d xs")
      (fastforce simp: tup_db_select_node_by_distinct_group_link_def xs_def [symmetric] split: Option.bind_splits)+
  show "tup_db_select_node_by_distinct_group_link d build_graph_group_cb t g \<noteq> None"
    if "\<forall>x \<in> set xs. row d x \<noteq> None" "sql_ok d DB_SELECT_NODE_BY_DISTINCT_GROUP_LINK"
    using law find_rows_some [OF ok that(1)] that(2)
    by (auto simp: tup_db_select_node_by_distinct_group_link_def xs_def [symmetric] step_def)
qed

lemma group_links_visit:
  assumes ok: "nodes_ok d" and p: "pending (row d) {0} g" and cur: "find_node g (g_cur g) \<noteq> None" and c: "g_cur g = t"
  shows "tup_db_select_node_by_group_link d build_group_cb t g = Some g' \<Longrightarrow>
      \<exists>xs. entered (row d) xs (group_arcs d t) g g' \<and> set xs = group_deps d `` {t} \<and> 0 \<notin> set xs"
    and "group_runs d \<Longrightarrow> tup_db_select_node_by_group_link d build_group_cb t g \<noteq> None"
proof -
  let ?ps = "rev (map snd (filter (\<lambda>(f, _). f = t) (group_link d)))"
  have ps: "set ?ps = {(b, c). (t, b, c) \<in> set (group_link d)}" by force
  have law: "\<exists>g' xs. for_each (\<lambda>(a, b). build_group_cb a b) es g = Some g' \<and> entered (row d) xs (group_arcs d t) g g'
      \<and> set xs = group_deps d `` {t} \<and> 0 \<notin> set xs"
    if r: "find_row_pairs d ?ps = Some es" for es
  proof -
    note e = find_row_pairs_entries [OF ok that]
    let ?id = "\<lambda>(a, b). (tnode_tupid a, tnode_tupid b)"
    have "set (map ?id es) = set ?ps" using e by metis
    then have ids: "?id ` set es = {(b, c). (t, b, c) \<in> set (group_link d)}"
      unfolding ps set_map .
    have v: "list_all (\<lambda>e. list_all (row_entry (row d)) (case e of (a, b) \<Rightarrow> [a, b])) es"
      using e by (simp add: case_prod_unfold)
    have np: "\<not> processing g (concat (map (\<lambda>e. []) es))" by (simp add: processing_def)
    let ?xs = "concat (map (\<lambda>(a, b). [tnode_tupid a, tnode_tupid b]) es)"
    have "set ?xs = fst ` ?id ` set es \<union> snd ` ?id ` set es" by force
    then have x: "set ?xs = group_deps d `` {t}"
      unfolding ids unfolding image_def group_deps_def by auto
    have "(\<Union>e \<in> set es. case e of (a, b) \<Rightarrow> {(g_cur g, tnode_tupid b), (tnode_tupid b, tnode_tupid a)})
        = (\<Union>(b, c) \<in> ?id ` set es. {(t, c), (c, b)})" using c by force
    then have y: "(\<Union>e \<in> set es. case e of (a, b) \<Rightarrow> {(g_cur g, tnode_tupid b), (tnode_tupid b, tnode_tupid a)}) = group_arcs d t"
      unfolding ids group_arcs_def by auto
    have z: "0 \<notin> set ?xs"
    proof -
      have "0 \<notin> fst ` set ?ps" "0 \<notin> snd ` set ?ps" using e by auto
      then show ?thesis unfolding x ps image_def group_deps_def by auto
    qed
    from group_pair_cb.for_each_law [OF p cur v] np obtain g' where
      "for_each (\<lambda>(a, b). build_group_cb a b) es g = Some g'" "entered (row d) ?xs (group_arcs d t) g g'"
      unfolding y by (auto simp: case_prod_unfold)
    with x z show ?thesis by blast
  qed
  show "\<exists>xs. entered (row d) xs (group_arcs d t) g g' \<and> set xs = group_deps d `` {t} \<and> 0 \<notin> set xs"
    if "tup_db_select_node_by_group_link d build_group_cb t g = Some g'"
    using that law
    by (auto simp: tup_db_select_node_by_group_link_def for_each_pair_rows split: Option.bind_splits option.splits)
  show "tup_db_select_node_by_group_link d build_group_cb t g \<noteq> None" if "group_runs d"
  proof -
    have "\<forall>(b, c) \<in> set ?ps. row d b \<noteq> None \<and> row d c \<noteq> None"
      using that unfolding ps by (auto simp: group_runs_def group_links_ok_def)
    from find_row_pairs_some [OF ok this] show ?thesis
      using law that
      by (auto simp: tup_db_select_node_by_group_link_def for_each_pair_rows group_runs_def step_def)
  qed
qed

interpretation group_walk: dep_walk group_deps group_arcs "\<lambda>d t. {}" group_runs "\<lambda>s. s = TUP_LINK_GROUP"
proof unfold_locales
  fix d g t g'
  assume a: "nodes_ok d" "g_style g = TUP_LINK_GROUP" "pending (row d) {0} g" "t \<in> nodes g" "g_cur g = t"
  then have cur: "find_node g (g_cur g) \<noteq> None" by (simp add: nodes_def)
  note law = group_links_visit [OF a(1,3) cur a(5)]
  show "\<exists>xs. entered (row d) xs (group_arcs d t) g g' \<and> set xs = group_deps d `` {t} \<and> 0 \<notin> set xs"
    if "find_deps d g t = Some g'"
    using law(1) that a(2) by (simp add: find_deps_def)
  show "find_deps d g t \<noteq> None" if "group_runs d"
    using law(2) [OF that] a(2) by (simp add: find_deps_def)
qed simp_all

lemma normal_find_deps:
  assumes a: "nodes_ok d" "g_style g \<noteq> TUP_LINK_GROUP" "pending (row d) {0} g" "t \<in> nodes g" "g_cur g = t"
  defines "xs \<equiv> map snd (filter (\<lambda>(f, _). f = t) (normal_link d))"
    and "gs \<equiv> remdups (map (\<lambda>(_, to_id, _). to_id) (filter (\<lambda>(f, _). f = t) (group_link d)))"
  shows "find_deps d g t = Some g' \<Longrightarrow>
      \<exists>ys. entered (row d) ys ({t} \<times> normal_deps d `` {t}) g g' \<and> set ys = normal_deps d `` {t} \<and> 0 \<notin> set ys"
    and "normal_runs d \<Longrightarrow> \<not> processing g xs \<Longrightarrow> find_deps d g t \<noteq> None"
proof -
  note law1 = links_visit [OF a(1,3,4,5), folded xs_def]
  have xs: "set xs = {b. (t, b) \<in> set (normal_link d)}" by (force simp: xs_def)
  have gs: "set gs = {b. \<exists>c. (t, b, c) \<in> set (group_link d)}" by (force simp: gs_def)
  from pending_node_row [OF a(3,4)] obtain n where n: "find_node g t = Some n" "row d t = Some (n_tent n)" by metis
  have two: "\<exists>n1. find_node g1 (g_cur g1) = Some n1 \<and> (ntype (n_tent n1) = TUP_NODE_GROUP \<longleftrightarrow> is_group d t)
      \<and> pending (row d) {0} g1 \<and> g_cur g1 = t"
    if "entered (row d) xs ({t} \<times> set xs) g g1" for g1
  proof -
    have x: "ext (set xs) g g1" and p1: "pending (row d) {0} g1" using that by (simp_all add: entered_def)
    have c1: "g_cur g1 = t" using ext_cur [OF x] a(5) by simp
    have "t \<in> nodes g1" using ext_find [OF x, of t] a(4) by (simp add: nodes_def)
    from pending_node_row [OF p1 this] obtain n1 where "find_node g1 t = Some n1" "row d t = Some (n_tent n1)" by metis
    then show ?thesis using p1 c1 by (auto simp: is_group_def)
  qed
  show "\<exists>ys. entered (row d) ys ({t} \<times> normal_deps d `` {t}) g g' \<and> set ys = normal_deps d `` {t} \<and> 0 \<notin> set ys"
    if r: "find_deps d g t = Some g'"
  proof -
    obtain g1 n1 where g1: "tup_db_select_node_by_link d build_graph_cb t g = Some g1" "find_node g1 (g_cur g1) = Some n1"
      and rest: "(if ntype (n_tent n1) = TUP_NODE_GROUP
        then tup_db_select_node_by_distinct_group_link d build_graph_group_cb t g1 else Some g1) = Some g'"
      using r a(2) by (auto simp: find_deps_def split: Option.bind_splits)
    have e1: "entered (row d) xs ({t} \<times> set xs) g g1" "0 \<notin> set xs" using law1(1) [OF g1(1)] by simp_all
    from two [OF e1(1)] g1(2) have t1: "ntype (n_tent n1) = TUP_NODE_GROUP \<longleftrightarrow> is_group d t"
      "pending (row d) {0} g1" "g_cur g1 = t" by auto
    show ?thesis
    proof (cases "is_group d t")
      case True
      have cur1: "find_node g1 (g_cur g1) \<noteq> None" using g1(2) by simp
      note law2 = group_users_visit [OF a(1) t1(2) cur1 t1(3), folded gs_def]
      have e2: "entered (row d) gs ({t} \<times> set gs) g1 g'" "0 \<notin> set gs"
        using law2(1) rest True t1(1) by simp_all
      have s: "set (xs @ gs) = normal_deps d `` {t}"
        using True unfolding set_append xs gs normal_deps_def by auto
      have "({t} \<times> set xs) \<union> ({t} \<times> set gs) = {t} \<times> normal_deps d `` {t}"
        unfolding s [symmetric] by auto
      moreover have "0 \<notin> set (xs @ gs)" using e1(2) e2(2) by simp
      ultimately show ?thesis using entered_trans [OF e1(1) e2(1)] s by metis
    next
      case False
      have "set xs = normal_deps d `` {t}" using False unfolding xs normal_deps_def by auto
      then show ?thesis using e1 rest t1(1) False by auto
    qed
  qed
  show "find_deps d g t \<noteq> None" if r: "normal_runs d" "\<not> processing g xs"
  proof -
    have "\<forall>x \<in> set xs. row d x \<noteq> None" using r(1) unfolding xs by (auto simp: normal_runs_def links_ok_def)
    from law1(2) [OF this] obtain g1 where g1: "tup_db_select_node_by_link d build_graph_cb t g = Some g1"
      using r by (auto simp: normal_runs_def)
    have e1: "entered (row d) xs ({t} \<times> set xs) g g1" using law1(1) [OF g1(1)] by simp
    from two [OF e1] obtain n1 where t1: "find_node g1 (g_cur g1) = Some n1" "pending (row d) {0} g1" "g_cur g1 = t" by auto
    then have cur1: "find_node g1 (g_cur g1) \<noteq> None" by simp
    have "\<forall>x \<in> set gs. row d x \<noteq> None" using r(1) unfolding gs by (auto simp: normal_runs_def group_links_ok_def)
    from group_users_visit(2) [OF a(1) t1(2) cur1 t1(3), folded gs_def, OF this] r(1)
    show ?thesis using a(2) g1 t1(1) by (auto simp: find_deps_def normal_runs_def)
  qed
qed

interpretation normal_walk: dep_walk normal_deps "\<lambda>d t. {t} \<times> normal_deps d `` {t}"
  "\<lambda>d t. set (normal_link d) `` {t}" normal_runs "\<lambda>s. s \<noteq> TUP_LINK_GROUP"
proof unfold_locales
  fix d g t g'
  assume a: "nodes_ok d" "g_style g \<noteq> TUP_LINK_GROUP" "pending (row d) {0} g" "t \<in> nodes g" "g_cur g = t"
  note law = normal_find_deps [OF a]
  show "\<exists>xs. entered (row d) xs ({t} \<times> normal_deps d `` {t}) g g' \<and> set xs = normal_deps d `` {t} \<and> 0 \<notin> set xs"
    if "find_deps d g t = Some g'"
    by (rule law(1) [OF that])
  show "find_deps d g t \<noteq> None" if r: "normal_runs d"
    "\<forall>x \<in> set (normal_link d) `` {t}. st g x \<noteq> Some STATE_PROCESSING"
  proof (rule law(2) [OF r(1)])
    show "\<not> processing g (map snd (filter (\<lambda>(f, _). f = t) (normal_link d)))"
      using r(2) by (auto simp: processing_def)
  qed
qed (auto simp: normal_deps_def)

end
