(* ===== verification/Graph_Trim.thy ===== *)
theory Graph_Trim
  imports Graph_Walk
begin

text \<open>
  \<^verbatim>\<open>trim_graph\<close> as a decision procedure for cycles, and what \<^verbatim>\<open>build_graph\<close> and
  \<^verbatim>\<open>group_circ_check\<close> guarantee.
\<close>

section \<open>Trimming keeps exactly the cycles\<close>

definition on_cycle :: "('a \<times> 'a) set \<Rightarrow> 'a set" where
  "on_cycle r = {x. (x, x) \<in> r\<^sup>+}"

lemma on_cycle_path:
  assumes "(x, y) \<in> r\<^sup>+" and "(y, x) \<in> r\<^sup>*" and "t \<notin> on_cycle r"
  shows "(x, y) \<in> {(a, b) \<in> r. a \<noteq> t \<and> b \<noteq> t}\<^sup>+"
  using assms(1,2)
proof (induction rule: trancl_induct)
  case (base y)
  then have "(x, x) \<in> r\<^sup>+" "(y, y) \<in> r\<^sup>+"
    by (meson rtrancl_into_trancl2 rtrancl_into_trancl1)+
  then show ?case using base(1) assms(3) by (auto simp: on_cycle_def)
next
  case (step y z)
  then have yx: "(y, x) \<in> r\<^sup>*" by (meson converse_rtrancl_into_rtrancl)
  have "(y, y) \<in> r\<^sup>+" "(z, z) \<in> r\<^sup>+"
    using step yx by (meson rtrancl_trancl_trancl trancl_into_trancl trancl_rtrancl_trancl)+
  then have "(y, z) \<in> {(a, b) \<in> r. a \<noteq> t \<and> b \<noteq> t}" using step(2) assms(3) by (auto simp: on_cycle_def)
  then show ?case using step.IH [OF yx] by (meson trancl_into_trancl)
qed

lemma on_cycle_remove:
  assumes "t \<notin> on_cycle r"
  shows "on_cycle {(a, b) \<in> r. a \<noteq> t \<and> b \<noteq> t} = on_cycle r"
proof
  show "on_cycle {(a, b) \<in> r. a \<noteq> t \<and> b \<noteq> t} \<subseteq> on_cycle r"
    by (auto simp: on_cycle_def elim: trancl_mono)
  show "on_cycle r \<subseteq> on_cycle {(a, b) \<in> r. a \<noteq> t \<and> b \<noteq> t}"
    using on_cycle_path [OF _ _ assms] by (auto simp: on_cycle_def)
qed

lemma cycle_in_out:
  assumes "x \<in> on_cycle r"
  obtains a b where "(a, x) \<in> r" and "(x, b) \<in> r"
  using assms unfolding on_cycle_def by (metis mem_Collect_eq tranclD tranclD2)

lemma no_sink_cycle:
  assumes "finite r" and "r \<subseteq> V \<times> V" and "x \<in> V" and "\<forall>x \<in> V. \<exists>y. (x, y) \<in> r"
  shows "\<not> acyclic r"
proof
  assume "acyclic r"
  then have "wf (r\<inverse>)" using assms(1) by (simp add: finite_acyclic_wf_converse)
  from wfE_min [OF this assms(3)] obtain z where "z \<in> V" "\<And>y. (y, z) \<in> r\<inverse> \<Longrightarrow> y \<notin> V" by metis
  then show False using assms(2,4) by (meson converse.intros mem_Sigma_iff subsetD)
qed

text \<open>A graph all of whose nodes are on \<open>node_list\<close>, as after the first loop of \<^verbatim>\<open>build_graph\<close>.\<close>

definition listed :: "graph \<Rightarrow> bool" where
  "listed g \<longleftrightarrow> graph_ok g \<and> (\<forall>x. find_node g x \<noteq> None \<longrightarrow> x \<in> set (node_list g))"

lemma edge_ends:
  assumes "graph_ok g" and "(a, b) \<in> arcs g"
  shows "find_node g a \<noteq> None" and "find_node g b \<noteq> None"
proof -
  obtain e where e: "e \<in> graph_edges g" "e_src e = a" "e_dest e = b" using assms(2) by (auto simp: arcs_def)
  have "edges_ok g" using assms(1) by (simp add: graph_ok_def)
  then have "e \<in> set (edges_of g a)" "e \<in> set (incoming_of g b)"
    using e by (simp_all add: edges_mem incoming_mem)
  then show "find_node g a \<noteq> None" and "find_node g b \<noteq> None"
    by (cases "find_node g a"; cases "find_node g b"; simp add: edges_of_def incoming_of_def)+
qed

lemma arcs_finite: "finite (arcs g)"
proof -
  have "finite (\<Union>x \<in> set (om_keys (node_root g)). set (edges_of g x))" by simp
  moreover have "graph_edges g \<subseteq> (\<Union>x \<in> set (om_keys (node_root g)). set (edges_of g x))"
  proof
    fix e assume "e \<in> graph_edges g"
    then obtain t where t: "e \<in> set (edges_of g t)" by (auto simp: graph_edges_def)
    then have "find_node g t \<noteq> None" by (cases "find_node g t") (simp_all add: edges_of_def)
    then have "t \<in> set (om_keys (node_root g))" using map_of_None_keys by (metis find_node_def)
    with t show "e \<in> (\<Union>x \<in> set (om_keys (node_root g)). set (edges_of g x))" by blast
  qed
  ultimately have "finite (graph_edges g)" by (rule rev_finite_subset)
  moreover have "arcs g = (\<lambda>e. (e_src e, e_dest e)) ` graph_edges g" by (force simp: arcs_def)
  ultimately show ?thesis by simp
qed

lemma arcs_incoming:
  assumes "graph_ok g"
  shows "incoming_of g t = [] \<longleftrightarrow> (\<forall>a. (a, t) \<notin> arcs g)"
proof -
  have e: "edges_ok g" using assms by (simp add: graph_ok_def)
  have "(\<exists>e. e \<in> set (incoming_of g t)) \<longleftrightarrow> (\<exists>a. (a, t) \<in> arcs g)"
    by (auto simp: arcs_def incoming_mem [OF e])
  then show ?thesis by (metis ex_in_conv set_empty)
qed

lemma arcs_outgoing:
  assumes "graph_ok g"
  shows "edges_of g t = [] \<longleftrightarrow> (\<forall>b. (t, b) \<notin> arcs g)"
proof -
  have e: "edges_ok g" using assms by (simp add: graph_ok_def)
  have "(\<exists>e. e \<in> set (edges_of g t)) \<longleftrightarrow> (\<exists>b. (t, b) \<in> arcs g)"
    by (auto simp: arcs_def edges_mem [OF e])
  then show ?thesis by (metis ex_in_conv set_empty)
qed

lemma remove_internal_arcs:
  assumes "graph_ok g"
  shows "arcs (remove_node_internal g t) = {(a, b) \<in> arcs g. a \<noteq> t \<and> b \<noteq> t}"
  using remove_node_internal_ok [OF assms, of t] by (auto simp: arcs_def)

lemma remove_internal_listed:
  assumes "listed g"
  shows "listed (remove_node_internal g t)" and "node_list (remove_node_internal g t) = remove1 t (node_list g)"
proof -
  have ok: "graph_ok g" using assms by (simp add: listed_def)
  note r = remove_node_internal_ok [OF ok, of t]
  show n: "node_list (remove_node_internal g t) = remove1 t (node_list g)"
    using r [of NODE_LIST] by simp
  have "x \<in> set (node_list (remove_node_internal g t))" if "find_node (remove_node_internal g t) x \<noteq> None" for x
  proof -
    have "map_option n_tent (find_node (remove_node_internal g t) x) = (if x = t then None else map_option n_tent (find_node g x))"
      using r by blast
    with that have "x \<noteq> t" "find_node g x \<noteq> None" by (cases "find_node g x"; auto split: if_splits)+
    then show ?thesis using assms by (auto simp: listed_def n in_set_remove1)
  qed
  then show "listed (remove_node_internal g t)" using r by (simp add: listed_def)
qed

lemma trim_fold:
  assumes "listed g"
  shows "case fold trim_node ts (g, r) of (g', r') \<Rightarrow> listed g' \<and> on_cycle (arcs g') = on_cycle (arcs g)
    \<and> arcs g' \<subseteq> arcs g \<and> set (node_list g') \<subseteq> set (node_list g)
    \<and> (r' \<longrightarrow> r \<or> length (node_list g') < length (node_list g) \<or> \<not> set ts \<subseteq> set (node_list g) \<or> \<not> distinct ts)
    \<and> length (node_list g') \<le> length (node_list g)
    \<and> (\<not> r' \<longrightarrow> g' = g \<and> \<not> r \<and> (\<forall>t \<in> set ts. incoming_of g t \<noteq> [] \<and> edges_of g t \<noteq> []))"
  using assms
proof (induction ts arbitrary: g r)
  case (Cons t ts)
  have ok: "graph_ok g" using Cons.prems by (simp add: listed_def)
  show ?case
  proof (cases "incoming_of g t = [] \<or> edges_of g t = []")
    case True
    let ?g = "remove_node_internal g t"
    note rm = remove_internal_listed [OF Cons.prems, of t]
    have "t \<notin> on_cycle (arcs g)"
      using True arcs_incoming [OF ok] arcs_outgoing [OF ok] cycle_in_out by metis
    then have cyc: "on_cycle (arcs ?g) = on_cycle (arcs g)"
      unfolding remove_internal_arcs [OF ok] by (rule on_cycle_remove)
    have sub: "arcs ?g \<subseteq> arcs g" by (auto simp: remove_internal_arcs [OF ok])
    have len: "length (node_list ?g) \<le> length (node_list g)"
      "t \<in> set (node_list g) \<Longrightarrow> length (node_list ?g) < length (node_list g)"
      using length_pos_if_in_set [of t "node_list g"] by (auto simp: rm(2) length_remove1)
    have sub2: "set (node_list ?g) \<subseteq> set (node_list g)" by (simp add: rm(2) set_remove1_subset)
    show ?thesis
      using Cons.IH [OF rm(1), of True] True cyc sub len sub2
      by (auto simp: trim_node_def split: prod.splits)
  next
    case False
    then show ?thesis
      using Cons.IH [OF Cons.prems, of r] by (auto simp: trim_node_def split: prod.splits)
  qed
qed simp

lemma trim_terminates:
  assumes "listed g"
  shows "\<exists>g'. trim_graph g = Some g' \<and> listed g' \<and> on_cycle (arcs g') = on_cycle (arcs g)
    \<and> (\<forall>t \<in> set (node_list g'). incoming_of g' t \<noteq> [] \<and> edges_of g' t \<noteq> [])"
  using assms
proof (induction "length (node_list g)" arbitrary: g rule: less_induct)
  case less
  obtain g1 r where p: "trim_pass g = (g1, r)" by fastforce
  have d: "distinct (node_list g)"
    using less.prems queues_okD(1) [of g NODE_LIST] by (simp add: listed_def graph_ok_def)
  note f = trim_fold [OF less.prems, where ts = "node_list g" and r = False, folded trim_pass_def, unfolded p, simplified]
  show ?case
  proof (cases r)
    case True
    then have "length (node_list g1) < length (node_list g)" using f d by simp
    from less.hyps [OF this] f show ?thesis
      using True p by (subst trim_graph.simps) simp
  next
    case False
    then show ?thesis using f p less.prems by (subst trim_graph.simps) simp
  qed
qed

lemma trim_cycles:
  assumes "listed g"
  obtains g' where "trim_graph g = Some g'" and "node_list g' = [] \<longleftrightarrow> acyclic (arcs g)"
    and "on_cycle (arcs g) \<subseteq> set (node_list g')"
proof -
  from trim_terminates [OF assms] obtain g' where g': "trim_graph g = Some g'" "listed g'"
    "on_cycle (arcs g') = on_cycle (arcs g)"
    "\<forall>t \<in> set (node_list g'). incoming_of g' t \<noteq> [] \<and> edges_of g' t \<noteq> []" by blast
  have ok: "graph_ok g'" using g'(2) by (simp add: listed_def)
  have ends: "arcs g' \<subseteq> set (node_list g') \<times> set (node_list g')"
    using edge_ends [OF ok] g'(2) by (auto simp: listed_def)
  have cyc: "on_cycle (arcs g) \<subseteq> set (node_list g')"
    unfolding g'(3) [symmetric] using cycle_in_out ends by (metis mem_Sigma_iff subset_iff)
  moreover have "acyclic (arcs g)" if "node_list g' = []"
    using cyc that by (auto simp: acyclic_def on_cycle_def)
  moreover have "\<not> acyclic (arcs g)" if x: "x \<in> set (node_list g')" for x
  proof -
    have "\<forall>x \<in> set (node_list g'). \<exists>y. (x, y) \<in> arcs g'"
      using g'(4) arcs_outgoing [OF ok] by blast
    from no_sink_cycle [OF arcs_finite ends x this] show ?thesis
      using g'(3) by (auto simp: acyclic_def on_cycle_def)
  qed
  ultimately show thesis using that g'(1) by (metis last_in_set)
qed

section \<open>Where the graphs come from\<close>

lemma create_graph_find [simp]:
  "find_node (create_graph fl) x = (if x = 0 then Some (new_node root_entry) else None)"
  by (simp add: create_graph_def find_node_def)

lemma create_graph_edges [simp]: "edges_of (create_graph fl) x = []" "incoming_of (create_graph fl) x = []"
  by (simp_all add: edges_of_def incoming_of_def new_node_def)

lemma create_graph_arcs [simp]: "arcs (create_graph fl) = {}" "graph_edges (create_graph fl) = {}"
  by (simp_all add: arcs_def graph_edges_def)

lemma create_graph_queue: "queue L (create_graph fl) = (if L = NODE_LIST then [0] else [])"
  by (cases L) (simp_all add: create_graph_def)

lemma create_graph_pending: "pending R {0} (create_graph fl)"
  by (auto simp: pending_def graph_ok_def queues_ok_def edges_ok_def create_graph_queue node_fits_def
      new_node_def root_entry_def)

lemma create_graph_nodes [simp]: "nodes (create_graph fl) = {}"
  by (auto simp: nodes_def)

lemma create_graph_hdr [simp]: "g_cur (create_graph fl) = 0"
  "hdr (create_graph fl) = (0, if fl = TUP_NODE_GROUP then TUP_LINK_GROUP else TUP_LINK_NORMAL, fl, [])"
  by (simp_all add: create_graph_def hdr_def)

text \<open>The initial nodes, added to an empty graph from a list of rows.\<close>

lemma initial_graph:
  assumes ok: "nodes_ok d" and es: "list_all (row_entry (row d)) es"
  obtains g where "for_each build_graph_cb es (create_graph fl) = Some g" and "fresh_graph d g"
    and "nodes g = tnode_tupid ` set es" and "arcs g = {0} \<times> tnode_tupid ` set es" and "hdr g = hdr (create_graph fl)"
proof -
  let ?g0 = "create_graph fl"
  have v: "list_all (\<lambda>e. list_all (row_entry (row d)) [e]) es" using es by (simp add: list_all_iff)
  have np: "\<not> processing ?g0 (concat (map (\<lambda>e. [tnode_tupid e]) es))"
    by (auto simp: processing_def st_def new_node_def)
  have cur: "find_node ?g0 (g_cur ?g0) \<noteq> None" by simp
  have ids: "set (concat (map (\<lambda>e. [tnode_tupid e]) es)) = tnode_tupid ` set es" by auto
  have ar: "(\<Union>e \<in> set es. {(g_cur ?g0, tnode_tupid e)}) = {0} \<times> tnode_tupid ` set es" by auto
  obtain g where g: "for_each build_graph_cb es ?g0 = Some g"
    "entered (row d) (concat (map (\<lambda>e. [tnode_tupid e]) es)) ({0} \<times> tnode_tupid ` set es) ?g0 g"
    using link_cb.for_each_law [OF create_graph_pending cur v] np unfolding ar by auto
  have p: "pending (row d) {0} g" and x: "ext (tnode_tupid ` set es) ?g0 g"
    and in_g: "\<forall>x \<in> tnode_tupid ` set es. find_node g x \<noteq> None" and a: "arcs g = {0} \<times> tnode_tupid ` set es"
    using g(2) by (simp_all add: entered_def)
  have nz: "0 \<notin> tnode_tupid ` set es" using es by (auto simp: list_all_iff row_entry_def)
  have "x \<in> tnode_tupid ` set es \<and> st g x = Some STATE_INITIALIZED" if "x \<in> nodes g" for x
    using that ext_new [OF x, of x] by (simp add: nodes_def)
  moreover have "tnode_tupid ` set es \<subseteq> nodes g" using in_g nz by (auto simp: nodes_def)
  ultimately show thesis
  proof -
    assume sub: "tnode_tupid ` set es \<subseteq> nodes g"
      and new: "\<And>x. x \<in> nodes g \<Longrightarrow> x \<in> tnode_tupid ` set es \<and> st g x = Some STATE_INITIALIZED"
    have "nodes g = tnode_tupid ` set es" using sub new by blast
    moreover have "fresh_graph d g" using p ok new by (simp add: fresh_graph_def)
    moreover have "hdr g = hdr ?g0" using x unfolding ext_def by (metis hdr_same)
    ultimately show thesis using that g(1) a by blast
  qed
qed

lemma build_loop_facts:
  assumes "nodes_ok d" and "list_all (row_entry (row d)) es" and "fl \<noteq> TUP_NODE_GROUP"
  shows "\<exists>g r. for_each build_graph_cb es (create_graph fl) = Some g \<and> build_loop d g = Some r
    \<and> (\<forall>g'. r = Some g' \<longrightarrow> graph_ok g' \<and> plist g' = []
         \<and> nodes g' = (normal_deps d)\<^sup>* `` (tnode_tupid ` set es)
         \<and> (\<forall>x \<in> nodes g'. st g' x = Some STATE_FINISHED)
         \<and> arcs g' = {0} \<times> tnode_tupid ` set es \<union> {(a, b) \<in> normal_deps d. a \<in> nodes g'})"
proof -
  from initial_graph [OF assms(1,2)] obtain g where g: "for_each build_graph_cb es (create_graph fl) = Some g"
    "fresh_graph d g" "nodes g = tnode_tupid ` set es" "arcs g = {0} \<times> tnode_tupid ` set es"
    "hdr g = hdr (create_graph fl)" by metis
  have m: "g_style g \<noteq> TUP_LINK_GROUP" using g(5) assms(3) by (simp add: hdr_def create_graph_def)
  from normal_walk.walk [OF normal_walk.walk_start [OF g(2) m]] obtain r where r: "build_loop d g = Some r"
    "\<forall>g'. r = Some g' \<longrightarrow> normal_walk.walk_inv d g g' \<and> plist g' = []" by blast
  have "graph_ok g' \<and> plist g' = [] \<and> nodes g' = (normal_deps d)\<^sup>* `` (tnode_tupid ` set es)
      \<and> (\<forall>x \<in> nodes g'. st g' x = Some STATE_FINISHED)
      \<and> arcs g' = {0} \<times> tnode_tupid ` set es \<union> {(a, b) \<in> normal_deps d. a \<in> nodes g'}" if "r = Some g'" for g'
  proof -
    have i: "normal_walk.walk_inv d g g'" "plist g' = []" using r(2) that by simp_all
    note res = normal_walk.walk_result [OF i, unfolded g(3,4)]
    have "graph_ok g'" using i(1) by (simp add: normal_walk.walk_inv_def pending_def)
    moreover have "(\<Union>x \<in> (normal_deps d)\<^sup>* `` tnode_tupid ` set es. {x} \<times> normal_deps d `` {x})
      = {(a, b) \<in> normal_deps d. a \<in> nodes g'}" unfolding res(1) by auto
    ultimately show ?thesis using res i(2) by simp
  qed
  then show ?thesis using g(1) r(1) by blast
qed

text \<open>
  C9: from any list of rows, the first loop of \<^verbatim>\<open>build_graph\<close> ends, and if it does
  not report an error, \<open>plist\<close> is empty, the nodes are exactly what the links reach from the given rows,
  all finished, with the links among them (and the edges from the root) as edges, and the graph is well formed.
\<close>

theorem build_loop_total:
  assumes "nodes_ok d" and "list_all (row_entry (row d)) es" and "fl \<noteq> TUP_NODE_GROUP"
  shows "\<exists>g r. for_each build_graph_cb es (create_graph fl) = Some g \<and> build_loop d g = Some r
    \<and> (\<forall>g'. r = Some g' \<longrightarrow> graph_ok g' \<and> plist g' = []
         \<and> nodes g' = (normal_deps d)\<^sup>* `` (tnode_tupid ` set es)
         \<and> (\<forall>x \<in> nodes g'. st g' x = Some STATE_FINISHED)
         \<and> arcs g' = {0} \<times> tnode_tupid ` set es \<union> {(a, b) \<in> normal_deps d. a \<in> nodes g'})"
  by (rule build_loop_facts [OF assms])

text \<open>
  C12: if the tables are consistent, SQLite reports no error and the links have no cycle,
  \<^verbatim>\<open>build_graph\<close>'s loop reports no circular dependency: it succeeds.
\<close>

theorem build_loop_acyclic:
  assumes "nodes_ok d" and "normal_runs d" and "acyclic (normal_deps d)"
    and "list_all (row_entry (row d)) es" and "fl \<noteq> TUP_NODE_GROUP"
  shows "\<exists>g g'. for_each build_graph_cb es (create_graph fl) = Some g \<and> build_loop d g = Some (Some g')"
proof -
  from initial_graph [OF assms(1,4)] obtain g where g: "for_each build_graph_cb es (create_graph fl) = Some g"
    "fresh_graph d g" "hdr g = hdr (create_graph fl)" by metis
  have m: "g_style g \<noteq> TUP_LINK_GROUP" using g(3) assms(5) by (simp add: hdr_def create_graph_def)
  have "(x, t) \<notin> (normal_deps d)\<^sup>*" if "x \<in> set (normal_link d) `` {t}" for x t
  proof -
    have "(t, x) \<in> normal_deps d" using that by (auto simp: normal_deps_def)
    then show ?thesis using assms(3) by (auto simp: acyclic_def dest: rtrancl_into_trancl2)
  qed
  then have "normal_walk.no_back d g" by (auto simp: normal_walk.no_back_def)
  with normal_walk.walk [OF normal_walk.walk_start [OF g(2) m]] assms(2) show ?thesis
    using g(1) by (metis not_None_eq)
qed

section \<open>The group graph\<close>

lemma add_group_pending:
  assumes p: "pending (row d) {0} g" and e: "row_entry (row d) tent" and i: "\<forall>x \<in> nodes g. st g x = Some STATE_INITIALIZED"
  obtains g' where "add_group_circ_check (Some g) tent = Some (Some g')" and "pending (row d) {0} g'"
    and "\<forall>x \<in> nodes g'. st g' x = Some STATE_INITIALIZED"
    and "nodes g' = insert (tnode_tupid tent) (nodes g)" and "arcs g' = arcs g" and "hdr g' = hdr g"
proof (cases "find_node g (tnode_tupid tent)")
  case (Some n)
  then have "tnode_tupid tent \<in> nodes g" using e by (simp add: nodes_def row_entry_def)
  with Some that [of g] p i show thesis
    by (auto simp: add_group_circ_check_def)
next
  case None
  let ?t = "tnode_tupid tent"
  have t: "row d ?t = Some tent" "?t \<noteq> 0" using e by (simp_all add: row_entry_def)
  from create_pending [OF p t(1) None] obtain g1 where g1: "create_node g tent = Some g1"
    "pending (row d) (insert ?t {0}) g1" "ext {?t} g g1" "arcs g1 = arcs g" "find_node g1 ?t = Some (new_node tent)"
    by metis
  have f1: "find_node g1 x = (if x = ?t then Some (new_node tent) else find_node g x)" for x
    using create_node_ok [OF g1(1) pending_ok [OF p]] by simp
  define g2 where "g2 = upd_node ?t (\<lambda>n. n\<lparr>active_list := None\<rparr>) (set_queue NODE_LIST (remove1 ?t (queue NODE_LIST g1)) g1)"
  have rm: "node_remove_list NODE_LIST ?t g1 = Some g2"
    using g1(5) by (simp add: node_remove_list_def g2_def new_node_def)
  note ok2 = node_remove_list_ok [OF rm pending_ok [OF g1(2)]]
  define g3 where "g3 = upd_node ?t (\<lambda>n. n\<lparr>active_list := Some PLIST\<rparr>) (set_queue PLIST (?t # queue PLIST g2) g2)"
  have ins: "node_insert_head PLIST ?t g2 = Some g3"
    using g1(5) by (simp add: node_insert_head_def g2_def g3_def)
  note ok3 = node_insert_ok [OF disjI1 [OF ins]]
  define g4 where "g4 = upd_node ?t (\<lambda>n. n\<lparr>expanded := True\<rparr>) g3"
  have f4: "find_node g4 x = (if x = ?t then Some ((new_node tent)\<lparr>active_list := Some PLIST, expanded := True\<rparr>) else find_node g x)" for x
    using g1(5) by (simp add: g4_def g3_def g2_def f1)
  have ok4: "graph_ok g4" unfolding g4_def by (rule graph_ok_upd_node) (use ok2 ok3 in simp_all)
  have "edges_of g4 = edges_of g3"
    using g1(5) by (auto simp: fun_eq_iff g4_def edges_of_def split: option.split)
  then have a4: "arcs g4 = arcs g" using ok2 ok3 g1(4) by (simp add: arcs_def graph_edges_def)
  show thesis
  proof (rule that [of g4])
    show "add_group_circ_check (Some g) tent = Some (Some g4)"
      using None g1(1) rm ins by (simp add: add_group_circ_check_def g4_def)
    show "pending (row d) {0} g4"
    proof -
      have "node_fits {0} ?t ((new_node tent)\<lparr>active_list := Some PLIST, expanded := True\<rparr>)"
        using t by (simp add: node_fits_def new_node_def)
      moreover have "n_tent ((new_node tent)\<lparr>active_list := Some PLIST, expanded := True\<rparr>) = tent"
        by (simp add: new_node_def)
      ultimately show ?thesis using ok4 p t by (auto simp: pending_def f4)
    qed
    show "\<forall>x \<in> nodes g4. st g4 x = Some STATE_INITIALIZED"
      using i by (auto simp: nodes_def st_def f4 new_node_def)
    show "nodes g4 = insert ?t (nodes g)" using t by (auto simp: nodes_def f4)
    show "arcs g4 = arcs g" by (rule a4)
    have "hdr g4 = hdr g1" by (simp add: g4_def g3_def g2_def hdr_def)
    then show "hdr g4 = hdr g" using g1(3) unfolding ext_def by (metis hdr_same)
  qed
qed

text \<open>The static group graph after \<^verbatim>\<open>add_group_circ_check\<close> has been called for a list of entries.\<close>

lemma group_graph:
  assumes ok: "nodes_ok d" and es: "list_all (row_entry (row d)) (e # es)"
  obtains g where "for_each (\<lambda>tent gg. add_group_circ_check gg tent) (e # es) None = Some (Some g)"
    and "fresh_graph d g" and "nodes g = tnode_tupid ` set (e # es)" and "arcs g = {}"
    and "hdr g = hdr (create_graph TUP_NODE_GROUP)"
proof -
  have run: "\<exists>g'. for_each (\<lambda>tent gg. add_group_circ_check gg tent) es (Some g) = Some (Some g')
      \<and> pending (row d) {0} g' \<and> (\<forall>x \<in> nodes g'. st g' x = Some STATE_INITIALIZED)
      \<and> nodes g' = tnode_tupid ` set es \<union> nodes g \<and> arcs g' = arcs g \<and> hdr g' = hdr g"
    if "pending (row d) {0} g" "\<forall>x \<in> nodes g. st g x = Some STATE_INITIALIZED" "list_all (row_entry (row d)) es" for es g
    using that
  proof (induction es arbitrary: g)
    case (Cons e es)
    then have "row_entry (row d) e" by simp
    from add_group_pending [OF Cons.prems(1) this Cons.prems(2)] obtain g1 where
      g1: "add_group_circ_check (Some g) e = Some (Some g1)" "pending (row d) {0} g1"
      "\<forall>x \<in> nodes g1. st g1 x = Some STATE_INITIALIZED" "nodes g1 = insert (tnode_tupid e) (nodes g)"
      "arcs g1 = arcs g" "hdr g1 = hdr g" by metis
    from Cons.IH [OF g1(2,3)] Cons.prems(3) g1 show ?case by auto
  qed simp
  have none: "add_group_circ_check None e = add_group_circ_check (Some (create_graph TUP_NODE_GROUP)) e"
    by (simp add: add_group_circ_check_def)
  from run [OF create_graph_pending, of TUP_NODE_GROUP "e # es"] es
  obtain g' where "for_each (\<lambda>tent gg. add_group_circ_check gg tent) (e # es) (Some (create_graph TUP_NODE_GROUP)) = Some (Some g')"
    "pending (row d) {0} g'" "\<forall>x \<in> nodes g'. st g' x = Some STATE_INITIALIZED"
    "nodes g' = tnode_tupid ` set (e # es)" "arcs g' = {}" "hdr g' = hdr (create_graph TUP_NODE_GROUP)" by auto
  then show thesis using that ok none by (simp add: fresh_graph_def)
qed

text \<open>The edges of the finished group graph: from each group to the commands that use it, to their groups.\<close>

definition reached_group_arcs :: "db \<Rightarrow> tupid set \<Rightarrow> (tupid \<times> tupid) set" where
  "reached_group_arcs d S = (\<Union>t \<in> (group_deps d)\<^sup>* `` S. group_arcs d t)"

text \<open>
  C10: after \<^verbatim>\<open>add_group_circ_check\<close> on a list of groups,
  \<^verbatim>\<open>group_circ_check\<close> ends, and it succeeds exactly when the groups and commands reachable
  from them through the \<^verbatim>\<open>group_link\<close> table form no cycle.
\<close>

theorem group_circ_check_correct:
  assumes "nodes_ok d" and "group_runs d" and "list_all (row_entry (row d)) (e # es)"
  shows "\<exists>gg r. for_each (\<lambda>tent gg. add_group_circ_check gg tent) (e # es) None = Some gg
    \<and> group_circ_check d gg = Some r
    \<and> (r = Some () \<longleftrightarrow> acyclic (reached_group_arcs d (tnode_tupid ` set (e # es))))"
proof -
  from group_graph [OF assms(1,3)] obtain g where g:
    "for_each (\<lambda>tent gg. add_group_circ_check gg tent) (e # es) None = Some (Some g)" "fresh_graph d g"
    "nodes g = tnode_tupid ` set (e # es)" "arcs g = {}" "hdr g = hdr (create_graph TUP_NODE_GROUP)" by metis
  have m: "g_style g = TUP_LINK_GROUP" using g(5) by (simp add: hdr_def create_graph_def)
  have "group_walk.no_back d g" by (simp add: group_walk.no_back_def)
  with group_walk.walk [OF group_walk.walk_start [OF g(2) m]] assms(2) obtain g1 where
    g1: "build_loop d g = Some (Some g1)" "group_walk.walk_inv d g g1" "plist g1 = []"
    by (metis not_None_eq)
  note res = group_walk.walk_result [OF g1(2,3), unfolded g(3,4)]
  have h1: "hdr g1 = (0, TUP_LINK_GROUP, TUP_NODE_GROUP, [])" and p1: "pending (row d) {0} g1"
    using g1(2) g(5) by (simp_all add: group_walk.walk_inv_def)
  have at: "attach_loop d g1 = Some (Some g1)"
    using h1 by (subst attach_loop.simps) (simp add: attach_transient_nodes_def hdr_def)
  let ?g = "g1\<lparr>transient_root := []\<rparr>"
  have b: "build_graph d g = Some (Some (d, ?g))"
    using g1 at h1 by (simp add: build_graph_def hdr_def)
  have ar: "arcs ?g = reached_group_arcs d (tnode_tupid ` set (e # es))"
    using res(3) by (simp add: reached_group_arcs_def arcs_def graph_edges_def edges_of_def)
  have "x \<in> set (node_list g1)" if x: "find_node g1 x \<noteq> None" for x
  proof -
    obtain n where n: "find_node g1 x = Some n" using x by auto
    then have "node_fits {0} x n" using p1 by (simp add: pending_def)
    moreover have "active_list n \<noteq> Some PLIST"
      using n p1 g1(3) queues_okD(2) [of g1 x PLIST] by (simp add: pending_def graph_ok_def)
    ultimately have "active_list n = Some NODE_LIST" by (auto simp: node_fits_def split: if_splits)
    then show ?thesis
      using n p1 queues_okD(2) [of g1 x NODE_LIST] by (simp add: pending_def graph_ok_def)
  qed
  moreover have "graph_ok ?g" by (rule graph_ok_more [OF pending_ok [OF p1]]) simp_all
  ultimately have "listed ?g" by (simp add: listed_def)
  from trim_cycles [OF this] obtain g2 where "trim_graph ?g = Some g2" "node_list g2 = [] \<longleftrightarrow> acyclic (arcs ?g)" by metis
  then have "group_circ_check d (Some g) = Some (if acyclic (arcs ?g) then Some () else None)"
    using b by (simp add: group_circ_check_def)
  then show ?thesis using g(1) ar by auto
qed

text \<open>
  C13: on a graph whose nodes are all on \<open>node_list\<close>, \<^verbatim>\<open>trim_graph\<close> ends; it keeps
  every node that lies on a cycle, and it empties the list exactly when the edges have no cycle.
\<close>

theorem trim_graph_cycles:
  assumes "listed g"
  shows "\<exists>g'. trim_graph g = Some g' \<and> on_cycle (arcs g) \<subseteq> set (node_list g')
    \<and> (node_list g' = [] \<longleftrightarrow> acyclic (arcs g))"
  using trim_cycles [OF assms] by metis

end
