(* ===== verification/Samples.thy ===== *)
theory Samples
  imports Db_Links
begin

text \<open>Small databases, on which the hypotheses of the properties are shown to hold.\<close>

definition sample_entry :: "tupid \<Rightarrow> tup_node_type \<Rightarrow> string \<Rightarrow> tup_entry" where
  "sample_entry t ty flags = \<lparr>tnode_tupid = t, dt = 1, ntype = ty, mtime = \<lparr>tv_sec = 5, tv_nsec = 0\<rparr>,
     srcid = -1, name_s = ''n'', flags_s = flags, display_s = None\<rparr>"

definition sample_db :: "(tupid \<times> tup_node_type \<times> string) list \<Rightarrow> (tupid \<times> tupid) list \<Rightarrow> (tupid \<times> tupid) list
    \<Rightarrow> (tupid \<times> tupid \<times> tupid) list \<Rightarrow> tupid list \<Rightarrow> db" where
  "sample_db ns nl sl gl trl = \<lparr>node_tbl = map (\<lambda>(t, ty, fl). (t, sample_entry t ty fl)) ns,
     normal_link = nl, sticky_link = sl,
     group_link = gl, config_list = [], create_list = [], modify_list = [], variant_list = [],
     transient_list = trl, ghost_root = [], tent_stickies = (\<lambda>_. []), tent_group_stickies = (\<lambda>_. []),
     retrieved_stickies = (\<lambda>_. 0), tent_incoming = (\<lambda>_. None), sticky_count = 1, expected_changes = 0,
     local_exclusion_dt = 99, local_slash_dt = 98, variants = [], disabled_variants = [],
     tent_variant = (\<lambda>_. None), sql_ok = (\<lambda>_. True)\<rparr>"

end
