(* ===== verification/Graph_Examples.thy ===== *)
theory Graph_Examples
  imports Graph_Trim Samples
begin

text \<open>
  The graph properties at concrete databases, a cycle that \<^verbatim>\<open>build_graph\<close> does not
  see, and a transient command whose kept output makes it fail.
\<close>

declare build_loop.simps [code] attach_loop.simps [code] connected_loop.simps [code] trim_graph.simps [code]

section \<open>A cycle that is not reported\<close>

definition cycle_db :: db where
  "cycle_db = sample_db [(1, TUP_NODE_FILE, []), (2, TUP_NODE_CMD, []), (3, TUP_NODE_CMD, [])]
     [(1, 2), (1, 3), (3, 2), (2, 3)] [] [] []"

definition cycle_start :: graph where
  "cycle_start = the (for_each build_graph_cb [sample_entry 1 TUP_NODE_FILE []] (create_graph TUP_NODE_CMD))"

lemma cycle_run: "for_each build_graph_cb [sample_entry 1 TUP_NODE_FILE []] (create_graph TUP_NODE_CMD) \<noteq> None"
  "build_loop cycle_db cycle_start \<noteq> Some None" "build_loop cycle_db cycle_start \<noteq> None"
  by code_simp+

text \<open>
  Also: the loop reports a circular dependency only when it meets a node that is being
  processed, and with four links between three nodes it can finish without an error although
  nodes 2 and 3 depend on each other and both are in the graph.
\<close>

theorem build_loop_misses_cycle:
  "\<exists>g'. build_loop cycle_db cycle_start = Some (Some g') \<and> 2 \<in> on_cycle (normal_deps cycle_db)
    \<and> 3 \<in> on_cycle (normal_deps cycle_db)"
proof -
  have "(2, 3) \<in> normal_deps cycle_db" "(3, 2) \<in> normal_deps cycle_db"
    by (auto simp: normal_deps_def cycle_db_def sample_db_def)
  then have "2 \<in> on_cycle (normal_deps cycle_db)" "3 \<in> on_cycle (normal_deps cycle_db)"
    unfolding on_cycle_def by (auto intro: trancl_into_trancl)
  then show ?thesis using cycle_run(2,3) by auto
qed

section \<open>A transient command with one output left\<close>

text \<open>
  Command 10 writes the transient files 11 and 12; 11 is still there from an earlier build, and command
  20, which reads 12, has to run.
\<close>

definition mixed_db :: db where
  "mixed_db = sample_db [(10, TUP_NODE_CMD, ''t''), (11, TUP_NODE_GENERATED, ''t''), (12, TUP_NODE_GENERATED, ''t''),
      (20, TUP_NODE_CMD, []), (21, TUP_NODE_CMD, [])]
     [(10, 11), (10, 12)] [(12, 20), (11, 21)] [] [11]"

definition update_start :: "db \<Rightarrow> tupid list \<Rightarrow> graph option" where
  "update_start d modified = do {
     ms \<leftarrow> find_rows d modified;
     g \<leftarrow> for_each build_graph_non_transient_cb ms (create_graph TUP_NODE_CMD);
     ts \<leftarrow> find_rows d (transient_list d);
     for_each build_graph_transient_cb ts g}"

definition reports_error :: "(db \<times> graph) option option \<Rightarrow> bool" where
  "reports_error r = (case r of Some None \<Rightarrow> True | _ \<Rightarrow> False)"

definition finishes :: "(db \<times> graph) option option \<Rightarrow> bool" where
  "finishes r = (case r of Some (Some _) \<Rightarrow> True | _ \<Rightarrow> False)"

text \<open>
  Also: when one output of a transient command is on the transient list and another
  one is missing and needed, \<^verbatim>\<open>attach_transient_nodes\<close> takes the first one off \<open>plist\<close>
  although it is on \<open>node_list\<close>, so \<^verbatim>\<open>build_graph\<close> returns \<open>-1\<close>; with an empty transient list, or when only the
  reader of the existing output has to run, it succeeds.
\<close>

theorem transient_mixed_outputs_fail:
  "reports_error (build_graph mixed_db (the (update_start mixed_db [10, 20])))
   \<and> finishes (build_graph mixed_db (the (update_start mixed_db [10, 21])))
   \<and> finishes (build_graph (mixed_db\<lparr>transient_list := []\<rparr>)
        (the (update_start (mixed_db\<lparr>transient_list := []\<rparr>) [10, 20])))"
proof (intro conjI)
  show "reports_error (build_graph mixed_db (the (update_start mixed_db [10, 20])))" by code_simp
  show "finishes (build_graph mixed_db (the (update_start mixed_db [10, 21])))" by code_simp
  show "finishes (build_graph (mixed_db\<lparr>transient_list := []\<rparr>)
        (the (update_start (mixed_db\<lparr>transient_list := []\<rparr>) [10, 20])))" by code_simp
qed

section \<open>Witnesses\<close>

definition chain_db :: db where
  "chain_db = sample_db [(1, TUP_NODE_FILE, []), (2, TUP_NODE_CMD, []), (3, TUP_NODE_GENERATED, []),
      (4, TUP_NODE_GROUP, []), (5, TUP_NODE_GROUP, []), (6, TUP_NODE_CMD, [])] [(1, 2), (2, 3)] [] [(4, 5, 6)] []"

lemma chain_nodes: "nodes_ok chain_db"
  by code_simp

lemma chain_rows: "list_all (row_entry (row chain_db)) [sample_entry 1 TUP_NODE_FILE []]"
  "list_all (row_entry (row chain_db)) [sample_entry 4 TUP_NODE_GROUP []]"
  by code_simp+

lemma chain_runs: "normal_runs chain_db" "group_runs chain_db"
  by (simp_all add: normal_runs_def group_runs_def links_ok_def group_links_ok_def chain_db_def sample_db_def)

lemma chain_deps: "normal_deps chain_db \<subseteq> {(a, b). a < b}"
  by (auto simp: normal_deps_def chain_db_def sample_db_def)

lemma chain_acyclic: "acyclic (normal_deps chain_db)"
proof -
  have "acyclic {(a, b). a < (b::int)}"
    by (rule acyclicI_order [where f = "\<lambda>x. - x"]) auto
  then show ?thesis using chain_deps by (rule acyclic_subset)
qed

theorem build_loop_total_witness:
  "\<exists>g r. for_each build_graph_cb [sample_entry 1 TUP_NODE_FILE []] (create_graph TUP_NODE_CMD) = Some g
    \<and> build_loop chain_db g = Some r"
  using build_loop_total [OF chain_nodes chain_rows(1), of TUP_NODE_CMD, OF tup_node_type.distinct(25)]
  by (elim exE conjE) (intro exI conjI; assumption)

theorem build_loop_acyclic_witness:
  "\<exists>g g'. for_each build_graph_cb [sample_entry 1 TUP_NODE_FILE []] (create_graph TUP_NODE_CMD) = Some g
    \<and> build_loop chain_db g = Some (Some g')"
  by (rule build_loop_acyclic [OF chain_nodes chain_runs(1) chain_acyclic chain_rows(1) tup_node_type.distinct(25)])

theorem group_circ_check_correct_witness:
  "\<exists>gg r. for_each (\<lambda>tent gg. add_group_circ_check gg tent) [sample_entry 4 TUP_NODE_GROUP []] None = Some gg
    \<and> group_circ_check chain_db gg = Some r"
  using group_circ_check_correct [OF chain_nodes chain_runs(2) chain_rows(2)]
  by (elim exE conjE) (intro exI conjI; assumption)

theorem trim_graph_cycles_witness:
  "\<exists>g'. trim_graph (create_graph TUP_NODE_CMD) = Some g' \<and> node_list g' = []"
proof -
  have "listed (create_graph TUP_NODE_CMD)"
  proof -
    have "graph_ok (create_graph TUP_NODE_CMD)" by (rule pending_ok [OF create_graph_pending])
    moreover have "node_list (create_graph TUP_NODE_CMD) = [0]" by (simp add: create_graph_def)
    ultimately show ?thesis by (auto simp: listed_def split: if_splits)
  qed
  from trim_graph_cycles [OF this] obtain g' where "trim_graph (create_graph TUP_NODE_CMD) = Some g'"
    "node_list g' = [] \<longleftrightarrow> acyclic (arcs (create_graph TUP_NODE_CMD))" by (elim exE conjE)
  then show ?thesis by (simp add: acyclic_def)
qed

end
