(* ===== verification/Graph_Prune.thy ===== *)
theory Graph_Prune
  imports Graph_Examples
begin

text \<open>
  Partial updates: \<^verbatim>\<open>mark_nodes\<close> computes a closure, and \<^verbatim>\<open>prune_graph\<close> keeps exactly the
  marked part of the graph and flags what it drops.
\<close>

section \<open>Marking\<close>

definition marks :: "graph \<Rightarrow> tupid set" where
  "marks g = {x. is_marked g x}"

definition mark_rel :: "db \<Rightarrow> graph \<Rightarrow> (tupid \<times> tupid) set" where
  "mark_rel d g = {(a, b). \<exists>n. find_node g a = Some n \<and> b \<in> set (mark_calls d g n)}"

text \<open>Two graphs that differ in the \<open>marked\<close> flags only.\<close>

definition same_but_marks :: "graph \<Rightarrow> graph \<Rightarrow> bool" where
  "same_but_marks g g' \<longleftrightarrow> g' = g\<lparr>node_root := node_root g'\<rparr>
     \<and> (\<forall>x. map_option (\<lambda>n. n\<lparr>marked := False\<rparr>) (find_node g' x)
          = map_option (\<lambda>n. n\<lparr>marked := False\<rparr>) (find_node g x))"

lemma same_but_marks_refl [simp]: "same_but_marks g g"
  by (simp add: same_but_marks_def)

lemma same_but_marks_trans:
  assumes "same_but_marks g g'" and "same_but_marks g' g''"
  shows "same_but_marks g g''"
  using assms unfolding same_but_marks_def
  by (metis graph.surjective graph.update_convs(8))

lemma same_but_marks_queue: "same_but_marks g g' \<Longrightarrow> queue L g' = queue L g"
  unfolding same_but_marks_def by (cases L; metis graph.select_convs graph.surjective graph.update_convs(8) queue.simps)

lemma unmarked_eqD:
  assumes "map_option (\<lambda>n. n\<lparr>marked := False\<rparr>) a = map_option (\<lambda>n. n\<lparr>marked := False\<rparr>) b"
  shows "map_option n_tent a = map_option n_tent b" "map_option n_edges a = map_option n_edges b"
    "map_option n_incoming a = map_option n_incoming b" "map_option active_list a = map_option active_list b"
    "map_option counted a = map_option counted b" "a = None \<longleftrightarrow> b = None"
  using assms
  by (cases a; cases b; simp; (metis node.select_convs node.surjective node.update_convs(9))?)+

lemma same_but_marks_find:
  assumes "same_but_marks g g'"
  shows "map_option n_tent (find_node g' x) = map_option n_tent (find_node g x)"
    and "edges_of g' x = edges_of g x" and "incoming_of g' x = incoming_of g x"
    and "map_option active_list (find_node g' x) = map_option active_list (find_node g x)"
    and "map_option counted (find_node g' x) = map_option counted (find_node g x)"
    and "find_node g' x = None \<longleftrightarrow> find_node g x = None"
proof -
  have e: "map_option (\<lambda>n. n\<lparr>marked := False\<rparr>) (find_node g' x) = map_option (\<lambda>n. n\<lparr>marked := False\<rparr>) (find_node g x)"
    using assms by (simp add: same_but_marks_def)
  note u = unmarked_eqD [OF e]
  show "map_option n_tent (find_node g' x) = map_option n_tent (find_node g x)"
    "map_option active_list (find_node g' x) = map_option active_list (find_node g x)"
    "map_option counted (find_node g' x) = map_option counted (find_node g x)"
    "find_node g' x = None \<longleftrightarrow> find_node g x = None" by (rule u)+
  show "edges_of g' x = edges_of g x" "incoming_of g' x = incoming_of g x"
    using u(2,3,6) unfolding edges_of_def incoming_of_def
    by (cases "find_node g x"; cases "find_node g' x"; simp)+
qed

lemma mark_calls_same:
  assumes "same_but_marks g g'" and "find_node g a = Some n" and "find_node g' a = Some n'"
  shows "mark_calls d g' n' = mark_calls d g n"
proof -
  have t: "n_tent n' = n_tent n" using same_but_marks_find(1) [OF assms(1), of a] assms(2,3) by simp
  have e: "n_edges n' = n_edges n" "n_incoming n' = n_incoming n"
    using same_but_marks_find(2,3) [OF assms(1), of a] assms(2,3) by (simp_all add: edges_of_def incoming_of_def)
  have "(case find_node g' x of None \<Rightarrow> False
      | Some m \<Rightarrow> ntype (n_tent m) \<noteq> TUP_NODE_GROUP \<and> dt (n_tent m) \<noteq> local_exclusion_dt d)
    = (case find_node g x of None \<Rightarrow> False
      | Some m \<Rightarrow> ntype (n_tent m) \<noteq> TUP_NODE_GROUP \<and> dt (n_tent m) \<noteq> local_exclusion_dt d)" for x
    using same_but_marks_find(1) [OF assms(1), of x] by (cases "find_node g x"; cases "find_node g' x"; simp)
  then show ?thesis by (simp add: mark_calls_def t e)
qed

lemma mark_rel_same: "same_but_marks g g' \<Longrightarrow> mark_rel d g' = mark_rel d g"
proof -
  assume s: "same_but_marks g g'"
  have "(\<exists>n'. find_node g' a = Some n' \<and> b \<in> set (mark_calls d g' n'))
      \<longleftrightarrow> (\<exists>n. find_node g a = Some n \<and> b \<in> set (mark_calls d g n))" for a b
    using same_but_marks_find(6) [OF s, of a] mark_calls_same [OF s, of a]
    by (cases "find_node g a"; cases "find_node g' a"; simp)
  then show ?thesis by (simp add: mark_rel_def)
qed

lemma mark_one:
  assumes "find_node g t = Some n"
  shows "same_but_marks g (upd_node t (\<lambda>n. n\<lparr>marked := True\<rparr>) g)"
    and "marks (upd_node t (\<lambda>n. n\<lparr>marked := True\<rparr>) g) = insert t (marks g)"
proof -
  show "same_but_marks g (upd_node t (\<lambda>n. n\<lparr>marked := True\<rparr>) g)"
    using assms by (simp add: same_but_marks_def) (simp add: upd_node_def)
  show "marks (upd_node t (\<lambda>n. n\<lparr>marked := True\<rparr>) g) = insert t (marks g)"
    using assms by (auto simp: marks_def is_marked_def split: option.splits if_splits)
qed

definition closed :: "db \<Rightarrow> graph \<Rightarrow> tupid set \<Rightarrow> bool" where
  "closed d g S \<longleftrightarrow> (\<forall>a \<in> marks g. mark_rel d g `` {a} \<subseteq> marks g \<union> S)"

lemma mark_stack_spec:
  assumes "\<And>a b. (a, b) \<in> mark_rel d g \<Longrightarrow> find_node g b \<noteq> None" and "\<forall>t \<in> set ts. find_node g t \<noteq> None"
  shows "same_but_marks g (mark_stack d ts g)
    \<and> marks g \<union> set ts \<subseteq> marks (mark_stack d ts g)
    \<and> marks (mark_stack d ts g) \<subseteq> marks g \<union> (mark_rel d g)\<^sup>* `` set ts
    \<and> (closed d g (set ts) \<longrightarrow> closed d (mark_stack d ts g) {})"
  using assms
proof (induction d ts g rule: mark_stack.induct)
  case (1 d g)
  then show ?case by (simp add: closed_def)
next
  case (2 d t ts g)
  obtain n where n: "find_node g t = Some n" using 2(5) by auto
  show ?case
  proof (cases "marked n")
    case True
    then have t: "t \<in> marks g" using n by (simp add: marks_def is_marked_def)
    then have "closed d g (set (t # ts)) = closed d g (set ts)" by (auto simp: closed_def)
    then show ?thesis
      using 2(2) [OF n True] 2(4,5) n True t by (simp; blast)
  next
    case False
    let ?g = "upd_node t (\<lambda>n. n\<lparr>marked := True\<rparr>) g"
    note one = mark_one [OF n]
    have rel: "mark_rel d ?g = mark_rel d g" by (rule mark_rel_same [OF one(1)])
    have f: "find_node ?g x = None \<longleftrightarrow> find_node g x = None" for x by (rule same_but_marks_find(6) [OF one(1)])
    have calls: "set (mark_calls d g n) = mark_rel d g `` {t}" using n by (auto simp: mark_rel_def)
    let ?h = "mark_stack d (mark_calls d g n @ ts) ?g"
    have p2: "\<forall>x \<in> set (mark_calls d g n @ ts). find_node ?g x \<noteq> None"
      using 2(4,5) f calls by auto
    have p1: "(a, b) \<in> mark_rel d ?g \<Longrightarrow> find_node ?g b \<noteq> None" for a b
      using 2(4) [of a b] unfolding rel f .
    have ih: "same_but_marks ?g ?h \<and> insert t (marks g) \<union> set (mark_calls d g n @ ts) \<subseteq> marks ?h
      \<and> marks ?h \<subseteq> insert t (marks g) \<union> (mark_rel d g)\<^sup>* `` set (mark_calls d g n @ ts)
      \<and> (closed d ?g (set (mark_calls d g n @ ts)) \<longrightarrow> closed d ?h {})"
      using 2(3) [OF n False p1 p2] unfolding rel one(2) by simp
    have step: "mark_stack d (t # ts) g = ?h"
      using n False by simp
    have "closed d ?g (set (mark_calls d g n @ ts))" if "closed d g (set (t # ts))"
      using that unfolding closed_def rel one(2) set_append calls by auto
    moreover have "(mark_rel d g)\<^sup>* `` set (mark_calls d g n @ ts) \<subseteq> (mark_rel d g)\<^sup>* `` set (t # ts)"
      unfolding set_append calls by (auto intro: converse_rtrancl_into_rtrancl)
    moreover have "t \<in> (mark_rel d g)\<^sup>* `` set (t # ts)" by auto
    moreover have "same_but_marks g ?h" using ih same_but_marks_trans [OF one(1)] by simp
    moreover have "marks g \<union> set (t # ts) \<subseteq> marks ?h" using ih by auto
    ultimately show ?thesis unfolding step using ih by blast
  qed
qed

lemma graph_ok_calls: "graph_ok g \<Longrightarrow> (a, b) \<in> mark_rel d g \<Longrightarrow> find_node g b \<noteq> None"
proof -
  assume ok: "graph_ok g" and "(a, b) \<in> mark_rel d g"
  then obtain n where n: "find_node g a = Some n" "b \<in> set (mark_calls d g n)" by (auto simp: mark_rel_def)
  then consider "find_node g b \<noteq> None" | e where "e \<in> set (n_incoming n)" "e_src e = b"
    by (auto simp: mark_calls_def split: if_splits option.splits)
  then show ?thesis
  proof cases
    case 2
    then have "e \<in> set (incoming_of g a)" using n by (simp add: incoming_of_def)
    then have "(b, a) \<in> arcs g"
      using ok 2(2) incoming_mem [of g e a] by (auto simp: graph_ok_def arcs_def)
    then show ?thesis using edge_ends [OF ok] by simp
  qed
qed

lemma mark_nodes_closed:
  assumes "graph_ok g" and "find_node g t \<noteq> None" and "closed d g {}"
  shows "same_but_marks g (mark_nodes d t g)"
    and "marks (mark_nodes d t g) = marks g \<union> (mark_rel d g)\<^sup>* `` {t}"
    and "closed d (mark_nodes d t g) {}"
proof -
  have "closed d g (set [t])" using assms(3) by (auto simp: closed_def)
  note spec = mark_stack_spec [of d g "[t]", OF graph_ok_calls [OF assms(1)], folded mark_nodes_def]
  have s: "same_but_marks g (mark_nodes d t g)" "t \<in> marks (mark_nodes d t g)" "marks g \<subseteq> marks (mark_nodes d t g)"
    "marks (mark_nodes d t g) \<subseteq> marks g \<union> (mark_rel d g)\<^sup>* `` {t}" "closed d (mark_nodes d t g) {}"
    using spec assms(2) \<open>closed d g (set [t])\<close> by auto
  then show "same_but_marks g (mark_nodes d t g)" "closed d (mark_nodes d t g) {}" by simp_all
  have "(mark_rel d g)\<^sup>* `` {t} \<subseteq> marks (mark_nodes d t g)"
  proof
    fix x assume "x \<in> (mark_rel d g)\<^sup>* `` {t}"
    then have "(t, x) \<in> (mark_rel d g)\<^sup>*" by simp
    then show "x \<in> marks (mark_nodes d t g)"
    proof (induction rule: rtrancl_induct)
      case (step y z)
      then show ?case using s(5) mark_rel_same [OF s(1), of d] unfolding closed_def by blast
    qed (rule s(2))
  qed
  then show "marks (mark_nodes d t g) = marks g \<union> (mark_rel d g)\<^sup>* `` {t}" using s by blast
qed

section \<open>The targets of a partial update\<close>

definition reached :: "db \<Rightarrow> graph \<Rightarrow> tupid set \<Rightarrow> graph \<Rightarrow> bool" where
  "reached d g S h \<longleftrightarrow> same_but_marks g h \<and> closed d h {} \<and> marks h = (mark_rel d g)\<^sup>* `` S"

lemma same_but_marks_ok: "same_but_marks g h \<Longrightarrow> graph_ok g \<Longrightarrow> graph_ok h"
proof -
  assume s: "same_but_marks g h" and ok: "graph_ok g"
  have "queues_ok h"
  proof (rule queues_ok_cong [of g])
    show "map_option (\<lambda>n. (active_list n, n_tent n)) (find_node h t) = map_option (\<lambda>n. (active_list n, n_tent n)) (find_node g t)" for t
      using same_but_marks_find(1,4) [OF s, of t] by (cases "find_node h t"; cases "find_node g t"; simp)
  qed (use ok s in \<open>simp_all add: graph_ok_def same_but_marks_queue [OF s]\<close>)
  moreover have "edges_ok h"
  proof -
    obtain r where "h = g\<lparr>node_root := r\<rparr>" using s unfolding same_but_marks_def by blast
    then have "next_edge h = next_edge g" by simp
    then show ?thesis
      by (rule edges_ok_cong [of g, rotated 3]) (use ok in \<open>simp_all add: graph_ok_def same_but_marks_find [OF s]\<close>)
  qed
  ultimately show ?thesis by (simp add: graph_ok_def)
qed

lemma reached_mark:
  assumes "graph_ok g" and "reached d g S h" and "find_node g t \<noteq> None"
  shows "reached d g (insert t S) (mark_nodes d t h)"
proof -
  have s: "same_but_marks g h" and c: "closed d h {}" and m: "marks h = (mark_rel d g)\<^sup>* `` S"
    using assms(2) by (simp_all add: reached_def)
  have "find_node h t \<noteq> None" using assms(3) same_but_marks_find(6) [OF s] by simp
  note mk = mark_nodes_closed [OF same_but_marks_ok [OF s assms(1)] this c]
  have "marks (mark_nodes d t h) = (mark_rel d g)\<^sup>* `` insert t S"
    unfolding mk(2) m mark_rel_same [OF s] by auto
  then show ?thesis using mk(1,3) same_but_marks_trans [OF s] by (simp add: reached_def)
qed

lemma reached_skip:
  assumes "reached d g S h" and "t \<in> marks h"
  shows "reached d g (insert t S) h"
proof -
  have "t \<in> (mark_rel d g)\<^sup>* `` S" using assms by (simp add: reached_def)
  then have "(mark_rel d g)\<^sup>* `` insert t S = (mark_rel d g)\<^sup>* `` S" by (auto intro: rtrancl_trans)
  then show ?thesis using assms by (simp add: reached_def)
qed

definition under :: "db \<Rightarrow> graph \<Rightarrow> tupid_entries \<Rightarrow> tupid \<Rightarrow> bool" where
  "under d g dir_root t \<longleftrightarrow> (\<exists>n. find_node g t = Some n \<and> ntype (n_tent n) \<noteq> TUP_NODE_ROOT
     \<and> (\<exists>p \<in> set (parent_chain d (Suc (length (node_tbl d))) (n_tent n)). tupid_tree_search dir_root p \<noteq> None))"

lemma mark_files_reached:
  assumes "graph_ok g"
  shows "reached d g S h \<Longrightarrow>
    reached d g (S \<union> {t \<in> set ts. find_node g t \<noteq> None})
      (fold (\<lambda>t g. if find_node g t \<noteq> None then mark_nodes d t g else g) ts h)"
proof (induction ts arbitrary: S h)
  case (Cons t ts)
  have s: "same_but_marks g h" using Cons.prems by (simp add: reached_def)
  show ?case
  proof (cases "find_node g t = None")
    case True
    then have "{x \<in> set (t # ts). find_node g x \<noteq> None} = {x \<in> set ts. find_node g x \<noteq> None}" by auto
    then show ?thesis using Cons.IH [OF Cons.prems] True same_but_marks_find(6) [OF s, of t] by simp
  next
    case False
    have e: "S \<union> {x \<in> set (t # ts). find_node g x \<noteq> None} = insert t S \<union> {x \<in> set ts. find_node g x \<noteq> None}"
      using False by auto
    obtain m where "find_node h t = Some m" using False same_but_marks_find(6) [OF s, of t] by auto
    then show ?thesis unfolding e
      using Cons.IH [OF reached_mark [OF assms Cons.prems False]] by simp
  qed
qed simp

lemma mark_parents_reached:
  assumes "graph_ok g" and "find_node g t \<noteq> None"
  shows "reached d g S h \<Longrightarrow>
    reached d g (if \<exists>p \<in> set ps. tupid_tree_search r p \<noteq> None then insert t S else S)
      (fold (\<lambda>p g. if tupid_tree_search r p \<noteq> None then mark_nodes d t g else g) ps h)"
proof (induction ps arbitrary: S h)
  case (Cons p ps)
  show ?case
  proof (cases "tupid_tree_search r p = None")
    case True
    then show ?thesis using Cons.IH [OF Cons.prems] by simp
  next
    case False
    then show ?thesis using Cons.IH [OF reached_mark [OF assms(1) Cons.prems assms(2)]]
      by (simp add: insert_absorb split: if_splits)
  qed
qed simp

lemma mark_dirs_reached:
  assumes "graph_ok g"
  shows "reached d g S h \<Longrightarrow> reached d g (S \<union> {t \<in> set ts. under d g r t}) (fold (mark_under d r) ts h)"
proof (induction ts arbitrary: S h)
  case (Cons t ts)
  have s: "same_but_marks g h" using Cons.prems by (simp add: reached_def)
  have one: "reached d g (if under d g r t then insert t S else S) (mark_under d r t h)"
  proof (cases "find_node g t")
    case None
    then show ?thesis using Cons.prems same_but_marks_find(6) [OF s, of t] by (simp add: under_def mark_under_def)
  next
    case (Some n)
    then obtain m where m: "find_node h t = Some m" "n_tent m = n_tent n"
      using same_but_marks_find(1) [OF s, of t] by auto
    consider "ntype (n_tent n) = TUP_NODE_ROOT" | "marked m" | "\<not> marked m" "ntype (n_tent n) \<noteq> TUP_NODE_ROOT" by auto
    then show ?thesis
    proof cases
      case 1
      then show ?thesis using Cons.prems Some m by (simp add: under_def mark_under_def)
    next
      case 2
      then have "t \<in> marks h" using m by (simp add: marks_def is_marked_def)
      then show ?thesis using Cons.prems 2 m reached_skip by (auto simp: mark_under_def)
    next
      case 3
      have "find_node g t \<noteq> None" using Some by simp
      from mark_parents_reached [OF assms this Cons.prems] 3 Some m show ?thesis
        by (simp add: under_def mark_under_def del: parent_chain.simps)
    qed
  qed
  have e: "S \<union> {x \<in> set (t # ts). under d g r x} = (if under d g r t then insert t S else S) \<union> {x \<in> set ts. under d g r x}"
    by auto
  show ?case unfolding e using Cons.IH [OF one] by simp
qed simp

section \<open>Pruning\<close>

lemma remove_edge_view:
  assumes "\<And>n l. f (n\<lparr>n_edges := l\<rparr>) = f n" and "\<And>n l. f (n\<lparr>n_incoming := l\<rparr>) = f n"
  shows "map_option f (find_node (fold remove_edge es g) x) = map_option f (find_node g x)"
proof (induction es arbitrary: g)
  case (Cons e es)
  have "map_option f (find_node (remove_edge e g) x) = map_option f (find_node g x)"
    by (simp add: remove_edge_def option.map_comp comp_def assms)
  then show ?case using Cons.IH [of "remove_edge e g"] by simp
qed simp

lemma remove_node_internal_view:
  assumes "\<And>n l. f (n\<lparr>n_edges := l\<rparr>) = f n" and "\<And>n l. f (n\<lparr>n_incoming := l\<rparr>) = f n"
    and "\<And>n l. f (n\<lparr>active_list := l\<rparr>) = f n"
  shows "map_option f (find_node (remove_node_internal g t) x) = (if x = t then None else map_option f (find_node g x))"
proof -
  have "map_option f (find_node (off_list g t) x) = map_option f (find_node g x)" for x
    by (auto simp: off_list_def node_remove_list_def option.map_comp comp_def assms split: option.split)
  then show ?thesis
    unfolding remove_node_internal_def Let_def off_list_def [symmetric]
    by (simp add: remove_edge_view [OF assms(1,2)])
qed

lemma remove_node_internal_hdr:
  "num_nodes (remove_node_internal g t) = num_nodes g \<and> g_root (remove_node_internal g t) = g_root g"
proof -
  have e: "num_nodes (fold remove_edge es g) = num_nodes g \<and> g_root (fold remove_edge es g) = g_root g" for es g
    by (induction es arbitrary: g) (simp_all add: remove_edge_def)
  have q: "num_nodes (set_queue L l g) = num_nodes g" for L l g by (cases L) simp_all
  have "num_nodes (off_list g t) = num_nodes g \<and> g_root (off_list g t) = g_root g"
    by (auto simp: off_list_def node_remove_list_def q split: option.split)
  then show ?thesis
    unfolding remove_node_internal_def Let_def off_list_def [symmetric] by (simp add: e remove_node_def)
qed

definition node_view :: "node \<Rightarrow> tup_entry \<times> bool \<times> bool" where
  "node_view n = (n_tent n, counted n, marked n)"

definition view :: "graph \<Rightarrow> tupid \<Rightarrow> (tup_entry \<times> bool \<times> bool) option" where
  "view g x = map_option node_view (find_node g x)"

definition clear_transient :: "edge list \<Rightarrow> graph \<Rightarrow> graph" where
  "clear_transient es = fold (\<lambda>e. upd_node (e_src e) (\<lambda>m. if transient m \<noteq> TRANSIENT_NONE
     then m\<lparr>transient := TRANSIENT_NONE\<rparr> else m)) es"

lemma clear_transient_ok:
  assumes "graph_ok g"
  shows "graph_ok (clear_transient es g) \<and> view (clear_transient es g) x = view g x \<and> arcs (clear_transient es g) = arcs g
    \<and> num_nodes (clear_transient es g) = num_nodes g \<and> g_root (clear_transient es g) = g_root g
    \<and> queue L (clear_transient es g) = queue L g"
  using assms unfolding clear_transient_def
proof (induction es arbitrary: g)
  case (Cons e es)
  let ?f = "\<lambda>m. if transient m \<noteq> TRANSIENT_NONE then m\<lparr>transient := TRANSIENT_NONE\<rparr> else m"
  have ok: "graph_ok (upd_node (e_src e) ?f g)"
    by (rule graph_ok_upd_node [OF Cons.prems]) simp_all
  have "edges_of (upd_node (e_src e) ?f g) = edges_of g"
    by (auto simp: fun_eq_iff edges_of_def split: option.split)
  then have a: "arcs (upd_node (e_src e) ?f g) = arcs g" by (simp add: arcs_def graph_edges_def)
  have v: "view (upd_node (e_src e) ?f g) x = view g x"
  proof -
    have "node_view (?f m) = node_view m" for m by (simp add: node_view_def)
    then show ?thesis by (simp add: view_def option.map_comp comp_def)
  qed
  show ?case using Cons.IH [OF ok] a v by simp
qed simp

text \<open>What one call of \<^verbatim>\<open>prune_node\<close> removes.\<close>

definition removes :: "graph_prune_type \<Rightarrow> tup_entry \<Rightarrow> bool" where
  "removes gpt tent \<longleftrightarrow> gpt = GRAPH_PRUNE_ALL \<or> ntype tent \<noteq> TUP_NODE_FILE"

definition without :: "tupid set \<Rightarrow> (tupid \<times> tupid) set \<Rightarrow> (tupid \<times> tupid) set" where
  "without S r = {(a, b) \<in> r. a \<notin> S \<and> b \<notin> S}"

lemma prune_node_spec:
  assumes p: "prune_node gpt t (d, g, k) = Some (d', g', k')" and ok: "graph_ok g"
  shows "\<exists>e c m. view g t = Some (e, c, m) \<and> (c \<longrightarrow> ntype e = TUP_NODE_CMD) \<and> k' = (if c then k + 1 else k)
    \<and> d' = (if c then d\<lparr>modify_list := insert_or_ignore (modify_list d) [t]\<rparr> else d)
    \<and> num_nodes g' = (if c then num_nodes g - 1 else num_nodes g) \<and> g_root g' = g_root g \<and> graph_ok g'
    \<and> (\<forall>x. view g' x = (if x = t \<and> removes gpt e then None else view g x))
    \<and> arcs g' = (if removes gpt e then without {t} (arcs g) else arcs g)"
proof -
  obtain n where n: "find_node g t = Some n" using p by (auto simp: prune_node_def split: Option.bind_splits)
  define g1 where "g1 = (if counted n then g\<lparr>num_nodes := num_nodes g - 1,
     total_mtime := (if total_mtime g \<noteq> -1 \<and> tv_sec (mtime (n_tent n)) \<noteq> -1
        then total_mtime g - tv_sec (mtime (n_tent n)) else total_mtime g)\<rparr> else g)"
  define g2 where "g2 = clear_transient (n_incoming n) g1"
  have c: "counted n \<longrightarrow> ntype (n_tent n) = TUP_NODE_CMD"
    and k: "k' = (if counted n then k + 1 else k)"
    and d: "d' = (if counted n then d\<lparr>modify_list := insert_or_ignore (modify_list d) [t]\<rparr> else d)"
    and g': "g' = (if removes gpt (n_tent n) then remove_node_internal g2 t else g2)"
    using p n by (auto simp: prune_node_def g2_def g1_def clear_transient_def removes_def
        tup_db_add_modify_list_def step_def Let_def split: if_splits Option.bind_splits)
  have f1: "find_node g1 = find_node g" "arcs g1 = arcs g" "g_root g1 = g_root g" "\<And>L. queue L g1 = queue L g"
    by (simp_all add: g1_def arcs_def graph_edges_def edges_of_def)
  have "next_edge g1 = next_edge g" by (simp add: g1_def)
  then have ok1: "graph_ok g1" by (rule graph_ok_more [OF ok f1(1,4)])
  note c2 = clear_transient_ok [OF ok1, of "n_incoming n", folded g2_def]
  have v2: "view g2 x = view g x" for x using c2 by (simp add: view_def f1)
  have ok2: "graph_ok g2" using c2 by simp
  have vr: "view (remove_node_internal g2 t) x = (if x = t then None else view g x)" for x
    using remove_node_internal_view [of node_view g2 t x] v2 [of x] by (simp add: node_view_def view_def)
  have ar: "arcs (remove_node_internal g2 t) = without {t} (arcs g)"
    using remove_internal_arcs [OF ok2, of t] c2 f1(2) by (auto simp: without_def)
  show ?thesis
  proof (rule exI [of _ "n_tent n"], rule exI [of _ "counted n"], rule exI [of _ "marked n"], intro conjI allI)
    show "view g t = Some (n_tent n, counted n, marked n)" by (simp add: view_def node_view_def n)
    show "graph_ok g'" using ok2 remove_node_internal_ok [OF ok2, of t] by (simp add: g')
    show "num_nodes g' = (if counted n then num_nodes g - 1 else num_nodes g)"
      using c2 by (simp add: g' remove_node_internal_hdr) (simp add: g1_def)
    show "g_root g' = g_root g" using c2 f1(3) by (simp add: g' remove_node_internal_hdr)
    show "view g' x = (if x = t \<and> removes gpt (n_tent n) then None else view g x)" for x
      using v2 vr by (auto simp: g')
    show "arcs g' = (if removes gpt (n_tent n) then without {t} (arcs g) else arcs g)"
      using ar c2 f1(2) by (simp add: g')
  qed (use c k d in auto)
qed

text \<open>The loop over \<open>node_list\<close>: \<open>pruned g ts\<close> are the nodes it hands to \<^verbatim>\<open>prune_node\<close>.\<close>

definition pruned :: "graph \<Rightarrow> tupid list \<Rightarrow> tupid list" where
  "pruned g ts = filter (\<lambda>t. \<not> is_marked g t \<and> t \<noteq> g_root g) ts"

definition counted_node :: "graph \<Rightarrow> tupid \<Rightarrow> bool" where
  "counted_node g t = (case view g t of None \<Rightarrow> False | Some (e, c, m) \<Rightarrow> c)"

definition removed_node :: "graph_prune_type \<Rightarrow> graph \<Rightarrow> tupid \<Rightarrow> bool" where
  "removed_node gpt g t = (case view g t of None \<Rightarrow> False | Some (e, c, m) \<Rightarrow> removes gpt e)"

lemma is_marked_view: "is_marked g t = (case view g t of None \<Rightarrow> False | Some (e, c, m) \<Rightarrow> m)"
  by (cases "find_node g t") (simp_all add: is_marked_def view_def node_view_def)

lemma prune_nodes_spec:
  assumes "prune_nodes gpt ts (d, g, k) = Some (d', g', k')" and "graph_ok g" and "distinct ts"
  shows "graph_ok g' \<and> g_root g' = g_root g
    \<and> (\<forall>x. view g' x = (if x \<in> set (pruned g ts) \<and> removed_node gpt g x then None else view g x))
    \<and> arcs g' = without {x \<in> set (pruned g ts). removed_node gpt g x} (arcs g)
    \<and> k' = k + int (length (filter (counted_node g) (pruned g ts)))
    \<and> num_nodes g' = num_nodes g - int (length (filter (counted_node g) (pruned g ts)))
    \<and> set (modify_list d') = set (modify_list d) \<union> set (filter (counted_node g) (pruned g ts))
    \<and> d' = d\<lparr>modify_list := modify_list d'\<rparr>"
  using assms
proof (induction ts arbitrary: d g k)
  case Nil
  then show ?case by (simp add: pruned_def without_def)
next
  case (Cons t ts)
  show ?case
  proof (cases "\<not> is_marked g t \<and> t \<noteq> g_root g")
    case False
    then have "pruned g (t # ts) = pruned g ts" by (simp add: pruned_def)
    then show ?thesis using Cons False by simp
  next
    case True
    then obtain d1 g1 k1 where one: "prune_node gpt t (d, g, k) = Some (d1, g1, k1)"
      and rest: "prune_nodes gpt ts (d1, g1, k1) = Some (d', g', k')"
      using Cons.prems(1) by (auto split: Option.bind_splits)
    obtain e c m where s: "view g t = Some (e, c, m)"
      "k1 = (if c then k + 1 else k)" "d1 = (if c then d\<lparr>modify_list := insert_or_ignore (modify_list d) [t]\<rparr> else d)"
      "num_nodes g1 = (if c then num_nodes g - 1 else num_nodes g)" "g_root g1 = g_root g" "graph_ok g1"
      "\<forall>x. view g1 x = (if x = t \<and> removes gpt e then None else view g x)"
      "arcs g1 = (if removes gpt e then without {t} (arcs g) else arcs g)"
      using prune_node_spec [OF one Cons.prems(2)] by (elim exE conjE)
    have t: "t \<notin> set ts" and dist: "distinct ts" using Cons.prems(3) by simp_all
    have same: "view g1 x = view g x" if "x \<in> set ts" for x using that t s(7) by auto
    have pr: "pruned g1 ts = pruned g ts"
      unfolding pruned_def by (rule filter_cong) (simp_all add: is_marked_view same s(5))
    have sub: "set (pruned g ts) \<subseteq> set ts" by (auto simp: pruned_def)
    have cn: "filter (counted_node g1) (pruned g ts) = filter (counted_node g) (pruned g ts)"
      using sub same by (intro filter_cong) (auto simp: counted_node_def)
    have rn: "removed_node gpt g1 x = removed_node gpt g x" if "x \<in> set (pruned g ts)" for x
      using sub same that by (auto simp: removed_node_def)
    have pc: "pruned g (t # ts) = t # pruned g ts" using True by (simp add: pruned_def)
    have rt: "removed_node gpt g t = removes gpt e" and ct: "counted_node g t = c"
      using s(1) by (simp_all add: removed_node_def counted_node_def)
    note ih = Cons.IH [OF rest s(6) dist, unfolded pr cn s(5)]
    have "view g' x = (if x \<in> set (pruned g (t # ts)) \<and> removed_node gpt g x then None else view g x)" for x
      using ih s(7) rn rt t sub by (auto simp: pc)
    moreover have "arcs g' = without {x \<in> set (pruned g (t # ts)). removed_node gpt g x} (arcs g)"
    proof -
      have "{x \<in> set (pruned g ts). removed_node gpt g1 x} = {x \<in> set (pruned g ts). removed_node gpt g x}"
        using rn by auto
      then show ?thesis using ih s(8) rt by (auto simp: pc without_def)
    qed
    moreover have "d' = d\<lparr>modify_list := modify_list d'\<rparr>"
    proof -
      have "d' = d1\<lparr>modify_list := modify_list d'\<rparr>" using ih by blast
      moreover have "d1\<lparr>modify_list := l\<rparr> = d\<lparr>modify_list := l\<rparr>" for l using s(3) by simp
      ultimately show ?thesis by metis
    qed
    ultimately show ?thesis
      using ih s(2,3,4,5) ct by (cases c) (auto simp add: pc)
  qed
qed

text \<open>The nodes that the loop over the arguments collects.\<close>

definition collected :: "db \<Rightarrow> graph \<Rightarrow> tupid list \<Rightarrow> tupid_entries \<Rightarrow> tupid set" where
  "collected d g prune_list dir_root = {t \<in> set prune_list. find_node g t \<noteq> None}
     \<union> {t \<in> set (node_list g). dir_root \<noteq> [] \<and> under d g dir_root t}"

definition pruned_nodes :: "db \<Rightarrow> graph \<Rightarrow> tupid list \<Rightarrow> tupid_entries \<Rightarrow> tupid set" where
  "pruned_nodes d g prune_list dir_root =
     {x \<in> set (node_list g). x \<notin> (mark_rel d g)\<^sup>* `` collected d g prune_list dir_root \<and> x \<noteq> g_root g}"

lemma same_view:
  assumes "same_but_marks g h"
  shows "counted_node h x = counted_node g x" and "removed_node gpt h x = removed_node gpt g x"
    and "view h x = None \<longleftrightarrow> find_node g x = None"
  using same_but_marks_find(1,5,6) [OF assms, of x]
  by (cases "find_node h x"; cases "find_node g x"; simp add: counted_node_def removed_node_def view_def node_view_def)+

lemma prune_graph_run:
  assumes ok: "graph_ok g" and m: "marks g = {}"
    and args: "prune_args find_target False argv False [] [] = Some (True, pl, dr)"
    and run: "prune_graph find_target d g argv gpt = Some (d', g', k)"
  shows "graph_ok g'
    \<and> {x. find_node g' x \<noteq> None} = {x. find_node g x \<noteq> None} - {x \<in> pruned_nodes d g pl dr. removed_node gpt g x}
    \<and> arcs g' = without {x \<in> pruned_nodes d g pl dr. removed_node gpt g x} (arcs g)
    \<and> set (modify_list d') = set (modify_list d) \<union> {x \<in> pruned_nodes d g pl dr. counted_node g x}
    \<and> k = int (card {x \<in> pruned_nodes d g pl dr. counted_node g x}) \<and> num_nodes g' = num_nodes g - k"
proof -
  define g1 where "g1 = fold (\<lambda>t g. if find_node g t \<noteq> None then mark_nodes d t g else g) pl g"
  define g2 where "g2 = (if dr \<noteq> [] then fold (mark_under d dr) (node_list g1) g1 else g1)"
  have r: "prune_nodes gpt (node_list g2) (d, g2, 0) = Some (d', g', k)"
    using run args unfolding prune_graph_def g2_def g1_def Let_def by (simp split del: if_split)
  have "reached d g {} g" using m by (simp add: reached_def closed_def)
  from mark_files_reached [OF ok this] have r1: "reached d g {t \<in> set pl. find_node g t \<noteq> None} g1"
    by (simp add: g1_def)
  then have nl1: "node_list g1 = node_list g"
    using same_but_marks_queue [of g g1 NODE_LIST] by (simp add: reached_def)
  have r2: "reached d g (collected d g pl dr) g2"
    using mark_dirs_reached [OF ok r1, of "node_list g" dr] r1 by (simp add: g2_def collected_def nl1)
  then have s: "same_but_marks g g2" and mk: "marks g2 = (mark_rel d g)\<^sup>* `` collected d g pl dr"
    by (simp_all add: reached_def)
  have ok2: "graph_ok g2" by (rule same_but_marks_ok [OF s ok])
  have nl: "node_list g2 = node_list g" using same_but_marks_queue [OF s, of NODE_LIST] by simp
  have dist: "distinct (node_list g2)" using ok2 queues_okD(1) [of g2 NODE_LIST] by (simp add: graph_ok_def)
  obtain nr where nr: "g2 = g\<lparr>node_root := nr\<rparr>" using s unfolding same_but_marks_def by blast
  then have hdr: "g_root g2 = g_root g" "num_nodes g2 = num_nodes g" by simp_all
  have ed: "edges_of g2 = edges_of g" using same_but_marks_find(2) [OF s] by (simp add: fun_eq_iff)
  then have ar: "arcs g2 = arcs g" by (simp add: arcs_def graph_edges_def)
  have go: "set (pruned g2 (node_list g2)) = pruned_nodes d g pl dr"
    unfolding pruned_def pruned_nodes_def nl hdr mk [symmetric] by (auto simp: marks_def)
  have cn: "set (filter (counted_node g2) (pruned g2 (node_list g2))) = {x \<in> pruned_nodes d g pl dr. counted_node g x}"
    using go same_view(1) [OF s] by auto
  have "distinct (filter (counted_node g2) (pruned g2 (node_list g2)))" using dist by (simp add: pruned_def)
  then have card: "length (filter (counted_node g2) (pruned g2 (node_list g2))) = card {x \<in> pruned_nodes d g pl dr. counted_node g x}"
    unfolding cn [symmetric] by (rule distinct_card [symmetric])
  have rn: "{x \<in> set (pruned g2 (node_list g2)). removed_node gpt g2 x} = {x \<in> pruned_nodes d g pl dr. removed_node gpt g x}"
    unfolding go same_view(2) [OF s] ..
  note spec = prune_nodes_spec [OF r ok2 dist, unfolded rn cn card hdr ar]
  have "find_node g' x \<noteq> None \<longleftrightarrow> find_node g x \<noteq> None \<and> \<not> (x \<in> pruned_nodes d g pl dr \<and> removed_node gpt g x)" for x
  proof -
    have "view g' x = (if x \<in> set (pruned g2 (node_list g2)) \<and> removed_node gpt g2 x then None else view g2 x)"
      using spec by blast
    then have "view g' x = (if x \<in> pruned_nodes d g pl dr \<and> removed_node gpt g x then None else view g2 x)"
      unfolding go same_view(2) [OF s] .
    moreover have "view g' x = None \<longleftrightarrow> find_node g' x = None" by (simp add: view_def)
    ultimately show ?thesis using same_view(3) [OF s, of x] by (auto split: if_splits)
  qed
  then have f: "{x. find_node g' x \<noteq> None} = {x. find_node g x \<noteq> None} - {x \<in> pruned_nodes d g pl dr. removed_node gpt g x}"
    by auto
  show ?thesis unfolding f using spec by simp
qed

text \<open>
  On a graph without marks, \<^verbatim>\<open>mark_nodes\<close> marks exactly the nodes reachable from
  its argument, changes nothing else, and stops.
\<close>

lemma mark_nodes_closure:
  assumes "graph_ok g" and "find_node g t \<noteq> None" and "marks g = {}"
  shows "same_but_marks g (mark_nodes d t g) \<and> marks (mark_nodes d t g) = (mark_rel d g)\<^sup>* `` {t}"
  using mark_nodes_closed [OF assms(1,2), of d] assms(3) by (simp add: closed_def)

section \<open>What a partial update has to keep\<close>

text \<open>
  The meaning of the arguments, from the manual: options start with a dash and end with \<^verbatim>\<open>--\<close>; every
  other argument names a file or a directory.
\<close>

definition named :: "string list \<Rightarrow> string list" where
  "named argv = filter (\<lambda>a. take 1 a \<noteq> ''-'') (takeWhile (\<lambda>a. a \<noteq> ''--'') argv) @ tl (dropWhile (\<lambda>a. a \<noteq> ''--'') argv)"

definition is_dir :: "tup_entry \<Rightarrow> bool" where
  "is_dir e \<longleftrightarrow> ntype e \<in> {TUP_NODE_DIR, TUP_NODE_GENERATED_DIR}"

text \<open>An entry is in the directory of its \<^verbatim>\<open>dt\<close> and in those that this one is in.\<close>

definition inside_rel :: "db \<Rightarrow> (tupid \<times> tupid) set" where
  "inside_rel d = {(t, p). \<exists>e. row d t = Some e \<and> dt e = p \<and> row d p \<noteq> None}"

definition in_dir :: "db \<Rightarrow> tup_entry \<Rightarrow> tupid \<Rightarrow> bool" where
  "in_dir d e a \<longleftrightarrow> row d (dt e) \<noteq> None \<and> (dt e, a) \<in> (inside_rel d)\<^sup>*"

text \<open>The nodes of the graph that are named by an argument or are in a directory that is named.\<close>

definition targets :: "(string \<Rightarrow> tup_entry option) \<Rightarrow> db \<Rightarrow> graph \<Rightarrow> string list \<Rightarrow> tupid set" where
  "targets find_target d g argv =
     {t. find_node g t \<noteq> None \<and> (\<exists>a \<in> set (named argv). \<exists>e. find_target a = Some e \<and> \<not> is_dir e \<and> tnode_tupid e = t)}
   \<union> {t \<in> set (node_list g). \<exists>n. find_node g t = Some n \<and> ntype (n_tent n) \<noteq> TUP_NODE_ROOT
        \<and> (\<exists>a \<in> set (named argv). \<exists>e. find_target a = Some e \<and> is_dir e \<and> in_dir d (n_tent n) (tnode_tupid e))}"

text \<open>
  What must be built for the targets: they, all that a needed node depends on, and all outputs of a needed command
  (they are unlinked before it runs) except for groups, which would pull in everything in the group, and exclusions.
\<close>

inductive_set needed_for :: "db \<Rightarrow> graph \<Rightarrow> tupid set \<Rightarrow> tupid set" for d g T where
  is_target: "t \<in> T \<Longrightarrow> t \<in> needed_for d g T"
| is_input: "b \<in> needed_for d g T \<Longrightarrow> (a, b) \<in> arcs g \<Longrightarrow> a \<in> needed_for d g T"
| is_output: "c \<in> needed_for d g T \<Longrightarrow> find_node g c = Some n \<Longrightarrow> ntype (n_tent n) = TUP_NODE_CMD \<Longrightarrow> (c, b) \<in> arcs g
    \<Longrightarrow> find_node g b = Some m \<Longrightarrow> ntype (n_tent m) \<noteq> TUP_NODE_GROUP \<Longrightarrow> dt (n_tent m) \<noteq> local_exclusion_dt d
    \<Longrightarrow> b \<in> needed_for d g T"

lemma mark_rel_arcs:
  assumes "graph_ok g"
  shows "(a, b) \<in> mark_rel d g \<longleftrightarrow> (b, a) \<in> arcs g \<or> (\<exists>n m. find_node g a = Some n \<and> ntype (n_tent n) = TUP_NODE_CMD
     \<and> (a, b) \<in> arcs g \<and> find_node g b = Some m \<and> ntype (n_tent m) \<noteq> TUP_NODE_GROUP \<and> dt (n_tent m) \<noteq> local_exclusion_dt d)"
proof -
  have ok: "edges_ok g" using assms by (simp add: graph_ok_def)
  have inc: "(b, a) \<in> arcs g \<longleftrightarrow> b \<in> e_src ` set (incoming_of g a)"
    by (auto simp: arcs_def incoming_mem [OF ok])
  have out: "(a, b) \<in> arcs g \<longleftrightarrow> b \<in> e_dest ` set (edges_of g a)"
    by (auto simp: arcs_def edges_mem [OF ok])
  show ?thesis
  proof (cases "find_node g a")
    case None
    then show ?thesis unfolding inc by (simp add: mark_rel_def incoming_of_def)
  next
    case (Some n)
    then have e: "edges_of g a = n_edges n" "incoming_of g a = n_incoming n" by (simp_all add: edges_of_def incoming_of_def)
    show ?thesis
      unfolding inc out e using Some by (fastforce simp: mark_rel_def mark_calls_def image_iff split: option.splits)
  qed
qed

lemma marked_needed:
  assumes "graph_ok g"
  shows "(mark_rel d g)\<^sup>* `` T = needed_for d g T"
proof
  show "(mark_rel d g)\<^sup>* `` T \<subseteq> needed_for d g T"
  proof clarify
    fix t x
    assume "(t, x) \<in> (mark_rel d g)\<^sup>*" "t \<in> T"
    then show "x \<in> needed_for d g T"
    proof (induction rule: rtrancl_induct)
      case (step y z)
      then show ?case unfolding mark_rel_arcs [OF assms] by (blast intro: needed_for.intros)
    qed (blast intro: needed_for.intros)
  qed
  show "needed_for d g T \<subseteq> (mark_rel d g)\<^sup>* `` T"
  proof
    fix x assume "x \<in> needed_for d g T"
    then show "x \<in> (mark_rel d g)\<^sup>* `` T"
    proof induction
      case (is_input b a)
      then have "(b, a) \<in> mark_rel d g" unfolding mark_rel_arcs [OF assms] by blast
      then show ?case using is_input by (blast intro: rtrancl_into_rtrancl)
    next
      case (is_output c n b m)
      then have "(c, b) \<in> mark_rel d g" unfolding mark_rel_arcs [OF assms] by blast
      then show ?case using is_output by (blast intro: rtrancl_into_rtrancl)
    qed blast
  qed
qed

lemma named_Cons:
  "named (a # args) = (if a = ''--'' then args else if take 1 a = ''-'' then named args else a # named args)"
  by (simp add: named_def)

lemma add_dup_valid:
  assumes "tupid_set.valid r" and "small_tupid x"
  obtains r' where "tupid_tree_add_dup r x = Some r'" "tupid_set.valid r'" "set r' = insert x (set r)"
proof (cases "x \<in> set r")
  case True
  then show thesis using that [of r] tupid_set.ins_dup [OF assms(1)] assms(1) by (simp add: tupid_tree_add_dup_def insert_absorb)
next
  case False
  obtain r' where "tupid_tree_insert r x = Some r'" "tupid_set.valid r'" "set r' = insert x (set r)"
    by (rule tupid_set.ins_fresh [OF assms False])
  then show thesis using that by (simp add: tupid_tree_add_dup_def)
qed

lemma prune_args_spec:
  assumes "prune_args find_target dashdash args p pl dr = Some (p', pl', dr')" and "tupid_set.valid dr"
    and "\<And>a e. find_target a = Some e \<Longrightarrow> small_tupid (tnode_tupid e)"
  shows "(p' \<longleftrightarrow> p \<or> (if dashdash then args else named args) \<noteq> []) \<and> tupid_set.valid dr'
    \<and> set pl' = set pl \<union> {t. \<exists>a \<in> set (if dashdash then args else named args). \<exists>e. find_target a = Some e \<and> \<not> is_dir e \<and> tnode_tupid e = t}
    \<and> set dr' = set dr \<union> {t. \<exists>a \<in> set (if dashdash then args else named args). \<exists>e. find_target a = Some e \<and> is_dir e \<and> tnode_tupid e = t}"
  using assms(1,2)
proof (induction args arbitrary: dashdash p pl dr)
  case Nil
  then show ?case by (simp add: named_def)
next
  case (Cons a args)
  let ?dd = "dashdash \<or> a = ''--''"
  show ?case
  proof (cases "\<not> dashdash \<and> take 1 a = ''-''")
    case True
    then have "prune_args find_target ?dd args p pl dr = Some (p', pl', dr')" using Cons.prems(1) by (simp add: Let_def)
    from Cons.IH [OF this Cons.prems(2)] show ?thesis using True by (simp add: named_Cons split: if_splits)
  next
    case False
    then have nm: "(if dashdash then a # args else named (a # args)) = a # (if ?dd then args else named args)"
      by (auto simp: named_Cons)
    obtain e where e: "find_target a = Some e" using Cons.prems(1) False by (auto simp: Let_def split: Option.bind_splits)
    show ?thesis
    proof (cases "is_dir e")
      case True
      obtain r where r: "tupid_tree_add_dup dr (tnode_tupid e) = Some r" "tupid_set.valid r" "set r = insert (tnode_tupid e) (set dr)"
        by (rule add_dup_valid [OF Cons.prems(2) assms(3) [OF e]])
      have "prune_args find_target ?dd args True pl r = Some (p', pl', dr')"
        using Cons.prems(1) False e r(1) True by (simp add: Let_def is_dir_def split: if_splits)
      from Cons.IH [OF this r(2)] show ?thesis unfolding nm r(3) using e True by auto
    next
      case notdir: False
      have "prune_args find_target ?dd args True (tnode_tupid e # pl) dr = Some (p', pl', dr')"
        using Cons.prems(1) False e notdir by (simp add: Let_def is_dir_def split: if_splits)
      from Cons.IH [OF this Cons.prems(2)] show ?thesis unfolding nm using e notdir by auto
    qed
  qed
qed

lemma parent_chain_in_dir:
  assumes "nodes_ok d"
  shows "a \<in> set (parent_chain d (Suc (length (node_tbl d))) e) \<longleftrightarrow> in_dir d e a"
proof
  have key: "tnode_tupid p = x" if "row d x = Some p" for x p
    using assms that by (auto simp: nodes_ok_def dest!: map_of_SomeD)
  have "a \<in> set (parent_chain d k e) \<Longrightarrow> in_dir d e a" for k e
  proof (induction k arbitrary: e)
    case (Suc k)
    then obtain p where p: "row d (dt e) = Some p" "a = tnode_tupid p \<or> a \<in> set (parent_chain d k p)"
      by (cases "row d (dt e)") auto
    show ?case
    proof (cases "a = tnode_tupid p")
      case True
      then show ?thesis using p(1) key by (simp add: in_dir_def)
    next
      case False
      then have "row d (dt p) \<noteq> None" "(dt p, a) \<in> (inside_rel d)\<^sup>*" using Suc.IH p(2) by (auto simp: in_dir_def)
      moreover have "(dt e, dt p) \<in> inside_rel d" using p(1) calculation(1) by (auto simp: inside_rel_def)
      ultimately show ?thesis using p(1) by (simp add: in_dir_def converse_rtrancl_into_rtrancl)
    qed
  qed simp
  then show "a \<in> set (parent_chain d (Suc (length (node_tbl d))) e) \<Longrightarrow> in_dir d e a" .
  have chain: "row d (dt e) \<noteq> None \<Longrightarrow> (dt e, a) \<in> inside_rel d ^^ n \<Longrightarrow> n < k \<Longrightarrow> a \<in> set (parent_chain d k e)" for n k e
  proof (induction n arbitrary: e k)
    case 0
    then obtain p k' where "row d (dt e) = Some p" "k = Suc k'" by (cases k) auto
    then show ?case using 0 key by simp
  next
    case (Suc n)
    obtain y where y: "(dt e, y) \<in> inside_rel d" "(y, a) \<in> inside_rel d ^^ n" using Suc.prems(2) by (rule relpow_Suc_E2)
    then obtain p where p: "row d (dt e) = Some p" "dt p = y" "row d y \<noteq> None" by (auto simp: inside_rel_def)
    obtain k' where "k = Suc k'" "n < k'" using Suc.prems(3) by (cases k) auto
    then show ?case using Suc.IH [of p k'] p y(2) by simp
  qed
  have sub: "inside_rel d \<subseteq> (\<lambda>(t, e). (t, dt e)) ` set (node_tbl d)"
    by (force simp: inside_rel_def dest: map_of_SomeD)
  then have fin: "finite (inside_rel d)" by (rule finite_subset) simp
  have "card (inside_rel d) \<le> card ((\<lambda>(t, e). (t, dt e)) ` set (node_tbl d))" by (rule card_mono [OF _ sub]) simp
  also have "\<dots> \<le> length (node_tbl d)" using card_image_le [OF finite_set] card_length [of "node_tbl d"] le_trans by blast
  finally have c: "card (inside_rel d) \<le> length (node_tbl d)" .
  assume "in_dir d e a"
  then obtain n where "row d (dt e) \<noteq> None" "(dt e, a) \<in> inside_rel d ^^ n" "n \<le> card (inside_rel d)"
    by (auto simp: in_dir_def rtrancl_finite_eq_relpow [OF fin])
  then show "a \<in> set (parent_chain d (Suc (length (node_tbl d))) e)" using c by (intro chain) auto
qed

lemma collected_targets:
  assumes "nodes_ok d" and "\<forall>a e. find_target a = Some e \<longrightarrow> row d (tnode_tupid e) = Some e"
    and "prune_args find_target False argv False [] [] = Some (p, pl, dr)"
  shows "collected d g pl dr = targets find_target d g argv" and "p \<longleftrightarrow> named argv \<noteq> []"
proof -
  have small: "small_tupid t" if "row d t \<noteq> None" for t
    using assms(1) that by (auto simp: nodes_ok_def dest!: map_of_SomeD)
  have "small_tupid (tnode_tupid e)" if "find_target a = Some e" for a e using small assms(2) that by simp
  from prune_args_spec [OF assms(3) _ this] have s: "p \<longleftrightarrow> named argv \<noteq> []" "tupid_set.valid dr"
    "set pl = {t. \<exists>a \<in> set (named argv). \<exists>e. find_target a = Some e \<and> \<not> is_dir e \<and> tnode_tupid e = t}"
    "set dr = {t. \<exists>a \<in> set (named argv). \<exists>e. find_target a = Some e \<and> is_dir e \<and> tnode_tupid e = t}"
    by simp_all
  show "p \<longleftrightarrow> named argv \<noteq> []" by (rule s(1))
  have srch: "tupid_tree_search dr x \<noteq> None \<longleftrightarrow> x \<in> set dr" if "in_dir d e x" for e x
  proof -
    have "row d x \<noteq> None" using that unfolding in_dir_def by (auto elim: rtranclE simp: inside_rel_def)
    then show ?thesis using tupid_set.srch_iff [OF s(2) small] by blast
  qed
  have u: "under d g dr t \<longleftrightarrow> (\<exists>n. find_node g t = Some n \<and> ntype (n_tent n) \<noteq> TUP_NODE_ROOT \<and> (\<exists>x \<in> set dr. in_dir d (n_tent n) x))" for t
    unfolding under_def Bex_def parent_chain_in_dir [OF assms(1)] using srch by blast
  have ne: "dr \<noteq> [] \<and> under d g dr t \<longleftrightarrow> under d g dr t" for t by (auto simp: u)
  have ex: "(\<exists>x \<in> set dr. in_dir d e x) \<longleftrightarrow> (\<exists>a \<in> set (named argv). \<exists>f. find_target a = Some f \<and> is_dir f \<and> in_dir d e (tnode_tupid f))" for e
    unfolding s(4) by blast
  show "collected d g pl dr = targets find_target d g argv"
    unfolding collected_def targets_def ne unfolding u ex s(3) by blast
qed

text \<open>The nodes that a partial update prunes.\<close>

definition gone :: "(string \<Rightarrow> tup_entry option) \<Rightarrow> db \<Rightarrow> graph \<Rightarrow> string list \<Rightarrow> tupid set" where
  "gone find_target d g argv = {x \<in> set (node_list g). x \<notin> needed_for d g (targets find_target d g argv) \<and> x \<noteq> g_root g}"

text \<open>
  C11: \<^verbatim>\<open>prune_graph\<close>, on a well-formed graph without marks, a well-formed node table, and with arguments that are found in it.  If no
  argument names anything (there are only options), nothing is changed.  Otherwise, when it succeeds, it prunes exactly the
  nodes on \<open>node_list\<close>, other than the root, that are not needed: needed are the nodes that are named or are below a
  directory that is named, everything that a needed node depends on, and all outputs of a needed command other than groups
  and exclusions.  The pruned nodes are removed with their edges, except, for generated pruning, normal files; every
  pruned command that is counted is put on the modify list and counted once.
\<close>

theorem prune_graph_correct:
  assumes "graph_ok g" and "marks g = {}" and "nodes_ok d"
    and "\<forall>a e. find_target a = Some e \<longrightarrow> row d (tnode_tupid e) = Some e"
    and "prune_graph find_target d g argv gpt = Some (d', g', k)"
  shows "(named argv = [] \<longrightarrow> d' = d \<and> g' = g \<and> k = 0)
    \<and> (named argv \<noteq> [] \<longrightarrow> graph_ok g'
       \<and> {x. find_node g' x \<noteq> None} = {x. find_node g x \<noteq> None} - {x \<in> gone find_target d g argv. removed_node gpt g x}
       \<and> arcs g' = without {x \<in> gone find_target d g argv. removed_node gpt g x} (arcs g)
       \<and> set (modify_list d') = set (modify_list d) \<union> {x \<in> gone find_target d g argv. counted_node g x}
       \<and> k = int (card {x \<in> gone find_target d g argv. counted_node g x}) \<and> num_nodes g' = num_nodes g - k)"
proof -
  obtain p pl dr where args: "prune_args find_target False argv False [] [] = Some (p, pl, dr)"
    using assms(5) by (auto simp: prune_graph_def split: Option.bind_splits)
  note c = collected_targets [OF assms(3,4) args]
  have go: "pruned_nodes d g pl dr = gone find_target d g argv"
    unfolding pruned_nodes_def gone_def c(1) marked_needed [OF assms(1)] ..
  show ?thesis
  proof (cases "named argv = []")
    case True
    then show ?thesis using assms(5) args c(2) by (simp add: prune_graph_def)
  next
    case False
    then have a: "prune_args find_target False argv False [] [] = Some (True, pl, dr)" using args c(2) by simp
    show ?thesis using prune_graph_run [OF assms(1,2) a assms(5), unfolded go] False by simp
  qed
qed

section \<open>Witnesses\<close>

text \<open>A built graph: commands 2 and 4 write the files 3 and 5; only 3 is asked for.\<close>

definition partial_db :: db where
  "partial_db = sample_db [(2, TUP_NODE_CMD, []), (3, TUP_NODE_GENERATED, []), (4, TUP_NODE_CMD, []),
     (5, TUP_NODE_GENERATED, [])] [(2, 3), (4, 5)] [] [] []"

definition partial_entries :: "tup_entry list" where
  "partial_entries = [sample_entry 2 TUP_NODE_CMD [], sample_entry 4 TUP_NODE_CMD []]"

definition partial_start :: graph where
  "partial_start = the (for_each build_graph_cb partial_entries (create_graph TUP_NODE_CMD))"

definition partial_target :: "string \<Rightarrow> tup_entry option" where
  "partial_target s = (if s = ''out'' then Some (sample_entry 3 TUP_NODE_GENERATED []) else None)"

lemma partial_nodes: "nodes_ok partial_db" "list_all (row_entry (row partial_db)) partial_entries"
  by code_simp+

definition partial_graph :: graph where
  "partial_graph = the (the (build_loop partial_db partial_start))"

lemma partial_run:
  "\<not> Option.is_none (build_loop partial_db partial_start)"
  "\<not> Option.is_none (the (build_loop partial_db partial_start))"
  "list_all (\<lambda>p. \<not> marked (snd p)) (node_root partial_graph)"
  "find_node partial_graph 3 \<noteq> None"
  "\<not> Option.is_none (prune_graph partial_target partial_db partial_graph [''-v'', ''out''] GRAPH_PRUNE_GENERATED)"
  by code_simp+

lemma partial_ok: "graph_ok partial_graph"
proof -
  from build_loop_facts [OF partial_nodes tup_node_type.distinct(25)] obtain g r where
    g: "for_each build_graph_cb partial_entries (create_graph TUP_NODE_CMD) = Some g" "build_loop partial_db g = Some r"
    "\<forall>g'. r = Some g' \<longrightarrow> graph_ok g'" by (elim exE conjE) simp
  then have "partial_start = g" by (simp add: partial_start_def)
  then show ?thesis using g partial_run(2) by (auto simp: partial_graph_def Option.is_none_def)
qed

lemma partial_unmarked: "marks partial_graph = {}"
  using partial_run(3)
  by (auto simp: marks_def is_marked_def find_node_def list_all_iff dest!: map_of_SomeD split: option.splits)

lemma partial_found: "\<forall>a e. partial_target a = Some e \<longrightarrow> row partial_db (tnode_tupid e) = Some e"
  by (auto simp: partial_target_def partial_db_def sample_db_def sample_entry_def split: if_splits)

theorem prune_graph_correct_witness:
  "\<exists>d' g' k. prune_graph partial_target partial_db partial_graph [''-v'', ''out''] GRAPH_PRUNE_GENERATED = Some (d', g', k)
    \<and> graph_ok g' \<and> find_node g' 4 = None \<and> 4 \<in> set (modify_list d')"
proof -
  obtain d' g' k where r: "prune_graph partial_target partial_db partial_graph [''-v'', ''out''] GRAPH_PRUNE_GENERATED
      = Some (d', g', k)"
    using partial_run(5) by (auto simp: Option.is_none_def)
  have "named [''-v'', ''out''] \<noteq> []" by code_simp
  then have "graph_ok g'"
    using prune_graph_correct [OF partial_ok partial_unmarked partial_nodes(1) partial_found r] by blast
  moreover have "list_all (\<lambda>(d', g', k). find_node g' 4 = None \<and> 4 \<in> set (modify_list d'))
      [the (prune_graph partial_target partial_db partial_graph [''-v'', ''out''] GRAPH_PRUNE_GENERATED)]"
    by code_simp
  ultimately show ?thesis using r by simp
qed

end
