(* ===== verification/Db_Deps.thy ===== *)
theory Db_Deps
  imports Graph
begin

text \<open>
  Writing the dependencies of commands and directories (\<^verbatim>\<open>src/src/tup/db.c\<close>, from
  \<^verbatim>\<open>compare_tent_trees\<close> to \<^verbatim>\<open>tup_db_write_dir_inputs\<close>).  The trees are lists of ids in
  increasing order; a callback looks its entry up by id.  Messages are not modelled, except that they leave an
  error flag.
\<close>

definition call_opt :: "(tupid \<Rightarrow> 's \<Rightarrow> 's option) option \<Rightarrow> tupid \<Rightarrow> 's \<Rightarrow> 's option" where
  "call_opt f t s = (case f of None \<Rightarrow> Some s | Some cb \<Rightarrow> cb t s)"

fun compare_tent_trees :: "tent_entries \<Rightarrow> tent_entries \<Rightarrow> (tupid \<Rightarrow> 's \<Rightarrow> 's option) option
    \<Rightarrow> (tupid \<Rightarrow> 's \<Rightarrow> 's option) option \<Rightarrow> 's \<Rightarrow> 's option" where
  "compare_tent_trees [] [] extra_a extra_b s = Some s"
| "compare_tent_trees [] (b # bs) extra_a extra_b s = do {
     s' \<leftarrow> call_opt extra_b b s; compare_tent_trees [] bs extra_a extra_b s'}"
| "compare_tent_trees (a # as) [] extra_a extra_b s = do {
     s' \<leftarrow> call_opt extra_a a s; compare_tent_trees as [] extra_a extra_b s'}"
| "compare_tent_trees (a # as) (b # bs) extra_a extra_b s =
     (if a = b then compare_tent_trees as bs extra_a extra_b s
      else if a < b then do {
        s' \<leftarrow> call_opt extra_a a s; compare_tent_trees as (b # bs) extra_a extra_b s'}
      else do {
        s' \<leftarrow> call_opt extra_b b s; compare_tent_trees (a # as) bs extra_a extra_b s'})"

section \<open>Sticky inputs of a command\<close>

record write_input_data =
  w_cmdid :: tupid
  w_groupid :: tupid
  new_groups :: bool
  normal_links_invalid :: bool
  env_root :: tent_entries
  refactoring :: bool
  refactoring_failed :: bool

definition add_sticky :: "tupid \<Rightarrow> db \<times> write_input_data \<Rightarrow> (db \<times> write_input_data) option" where
  "add_sticky t = (\<lambda>(d, wid).
     if refactoring wid then Some (d, wid\<lparr>refactoring_failed := True\<rparr>)
     else do {
       tent \<leftarrow> tup_entry_find_row d t;
       (d1, wid1) \<leftarrow> (if ntype tent = TUP_NODE_GROUP \<and> w_groupid wid \<noteq> -1
                      then do { d' \<leftarrow> group_link_insert d t (w_groupid wid) (w_cmdid wid);
                                Some (d', wid\<lparr>new_groups := True\<rparr>) }
                      else Some (d, wid));
       d2 \<leftarrow> (if tupid_tree_search (env_root wid1) t \<noteq> None
              then do { d' \<leftarrow> link_insert d1 t (w_cmdid wid1) TUP_LINK_NORMAL;
                        tup_db_add_modify_list d' (w_cmdid wid1) }
              else Some d1);
       d3 \<leftarrow> link_insert d2 t (w_cmdid wid1) TUP_LINK_STICKY;
       Some (d3, wid1)})"

definition rm_sticky :: "tupid \<Rightarrow> db \<times> write_input_data \<Rightarrow> (db \<times> write_input_data) option" where
  "rm_sticky t = (\<lambda>(d, wid).
     if refactoring wid then Some (d, wid\<lparr>refactoring_failed := True\<rparr>)
     else do {
       tent \<leftarrow> tup_entry_find_row d t;
       d1 \<leftarrow> link_remove d t (w_cmdid wid) TUP_LINK_STICKY;
       exists \<leftarrow> tup_db_link_exists d1 t (w_cmdid wid) TUP_LINK_NORMAL;
       d2 \<leftarrow> (if exists
              then do { d' \<leftarrow> link_remove d1 t (w_cmdid wid) TUP_LINK_NORMAL;
                        tup_db_add_modify_list d' (w_cmdid wid) }
              else Some d1);
       if ntype tent = TUP_NODE_GROUP
       then do {
         let d3 = d2\<lparr>ghost_root := tup_entry_add_ghost_tree (ghost_root d2) tent\<rparr>;
         d4 \<leftarrow> (if w_groupid wid \<noteq> -1 then group_link_remove d3 t (w_groupid wid) (w_cmdid wid) else Some d3);
         Some (d4, wid\<lparr>normal_links_invalid := True\<rparr>)}
       else Some (d2, wid)})"

fun insert_links :: "tupid list \<Rightarrow> tupid \<Rightarrow> db \<Rightarrow> db option" where
  "insert_links [] cmdid d = Some d"
| "insert_links (t # ts) cmdid d = do { d' \<leftarrow> link_insert d t cmdid TUP_LINK_NORMAL; insert_links ts cmdid d' }"

fun insert_group_links :: "tupid list \<Rightarrow> tupid \<Rightarrow> tupid \<Rightarrow> db \<Rightarrow> db option" where
  "insert_group_links [] gid cmdid d = Some d"
| "insert_group_links (t # ts) gid cmdid d = do {
     tent \<leftarrow> tup_entry_find_row d t;
     d' \<leftarrow> (if ntype tent = TUP_NODE_GROUP then group_link_insert d t gid cmdid else Some d);
     insert_group_links ts gid cmdid d'}"

text \<open>
  \<open>grp\<close> and \<open>old_group\<close> are the output groups of the command, after and before; \<open>gg\<close> is the static group graph.
\<close>

definition tup_db_write_inputs :: "tupid \<Rightarrow> tent_entries \<Rightarrow> tent_entries \<Rightarrow> tup_entry option
    \<Rightarrow> tup_entry option \<Rightarrow> bool \<Rightarrow> db \<times> graph option \<Rightarrow> (db \<times> graph option) option" where
  "tup_db_write_inputs cmdid input_root env grp old_group refact = (\<lambda>(d, gg). do {
     let wid = \<lparr>w_cmdid = cmdid,
       w_groupid = (case grp of None \<Rightarrow> -1 | Some g \<Rightarrow> if grp = old_group then tnode_tupid g else -1),
       new_groups = False, normal_links_invalid = False, env_root = env, refactoring = refact,
       refactoring_failed = False\<rparr>;
     (d1, sticky_root, _, _) \<leftarrow> tup_db_get_inputs d cmdid True False;
     (d2, wid2) \<leftarrow> compare_tent_trees input_root sticky_root (Some add_sticky) (Some rm_sticky) (d1, wid);
     d3 \<leftarrow> (if normal_links_invalid wid2
            then do { d' \<leftarrow> tup_db_add_modify_list d2 cmdid;
                      d'' \<leftarrow> delete_normal_inputs d' cmdid;
                      insert_links env cmdid d'' }
            else Some d2);
     (d4, new_gr) \<leftarrow>
       (if grp \<noteq> old_group then do {
          d' \<leftarrow> (if old_group \<noteq> None then delete_group_links d3 cmdid else Some d3);
          case grp of
            None \<Rightarrow> Some (d', new_groups wid2)
          | Some g \<Rightarrow> do { d'' \<leftarrow> insert_group_links input_root (tnode_tupid g) cmdid d'; Some (d'', True) }}
        else Some (d3, new_groups wid2));
     if refactoring_failed wid2 then None
     else if new_gr then (case grp of
            None \<Rightarrow> None
          | Some g \<Rightarrow> do { gg' \<leftarrow> add_group_circ_check gg g; Some (d4, gg') })
     else Some (d4, gg)})"

section \<open>Inputs a command was seen to read\<close>

text \<open>
  \<open>usable\<close> is the variant test of \<^verbatim>\<open>new_input\<close> and \<open>allowed\<close> is
  \<^verbatim>\<open>tup_db_is_allowed_read\<close>; both look at paths.
\<close>

record actual_input_data =
  a_cmdid :: tupid
  sticky_root :: tent_entries
  output_root :: tent_entries
  missing_input_root :: tent_entries
  important_link_removed :: bool

definition new_input :: "(tupid \<Rightarrow> bool) \<Rightarrow> (tupid \<Rightarrow> tupid \<Rightarrow> bool option) \<Rightarrow> tupid
    \<Rightarrow> db \<times> actual_input_data \<Rightarrow> (db \<times> actual_input_data) option" where
  "new_input usable allowed t = (\<lambda>(d, aid).
     if tupid_tree_search (output_root aid) t \<noteq> None then Some (d, aid)
     else if \<not> usable t then None
     else do {
       tent \<leftarrow> tup_entry_find_row d t;
       if ntype tent = TUP_NODE_GENERATED
       then do {
         ok \<leftarrow> allowed (a_cmdid aid) t;
         if ok then Some (d, aid)
         else do { r \<leftarrow> tupid_tree_insert (missing_input_root aid) t; Some (d, aid\<lparr>missing_input_root := r\<rparr>) }}
       else Some (d, aid)})"

definition new_normal_link :: "tupid \<Rightarrow> db \<times> actual_input_data \<Rightarrow> (db \<times> actual_input_data) option" where
  "new_normal_link t = (\<lambda>(d, aid).
     if tupid_tree_search (output_root aid) t \<noteq> None then Some (d, aid)
     else if tupid_tree_search (missing_input_root aid) t \<noteq> None then Some (d, aid)
     else do {
       tent \<leftarrow> tup_entry_find_row d t;
       if ntype tent = TUP_NODE_CMD then None
       else do { d' \<leftarrow> link_insert d t (a_cmdid aid) TUP_LINK_NORMAL; Some (d', aid) }})"

definition del_normal_link :: "tupid \<Rightarrow> db \<times> actual_input_data \<Rightarrow> (db \<times> actual_input_data) option" where
  "del_normal_link t = (\<lambda>(d, aid). do {
     tent \<leftarrow> tup_entry_find_row d t;
     let aid1 = (if ntype tent = TUP_NODE_GENERATED then aid\<lparr>important_link_removed := True\<rparr> else aid);
     d1 \<leftarrow> link_remove d t (a_cmdid aid1) TUP_LINK_NORMAL;
     if tupid_tree_search (sticky_root aid1) t = None
     then Some (d1\<lparr>ghost_root := tup_entry_add_ghost_tree (ghost_root d1) tent\<rparr>, aid1)
     else Some (d1, aid1)})"

fun in_some_group :: "db \<Rightarrow> tupid \<Rightarrow> tupid list \<Rightarrow> bool option" where
  "in_some_group d t [] = Some False"
| "in_some_group d t (g # gs) = do {
     exists \<leftarrow> tup_db_link_exists d t g TUP_LINK_NORMAL;
     if exists then Some True else in_some_group d t gs}"

definition connected_input :: "db \<Rightarrow> tent_entries \<Rightarrow> tent_entries \<Rightarrow> tupid \<Rightarrow> bool option option" where
  "connected_input d valid_input_root group_root t =
     (case in_some_group d t group_root of
        None \<Rightarrow> Some None
      | Some True \<Rightarrow> Some (Some True)
      | Some False \<Rightarrow>
          (case tup_entry_find_row d t of
             None \<Rightarrow> Some None
           | Some tent \<Rightarrow> nodes_are_connected d tent valid_input_root))"

text \<open>
  The connected inputs are taken out of the tree until a query fails.  The result is the tree and whether 0 is
  returned; \<open>None\<close> stands for a search that does not end.
\<close>

fun drop_connected :: "(tupid \<Rightarrow> bool option option) \<Rightarrow> tent_entries \<Rightarrow> (tent_entries \<times> bool) option" where
  "drop_connected conn [] = Some ([], True)"
| "drop_connected conn (t # ts) =
     (case conn t of
        None \<Rightarrow> None
      | Some None \<Rightarrow> Some (t # ts, False)
      | Some (Some connected) \<Rightarrow>
          (case drop_connected conn ts of
             None \<Rightarrow> None
           | Some (us, ok) \<Rightarrow> Some (if connected then us else t # us, ok)))"

definition check_generated_inputs :: "db \<Rightarrow> tent_entries \<Rightarrow> tent_entries \<Rightarrow> tent_entries \<Rightarrow> (tent_entries \<times> bool) option" where
  "check_generated_inputs d missing valid_input_root group_root =
     (case drop_connected (connected_input d valid_input_root group_root) missing of
        None \<Rightarrow> None
      | Some (us, ok) \<Rightarrow> Some (us, ok \<and> us = []))"

text \<open>
  The links are rewritten even when an input is missing: the boolean is the result code 0, and
  \<open>Some None\<close> the early returns of \<open>-1\<close>.
\<close>

definition tup_db_check_actual_inputs :: "(tupid \<Rightarrow> bool) \<Rightarrow> (tupid \<Rightarrow> tupid \<Rightarrow> bool option) \<Rightarrow> tupid
    \<Rightarrow> tent_entries \<Rightarrow> tent_entries \<Rightarrow> tent_entries \<Rightarrow> tent_entries \<Rightarrow> tent_entries \<Rightarrow> db
    \<Rightarrow> (db \<times> bool \<times> bool) option option" where
  "tup_db_check_actual_inputs usable allowed cmdid read_root sticky normal group_sticky outputs d =
     (let aid = \<lparr>a_cmdid = cmdid, sticky_root = sticky, output_root = outputs, missing_input_root = [],
                 important_link_removed = False\<rparr> in
      case do { tup_entry_find_row d cmdid;
                compare_tent_trees read_root sticky (Some (new_input usable allowed)) None (d, aid) } of
        None \<Rightarrow> Some None
      | Some (d1, aid1) \<Rightarrow>
          (case check_generated_inputs d1 (missing_input_root aid1) sticky group_sticky of
             None \<Rightarrow> None
           | Some (us, rc) \<Rightarrow>
               Some (do {
                 (d2, aid2) \<leftarrow> compare_tent_trees read_root normal (Some new_normal_link) (Some del_normal_link)
                   (d1, aid1\<lparr>missing_input_root := us\<rparr>);
                 Some (d2, important_link_removed aid2, rc)})))"

definition tup_db_check_config_inputs :: "tup_entry \<Rightarrow> tent_entries \<Rightarrow> db \<Rightarrow> db option" where
  "tup_db_check_config_inputs tent read_root d = do {
     (d1, sr, nr, _) \<leftarrow> tup_db_get_inputs d (tnode_tupid tent) True True;
     (d2, _) \<leftarrow> compare_tent_trees read_root nr (Some new_normal_link) (Some del_normal_link)
       (d1, \<lparr>a_cmdid = tnode_tupid tent, sticky_root = sr, output_root = [], missing_input_root = [],
            important_link_removed = False\<rparr>);
     Some d2}"

section \<open>Outputs of a command\<close>

record parse_output_data =
  p_cmdid :: tupid
  outputs_differ :: bool
  p_group :: "tupid option"
  p_refactoring :: bool

definition add_output :: "tupid \<Rightarrow> db \<times> parse_output_data \<Rightarrow> (db \<times> parse_output_data) option" where
  "add_output t = (\<lambda>(d, pod0).
     let pod = pod0\<lparr>outputs_differ := True\<rparr> in
     if p_refactoring pod then Some (d, pod)
     else do {
       d1 \<leftarrow> link_insert d (p_cmdid pod) t TUP_LINK_NORMAL;
       d2 \<leftarrow> (case p_group pod of None \<Rightarrow> Some d1 | Some g \<Rightarrow> link_insert d1 t g TUP_LINK_NORMAL);
       Some (d2, pod)})"

definition rm_output :: "tupid \<Rightarrow> db \<times> parse_output_data \<Rightarrow> (db \<times> parse_output_data) option" where
  "rm_output t = (\<lambda>(d, pod0).
     let pod = pod0\<lparr>outputs_differ := True\<rparr> in
     if p_refactoring pod then Some (d, pod)
     else do {
       tent \<leftarrow> tup_entry_find_row d t;
       d1 \<leftarrow> link_remove d (p_cmdid pod) t TUP_LINK_NORMAL;
       d2 \<leftarrow> (case p_group pod of None \<Rightarrow> Some d1 | Some g \<Rightarrow> link_remove d1 t g TUP_LINK_NORMAL);
       Some (if ntype tent = TUP_NODE_GHOST
             then d2\<lparr>ghost_root := tup_entry_add_ghost_tree (ghost_root d2) tent\<rparr> else d2, pod)})"

fun leave_group :: "tupid list \<Rightarrow> tupid \<Rightarrow> db \<Rightarrow> db option" where
  "leave_group [] g d = Some d"
| "leave_group (t # ts) g d = do {
     d1 \<leftarrow> link_remove d t g TUP_LINK_NORMAL;
     d2 \<leftarrow> tup_db_modify_cmds_by_input d1 t;
     leave_group ts g d2}"

definition change_group :: "tupid \<Rightarrow> tent_entries \<Rightarrow> tent_entries \<Rightarrow> tupid option \<Rightarrow> tupid option \<Rightarrow> db \<Rightarrow> db option" where
  "change_group cmdid root old_outputs grp old_group d = do {
     d1 \<leftarrow> (case grp of
        None \<Rightarrow> Some d
      | Some g \<Rightarrow> do { d' \<leftarrow> insert_links root g d; link_insert d' cmdid g TUP_LINK_NORMAL });
     case old_group of
       None \<Rightarrow> Some d1
     | Some og \<Rightarrow> do {
         d2 \<leftarrow> leave_group old_outputs og d1;
         d3 \<leftarrow> link_remove d2 cmdid og TUP_LINK_NORMAL;
         d4 \<leftarrow> tup_db_add_modify_list d3 og;
         oge \<leftarrow> tup_entry_find_row d4 og;
         Some (d4\<lparr>ghost_root := tup_entry_add_ghost_tree (ghost_root d4) oge\<rparr>)}}"

text \<open>The second result is what is stored in \<open>*old_group\<close>.\<close>

definition tup_db_write_outputs :: "tup_entry \<Rightarrow> tent_entries \<Rightarrow> tent_entries \<Rightarrow> tupid option
    \<Rightarrow> bool \<Rightarrow> bool \<Rightarrow> db \<Rightarrow> (db \<times> tupid option) option" where
  "tup_db_write_outputs cmdtent root exclusion_root grp refact command_modified d = do {
     let cmdid = tnode_tupid cmdtent;
     (outputs, orig_exclusions, old_group) \<leftarrow> tup_db_get_outputs d cmdid;
     (d1, pod) \<leftarrow>
       (if old_group = grp
        then Some (d, \<lparr>p_cmdid = cmdid, outputs_differ = command_modified, p_group = grp, p_refactoring = refact\<rparr>)
        else do {
          d' \<leftarrow> change_group cmdid root outputs grp old_group d;
          Some (d', \<lparr>p_cmdid = cmdid, outputs_differ = True, p_group = None, p_refactoring = refact\<rparr>)});
     (d2, pod2) \<leftarrow> compare_tent_trees outputs root (Some rm_output) (Some add_output) (d1, pod);
     (d3, pod3) \<leftarrow> compare_tent_trees orig_exclusions exclusion_root (Some rm_output) (Some add_output)
       (d2, pod2\<lparr>p_group := None\<rparr>);
     if outputs_differ pod3
     then if refact then None
          else do {
            d4 \<leftarrow> tup_db_add_modify_list d3 cmdid;
            d5 \<leftarrow> (if is_transient_tent cmdtent then tup_db_add_transient_list d4 cmdid else Some d4);
            d6 \<leftarrow> (case grp of None \<Rightarrow> Some d5 | Some g \<Rightarrow> tup_db_add_modify_list d5 g);
            Some (d6, old_group)}
     else Some (d3, old_group)}"

section \<open>Inputs of a directory\<close>

definition add_dir_link :: "tupid \<Rightarrow> tupid \<Rightarrow> db \<Rightarrow> db option" where
  "add_dir_link dirid t d = do {
     tent \<leftarrow> tup_entry_find_row d t;
     if ntype tent = TUP_NODE_GENERATED then None
     else do {
       d1 \<leftarrow> link_insert d t dirid TUP_LINK_NORMAL;
       Some (d1\<lparr>expected_changes := expected_changes d1 + 1\<rparr>)}}"

definition rm_dir_link :: "tupid \<Rightarrow> tupid \<Rightarrow> db \<Rightarrow> db option" where
  "rm_dir_link dirid t d = do {
     tent \<leftarrow> tup_entry_find_row d t;
     d1 \<leftarrow> link_remove (d\<lparr>ghost_root := tup_entry_add_ghost_tree (ghost_root d) tent\<rparr>) t dirid TUP_LINK_NORMAL;
     Some (d1\<lparr>expected_changes := expected_changes d1 + 1\<rparr>)}"

definition tup_db_write_dir_inputs :: "tupid \<Rightarrow> tent_entries \<Rightarrow> db \<Rightarrow> db option" where
  "tup_db_write_dir_inputs dirid root d = do {
     (d1, sr, nr, _) \<leftarrow> tup_db_get_inputs d dirid True True;
     if sr \<noteq> [] then None
     else compare_tent_trees root nr (Some (add_dir_link dirid)) (Some (rm_dir_link dirid)) d1}"

section \<open>Outputs a command was seen to write\<close>

text \<open>
  \<open>deleted\<close> records the calls of \<^verbatim>\<open>delete_file\<close>, \<open>mapping_list\<close> the entries of
  the temporary files that will be moved into place; the error flags are the bits 1 and 2 of \<^verbatim>\<open>output_error\<close>.
\<close>

record file_mapping =
  realname :: string
  tmpname :: string
  map_tent :: "tupid option"

text \<open>The first mapping of an entry leaves the list.\<close>

fun del_map_of :: "tupid \<Rightarrow> file_mapping list \<Rightarrow> file_mapping list" where
  "del_map_of t [] = []"
| "del_map_of t (m # ms) = (if map_tent m = Some t then ms else m # del_map_of t ms)"

record actual_output_data =
  o_cmdid :: tupid
  unspecified :: bool
  missing :: bool
  mapping_list :: "file_mapping list"
  do_unlink :: bool
  deleted :: "tupid list"

definition extra_output :: "tupid \<Rightarrow> db \<times> actual_output_data \<Rightarrow> (db \<times> actual_output_data) option" where
  "extra_output t = (\<lambda>(d, aod0). do {
     tent \<leftarrow> tup_entry_find_row d t;
     let aod = aod0\<lparr>unspecified := True\<rparr>;
     let (d1, aod1) = (if do_unlink aod then
            if ntype tent = TUP_NODE_GHOST then (d, aod\<lparr>deleted := deleted aod @ [t]\<rparr>)
            else if ntype tent = TUP_NODE_GENERATED
                 then (case tup_db_modify_cmds_by_output d t of None \<Rightarrow> d | Some (d', _) \<Rightarrow> d', aod)
                 else (d, aod)
          else (d, aod));
     Some (d1, aod1\<lparr>mapping_list := del_map_of t (mapping_list aod1)\<rparr>)})"

definition missing_output :: "tupid \<Rightarrow> db \<times> actual_output_data \<Rightarrow> (db \<times> actual_output_data) option" where
  "missing_output t = (\<lambda>(d, aod). do {
     tup_entry_find_row d (o_cmdid aod);
     Some (d, aod\<lparr>missing := True\<rparr>)})"

text \<open>The last result is whether \<open>*write_bork\<close> is set.\<close>

definition tup_db_check_actual_outputs :: "tupid \<Rightarrow> tent_entries \<Rightarrow> tent_entries \<Rightarrow> file_mapping list \<Rightarrow> bool \<Rightarrow> bool
    \<Rightarrow> db \<Rightarrow> (db \<times> actual_output_data \<times> bool) option" where
  "tup_db_check_actual_outputs cmdid write_root outputs mappings unlink complain_missing d = do {
     (d1, aod) \<leftarrow> compare_tent_trees write_root outputs (Some extra_output)
        (if complain_missing then Some missing_output else None)
        (d, \<lparr>o_cmdid = cmdid, unspecified = False, missing = False, mapping_list = mappings,
             do_unlink = unlink, deleted = []\<rparr>);
     Some (d1, aod, unspecified aod \<or> missing aod)}"

end
