(* ===== verification/Db_Inv.thy ===== *)
theory Db_Inv
  imports Db_Deps Graph_Walk
begin

text \<open>
  Every operation on the link tables keeps the invariant \<open>db_ok\<close>, in particular the
  agreement of the sticky trees cached in the entries with the \<^verbatim>\<open>sticky_link\<close> table.
\<close>

section \<open>Reading the tables\<close>

lemma db_okD:
  assumes "db_ok d"
  shows "nodes_ok d" and "links_ok d (normal_link d)" and "links_ok d (sticky_link d)" and "distinct (group_link d)"
    and "0 < sticky_count d" and "cache_ok d t" and "retrieved_stickies d t \<le> sticky_count d" and "0 \<le> retrieved_stickies d t"
  using assms by (simp_all add: db_ok_def)

lemma row_small: "nodes_ok d \<Longrightarrow> row d t \<noteq> None \<Longrightarrow> small_tupid t \<and> 0 < t"
  using map_of_SomeD [of "node_tbl d" t] by (fastforce simp: nodes_ok_def)

lemma find_row: "nodes_ok d \<Longrightarrow> row d t = Some e \<Longrightarrow> tup_entry_find_row d t = Some e"
  using row_small [of d t] by (simp add: tup_entry_find_row_def)

lemma find_row_some: "tup_entry_find_row d t = Some e \<Longrightarrow> row d t = Some e"
  by (auto simp: tup_entry_find_row_def split: if_splits)

lemma links_ok_ends: "links_ok d l \<Longrightarrow> (a, b) \<in> set l \<Longrightarrow> row d a \<noteq> None \<and> row d b \<noteq> None \<and> a \<noteq> b"
  by (auto simp: links_ok_def)

lemma links_ok_cong: "links_ok d l \<Longrightarrow> node_tbl d' = node_tbl d \<Longrightarrow> links_ok d' l"
  by (simp add: links_ok_def)

lemma links_ok_insert:
  assumes "links_ok d l" and "(a, b) \<notin> set l" and "a \<noteq> b" and "row d a \<noteq> None" and "row d b \<noteq> None" and "nodes_ok d"
  shows "links_ok d (l @ [(a, b)])"
  using assms row_small [of d a] row_small [of d b] by (auto simp: links_ok_def)

lemma links_ok_filter: "links_ok d l \<Longrightarrow> links_ok d (filter P l)"
  by (auto simp: links_ok_def)

lemma removeAll_filter: "removeAll x xs = filter (\<lambda>y. y \<noteq> x) xs"
  by (induction xs) auto

lemma sources_insert: "sources (l @ [(a, b)]) t = (if t = b then insert a (sources l t) else sources l t)"
  by (auto simp: sources_def)

lemma sources_filter: "sources (filter P l) t = {a \<in> sources l t. P (a, t)}"
  by (auto simp: sources_def)

lemma valid_small_sources:
  assumes "nodes_ok d" and "links_ok d l"
  shows "list_all small_tupid (map fst (filter (\<lambda>(_, to_id). to_id = t) l))"
  using assms row_small by (fastforce simp: list_all_iff links_ok_def)

text \<open>The operations below change none of these.\<close>

definition same_tables :: "db \<Rightarrow> db \<Rightarrow> bool" where
  "same_tables d d' \<longleftrightarrow> node_tbl d' = node_tbl d \<and> sticky_count d' = sticky_count d
     \<and> local_exclusion_dt d' = local_exclusion_dt d \<and> sql_ok d' = sql_ok d"

lemma same_tables_refl [simp]: "same_tables d d"
  by (simp add: same_tables_def)

lemma same_tables_trans: "same_tables d d' \<Longrightarrow> same_tables d' d'' \<Longrightarrow> same_tables d d''"
  by (simp add: same_tables_def)

definition same_links :: "db \<Rightarrow> db \<Rightarrow> bool" where
  "same_links d d' \<longleftrightarrow> normal_link d' = normal_link d \<and> sticky_link d' = sticky_link d \<and> group_link d' = group_link d"

text \<open>Changes outside the links, the node table and the sticky caches.\<close>

lemma db_ok_flags:
  assumes "db_ok d"
  shows "db_ok (d\<lparr>config_list := l1\<rparr>)" "db_ok (d\<lparr>create_list := l2\<rparr>)" "db_ok (d\<lparr>modify_list := l3\<rparr>)"
    "db_ok (d\<lparr>variant_list := l4\<rparr>)" "db_ok (d\<lparr>transient_list := l5\<rparr>)" "db_ok (d\<lparr>ghost_root := g\<rparr>)"
    "db_ok (d\<lparr>expected_changes := n\<rparr>)" "db_ok (d\<lparr>tent_incoming := inc\<rparr>)"
  using assms by (simp_all add: db_ok_def nodes_ok_def links_ok_def cache_ok_def is_group_def)

lemma db_ok_normal:
  assumes "db_ok d" and "links_ok d l"
  shows "db_ok (d\<lparr>normal_link := l\<rparr>)"
  using assms by (simp add: db_ok_def nodes_ok_def links_ok_def cache_ok_def is_group_def)

lemma db_ok_group:
  assumes "db_ok d" and "distinct l"
  shows "db_ok (d\<lparr>group_link := l\<rparr>)"
  using assms by (simp add: db_ok_def nodes_ok_def links_ok_def cache_ok_def is_group_def)

section \<open>Inserting and removing links\<close>

lemma insert_normal:
  assumes "db_ok d" and "link_insert d a b TUP_LINK_NORMAL = Some d'" and "row d a \<noteq> None" and "row d b \<noteq> None"
  shows "d' = d\<lparr>normal_link := normal_link d @ [(a, b)]\<rparr>" and "db_ok d'" and "(a, b) \<notin> set (normal_link d)"
proof -
  show d': "d' = d\<lparr>normal_link := normal_link d @ [(a, b)]\<rparr>" and new: "(a, b) \<notin> set (normal_link d)"
    using assms(2) by (auto simp: link_insert_def split: if_splits Option.bind_splits)
  have "a \<noteq> b" using assms(2) by (auto simp: link_insert_def)
  then show "db_ok d'"
    unfolding d' using assms new db_okD [OF assms(1)] by (intro db_ok_normal links_ok_insert)
qed

lemma remove_normal:
  assumes "db_ok d" and "link_remove d a b TUP_LINK_NORMAL = Some d'"
  shows "d' = d\<lparr>normal_link := removeAll (a, b) (normal_link d)\<rparr>" and "db_ok d'"
proof -
  show d': "d' = d\<lparr>normal_link := removeAll (a, b) (normal_link d)\<rparr>"
    using assms(2) by (auto simp: link_remove_def split: Option.bind_splits)
  show "db_ok d'"
    unfolding d' removeAll_filter using db_okD [OF assms(1)] by (intro db_ok_normal links_ok_filter assms)
qed

text \<open>A change of the sticky table together with the cached trees of one command.\<close>

lemma db_ok_sticky:
  assumes ok: "db_ok d" and l: "links_ok d l" and others: "\<And>t. t \<noteq> b \<Longrightarrow> sources l t = sources (sticky_link d) t"
    and here: "retrieved_stickies d b = sticky_count d \<Longrightarrow>
      tupid_set.valid tr \<and> set tr = sources l b \<and> tupid_set.valid gtr \<and> set gtr = {a \<in> sources l b. is_group d a}"
  shows "db_ok (d\<lparr>sticky_link := l, tent_stickies := (tent_stickies d)(b := tr),
                  tent_group_stickies := (tent_group_stickies d)(b := gtr)\<rparr>)" (is "db_ok ?d")
proof -
  have g: "is_group ?d a = is_group d a" for a by (simp add: is_group_def)
  have "cache_ok ?d t" for t
    using here others [of t] db_okD(6) [OF ok, of t] by (cases "t = b") (simp_all add: cache_ok_def g)
  moreover have "nodes_ok ?d" "links_ok ?d (normal_link d)" "links_ok ?d l"
    using db_okD(1,2) [OF ok] l by (simp_all add: nodes_ok_def links_ok_def)
  ultimately show ?thesis using db_okD(4,5,7,8) [OF ok] by (simp add: db_ok_def)
qed

lemma insert_sticky:
  assumes ok: "db_ok d" and ins: "link_insert d a b TUP_LINK_STICKY = Some d'"
  obtains tr gtr where "d' = d\<lparr>sticky_link := sticky_link d @ [(a, b)], tent_stickies := (tent_stickies d)(b := tr),
       tent_group_stickies := (tent_group_stickies d)(b := gtr)\<rparr>"
    and "db_ok d'" and "(a, b) \<notin> set (sticky_link d)" and "row d a \<noteq> None" and "row d b \<noteq> None"
proof -
  let ?d1 = "d\<lparr>sticky_link := sticky_link d @ [(a, b)]\<rparr>"
  from ins obtain e f where new: "(a, b) \<notin> set (sticky_link d)" "a \<noteq> b"
    and e: "row d b = Some e" and f: "row d a = Some f" and c: "cache_sticky ?d1 e f = Some d'"
    by (auto simp: link_insert_def tup_entry_find_row_def split: if_splits Option.bind_splits)
  have ids: "tnode_tupid e = b" "tnode_tupid f = a"
    using row_id [OF db_okD(1) [OF ok]] e f by auto
  have g: "is_group d a \<longleftrightarrow> ntype f = TUP_NODE_GROUP" using f by (simp add: is_group_def)
  have small: "small_tupid a" using row_small [OF db_okD(1) [OF ok], of a] f by simp
  have l: "links_ok d (sticky_link d @ [(a, b)])"
    using new e f db_okD [OF ok] by (intro links_ok_insert) auto
  have src: "sources (sticky_link d @ [(a, b)]) b = insert a (sources (sticky_link d) b)"
    by (simp add: sources_insert)
  show thesis
  proof (cases "retrieved_stickies d b = 0")
    case True
    then have d': "d' = ?d1" using c ids by (simp add: cache_sticky_def)
    have "db_ok (d\<lparr>sticky_link := sticky_link d @ [(a, b)], tent_stickies := (tent_stickies d)(b := tent_stickies d b),
        tent_group_stickies := (tent_group_stickies d)(b := tent_group_stickies d b)\<rparr>)"
    proof (rule db_ok_sticky [OF ok l])
      assume "retrieved_stickies d b = sticky_count d"
      with True db_okD(5) [OF ok] have False by simp
      then show "tupid_set.valid (tent_stickies d b) \<and> set (tent_stickies d b) = sources (sticky_link d @ [(a, b)]) b
        \<and> tupid_set.valid (tent_group_stickies d b)
        \<and> set (tent_group_stickies d b) = {x \<in> sources (sticky_link d @ [(a, b)]) b. is_group d x}" ..
    qed (simp add: sources_insert)
    moreover have d2: "d' = d\<lparr>sticky_link := sticky_link d @ [(a, b)], tent_stickies := (tent_stickies d)(b := tent_stickies d b),
        tent_group_stickies := (tent_group_stickies d)(b := tent_group_stickies d b)\<rparr>" by (simp add: d')
    ultimately have "db_ok d'" by (rule ssubst [rotated])
    then show thesis by (rule that [OF d2]) (use new(1) e f in simp_all)
  next
    case False
    then obtain tr where tr: "tupid_tree_insert (tent_stickies d b) a = Some tr"
      using c ids by (auto simp: cache_sticky_def split: Option.bind_splits if_splits)
    define gtr where "gtr = (if is_group d a then the (tupid_tree_insert (tent_group_stickies d b) a)
       else tent_group_stickies d b)"
    have gtr: "is_group d a \<Longrightarrow> tupid_tree_insert (tent_group_stickies d b) a = Some gtr"
      using c ids tr g False by (auto simp: cache_sticky_def gtr_def split: Option.bind_splits)
    have d': "d' = d\<lparr>sticky_link := sticky_link d @ [(a, b)], tent_stickies := (tent_stickies d)(b := tr),
       tent_group_stickies := (tent_group_stickies d)(b := gtr)\<rparr>"
      using c ids tr g False by (auto simp: cache_sticky_def gtr_def split: Option.bind_splits if_splits)
    have "db_ok d'"
      unfolding d'
    proof (rule db_ok_sticky [OF ok l])
      assume "retrieved_stickies d b = sticky_count d"
      then have v: "tupid_set.valid (tent_stickies d b)" "set (tent_stickies d b) = sources (sticky_link d) b"
        "tupid_set.valid (tent_group_stickies d b)"
        "set (tent_group_stickies d b) = {a \<in> sources (sticky_link d) b. is_group d a}"
        using db_okD(6) [OF ok, of b] by (simp_all add: cache_ok_def)
      have "tupid_set.valid tr" "set tr = insert a (sources (sticky_link d) b)"
        using tupid_set.ins_some [OF v(1) small tr] v(2) by simp_all
      moreover have "tupid_set.valid gtr \<and> set gtr = {x \<in> insert a (sources (sticky_link d) b). is_group d x}"
      proof (cases "is_group d a")
        case True
        with tupid_set.ins_some [OF v(3) small gtr [OF True]] v(4) show ?thesis by auto
      next
        case False
        then show ?thesis using v(3,4) by (auto simp: gtr_def)
      qed
      ultimately show "tupid_set.valid tr \<and> set tr = sources (sticky_link d @ [(a, b)]) b \<and> tupid_set.valid gtr
          \<and> set gtr = {x \<in> sources (sticky_link d @ [(a, b)]) b. is_group d x}"
        unfolding src by blast
    qed (simp add: sources_insert)
    then show thesis by (rule that [OF d']) (use new(1) e f in simp_all)
  qed
qed

lemma remove_sticky:
  assumes ok: "db_ok d" and rm: "link_remove d a b TUP_LINK_STICKY = Some d'"
  obtains tr gtr where "d' = d\<lparr>sticky_link := removeAll (a, b) (sticky_link d), tent_stickies := (tent_stickies d)(b := tr),
       tent_group_stickies := (tent_group_stickies d)(b := gtr)\<rparr>"
    and "db_ok d'" and "row d a \<noteq> None" and "row d b \<noteq> None"
proof -
  let ?l = "removeAll (a, b) (sticky_link d)"
  let ?d1 = "d\<lparr>sticky_link := ?l\<rparr>"
  from rm obtain e f where e: "row d b = Some e" and f: "row d a = Some f" and d': "d' = uncache_sticky ?d1 e f"
    by (auto simp: link_remove_def tup_entry_find_row_def Let_def split: if_splits Option.bind_splits)
  have ids: "tnode_tupid e = b" "tnode_tupid f = a"
    using row_id [OF db_okD(1) [OF ok]] e f by auto
  have g: "is_group d a \<longleftrightarrow> ntype f = TUP_NODE_GROUP" using f by (simp add: is_group_def)
  have small: "small_tupid a" using row_small [OF db_okD(1) [OF ok], of a] f by simp
  have l: "links_ok d ?l" unfolding removeAll_filter using db_okD(3) [OF ok] by (rule links_ok_filter)
  have src: "sources ?l t = (if t = b then sources (sticky_link d) b - {a} else sources (sticky_link d) t)" for t
    unfolding removeAll_filter sources_filter by auto
  define tr where "tr = (if retrieved_stickies d b = 0 then tent_stickies d b else tupid_tree_remove (tent_stickies d b) a)"
  define gtr where "gtr = (if retrieved_stickies d b = 0 \<or> \<not> is_group d a then tent_group_stickies d b
     else tupid_tree_remove (tent_group_stickies d b) a)"
  have d2: "d' = d\<lparr>sticky_link := ?l, tent_stickies := (tent_stickies d)(b := tr),
       tent_group_stickies := (tent_group_stickies d)(b := gtr)\<rparr>"
    using ids g by (simp add: d' uncache_sticky_def tr_def gtr_def Let_def)
  have "db_ok (d\<lparr>sticky_link := ?l, tent_stickies := (tent_stickies d)(b := tr),
       tent_group_stickies := (tent_group_stickies d)(b := gtr)\<rparr>)"
  proof (rule db_ok_sticky [OF ok l])
    assume r: "retrieved_stickies d b = sticky_count d"
    then have nz: "retrieved_stickies d b \<noteq> 0" using db_okD(5) [OF ok] by simp
    have v: "tupid_set.valid (tent_stickies d b)" "set (tent_stickies d b) = sources (sticky_link d) b"
      "tupid_set.valid (tent_group_stickies d b)"
      "set (tent_group_stickies d b) = {a \<in> sources (sticky_link d) b. is_group d a}"
      using db_okD(6) [OF ok, of b] r by (simp_all add: cache_ok_def)
    have "tupid_set.valid tr" "set tr = sources (sticky_link d) b - {a}"
      using tupid_set.del_valid [OF v(1) small] v(2) nz by (simp_all add: tr_def)
    moreover have "tupid_set.valid gtr \<and> set gtr = {x \<in> sources (sticky_link d) b - {a}. is_group d x}"
      using tupid_set.del_valid [OF v(3) small] v(3,4) nz by (cases "is_group d a") (auto simp: gtr_def)
    ultimately show "tupid_set.valid tr \<and> set tr = sources ?l b \<and> tupid_set.valid gtr
        \<and> set gtr = {x \<in> sources ?l b. is_group d x}"
      unfolding src by simp
  qed (simp add: src)
  then have "db_ok d'" by (simp only: d2)
  then show thesis by (rule that [OF d2]) (use e f in simp_all)
qed

lemma insert_group_link:
  assumes "db_ok d" and "group_link_insert d a b c = Some d'"
  shows "d' = d\<lparr>group_link := group_link d @ [(a, b, c)]\<rparr>" and "db_ok d'"
proof -
  show d': "d' = d\<lparr>group_link := group_link d @ [(a, b, c)]\<rparr>"
    using assms(2) by (auto simp: group_link_insert_def split: if_splits Option.bind_splits)
  have "(a, b, c) \<notin> set (group_link d)"
    using assms(2) by (auto simp: group_link_insert_def split: if_splits Option.bind_splits)
  then show "db_ok d'"
    unfolding d' using db_okD(4) [OF assms(1)] by (intro db_ok_group [OF assms(1)]) simp
qed

lemma remove_group_link:
  assumes "db_ok d" and "group_link_remove d a b c = Some d'"
  shows "d' = d\<lparr>group_link := removeAll (a, b, c) (group_link d)\<rparr>" and "db_ok d'"
proof -
  show d': "d' = d\<lparr>group_link := removeAll (a, b, c) (group_link d)\<rparr>"
    using assms(2) by (auto simp: group_link_remove_def split: Option.bind_splits)
  show "db_ok d'"
    unfolding d' using db_okD(4) [OF assms(1)] by (intro db_ok_group [OF assms(1)]) (simp add: distinct_removeAll)
qed

lemma delete_group:
  assumes "db_ok d" and "delete_group_links d c = Some d'"
  shows "d' = d\<lparr>group_link := filter (\<lambda>(_, _, k). k \<noteq> c) (group_link d)\<rparr>" and "db_ok d'"
proof -
  show d': "d' = d\<lparr>group_link := filter (\<lambda>(_, _, k). k \<noteq> c) (group_link d)\<rparr>"
    using assms(2) by (auto simp: delete_group_links_def split: Option.bind_splits)
  show "db_ok d'"
    unfolding d' using db_okD(4) [OF assms(1)] by (intro db_ok_group [OF assms(1)]) simp
qed

lemma delete_inputs:
  assumes "db_ok d" and "delete_normal_inputs d t = Some d'"
  shows "d' = d\<lparr>normal_link := filter (\<lambda>(_, to_id). to_id \<noteq> t) (normal_link d)\<rparr>" and "db_ok d'"
proof -
  show d': "d' = d\<lparr>normal_link := filter (\<lambda>(_, to_id). to_id \<noteq> t) (normal_link d)\<rparr>"
    using assms(2) by (auto simp: delete_normal_inputs_def split: Option.bind_splits)
  show "db_ok d'"
    unfolding d' using db_okD(2) [OF assms(1)] by (intro db_ok_normal [OF assms(1)] links_ok_filter)
qed

lemma add_modify:
  assumes "db_ok d" and "tup_db_add_modify_list d t = Some d'"
  shows "d' = d\<lparr>modify_list := insert_or_ignore (modify_list d) [t]\<rparr>" and "db_ok d'"
  using assms by (auto simp: tup_db_add_modify_list_def db_ok_flags split: Option.bind_splits)

section \<open>Loading the inputs of a node\<close>

lemma foldl_add_dup:
  "foldl (\<lambda>r e. tent_tree_add_dup r (tnode_tupid e)) root es = tupid_set.add_all root (map tnode_tupid es)"
  by (induction es arbitrary: root)
     (auto simp: tent_tree_add_dup_def tupid_set.add_all.simps split: option.split)

lemma foldl_add_groups:
  "foldl (\<lambda>r e. if ntype e = TUP_NODE_GROUP then tent_tree_add_dup r (tnode_tupid e) else r) root es
   = tupid_set.add_all root (map tnode_tupid (filter (\<lambda>e. ntype e = TUP_NODE_GROUP) es))"
  by (induction es arbitrary: root)
     (auto simp: tent_tree_add_dup_def tupid_set.add_all.simps split: option.split)

lemma entry_ids:
  assumes "nodes_ok d" and "find_rows d ts = Some es"
  shows "tnode_tupid ` set es = set ts" and "list_all small_tupid (map tnode_tupid es)"
    and "tnode_tupid ` {e \<in> set es. ntype e = TUP_NODE_GROUP} = {t \<in> set ts. is_group d t}"
proof -
  note e = find_rows_entries [OF assms]
  show "tnode_tupid ` set es = set ts" using e(1) by (metis set_map)
  have r: "row d (tnode_tupid x) = Some x" if "x \<in> set es" for x
    using e(2) that by (auto simp: list_all_iff row_entry_def)
  then show "list_all small_tupid (map tnode_tupid es)"
    using row_small [OF assms(1)] by (auto simp: list_all_iff)
  have "is_group d (tnode_tupid x) \<longleftrightarrow> ntype x = TUP_NODE_GROUP" if "x \<in> set es" for x
    using r [OF that] by (simp add: is_group_def)
  then show "tnode_tupid ` {e \<in> set es. ntype e = TUP_NODE_GROUP} = {t \<in> set ts. is_group d t}"
    unfolding e(1) [symmetric] by auto
qed

lemma sticky_sources_set: "set (map fst (filter (\<lambda>(_, to_id). to_id = t) l)) = sources l t"
  by (force simp: sources_def)

lemma get_stickies:
  assumes ok: "nodes_ok d" and r: "get_sticky_inputs d t [] [] = Some (tr, gtr)"
  shows "tupid_set.valid tr \<and> set tr = sources (sticky_link d) t
    \<and> tupid_set.valid gtr \<and> set gtr = {a \<in> sources (sticky_link d) t. is_group d a}"
proof -
  obtain es where es: "find_rows d (map fst (filter (\<lambda>(_, to_id). to_id = t) (sticky_link d))) = Some es"
    and tr: "tr = tupid_set.add_all [] (map tnode_tupid es)"
    and gtr: "gtr = tupid_set.add_all [] (map tnode_tupid (filter (\<lambda>e. ntype e = TUP_NODE_GROUP) es))"
    using r by (auto simp: get_sticky_inputs_def foldl_add_dup foldl_add_groups split: Option.bind_splits)
  note ids = entry_ids [OF ok es, unfolded sticky_sources_set]
  have "list_all small_tupid (map tnode_tupid (filter (\<lambda>e. ntype e = TUP_NODE_GROUP) es))"
    using ids(2) by (auto simp: list_all_iff)
  from tupid_set.add_all_set [of "[]", OF _ this] tupid_set.add_all_set [of "[]", OF _ ids(2)]
  show ?thesis using ids(1,3) by (simp add: tr gtr)
qed

lemma db_ok_caches:
  assumes ok: "db_ok d" and "\<And>t. cache_ok d' t" and "0 \<le> r" "r \<le> sticky_count d"
    and d': "d' = d\<lparr>retrieved_stickies := (retrieved_stickies d)(b := r), tent_stickies := (tent_stickies d)(b := tr),
       tent_group_stickies := (tent_group_stickies d)(b := gtr)\<rparr>"
  shows "db_ok d'"
  using assms db_okD [OF ok] by (simp add: db_ok_def nodes_ok_def links_ok_def)

lemma refresh:
  assumes ok: "db_ok d" and r: "refresh_stickies d c = Some d'"
  shows "db_ok d'" and "retrieved_stickies d' c = sticky_count d'" and "row d c \<noteq> None"
    and "\<exists>n tr gtr. d' = d\<lparr>retrieved_stickies := (retrieved_stickies d)(c := n), tent_stickies := (tent_stickies d)(c := tr),
       tent_group_stickies := (tent_group_stickies d)(c := gtr)\<rparr>"
proof -
  have row: "tup_entry_find_row d c \<noteq> None" using r by (auto simp: refresh_stickies_def split: Option.bind_splits)
  then show "row d c \<noteq> None" by (auto simp: tup_entry_find_row_def split: if_splits)
  let ?shape = "\<exists>n tr gtr. d' = d\<lparr>retrieved_stickies := (retrieved_stickies d)(c := n), tent_stickies := (tent_stickies d)(c := tr),
       tent_group_stickies := (tent_group_stickies d)(c := gtr)\<rparr>"
  have "db_ok d' \<and> retrieved_stickies d' c = sticky_count d' \<and> ?shape"
  proof (cases "retrieved_stickies d c = sticky_count d")
    case True
    then have "d' = d" using r row db_okD(5) [OF ok] by (auto simp: refresh_stickies_def Let_def)
    moreover have "d = d\<lparr>retrieved_stickies := (retrieved_stickies d)(c := retrieved_stickies d c),
      tent_stickies := (tent_stickies d)(c := tent_stickies d c),
      tent_group_stickies := (tent_group_stickies d)(c := tent_group_stickies d c)\<rparr>" by simp
    ultimately show ?thesis using ok True by metis
  next
    case False
    let ?n = "sticky_count d"
    define d2 where "d2 = d\<lparr>tent_stickies := (tent_stickies d)(c := []),
       tent_group_stickies := (tent_group_stickies d)(c := []), retrieved_stickies := (retrieved_stickies d)(c := ?n)\<rparr>"
    obtain tr gtr where g: "get_sticky_inputs d2 c [] [] = Some (tr, gtr)"
      and d': "d' = d2\<lparr>tent_stickies := (tent_stickies d2)(c := tr), tent_group_stickies := (tent_group_stickies d2)(c := gtr)\<rparr>"
      using r row False by (auto simp: refresh_stickies_def Let_def d2_def split: Option.bind_splits)
    have "nodes_ok d2" using db_okD(1) [OF ok] by (simp add: nodes_ok_def d2_def)
    note gs = get_stickies [OF this g]
    have shape: "d' = d\<lparr>retrieved_stickies := (retrieved_stickies d)(c := ?n), tent_stickies := (tent_stickies d)(c := tr),
       tent_group_stickies := (tent_group_stickies d)(c := gtr)\<rparr>" by (simp add: d' d2_def)
    have ig: "is_group d' a = is_group d a" "is_group d2 a = is_group d a" for a
      by (simp_all add: is_group_def d' d2_def)
    have "cache_ok d' t" for t
    proof (cases "t = c")
      case True
      then show ?thesis using gs by (simp add: cache_ok_def shape ig) (simp add: d2_def is_group_def)
    next
      case False
      then show ?thesis using db_okD(6) [OF ok, of t] by (simp add: cache_ok_def shape ig) (simp add: is_group_def)
    qed
    then have "db_ok d'" using db_okD(5) [OF ok] by (intro db_ok_caches [OF ok _ _ _ shape]) simp_all
    moreover have "retrieved_stickies d' c = sticky_count d'" by (simp add: shape)
    ultimately show ?thesis using shape by blast
  qed
  then show "db_ok d'" "retrieved_stickies d' c = sticky_count d'" ?shape by simp_all
qed

lemma add_inputs_set:
  assumes "add_inputs False es root = Some tr" and "tupid_set.valid root" and "list_all small_tupid (map tnode_tupid es)"
  shows "tupid_set.valid tr \<and> set tr = set root \<union> tnode_tupid ` set es"
  using assms
proof (induction es arbitrary: root)
  case (Cons e es)
  then obtain r where r: "tupid_tree_insert root (tnode_tupid e) = Some r" "add_inputs False es r = Some tr"
    by (auto split: Option.bind_splits)
  have "small_tupid (tnode_tupid e)" using Cons.prems(3) by simp
  from tupid_set.ins_some [OF Cons.prems(2) this r(1)] Cons.IH [OF r(2)] Cons.prems(3) show ?case by auto
qed simp

lemma get_normal:
  assumes ok: "nodes_ok d" and r: "get_normal_inputs d t [] False = Some tr"
  shows "tupid_set.valid tr \<and> set tr = sources (normal_link d) t"
proof -
  obtain es where es: "find_rows d (map fst (filter (\<lambda>(_, to_id). to_id = t) (normal_link d))) = Some es"
    and tr: "add_inputs False es [] = Some tr"
    using r by (auto simp: get_normal_inputs_def split: Option.bind_splits)
  note ids = entry_ids [OF ok es, unfolded sticky_sources_set]
  show ?thesis using add_inputs_set [OF tr _ ids(2)] ids(1) by simp
qed

lemma get_inputs_sticky:
  assumes ok: "db_ok d" and r: "tup_db_get_inputs d c True normal = Some (d', sr, nr, gsr)"
  shows "db_ok d'" and "tupid_set.valid sr" and "set sr = sources (sticky_link d) c" and "row d c \<noteq> None"
    and "normal \<Longrightarrow> tupid_set.valid nr \<and> set nr = sources (normal_link d) c"
    and "same_tables d d'" and "same_links d d'"
    and "modify_list d' = modify_list d" and "ghost_root d' = ghost_root d"
proof -
  obtain e where e: "refresh_stickies d c = Some e" "d' = e" "sr = tent_stickies e c"
    and nr: "(if normal then get_normal_inputs d c [] False else Some []) = Some nr"
    using r by (auto simp: tup_db_get_inputs_def split: Option.bind_splits)
  note rf = refresh [OF ok e(1)]
  then obtain n tr gtr where d': "d' = d\<lparr>retrieved_stickies := (retrieved_stickies d)(c := n),
      tent_stickies := (tent_stickies d)(c := tr), tent_group_stickies := (tent_group_stickies d)(c := gtr)\<rparr>"
    unfolding e(2) by blast
  show ok': "db_ok d'" and "row d c \<noteq> None" using rf(1,3) e(2) by simp_all
  show "same_tables d d'" "same_links d d'" "modify_list d' = modify_list d" "ghost_root d' = ghost_root d"
    by (simp_all add: d' same_tables_def same_links_def)
  have sr: "sr = tent_stickies d' c" using e(2,3) by simp
  have "retrieved_stickies d' c = sticky_count d'" using rf(2) e(2) by simp
  then have v: "tupid_set.valid (tent_stickies d' c)" "set (tent_stickies d' c) = sources (sticky_link d') c"
    using db_okD(6) [OF ok', of c] by (simp_all only: cache_ok_def simp_thms)
  show "tupid_set.valid sr" unfolding sr by (rule v(1))
  have "sticky_link d' = sticky_link d" by (simp add: d')
  then show "set sr = sources (sticky_link d) c" unfolding sr v(2) by simp
  show "tupid_set.valid nr \<and> set nr = sources (normal_link d) c" if normal
    using get_normal [OF db_okD(1) [OF ok]] nr that by simp
qed

end
