(* ===== verification/Db_Sync.thy ===== *)
theory Db_Sync
  imports Db_Inv
begin

text \<open>
  What the comparison of two trees achieves: the callbacks bring the current set of links to the
  wanted one.  The locale \<open>link_sync\<close> is proved once and interpreted for sticky inputs, directory inputs, inputs that
  were read and outputs.
\<close>

section \<open>The contract of the callbacks\<close>

lemma compare_swap: "compare_tent_trees a b f g s = compare_tent_trees b a g f s"
proof (induction a b f g s rule: compare_tent_trees.induct)
  case (4 a as b bs f g s)
  then show ?case by (cases "a = b"; cases "a < b"; simp; cases "call_opt f a s"; cases "call_opt g b s"; simp)
next
  case (2 b bs f g s)
  then show ?case by (cases "call_opt g b s"; simp)
next
  case (3 a as f g s)
  then show ?case by (cases "call_opt f a s"; simp)
qed simp

locale link_sync =
  fixes inv :: "'s \<Rightarrow> bool"
    and cur :: "'s \<Rightarrow> tupid set"
    and ins :: "tupid \<Rightarrow> 's \<Rightarrow> 's option"
    and rem :: "tupid \<Rightarrow> 's \<Rightarrow> 's option"
    and new :: "tupid \<Rightarrow> bool"
    and old :: "tupid \<Rightarrow> bool"
    and skipped :: "tupid \<Rightarrow> bool"
  assumes ins_law: "inv s \<Longrightarrow> new t \<Longrightarrow> t \<notin> cur s \<Longrightarrow> ins t s = Some s' \<Longrightarrow>
      inv s' \<and> cur s' = (if skipped t then cur s else insert t (cur s))"
    and rem_law: "inv s \<Longrightarrow> old t \<Longrightarrow> t \<in> cur s \<Longrightarrow> rem t s = Some s' \<Longrightarrow> inv s' \<and> cur s' = cur s - {t}"
begin

lemma sync_aux:
  assumes "sorted_wrt (<) a" and "sorted_wrt (<) b" and "\<forall>x \<in> set a - set b. new x" and "\<forall>x \<in> set b - set a. old x" and "inv s"
    and "cur s = P \<union> set b" and "\<forall>x \<in> P. \<forall>y \<in> set a \<union> set b. x < y"
    and "compare_tent_trees a b (Some ins) (Some rem) s = Some s'"
  shows "inv s' \<and> cur s' = P \<union> {t \<in> set a. t \<in> set b \<or> \<not> skipped t}"
  using assms
proof (induction a b "Some ins" "Some rem" s arbitrary: P rule: compare_tent_trees.induct)
  case (1 s)
  then show ?case by simp
next
  case (2 b bs s)
  then obtain s1 where s1: "rem b s = Some s1" "compare_tent_trees [] bs (Some ins) (Some rem) s1 = Some s'"
    by (auto simp: call_opt_def split: Option.bind_splits)
  have b: "b \<notin> P" "b \<notin> set bs" using 2(3,8) by fastforce+
  have l: "inv s1" "cur s1 = cur s - {b}" using rem_law [OF 2(6) _ _ s1(1)] 2(5,7) by simp_all
  then have "cur s1 = P \<union> set bs" using b 2(7) by auto
  from 2(1) [OF _ _ _ _ _ l(1) this _ s1(2)] s1(1) 2 show ?case by (simp add: call_opt_def)
next
  case (3 a as s)
  then obtain s1 where s1: "ins a s = Some s1" "compare_tent_trees as [] (Some ins) (Some rem) s1 = Some s'"
    by (auto simp: call_opt_def split: Option.bind_splits)
  have a: "a \<notin> P" "a \<notin> set as" using 3(2,8) by fastforce+
  have l: "inv s1" "cur s1 = (if skipped a then P else insert a P)"
    using ins_law [OF 3(6) _ _ s1(1)] 3(4,7) a by auto
  have c: "cur s1 = cur s1 \<union> set []" by simp
  have lt: "\<forall>x \<in> cur s1. \<forall>y \<in> set as \<union> set []. x < y" using 3(2,8) l(2) by auto
  have call: "call_opt (Some ins) a s = Some s1" and as: "sorted_wrt (<) as" and new: "\<forall>x \<in> set as - set []. new x"
    using s1(1) 3(2,4) by (simp_all add: call_opt_def)
  have "\<forall>x \<in> set [] - set as. old x" by simp
  from 3(1) [OF call as 3(3) new this l(1) c lt s1(2)]
  have "inv s' \<and> cur s' = cur s1 \<union> {t \<in> set as. \<not> skipped t}" by simp
  moreover have "cur s1 \<union> {t \<in> set as. \<not> skipped t} = P \<union> {t \<in> set (a # as). \<not> skipped t}"
    unfolding l(2) by auto
  ultimately show ?case by simp
next
  case (4 a as b bs s)
  note prems = 4(4-11)
  consider "a = b" | "a < b" | "b < a" by linarith
  then show ?case
  proof cases
    case 1
    have "\<forall>x \<in> insert a P. \<forall>y \<in> set as \<union> set bs. x < y" using prems(1,2,7) 1 by auto
    moreover have "cur s = insert a P \<union> set bs" using prems(6) 1 by auto
    moreover have "\<forall>x \<in> set as - set bs. new x" "\<forall>x \<in> set bs - set as. old x" using prems(1-4) 1 by fastforce+
    ultimately have "inv s' \<and> cur s' = insert a P \<union> {t \<in> set as. t \<in> set bs \<or> \<not> skipped t}"
      using 4(1) [OF 1, of "insert a P"] prems 1 by simp
    then show ?thesis using 1 by auto
  next
    case 2
    then obtain s1 where s1: "ins a s = Some s1" "compare_tent_trees as (b # bs) (Some ins) (Some rem) s1 = Some s'"
      using prems(8) by (auto simp: call_opt_def split: Option.bind_splits)
    have a: "a \<notin> P" "a \<notin> set (b # bs)" using prems(2,7) 2 by fastforce+
    have l: "inv s1" "cur s1 = (if skipped a then P else insert a P) \<union> set (b # bs)"
      using ins_law [OF prems(5) _ _ s1(1)] prems(3,6) a by auto
    define Q where "Q = (if skipped a then P else insert a P)"
    have c: "cur s1 = Q \<union> set (b # bs)" unfolding Q_def by (rule l(2))
    have Q: "\<forall>x \<in> Q. \<forall>y \<in> set as \<union> set (b # bs). x < y"
      using prems(1,2,7) 2 by (auto simp: Q_def split: if_splits)
    have news: "\<forall>x \<in> set as - set (b # bs). new x" "\<forall>x \<in> set (b # bs) - set as. old x" using prems(2-4) 2 by fastforce+
    have ab: "a \<noteq> b" and call: "call_opt (Some ins) a s = Some s1" and as: "sorted_wrt (<) as"
      using 2 s1(1) prems(1) by (simp_all add: call_opt_def)
    have "inv s' \<and> cur s' = Q \<union> {t \<in> set as. t \<in> set (b # bs) \<or> \<not> skipped t}"
      by (rule 4(2) [OF ab 2 call as prems(2) news l(1) c Q s1(2)])
    moreover have "Q \<union> {t \<in> set as. t \<in> set (b # bs) \<or> \<not> skipped t}
        = P \<union> {t \<in> set (a # as). t \<in> set (b # bs) \<or> \<not> skipped t}"
      using a(2) by (auto simp: Q_def)
    ultimately show ?thesis by simp
  next
    case 3
    then obtain s1 where s1: "rem b s = Some s1" "compare_tent_trees (a # as) bs (Some ins) (Some rem) s1 = Some s'"
      using prems(8) by (auto simp: call_opt_def split: Option.bind_splits)
    have b: "b \<notin> P" "b \<notin> set bs" "b \<notin> set (a # as)" using prems(1,2,7) 3 by fastforce+
    have l: "inv s1" "cur s1 = cur s - {b}" using rem_law [OF prems(5) _ _ s1(1)] prems(4,6) b(3) by auto
    then have c: "cur s1 = P \<union> set bs" using b prems(6) by auto
    have "\<forall>x \<in> set (a # as) - set bs. new x" "\<forall>x \<in> set bs - set (a # as). old x" using prems(1,3,4) 3 by fastforce+
    note news = this
    have ab: "a \<noteq> b" "\<not> a < b" and call: "call_opt (Some rem) b s = Some s1" and bs: "sorted_wrt (<) bs"
      and P: "\<forall>x \<in> P. \<forall>y \<in> set (a # as) \<union> set bs. x < y"
      using 3 s1(1) prems(2,7) by (simp_all add: call_opt_def)
    have "inv s' \<and> cur s' = P \<union> {t \<in> set (a # as). t \<in> set bs \<or> \<not> skipped t}"
      by (rule 4(3) [OF ab call prems(1) bs news l(1) c P s1(2)])
    moreover have "{t \<in> set (a # as). t \<in> set bs \<or> \<not> skipped t} = {t \<in> set (a # as). t \<in> set (b # bs) \<or> \<not> skipped t}"
      using b(3) by auto
    ultimately show ?thesis by (simp only:)
  qed
qed

lemma sync:
  assumes "sorted_wrt (<) a" and "sorted_wrt (<) b" and "\<forall>x \<in> set a - set b. new x" and "\<forall>x \<in> set b - set a. old x" and "inv s"
    and "cur s = set b" and "compare_tent_trees a b (Some ins) (Some rem) s = Some s'"
  shows "inv s'" and "cur s' = {t \<in> set a. t \<in> set b \<or> \<not> skipped t}"
  using sync_aux [of a b s "{}" s'] assms by simp_all

end

text \<open>Callbacks that only record a difference.\<close>

lemma compare_flag:
  assumes "\<And>t s s'. I s \<Longrightarrow> f t s = Some s' \<Longrightarrow> I s' \<and> Q s'" and "\<And>t s s'. I s \<Longrightarrow> g t s = Some s' \<Longrightarrow> I s' \<and> Q s'"
    and "I s" and "compare_tent_trees a b (Some f) (Some g) s = Some s'"
  shows "I s' \<and> (a = b \<and> s' = s \<or> Q s')"
  using assms(3,4)
proof (induction a b "Some f" "Some g" s rule: compare_tent_trees.induct)
  case (2 b bs s)
  then obtain s1 where "g b s = Some s1" "compare_tent_trees [] bs (Some f) (Some g) s1 = Some s'"
    by (auto simp: call_opt_def split: Option.bind_splits)
  with 2 assms(2) show ?case by (auto simp: call_opt_def)
next
  case (3 a as s)
  then obtain s1 where "f a s = Some s1" "compare_tent_trees as [] (Some f) (Some g) s1 = Some s'"
    by (auto simp: call_opt_def split: Option.bind_splits)
  with 3 assms(1) show ?case by (auto simp: call_opt_def)
next
  case (4 a as b bs s)
  consider "a = b" | "a < b" | "b < a" by linarith
  then show ?case
  proof cases
    case 1
    then show ?thesis using 4(1,4,5) by auto
  next
    case 2
    then obtain s1 where "f a s = Some s1" "compare_tent_trees as (b # bs) (Some f) (Some g) s1 = Some s'"
      using 4(5) by (auto simp: call_opt_def split: Option.bind_splits)
    with 2 4(2) [OF _ 2, of s1] 4(4) assms(1) show ?thesis by (auto simp: call_opt_def)
  next
    case 3
    then obtain s1 where "g b s = Some s1" "compare_tent_trees (a # as) bs (Some f) (Some g) s1 = Some s'"
      using 4(5) by (auto simp: call_opt_def split: Option.bind_splits)
    with 3 4(3) [of s1] 4(4) assms(2) show ?thesis by (auto simp: call_opt_def)
  qed
qed simp

end
