(* ===== verification/Db_Write.thy ===== *)
theory Db_Write
  imports Db_Sync Samples
begin

text \<open>
  The sticky inputs of a command: \<open>tup_db_write_inputs\<close> makes them the inputs of the Tupfile, leaves every
  other command alone and keeps the \<^verbatim>\<open>group_link\<close> rows of the command equal to its input groups
  paired with its output group.
\<close>

section \<open>What a command's rewrite may touch\<close>

definition others :: "tupid \<Rightarrow> (tupid \<times> tupid) list \<Rightarrow> (tupid \<times> tupid) list" where
  "others c l = filter (\<lambda>(_, to_id). to_id \<noteq> c) l"

definition other_rows :: "tupid \<Rightarrow> (tupid \<times> tupid \<times> tupid) list \<Rightarrow> (tupid \<times> tupid \<times> tupid) list" where
  "other_rows c l = filter (\<lambda>(_, _, k). k \<noteq> c) l"

definition group_rows :: "db \<Rightarrow> tupid \<Rightarrow> (tupid \<times> tupid) set" where
  "group_rows d c = {(a, g). (a, g, c) \<in> set (group_link d)}"

definition wanted_rows :: "db \<Rightarrow> tup_entry option \<Rightarrow> tupid set \<Rightarrow> (tupid \<times> tupid) set" where
  "wanted_rows d grp S = (case grp of None \<Rightarrow> {} | Some g \<Rightarrow> {a \<in> S. is_group d a} \<times> {tnode_tupid g})"

definition write_frame :: "tupid \<Rightarrow> db \<Rightarrow> db \<Rightarrow> bool" where
  "write_frame c d0 d \<longleftrightarrow> same_tables d0 d
     \<and> others c (normal_link d) = others c (normal_link d0)
     \<and> others c (sticky_link d) = others c (sticky_link d0)
     \<and> other_rows c (group_link d) = other_rows c (group_link d0)"

lemma others_simps [simp]:
  "others c (l @ [(a, c)]) = others c l" "others c (removeAll (a, c) l) = others c l"
  "others c (others c l) = others c l"
  by (auto simp: others_def removeAll_filter intro!: filter_cong)

lemma other_rows_simps [simp]:
  "other_rows c (l @ [(a, g, c)]) = other_rows c l" "other_rows c (removeAll (a, g, c) l) = other_rows c l"
  "other_rows c (other_rows c l) = other_rows c l"
  by (auto simp: other_rows_def removeAll_filter intro!: filter_cong)

lemma write_frame_refl [simp]: "write_frame c d d"
  by (simp add: write_frame_def)

lemma write_frame_trans: "write_frame c d0 d1 \<Longrightarrow> write_frame c d1 d2 \<Longrightarrow> write_frame c d0 d2"
  by (simp add: write_frame_def same_tables_def)

lemma same_tables_row: "same_tables d d' \<Longrightarrow> row d' t = row d t"
  by (simp add: same_tables_def)

lemma same_tables_group: "same_tables d d' \<Longrightarrow> is_group d' t = is_group d t"
  by (simp add: same_tables_def is_group_def)

lemma frame_row: "write_frame c d d' \<Longrightarrow> row d' t = row d t"
  by (simp add: write_frame_def same_tables_row)

lemma frame_group: "write_frame c d d' \<Longrightarrow> is_group d' t = is_group d t"
  by (simp add: write_frame_def same_tables_group)

text \<open>One step of a rewrite, in terms of the four tables it concerns.\<close>

definition link_view :: "tupid \<Rightarrow> db \<Rightarrow> tupid set \<times> tupid set \<times> (tupid \<times> tupid) set" where
  "link_view c d = (sources (normal_link d) c, sources (sticky_link d) c, group_rows d c)"

definition quiet :: "tupid \<Rightarrow> db \<Rightarrow> db \<Rightarrow> bool" where
  "quiet c d d' \<longleftrightarrow> db_ok d' \<and> write_frame c d d'"

lemma quiet_trans: "quiet c d0 d1 \<Longrightarrow> quiet c d1 d2 \<Longrightarrow> quiet c d0 d2"
  unfolding quiet_def using write_frame_trans by blast

lemma step_insert_normal:
  assumes "db_ok d" and "link_insert d a c TUP_LINK_NORMAL = Some d'" and "row d a \<noteq> None" and "row d c \<noteq> None"
  shows "quiet c d d' \<and> link_view c d' = (insert a (sources (normal_link d) c), sources (sticky_link d) c, group_rows d c)
    \<and> modify_list d' = modify_list d \<and> ghost_root d' = ghost_root d"
  using insert_normal [OF assms]
  by (auto simp: quiet_def write_frame_def same_tables_def link_view_def sources_insert group_rows_def)

lemma step_remove_normal:
  assumes "db_ok d" and "link_remove d a c TUP_LINK_NORMAL = Some d'"
  shows "quiet c d d' \<and> link_view c d' = (sources (normal_link d) c - {a}, sources (sticky_link d) c, group_rows d c)
    \<and> modify_list d' = modify_list d \<and> ghost_root d' = ghost_root d"
  using remove_normal [OF assms]
  by (auto simp: quiet_def write_frame_def same_tables_def link_view_def sources_def group_rows_def)

lemma step_insert_sticky:
  assumes "db_ok d" and "link_insert d a c TUP_LINK_STICKY = Some d'"
  shows "quiet c d d' \<and> link_view c d' = (sources (normal_link d) c, insert a (sources (sticky_link d) c), group_rows d c)
    \<and> modify_list d' = modify_list d \<and> ghost_root d' = ghost_root d"
  by (rule insert_sticky [OF assms])
    (auto simp: quiet_def write_frame_def same_tables_def link_view_def sources_insert group_rows_def)

lemma step_remove_sticky:
  assumes "db_ok d" and "link_remove d a c TUP_LINK_STICKY = Some d'"
  shows "quiet c d d' \<and> link_view c d' = (sources (normal_link d) c, sources (sticky_link d) c - {a}, group_rows d c)
    \<and> modify_list d' = modify_list d \<and> ghost_root d' = ghost_root d"
  by (rule remove_sticky [OF assms])
    (auto simp: quiet_def write_frame_def same_tables_def link_view_def sources_def group_rows_def)

lemma step_insert_group:
  assumes "db_ok d" and "group_link_insert d a g c = Some d'"
  shows "quiet c d d' \<and> link_view c d' = (sources (normal_link d) c, sources (sticky_link d) c, insert (a, g) (group_rows d c))
    \<and> modify_list d' = modify_list d \<and> ghost_root d' = ghost_root d"
  using insert_group_link [OF assms]
  by (auto simp: quiet_def write_frame_def same_tables_def link_view_def group_rows_def)

lemma step_remove_group:
  assumes "db_ok d" and "group_link_remove d a g c = Some d'"
  shows "quiet c d d' \<and> link_view c d' = (sources (normal_link d) c, sources (sticky_link d) c, group_rows d c - {(a, g)})
    \<and> modify_list d' = modify_list d \<and> ghost_root d' = ghost_root d"
  using remove_group_link [OF assms]
  by (auto simp: quiet_def write_frame_def same_tables_def link_view_def group_rows_def)

lemma step_delete_group:
  assumes "db_ok d" and "delete_group_links d c = Some d'"
  shows "quiet c d d' \<and> link_view c d' = (sources (normal_link d) c, sources (sticky_link d) c, {})
    \<and> modify_list d' = modify_list d \<and> ghost_root d' = ghost_root d"
  using delete_group [OF assms]
  by (auto simp: quiet_def write_frame_def same_tables_def link_view_def group_rows_def other_rows_def)

lemma step_delete_inputs:
  assumes "db_ok d" and "delete_normal_inputs d c = Some d'"
  shows "quiet c d d' \<and> link_view c d' = ({}, sources (sticky_link d) c, group_rows d c)
    \<and> modify_list d' = modify_list d \<and> ghost_root d' = ghost_root d"
  using delete_inputs [OF assms]
  by (auto simp: quiet_def write_frame_def same_tables_def link_view_def group_rows_def others_def sources_def)

lemma step_add_modify:
  assumes "db_ok d" and "tup_db_add_modify_list d t = Some d'"
  shows "quiet c d d' \<and> link_view c d' = link_view c d
    \<and> set (modify_list d') = insert t (set (modify_list d)) \<and> ghost_root d' = ghost_root d"
  using add_modify [OF assms]
  by (auto simp: quiet_def write_frame_def same_tables_def link_view_def group_rows_def)

lemma step_ghost:
  assumes "db_ok d"
  shows "quiet c d (d\<lparr>ghost_root := g\<rparr>) \<and> link_view c (d\<lparr>ghost_root := g\<rparr>) = link_view c d"
  using db_ok_flags [OF assms]
  by (auto simp: quiet_def write_frame_def same_tables_def link_view_def group_rows_def)


lemma ghost_add:
  assumes "tupid_set.valid g" and "nodes_ok d" and "row d t = Some e"
  shows "tupid_set.valid (tup_entry_add_ghost_tree g e)"
    and "set (tup_entry_add_ghost_tree g e) = (if ghost_type e then insert t (set g) else set g)"
proof -
  have t: "tnode_tupid e = t" using row_id [OF assms(2,3)] by simp
  have small: "small_tupid t" using row_small [OF assms(2), of t] assms(3) by simp
  have "tupid_set.valid (tent_tree_add_dup g t) \<and> set (tent_tree_add_dup g t) = insert t (set g)"
  proof (cases "tupid_tree_insert g t")
    case None
    then have "t \<in> set g" using tupid_set.ins_fresh [OF assms(1) small] by (metis option.distinct(1))
    then show ?thesis using None assms(1) by (simp add: tent_tree_add_dup_def insert_absorb)
  next
    case (Some g')
    then show ?thesis using tupid_set.ins_some [OF assms(1) small Some] by (simp add: tent_tree_add_dup_def)
  qed
  then show "tupid_set.valid (tup_entry_add_ghost_tree g e)"
    and "set (tup_entry_add_ghost_tree g e) = (if ghost_type e then insert t (set g) else set g)"
    using assms(1) by (simp_all add: tup_entry_add_ghost_tree_def t)
qed

lemma found_row:
  assumes "db_ok d" and "tup_entry_find_row d t = Some e"
  shows "row d t = Some e" and "tnode_tupid e = t" and "small_tupid t" and "is_group d t \<longleftrightarrow> ntype e = TUP_NODE_GROUP"
  using find_row_some [OF assms(2)] row_id [OF db_okD(1) [OF assms(1)]] row_small [OF db_okD(1) [OF assms(1)], of t]
  by (simp_all add: is_group_def)

section \<open>The callbacks for sticky inputs\<close>

definition stickies :: "tupid \<Rightarrow> db \<Rightarrow> tupid set" where
  "stickies c d = sources (sticky_link d) c"

definition normals :: "tupid \<Rightarrow> db \<Rightarrow> tupid set" where
  "normals c d = sources (normal_link d) c"

definition sticky_inv :: "db \<Rightarrow> tupid \<Rightarrow> tupid \<Rightarrow> tent_entries \<Rightarrow> db \<times> write_input_data \<Rightarrow> bool" where
  "sticky_inv d0 c gid env = (\<lambda>(d, wid).
     db_ok d \<and> write_frame c d0 d
     \<and> w_cmdid wid = c \<and> w_groupid wid = gid \<and> Db_Deps.env_root wid = env \<and> \<not> refactoring wid \<and> \<not> refactoring_failed wid
     \<and> normals c d = normals c d0 - (stickies c d0 - stickies c d) \<union> set env \<inter> (stickies c d - stickies c d0)
     \<and> group_rows d c = (if gid = -1 then group_rows d0 c else {a \<in> stickies c d. is_group d0 a} \<times> {gid})
     \<and> normal_links_invalid wid = (\<exists>t \<in> stickies c d0 - stickies c d. is_group d0 t)
     \<and> new_groups wid = (gid \<noteq> -1 \<and> (\<exists>t \<in> stickies c d - stickies c d0. is_group d0 t))
     \<and> set (modify_list d0) \<subseteq> set (modify_list d) \<and> (normals c d \<noteq> normals c d0 \<longrightarrow> c \<in> set (modify_list d))
     \<and> tupid_set.valid (ghost_root d)
     \<and> {t \<in> stickies c d0 - stickies c d. is_group d0 t} \<subseteq> set (ghost_root d))"

lemma link_view_parts:
  assumes "link_view c d' = (N, S, R)"
  shows "normals c d' = N" and "stickies c d' = S" and "group_rows d' c = R"
  using assms by (simp_all add: link_view_def normals_def stickies_def)

lemma link_view_eq: "link_view c d = (normals c d, stickies c d, group_rows d c)"
  by (simp add: link_view_def normals_def stickies_def)

lemma quietD: "quiet c d d' \<Longrightarrow> db_ok d' \<and> write_frame c d d'"
  by (simp add: quiet_def)

lemmas view_steps = step_insert_normal step_remove_normal step_insert_sticky step_remove_sticky
  step_insert_group step_remove_group step_delete_group step_delete_inputs

lemma add_sticky_effect:
  assumes ok: "db_ok d" and env: "tupid_set.valid (Db_Deps.env_root wid)" and ref: "\<not> refactoring wid"
    and c: "w_cmdid wid = c" "row d c \<noteq> None" and add: "add_sticky t (d, wid) = Some (d', wid')"
  shows "db_ok d' \<and> write_frame c d d' \<and> stickies c d' = insert t (stickies c d)
    \<and> normals c d' = (if t \<in> set (Db_Deps.env_root wid) then insert t (normals c d) else normals c d)
    \<and> group_rows d' c = (if is_group d t \<and> w_groupid wid \<noteq> -1 then insert (t, w_groupid wid) (group_rows d c) else group_rows d c)
    \<and> set (modify_list d') = set (modify_list d) \<union> (if t \<in> set (Db_Deps.env_root wid) then {c} else {})
    \<and> ghost_root d' = ghost_root d
    \<and> wid' = (if is_group d t \<and> w_groupid wid \<noteq> -1 then wid\<lparr>new_groups := True\<rparr> else wid)"
proof -
  obtain e where e: "tup_entry_find_row d t = Some e"
    using add ref by (auto simp: add_sticky_def split: Option.bind_splits)
  note e' = found_row [OF ok e]
  have mem: "(tupid_tree_search (Db_Deps.env_root wid) t \<noteq> None) = (t \<in> set (Db_Deps.env_root wid))"
    by (rule tupid_set.srch_iff [OF env e'(3)])
  obtain d1 where d1: "if is_group d t \<and> w_groupid wid \<noteq> -1 then group_link_insert d t (w_groupid wid) c = Some d1 else d1 = d"
    and rest: "(if t \<in> set (Db_Deps.env_root wid)
              then do { d' \<leftarrow> link_insert d1 t c TUP_LINK_NORMAL; tup_db_add_modify_list d' c }
              else Some d1) \<bind> (\<lambda>d2. link_insert d2 t c TUP_LINK_STICKY) = Some d'"
    and wid': "wid' = (if is_group d t \<and> w_groupid wid \<noteq> -1 then wid\<lparr>new_groups := True\<rparr> else wid)"
    using add ref e e'(4) c(1) mem
    by (auto simp: add_sticky_def split: Option.bind_splits if_splits)
  have q1: "quiet c d d1 \<and> link_view c d1 = (normals c d, stickies c d,
      if is_group d t \<and> w_groupid wid \<noteq> -1 then insert (t, w_groupid wid) (group_rows d c) else group_rows d c)
      \<and> modify_list d1 = modify_list d \<and> ghost_root d1 = ghost_root d"
    using d1 step_insert_group [OF ok] ok
    by (auto simp: quiet_def link_view_eq normals_def stickies_def split: if_splits)
  then have ok1: "db_ok d1" and fr: "row d1 x = row d x" for x
    using quietD frame_row by blast+
  obtain d2 where d2: "if t \<in> set (Db_Deps.env_root wid)
      then link_insert d1 t c TUP_LINK_NORMAL \<bind> (\<lambda>d'. tup_db_add_modify_list d' c) = Some d2 else d2 = d1"
    and d': "link_insert d2 t c TUP_LINK_STICKY = Some d'"
    using rest by (auto split: Option.bind_splits if_splits)
  have q2: "quiet c d1 d2 \<and> link_view c d2 = (if t \<in> set (Db_Deps.env_root wid) then insert t (normals c d1) else normals c d1,
      stickies c d1, group_rows d1 c)
      \<and> set (modify_list d2) = set (modify_list d1) \<union> (if t \<in> set (Db_Deps.env_root wid) then {c} else {})
      \<and> ghost_root d2 = ghost_root d1"
  proof (cases "t \<in> set (Db_Deps.env_root wid)")
    case True
    then obtain dm where dm: "link_insert d1 t c TUP_LINK_NORMAL = Some dm" "tup_db_add_modify_list dm c = Some d2"
      using d2 by (auto split: Option.bind_splits)
    have i: "quiet c d1 dm" "link_view c dm = (insert t (normals c d1), stickies c d1, group_rows d1 c)"
      "modify_list dm = modify_list d1" "ghost_root dm = ghost_root d1"
      using step_insert_normal [OF ok1 dm(1)] fr e'(1) c(2) by (simp_all add: normals_def stickies_def)
    with step_add_modify [OF _ dm(2), of c] True show ?thesis
      using quiet_trans [OF i(1), of d2] by (simp add: quiet_def)
  next
    case False
    then show ?thesis using d2 ok1 by (simp add: quiet_def link_view_eq)
  qed
  then have ok2: "db_ok d2" using quietD by blast
  note q3 = step_insert_sticky [OF ok2 d', folded normals_def stickies_def]
  have "quiet c d d'" using q1 q2 q3 quiet_trans by blast
  then have "db_ok d'" "write_frame c d d'" by (simp_all add: quiet_def)
  moreover note link_view_parts [of c d1] link_view_parts [of c d2] link_view_parts [of c d']
  ultimately show ?thesis using q1 q2 q3 wid' by simp
qed

lemma rm_sticky_effect:
  assumes ok: "db_ok d" and g: "tupid_set.valid (ghost_root d)" and ref: "\<not> refactoring wid"
    and c: "w_cmdid wid = c" and rm: "rm_sticky t (d, wid) = Some (d', wid')"
  shows "db_ok d' \<and> write_frame c d d' \<and> stickies c d' = stickies c d - {t} \<and> normals c d' = normals c d - {t}
    \<and> group_rows d' c = (if is_group d t \<and> w_groupid wid \<noteq> -1 then group_rows d c - {(t, w_groupid wid)} else group_rows d c)
    \<and> set (modify_list d') = set (modify_list d) \<union> (if t \<in> normals c d then {c} else {})
    \<and> tupid_set.valid (ghost_root d') \<and> set (ghost_root d') = (if is_group d t then insert t (set (ghost_root d)) else set (ghost_root d))
    \<and> wid' = (if is_group d t then wid\<lparr>normal_links_invalid := True\<rparr> else wid)"
proof -
  obtain e d1 ex where e: "tup_entry_find_row d t = Some e" and d1: "link_remove d t c TUP_LINK_STICKY = Some d1"
    and ex: "tup_db_link_exists d1 t c TUP_LINK_NORMAL = Some ex"
    using rm ref c by (auto simp: rm_sticky_def split: Option.bind_splits)
  note e' = found_row [OF ok e]
  have "(if ex then link_remove d1 t c TUP_LINK_NORMAL \<bind> (\<lambda>d'. tup_db_add_modify_list d' c) else Some d1)
      \<bind> (\<lambda>d2. if ntype e = TUP_NODE_GROUP
       then do {
         let d3 = d2\<lparr>ghost_root := tup_entry_add_ghost_tree (ghost_root d2) e\<rparr>;
         d4 \<leftarrow> (if w_groupid wid \<noteq> -1 then group_link_remove d3 t (w_groupid wid) c else Some d3);
         Some (d4, wid\<lparr>normal_links_invalid := True\<rparr>)}
       else Some (d2, wid)) = Some (d', wid')"
    using rm ref e d1 ex unfolding c [symmetric] by (simp add: rm_sticky_def)
  then obtain d2 where d2: "if ex then link_remove d1 t c TUP_LINK_NORMAL \<bind> (\<lambda>d'. tup_db_add_modify_list d' c) = Some d2 else d2 = d1"
    and last: "if is_group d t
      then (if w_groupid wid \<noteq> -1
            then group_link_remove (d2\<lparr>ghost_root := tup_entry_add_ghost_tree (ghost_root d2) e\<rparr>) t (w_groupid wid) c = Some d'
            else d' = d2\<lparr>ghost_root := tup_entry_add_ghost_tree (ghost_root d2) e\<rparr>)
      else d' = d2"
    and wid': "wid' = (if is_group d t then wid\<lparr>normal_links_invalid := True\<rparr> else wid)"
    using e'(4) by (auto simp: Let_def split: Option.bind_splits if_splits)
  have q1: "quiet c d d1" "link_view c d1 = (normals c d, stickies c d - {t}, group_rows d c)"
      "modify_list d1 = modify_list d" "ghost_root d1 = ghost_root d"
    using step_remove_sticky [OF ok d1] by (simp_all add: normals_def stickies_def)
  then have ok1: "db_ok d1" by (simp add: quiet_def)
  have exi: "ex = (t \<in> normals c d)"
    using ex link_view_parts(1) [OF q1(2)]
    by (auto simp: tup_db_link_exists_def normals_def sources_def split: Option.bind_splits)
  have q2: "quiet c d1 d2 \<and> link_view c d2 = (normals c d1 - {t}, stickies c d1, group_rows d1 c)
      \<and> set (modify_list d2) = set (modify_list d1) \<union> (if t \<in> normals c d then {c} else {})
      \<and> ghost_root d2 = ghost_root d1"
  proof (cases ex)
    case True
    then obtain dm where dm: "link_remove d1 t c TUP_LINK_NORMAL = Some dm" "tup_db_add_modify_list dm c = Some d2"
      using d2 by (auto split: Option.bind_splits)
    have i: "quiet c d1 dm" "link_view c dm = (normals c d1 - {t}, stickies c d1, group_rows d1 c)"
      "modify_list dm = modify_list d1" "ghost_root dm = ghost_root d1"
      using step_remove_normal [OF ok1 dm(1)] by (simp_all add: normals_def stickies_def)
    with step_add_modify [OF _ dm(2), of c] True exi show ?thesis
      using quiet_trans [OF i(1), of d2] by (simp add: quiet_def)
  next
    case False
    then show ?thesis using d2 ok1 exi link_view_parts(1) [OF q1(2)] by (simp add: quiet_def link_view_eq)
  qed
  let ?g = "tup_entry_add_ghost_tree (ghost_root d) e"
  have gs: "tupid_set.valid ?g" "ntype e = TUP_NODE_GROUP \<Longrightarrow> set ?g = insert t (set (ghost_root d))"
    using ghost_add [OF g db_okD(1) [OF ok] e'(1)] by (simp_all add: ghost_type_def)
  have gr: "ghost_root d2 = ghost_root d" using q1 q2 by simp
  have q3: "quiet c d2 d' \<and> link_view c d' = (normals c d2, stickies c d2,
      if is_group d t \<and> w_groupid wid \<noteq> -1 then group_rows d2 c - {(t, w_groupid wid)} else group_rows d2 c)
      \<and> modify_list d' = modify_list d2 \<and> ghost_root d' = (if is_group d t then ?g else ghost_root d2)"
  proof -
    let ?d3 = "d2\<lparr>ghost_root := ?g\<rparr>"
    have ok2: "db_ok d2" using q2 by (simp add: quiet_def)
    have g3: "quiet c d2 ?d3" "link_view c ?d3 = (normals c d2, stickies c d2, group_rows d2 c)"
      using step_ghost [OF ok2, of c ?g] by (simp_all add: link_view_eq)
    consider "\<not> is_group d t" "d' = d2" | "is_group d t" "w_groupid wid = -1" "d' = ?d3"
      | "is_group d t" "w_groupid wid \<noteq> -1" "group_link_remove ?d3 t (w_groupid wid) c = Some d'"
      using last gr by (auto split: if_splits)
    then show ?thesis
    proof cases
      case 1
      then show ?thesis using ok2 by (simp add: quiet_def link_view_eq)
    next
      case 2
      then show ?thesis using g3 by simp
    next
      case 3
      have "db_ok ?d3" using g3(1) by (simp add: quiet_def)
      from step_remove_group [OF this 3(3)] 3 link_view_parts [OF g3(2)] quiet_trans [OF g3(1), of d'] show ?thesis
        by (simp add: normals_def stickies_def)
    qed
  qed
  have "quiet c d d'" using q1(1) q2 q3 quiet_trans by blast
  then have fr: "db_ok d'" "write_frame c d d'" by (simp_all add: quiet_def)
  note v1 = link_view_parts [OF q1(2)]
  have v2: "normals c d2 = normals c d - {t}" "stickies c d2 = stickies c d - {t}" "group_rows d2 c = group_rows d c"
    using q2 link_view_parts [of c d2] v1 by simp_all
  have v3: "normals c d' = normals c d2" "stickies c d' = stickies c d2"
    "group_rows d' c = (if is_group d t \<and> w_groupid wid \<noteq> -1 then group_rows d2 c - {(t, w_groupid wid)} else group_rows d2 c)"
    using q3 link_view_parts [of c d'] by simp_all
  have ml: "set (modify_list d') = set (modify_list d) \<union> (if t \<in> normals c d then {c} else {})"
    using q1(3) q2 q3 by simp
  have gl: "tupid_set.valid (ghost_root d')" "set (ghost_root d') = (if is_group d t then insert t (set (ghost_root d)) else set (ghost_root d))"
    using q3 gr gs g e'(4) by simp_all
  show ?thesis using fr v2 v3 ml gl wid' by simp
qed

definition sticky_cur :: "tupid \<Rightarrow> db \<times> write_input_data \<Rightarrow> tupid set" where
  "sticky_cur c = (\<lambda>(d, wid). stickies c d)"

lemma sticky_invD:
  assumes "sticky_inv d0 c gid env (d, wid)"
  shows "db_ok d" "write_frame c d0 d" "w_cmdid wid = c" "w_groupid wid = gid" "Db_Deps.env_root wid = env"
    "\<not> refactoring wid" "\<not> refactoring_failed wid"
    "normals c d = normals c d0 - (stickies c d0 - stickies c d) \<union> set env \<inter> (stickies c d - stickies c d0)"
    "group_rows d c = (if gid = -1 then group_rows d0 c else {a \<in> stickies c d. is_group d0 a} \<times> {gid})"
    "normal_links_invalid wid = (\<exists>t \<in> stickies c d0 - stickies c d. is_group d0 t)"
    "new_groups wid = (gid \<noteq> -1 \<and> (\<exists>t \<in> stickies c d - stickies c d0. is_group d0 t))"
    "set (modify_list d0) \<subseteq> set (modify_list d)" "normals c d \<noteq> normals c d0 \<longrightarrow> c \<in> set (modify_list d)"
    "tupid_set.valid (ghost_root d)" "{t \<in> stickies c d0 - stickies c d. is_group d0 t} \<subseteq> set (ghost_root d)"
  using assms unfolding sticky_inv_def split_conv by - (elim conjE, assumption)+

lemma add_sticky_inv:
  assumes env: "tupid_set.valid env" and c: "row d0 c \<noteq> None" and inv: "sticky_inv d0 c gid env (d, wid)"
    and new: "t \<notin> stickies c d0" "t \<notin> stickies c d" and add: "add_sticky t (d, wid) = Some (d', wid')"
  shows "sticky_inv d0 c gid env (d', wid')" and "stickies c d' = insert t (stickies c d)"
proof -
  note i = sticky_invD [OF inv]
  have rows: "row d c \<noteq> None" using c frame_row [OF i(2), of c] by (simp only: not_False_eq_True)
  have grp: "is_group d t = is_group d0 t" by (rule frame_group [OF i(2)])
  note e = add_sticky_effect [OF i(1) _ i(6) i(3) rows add, unfolded i(4,5), OF env]
  then show st: "stickies c d' = insert t (stickies c d)" by (elim conjE)
  have diff: "stickies c d0 - stickies c d' = stickies c d0 - stickies c d" using new st by auto
  have n: "normals c d' = normals c d0 - (stickies c d0 - stickies c d') \<union> set env \<inter> (stickies c d' - stickies c d0)"
    using e i(8) new unfolding diff st by (cases "t \<in> set env") auto
  have r: "group_rows d' c = (if gid = -1 then group_rows d0 c else {a \<in> stickies c d'. is_group d0 a} \<times> {gid})"
    using e i(9) grp unfolding st by (cases "is_group d0 t"; cases "gid = -1"; simp; blast)
  have m: "set (modify_list d0) \<subseteq> set (modify_list d')" "normals c d' \<noteq> normals c d0 \<longrightarrow> c \<in> set (modify_list d')"
    using e i(12,13) by (cases "t \<in> set env"; auto)+
  have w: "w_cmdid wid' = c" "w_groupid wid' = gid" "Db_Deps.env_root wid' = env" "\<not> refactoring wid'" "\<not> refactoring_failed wid'"
    "normal_links_invalid wid' = normal_links_invalid wid" "new_groups wid' = (new_groups wid \<or> is_group d0 t \<and> gid \<noteq> -1)"
    using e i(3-7) grp by (cases "is_group d0 t"; cases "gid = -1"; simp)+
  have diff2: "stickies c d' - stickies c d0 = insert t (stickies c d - stickies c d0)" using new st by auto
  have ng: "new_groups wid' = (gid \<noteq> -1 \<and> (\<exists>t \<in> stickies c d' - stickies c d0. is_group d0 t))"
    unfolding w(7) diff2 i(11) by auto
  have g: "ghost_root d' = ghost_root d" and f: "db_ok d'" "write_frame c d0 d'"
    using e write_frame_trans [OF i(2)] by blast+
  show "sticky_inv d0 c gid env (d', wid')"
    unfolding sticky_inv_def split_conv diff g w(6) by (intro conjI f n [unfolded diff] r m w(1-5) ng i(10,14,15))
qed

lemma rm_sticky_inv:
  assumes inv: "sticky_inv d0 c gid env (d, wid)" and old: "t \<in> stickies c d0" "t \<in> stickies c d"
    and rm: "rm_sticky t (d, wid) = Some (d', wid')"
  shows "sticky_inv d0 c gid env (d', wid')" and "stickies c d' = stickies c d - {t}"
proof -
  note i = sticky_invD [OF inv]
  have grp: "is_group d t = is_group d0 t" by (rule frame_group [OF i(2)])
  note e = rm_sticky_effect [OF i(1,14,6,3) rm, unfolded i(4) grp]
  then show st: "stickies c d' = stickies c d - {t}" by (elim conjE)
  have diff: "stickies c d0 - stickies c d' = insert t (stickies c d0 - stickies c d)" using old st by auto
  have n: "normals c d' = normals c d0 - (stickies c d0 - stickies c d') \<union> set env \<inter> (stickies c d' - stickies c d0)"
    using e i(8) old unfolding diff st by auto
  have r: "group_rows d' c = (if gid = -1 then group_rows d0 c else {a \<in> stickies c d'. is_group d0 a} \<times> {gid})"
    using e i(9) unfolding st by (cases "is_group d0 t"; cases "gid = -1"; simp; blast)
  have m: "set (modify_list d0) \<subseteq> set (modify_list d')" "normals c d' \<noteq> normals c d0 \<longrightarrow> c \<in> set (modify_list d')"
    using e i(12,13) by (cases "t \<in> normals c d"; auto)+
  have w: "w_cmdid wid' = c" "w_groupid wid' = gid" "Db_Deps.env_root wid' = env" "\<not> refactoring wid'" "\<not> refactoring_failed wid'"
    "normal_links_invalid wid' = (is_group d0 t \<or> normal_links_invalid wid)" "new_groups wid' = new_groups wid"
    using e i(3-7) by simp_all
  have "stickies c d' - stickies c d0 = stickies c d - stickies c d0" using old st by auto
  then have ng: "new_groups wid' = (gid \<noteq> -1 \<and> (\<exists>t \<in> stickies c d' - stickies c d0. is_group d0 t))"
    unfolding w(7) i(11) by simp
  have inval: "normal_links_invalid wid' = (\<exists>t \<in> stickies c d0 - stickies c d'. is_group d0 t)"
    unfolding w(6) diff i(10) by simp
  have g: "tupid_set.valid (ghost_root d')" "{t \<in> stickies c d0 - stickies c d'. is_group d0 t} \<subseteq> set (ghost_root d')"
    using e i(15) unfolding diff by (cases "is_group d0 t"; auto)+
  have f: "db_ok d'" "write_frame c d0 d'" using e write_frame_trans [OF i(2)] by blast+
  show "sticky_inv d0 c gid env (d', wid')"
    unfolding sticky_inv_def split_conv by (intro conjI f w(1-5) n r m g inval ng)
qed

interpretation sticky_sync: link_sync
  "\<lambda>s. tupid_set.valid env \<and> row d0 c \<noteq> None \<and> sticky_inv d0 c gid env s" "sticky_cur c" add_sticky rm_sticky
  "\<lambda>t. t \<notin> stickies c d0" "\<lambda>t. t \<in> stickies c d0" "\<lambda>t. False"
  for d0 c gid env
proof unfold_locales
  fix s s' :: "db \<times> write_input_data" and t
  assume "tupid_set.valid env \<and> row d0 c \<noteq> None \<and> sticky_inv d0 c gid env s" "t \<notin> stickies c d0" "t \<notin> sticky_cur c s"
    "add_sticky t s = Some s'"
  then show "(tupid_set.valid env \<and> row d0 c \<noteq> None \<and> sticky_inv d0 c gid env s')
      \<and> sticky_cur c s' = (if False then sticky_cur c s else insert t (sticky_cur c s))"
    using add_sticky_inv [of env d0 c gid "fst s" "snd s" t "fst s'" "snd s'"]
    by (cases s; cases s'; simp add: sticky_cur_def)
next
  fix s s' :: "db \<times> write_input_data" and t
  assume "tupid_set.valid env \<and> row d0 c \<noteq> None \<and> sticky_inv d0 c gid env s" "t \<in> stickies c d0" "t \<in> sticky_cur c s"
    "rm_sticky t s = Some s'"
  then show "(tupid_set.valid env \<and> row d0 c \<noteq> None \<and> sticky_inv d0 c gid env s') \<and> sticky_cur c s' = sticky_cur c s - {t}"
    using rm_sticky_inv [of d0 c gid env "fst s" "snd s" t "fst s'" "snd s'"]
    by (cases s; cases s'; simp add: sticky_cur_def)
qed

section \<open>Writing the sticky inputs\<close>

lemma insert_links_normal:
  assumes "insert_links ts c d = Some d'" and "db_ok d" and "row d c \<noteq> None" and "\<forall>t \<in> set ts. row d t \<noteq> None"
  shows "db_ok d' \<and> write_frame c d d' \<and> normals c d' = normals c d \<union> set ts \<and> stickies c d' = stickies c d
    \<and> group_rows d' c = group_rows d c \<and> modify_list d' = modify_list d \<and> ghost_root d' = ghost_root d"
  using assms
proof (induction ts arbitrary: d)
  case (Cons t ts)
  then obtain d1 where d1: "link_insert d t c TUP_LINK_NORMAL = Some d1" "insert_links ts c d1 = Some d'"
    by (auto split: Option.bind_splits)
  have s: "quiet c d d1" "link_view c d1 = (insert t (normals c d), stickies c d, group_rows d c)"
    "modify_list d1 = modify_list d" "ghost_root d1 = ghost_root d"
    using step_insert_normal [OF Cons.prems(2) d1(1) _ Cons.prems(3)] Cons.prems(4)
    by (simp_all add: normals_def stickies_def)
  have fr: "row d1 x = row d x" for x using quietD [OF s(1)] frame_row by blast
  have "db_ok d1" using s(1) by (simp add: quiet_def)
  from Cons.IH [OF d1(2) this, unfolded fr] Cons.prems(3,4) link_view_parts [OF s(2)] s(3,4) write_frame_trans [of c d d1 d'] quietD [OF s(1)]
  show ?case by simp
qed simp

lemma insert_group_links_rows:
  assumes "insert_group_links ts g c d = Some d'" and "db_ok d"
  shows "db_ok d' \<and> write_frame c d d' \<and> normals c d' = normals c d \<and> stickies c d' = stickies c d
    \<and> group_rows d' c = group_rows d c \<union> {t \<in> set ts. is_group d t} \<times> {g}
    \<and> modify_list d' = modify_list d \<and> ghost_root d' = ghost_root d"
  using assms
proof (induction ts arbitrary: d)
  case (Cons t ts)
  then obtain e d1 where e: "tup_entry_find_row d t = Some e" and d1: "insert_group_links ts g c d1 = Some d'"
    and ins: "(if ntype e = TUP_NODE_GROUP then group_link_insert d t g c else Some d) = Some d1"
    by (auto split: Option.bind_splits)
  note e' = found_row [OF Cons.prems(2) e]
  have s: "quiet c d d1 \<and> link_view c d1 = (normals c d, stickies c d, if is_group d t then insert (t, g) (group_rows d c) else group_rows d c)
    \<and> modify_list d1 = modify_list d \<and> ghost_root d1 = ghost_root d"
    using step_insert_group [OF Cons.prems(2), of t g c d1] ins e'(4) Cons.prems(2)
    by (auto simp: normals_def stickies_def quiet_def link_view_def split: if_splits)
  then have f: "db_ok d1" "write_frame c d d1" by (simp_all add: quiet_def)
  note v = link_view_parts [of c d1, OF s [THEN conjunct2, THEN conjunct1]]
  have rows: "group_rows d' c = group_rows d1 c \<union> {t \<in> set ts. is_group d t} \<times> {g}"
    using Cons.IH [OF d1 f(1)] by (simp add: frame_group [OF f(2)])
  have "group_rows d' c = group_rows d c \<union> {x \<in> set (t # ts). is_group d x} \<times> {g}"
    unfolding rows v(3) by auto
  then show ?case
    using Cons.IH [OF d1 f(1)] v(1,2) s write_frame_trans [OF f(2), of d'] by simp
qed simp

definition write_groupid :: "tup_entry option \<Rightarrow> tup_entry option \<Rightarrow> tupid" where
  "write_groupid grp old_group = (case grp of None \<Rightarrow> -1 | Some g \<Rightarrow> if grp = old_group then tnode_tupid g else -1)"

lemma loaded_inputs:
  assumes "db_ok d" and "tup_db_get_inputs d c True normal = Some (d1, sr, nr, gsr)"
  shows "db_ok d1" "write_frame c d d1" "row d c \<noteq> None" "tupid_set.valid sr" "set sr = stickies c d"
    "stickies c d1 = stickies c d" "normals c d1 = normals c d" "group_rows d1 c = group_rows d c"
    "modify_list d1 = modify_list d" "ghost_root d1 = ghost_root d"
    "normal \<Longrightarrow> tupid_set.valid nr \<and> set nr = normals c d"
  using get_inputs_sticky [OF assms]
  by (simp_all add: same_links_def write_frame_def stickies_def normals_def group_rows_def)

lemma sync_stickies:
  assumes ok: "db_ok d" and v: "tupid_set.valid input_root" "tupid_set.valid env" "tupid_set.valid (ghost_root d)"
    and rows: "gid \<noteq> -1 \<longrightarrow> group_rows d c = {a \<in> stickies c d. is_group d a} \<times> {gid}"
    and get: "tup_db_get_inputs d c True False = Some (d1, sr, nr, gsr)"
    and wid: "wid = \<lparr>w_cmdid = c, w_groupid = gid, new_groups = False, normal_links_invalid = False, env_root = env,
       refactoring = False, refactoring_failed = False\<rparr>"
    and cmp: "compare_tent_trees input_root sr (Some add_sticky) (Some rm_sticky) (d1, wid) = Some (d2, wid2)"
  shows "sticky_inv d1 c gid env (d2, wid2)" and "stickies c d2 = set input_root"
proof -
  note l = loaded_inputs [OF ok get]
  have grp: "is_group d1 a = is_group d a" for a by (rule frame_group [OF l(2)])
  have "sticky_inv d1 c gid env (d1, wid)"
    using l(1,6-10) v(3) rows grp by (auto simp: sticky_inv_def wid)
  then have inv: "tupid_set.valid env \<and> row d1 c \<noteq> None \<and> sticky_inv d1 c gid env (d1, wid)"
    using v(2) l(3) frame_row [OF l(2), of c] by simp
  have srt: "sorted_wrt (<) input_root" "sorted_wrt (<) sr" using v(1) l(4) by (simp_all add: tupid_set.valid_def)
  have new: "\<forall>x \<in> set input_root - set sr. x \<notin> stickies c d1" "\<forall>x \<in> set sr - set input_root. x \<in> stickies c d1"
    using l(5,6) by auto
  have cur: "sticky_cur c (d1, wid) = set sr" using l(5,6) by (simp add: sticky_cur_def)
  note s = sticky_sync.sync [OF srt new inv cur cmp]
  show "sticky_inv d1 c gid env (d2, wid2)" using s(1) by simp
  show "stickies c d2 = set input_root" using s(2) by (simp add: sticky_cur_def)
qed

lemma rewrite_normals:
  assumes ok: "db_ok d2" and c: "row d2 c \<noteq> None" and env: "\<forall>t \<in> set env. row d2 t \<noteq> None"
    and r: "(if bad then do { d' \<leftarrow> tup_db_add_modify_list d2 c; d'' \<leftarrow> delete_normal_inputs d' c; insert_links env c d'' }
       else Some d2) = Some d3"
  shows "db_ok d3 \<and> write_frame c d2 d3 \<and> stickies c d3 = stickies c d2 \<and> group_rows d3 c = group_rows d2 c
    \<and> normals c d3 = (if bad then set env else normals c d2) \<and> ghost_root d3 = ghost_root d2
    \<and> set (modify_list d3) = set (modify_list d2) \<union> (if bad then {c} else {})"
proof (cases bad)
  case True
  then obtain da db where da: "tup_db_add_modify_list d2 c = Some da" and db: "delete_normal_inputs da c = Some db"
    and d3: "insert_links env c db = Some d3"
    using r by (auto split: Option.bind_splits)
  note sa = step_add_modify [OF ok da, of c]
  then have fa: "db_ok da" "write_frame c d2 da" by (simp_all add: quiet_def)
  note sb = step_delete_inputs [OF fa(1) db]
  then have fb: "db_ok db" "write_frame c da db" by (simp_all add: quiet_def)
  have fr: "row db x = row d2 x" for x using frame_row [OF fa(2)] frame_row [OF fb(2)] by simp
  note sc = insert_links_normal [OF d3 fb(1), unfolded fr, OF c env]
  have "normals c db = {}" "stickies c db = stickies c d2" "group_rows db c = group_rows d2 c"
    using link_view_parts [of c db] sb link_view_parts [of c da] sa link_view_eq [of c d2]
    by (simp_all add: normals_def stickies_def)
  then show ?thesis
    using sa sb sc True write_frame_trans [OF fa(2) write_frame_trans [OF fb(2)]] by simp
next
  case False
  then show ?thesis using r ok by simp
qed

lemma rewrite_groups:
  assumes ok: "db_ok d3" and ne: "grp \<noteq> old_group"
    and old: "old_group = None \<Longrightarrow> group_rows d3 c = {}"
    and r: "do { d' \<leftarrow> (if old_group \<noteq> None then delete_group_links d3 c else Some d3);
          case grp of
            None \<Rightarrow> Some (d', ng)
          | Some g \<Rightarrow> do { d'' \<leftarrow> insert_group_links input_root (tnode_tupid g) c d'; Some (d'', True) }} = Some (d4, new_gr)"
  shows "db_ok d4 \<and> write_frame c d3 d4 \<and> stickies c d4 = stickies c d3 \<and> normals c d4 = normals c d3
    \<and> group_rows d4 c = wanted_rows d3 grp (set input_root) \<and> ghost_root d4 = ghost_root d3
    \<and> modify_list d4 = modify_list d3 \<and> new_gr = (grp \<noteq> None \<or> ng)"
proof -
  obtain da where da: "(if old_group \<noteq> None then delete_group_links d3 c else Some d3) = Some da"
    and rest: "(case grp of None \<Rightarrow> Some (da, ng)
       | Some g \<Rightarrow> do { d'' \<leftarrow> insert_group_links input_root (tnode_tupid g) c da; Some (d'', True) }) = Some (d4, new_gr)"
    using r by (auto split: Option.bind_splits)
  have a: "quiet c d3 da \<and> link_view c da = (normals c d3, stickies c d3, {}) \<and> modify_list da = modify_list d3
      \<and> ghost_root da = ghost_root d3"
  proof (cases old_group)
    case None
    then show ?thesis using da old ok by (simp add: quiet_def link_view_eq)
  next
    case (Some og)
    then show ?thesis using step_delete_group [OF ok, of c da] da by (simp add: normals_def stickies_def)
  qed
  then have fa: "db_ok da" "write_frame c d3 da" by (simp_all add: quiet_def)
  have va: "normals c da = normals c d3" "stickies c da = stickies c d3" "group_rows da c = {}"
    using a link_view_parts [of c da] by simp_all
  show ?thesis
  proof (cases grp)
    case None
    then show ?thesis using rest a fa va by (simp add: wanted_rows_def)
  next
    case (Some g)
    then have i: "insert_group_links input_root (tnode_tupid g) c da = Some d4" and n: "new_gr"
      using rest by (auto split: Option.bind_splits)
    show ?thesis
      using insert_group_links_rows [OF i fa(1)] a va n Some write_frame_trans [OF fa(2), of d4]
      by (simp add: wanted_rows_def frame_group [OF fa(2)])
  qed
qed

lemma write_inputs_facts:
  assumes ok: "db_ok d" and v: "tupid_set.valid input_root" "tupid_set.valid env" "tupid_set.valid (ghost_root d)"
    and env: "\<forall>t \<in> set env. row d t \<noteq> None" and grp: "\<forall>g. grp = Some g \<longrightarrow> tnode_tupid g > 0"
    and rows: "group_rows d c = wanted_rows d old_group (stickies c d)"
    and r: "tup_db_write_inputs c input_root env grp old_group False (d, gg) = Some (d', gg')"
  shows "db_ok d'" "write_frame c d d'" "stickies c d' = set input_root"
    "group_rows d' c = wanted_rows d grp (set input_root)"
    "normals c d' = (if \<exists>t \<in> stickies c d - set input_root. is_group d t then set env
       else normals c d - (stickies c d - set input_root) \<union> set env \<inter> (set input_root - stickies c d))"
    "set (modify_list d) \<subseteq> set (modify_list d')" "normals c d' \<noteq> normals c d \<longrightarrow> c \<in> set (modify_list d')"
    "{t \<in> stickies c d - set input_root. is_group d t} \<subseteq> set (ghost_root d')"
    "group_rows d' c - group_rows d c \<noteq> {} \<longrightarrow> (\<exists>g. grp = Some g \<and> add_group_circ_check gg g = Some gg')"
proof -
  let ?gid = "write_groupid grp old_group"
  let ?wid = "\<lparr>w_cmdid = c, w_groupid = ?gid, new_groups = False, normal_links_invalid = False, env_root = env,
       refactoring = False, refactoring_failed = False\<rparr>"
  obtain d1 sr nr gsr where get: "tup_db_get_inputs d c True False = Some (d1, sr, nr, gsr)"
    using r by (auto simp: tup_db_write_inputs_def split: Option.bind_splits)
  then obtain d2 wid2 where cmp: "compare_tent_trees input_root sr (Some add_sticky) (Some rm_sticky) (d1, ?wid) = Some (d2, wid2)"
    using r by (auto simp: tup_db_write_inputs_def write_groupid_def split: Option.bind_splits)
  then obtain d3 where d3: "(if normal_links_invalid wid2 then do { d' \<leftarrow> tup_db_add_modify_list d2 c; d'' \<leftarrow> delete_normal_inputs d' c; insert_links env c d'' }
       else Some d2) = Some d3"
    using r get by (auto simp: tup_db_write_inputs_def write_groupid_def split: Option.bind_splits)
  then obtain d4 ng where d4: "(if grp \<noteq> old_group then do {
          d' \<leftarrow> (if old_group \<noteq> None then delete_group_links d3 c else Some d3);
          case grp of
            None \<Rightarrow> Some (d', new_groups wid2)
          | Some g \<Rightarrow> do { d'' \<leftarrow> insert_group_links input_root (tnode_tupid g) c d'; Some (d'', True) }}
        else Some (d3, new_groups wid2)) = Some (d4, ng)"
    and fin: "(if refactoring_failed wid2 then None
     else if ng then (case grp of None \<Rightarrow> None
          | Some g \<Rightarrow> do { gg' \<leftarrow> add_group_circ_check gg g; Some (d4, gg') })
     else Some (d4, gg)) = Some (d', gg')"
    using r get cmp by (auto simp: tup_db_write_inputs_def write_groupid_def split: Option.bind_splits)
  note l = loaded_inputs [OF ok get]
  have gid: "?gid \<noteq> -1 \<longleftrightarrow> grp \<noteq> None \<and> grp = old_group"
    using grp by (auto simp: write_groupid_def split: option.splits)
  have rows1: "?gid \<noteq> -1 \<longrightarrow> group_rows d c = {a \<in> stickies c d. is_group d a} \<times> {?gid}"
  proof
    assume "?gid \<noteq> -1"
    with gid obtain g where "grp = Some g" "old_group = Some g" by blast
    then show "group_rows d c = {a \<in> stickies c d. is_group d a} \<times> {?gid}"
      using rows by (simp add: wanted_rows_def write_groupid_def)
  qed
  note s = sync_stickies [OF ok v rows1 get refl cmp]
  note i = sticky_invD [OF s(1)]
  have g1: "is_group d1 a = is_group d a" for a by (rule frame_group [OF l(2)])
  have f2: "write_frame c d d2" by (rule write_frame_trans [OF l(2) i(2)])
  have r2: "row d2 x = row d x" for x by (rule frame_row [OF f2])
  have gr2: "is_group d2 x = is_group d x" for x by (rule frame_group [OF f2])
  note n = rewrite_normals [OF i(1) _ _ d3, unfolded r2, OF l(3) env]
  have f3: "db_ok d3" "write_frame c d d3" using n write_frame_trans [OF f2] by blast+
  have gr3: "wanted_rows d3 g S = wanted_rows d g S" for g S
    using frame_group [OF f3(2)] by (simp add: wanted_rows_def split: option.split)
  have g: "db_ok d4 \<and> write_frame c d3 d4 \<and> stickies c d4 = stickies c d3 \<and> normals c d4 = normals c d3
    \<and> group_rows d4 c = wanted_rows d grp (set input_root) \<and> ghost_root d4 = ghost_root d3
    \<and> modify_list d4 = modify_list d3 \<and> (group_rows d4 c - group_rows d c \<noteq> {} \<longrightarrow> ng)"
  proof (cases "grp = old_group")
    case False
    have "?gid = -1" using gid False by blast
    then have "group_rows d3 c = group_rows d c" using n i(9) l(8) by simp
    then have "old_group = None \<Longrightarrow> group_rows d3 c = {}" using rows by (simp add: wanted_rows_def)
    from rewrite_groups [OF f3(1) False this] d4 False gr3
    have "db_ok d4 \<and> write_frame c d3 d4 \<and> stickies c d4 = stickies c d3 \<and> normals c d4 = normals c d3
      \<and> group_rows d4 c = wanted_rows d grp (set input_root) \<and> ghost_root d4 = ghost_root d3
      \<and> modify_list d4 = modify_list d3 \<and> ng = (grp \<noteq> None \<or> new_groups wid2)" by simp
    moreover have "grp = None \<Longrightarrow> wanted_rows d grp (set input_root) = {}" by (simp add: wanted_rows_def)
    ultimately show ?thesis by (cases grp) simp_all
  next
    case True
    then have d4': "d4 = d3" "ng = new_groups wid2" using d4 by simp_all
    have e: "group_rows d4 c = wanted_rows d grp (set input_root) \<and> (group_rows d4 c - group_rows d c \<noteq> {} \<longrightarrow> ng)"
    proof (cases grp)
      case None
      then show ?thesis using n i(9) gid rows l(8) True d4' by (simp add: wanted_rows_def)
    next
      case (Some g)
      then have og: "old_group = Some g" using True by simp
      have w: "?gid = tnode_tupid g" "?gid \<noteq> -1" using gid Some og by (simp_all add: write_groupid_def)
      then have rw: "group_rows d4 c = {a \<in> set input_root. is_group d a} \<times> {tnode_tupid g}"
        "group_rows d c = {a \<in> stickies c d. is_group d a} \<times> {tnode_tupid g}"
        using n i(9) s(2) g1 d4'(1) rows og by (simp_all add: wanted_rows_def)
      have "ng = (\<exists>t \<in> set input_root - stickies c d. is_group d t)"
        using w(2) i(11) s(2) l(6) g1 d4'(2) by simp
      then show ?thesis unfolding rw by (auto simp: Some wanted_rows_def)
    qed
    then show ?thesis using d4' f3(1) by simp
  qed
  have d': "d' = d4" and circ: "ng \<longrightarrow> (\<exists>g. grp = Some g \<and> add_group_circ_check gg g = Some gg')"
    using fin by (auto split: if_splits option.splits Option.bind_splits)
  have bad: "normal_links_invalid wid2 = (\<exists>t \<in> stickies c d - set input_root. is_group d t)"
    using i(10) s(2) l(6) g1 by simp
  show "db_ok d'" "write_frame c d d'" "stickies c d' = set input_root"
    "group_rows d' c = wanted_rows d grp (set input_root)"
    using g n s(2) write_frame_trans [OF f3(2)] unfolding d' by simp_all
  show nn: "normals c d' = (if \<exists>t \<in> stickies c d - set input_root. is_group d t then set env
       else normals c d - (stickies c d - set input_root) \<union> set env \<inter> (set input_root - stickies c d))"
    using g n bad i(8) s(2) l(6,7) unfolding d' by simp
  show "set (modify_list d) \<subseteq> set (modify_list d')"
    using g n i(12) l(9) unfolding d' by auto
  show "normals c d' \<noteq> normals c d \<longrightarrow> c \<in> set (modify_list d')"
    using g n i(13) l(7,9) unfolding d' by (cases "normal_links_invalid wid2"; simp)
  show "{t \<in> stickies c d - set input_root. is_group d t} \<subseteq> set (ghost_root d')"
    using g n i(15) s(2) l(6) g1 unfolding d' by auto
  show "group_rows d' c - group_rows d c \<noteq> {} \<longrightarrow> (\<exists>g. grp = Some g \<and> add_group_circ_check gg g = Some gg')"
    using g circ unfolding d' by blast
qed

section \<open>The properties\<close>

text \<open>
  C5: after a successful \<^verbatim>\<open>tup_db_write_inputs\<close> outside of refactoring, the sticky links into the command are exactly
  the inputs of the Tupfile, the links into every other node are untouched, and the database invariant holds.  The
  \<^verbatim>\<open>group_link\<close> rows of the command pair each input group with the (new) output group.  The normal links lose the inputs
  that were removed and gain the new environment variables, or are reset to the environment variables when an input group
  was removed; if they change, the command is put on the modify list.  A removed input group is queued for the
  reclaiming of unused nodes, and a new row queues the output group for the check for circular groups.
\<close>

theorem write_inputs_correct:
  assumes "db_ok d" and "tupid_set.valid input_root" and "tupid_set.valid env" and "tupid_set.valid (ghost_root d)"
    and "\<forall>t \<in> set env. row d t \<noteq> None" and "\<forall>g. grp = Some g \<longrightarrow> tnode_tupid g > 0"
    and "group_rows d c = wanted_rows d old_group (stickies c d)"
    and "tup_db_write_inputs c input_root env grp old_group False (d, gg) = Some (d', gg')"
  shows "db_ok d' \<and> write_frame c d d' \<and> stickies c d' = set input_root
    \<and> group_rows d' c = wanted_rows d grp (set input_root)
    \<and> normals c d' = (if \<exists>t \<in> stickies c d - set input_root. is_group d t then set env
       else normals c d - (stickies c d - set input_root) \<union> set env \<inter> (set input_root - stickies c d))
    \<and> set (modify_list d) \<subseteq> set (modify_list d') \<and> (normals c d' \<noteq> normals c d \<longrightarrow> c \<in> set (modify_list d'))
    \<and> {t \<in> stickies c d - set input_root. is_group d t} \<subseteq> set (ghost_root d')
    \<and> (group_rows d' c - group_rows d c \<noteq> {} \<longrightarrow> (\<exists>g. grp = Some g \<and> add_group_circ_check gg g = Some gg'))"
  by (intro conjI write_inputs_facts [OF assms])

text \<open>
  C23: when a Tupfile is parsed for refactoring in a well-formed database and the output group stays the same,
  \<^verbatim>\<open>tup_db_write_inputs\<close> succeeds only if the inputs are the ones in the database, and then it changes
  no link, no node, none of the flag lists (config, create, modify, variant and transient) and not the graph of groups:
  all that may differ is which sticky inputs are cached.
\<close>

theorem write_inputs_refactoring:
  assumes "db_ok d" and "tup_db_write_inputs c input_root env grp grp True (d, gg) = Some (d', gg')"
  shows "set input_root = stickies c d \<and> same_links d d' \<and> node_tbl d' = node_tbl d
    \<and> config_list d' = config_list d \<and> create_list d' = create_list d \<and> modify_list d' = modify_list d
    \<and> variant_list d' = variant_list d \<and> transient_list d' = transient_list d \<and> gg' = gg \<and> db_ok d'
    \<and> d' = d\<lparr>retrieved_stickies := retrieved_stickies d', tent_stickies := tent_stickies d',
                tent_group_stickies := tent_group_stickies d'\<rparr>"
proof -
  let ?wid = "\<lparr>w_cmdid = c, w_groupid = write_groupid grp grp, new_groups = False, normal_links_invalid = False, env_root = env,
       refactoring = True, refactoring_failed = False\<rparr>"
  obtain d1 sr nr gsr where get: "tup_db_get_inputs d c True False = Some (d1, sr, nr, gsr)"
    using assms(2) by (auto simp: tup_db_write_inputs_def split: Option.bind_splits)
  then obtain d2 wid2 where cmp: "compare_tent_trees input_root sr (Some add_sticky) (Some rm_sticky) (d1, ?wid) = Some (d2, wid2)"
    using assms(2) by (auto simp: tup_db_write_inputs_def write_groupid_def split: Option.bind_splits)
  let ?I = "\<lambda>(d, wid). refactoring wid" and ?Q = "\<lambda>(d, wid). refactoring_failed wid"
  have cb: "?I s' \<and> ?Q s'" if "?I s" "add_sticky t s = Some s'" for s s' t
    using that by (cases s) (auto simp: add_sticky_def)
  have cb': "?I s' \<and> ?Q s'" if "?I s" "rm_sticky t s = Some s'" for s s' t
    using that by (cases s) (auto simp: rm_sticky_def)
  have "?I (d2, wid2) \<and> (input_root = sr \<and> (d2, wid2) = (d1, ?wid) \<or> ?Q (d2, wid2))"
    by (rule compare_flag [OF cb cb' _ cmp]) simp_all
  moreover have "\<not> refactoring_failed wid2"
    using assms(2) get cmp by (auto simp: tup_db_write_inputs_def write_groupid_def split: Option.bind_splits if_splits)
  ultimately have eq: "input_root = sr" "d2 = d1" "wid2 = ?wid" by auto
  have "d' = d1 \<and> gg' = gg"
    using assms(2) get cmp eq by (simp add: tup_db_write_inputs_def write_groupid_def)
  moreover have "refresh_stickies d c = Some d1"
    using get by (auto simp: tup_db_get_inputs_def split: Option.bind_splits)
  then obtain n st gst where "d1 = d\<lparr>retrieved_stickies := n, tent_stickies := st, tent_group_stickies := gst\<rparr>"
    using refresh [OF assms(1)] by blast
  ultimately show ?thesis
    using get_inputs_sticky [OF assms(1) get] loaded_inputs(5) [OF assms(1) get] eq(1) by simp
qed

section \<open>Examples\<close>

text \<open>Command 10 reads the file 2 and the group 5 and writes to the group 6; before, it read the file 3.\<close>

definition write_db :: db where
  "write_db = sample_db [(1, TUP_NODE_DIR, ''''), (2, TUP_NODE_FILE, ''''), (3, TUP_NODE_FILE, ''''), (5, TUP_NODE_GROUP, ''''),
     (6, TUP_NODE_GROUP, ''''), (10, TUP_NODE_CMD, '''')] [(3, 10), (10, 6)] [(3, 10)] [] []"

lemma write_db_ok: "db_ok write_db"
  by (simp add: db_ok_def nodes_ok_def links_ok_def cache_ok_def write_db_def sample_db_def sample_entry_def om_ok_def small_tupid_def)

lemma write_db_runs:
  "\<not> Option.is_none (tup_db_write_inputs 10 [2, 5] [] (Some (sample_entry 6 TUP_NODE_GROUP '''')) (Some (sample_entry 6 TUP_NODE_GROUP ''''))
     False (write_db, None))"
  "\<not> Option.is_none (tup_db_write_inputs 10 [3] [] None None True (write_db, None))"
  by code_simp+

lemma write_db_start:
  "stickies 10 write_db = {3}" "group_rows write_db 10 = {}" "ghost_root write_db = []" "\<not> is_group write_db 3" "is_group write_db 5"
  "\<not> is_group write_db 2"
  by (auto simp: stickies_def sources_def group_rows_def is_group_def write_db_def sample_db_def sample_entry_def)

theorem write_inputs_correct_witness:
  "\<exists>d' gg'. tup_db_write_inputs 10 [2, 5] [] (Some (sample_entry 6 TUP_NODE_GROUP '''')) (Some (sample_entry 6 TUP_NODE_GROUP ''''))
     False (write_db, None) = Some (d', gg') \<and> stickies 10 d' = {2, 5} \<and> group_rows d' 10 = {(5, 6)} \<and> 10 \<in> set (modify_list d')"
proof -
  obtain d' gg' where r: "tup_db_write_inputs 10 [2, 5] [] (Some (sample_entry 6 TUP_NODE_GROUP '''')) (Some (sample_entry 6 TUP_NODE_GROUP ''''))
     False (write_db, None) = Some (d', gg')"
    using write_db_runs(1) by (auto simp: Option.is_none_def)
  have v: "tupid_set.valid [2, 5]" "tupid_set.valid []" "tupid_set.valid (ghost_root write_db)"
    by (simp_all add: tupid_set.valid_def small_tupid_def write_db_start)
  have e: "\<forall>t \<in> set []. row write_db t \<noteq> None" by simp
  have g: "\<forall>g. Some (sample_entry 6 TUP_NODE_GROUP '''') = Some g \<longrightarrow> 0 < tnode_tupid g" by (simp add: sample_entry_def)
  have rows: "group_rows write_db 10 = wanted_rows write_db (Some (sample_entry 6 TUP_NODE_GROUP '''')) (stickies 10 write_db)"
    by (auto simp: write_db_start wanted_rows_def)
  have n: "normals 10 write_db = {3}"
    by (auto simp: normals_def sources_def write_db_def sample_db_def)
  have wr: "wanted_rows write_db (Some (sample_entry 6 TUP_NODE_GROUP '''')) (set [2, 5]) = {(5, 6)}"
    using write_db_start by (auto simp: wanted_rows_def sample_entry_def)
  note c = write_inputs_correct [OF write_db_ok v e g rows r, unfolded wr]
  then have "stickies 10 d' = {2, 5}" "group_rows d' 10 = {(5, 6)}" by simp_all
  moreover have "normals 10 d' = {}" using c by (simp add: write_db_start n)
  then have "10 \<in> set (modify_list d')" using c n by simp
  ultimately show ?thesis using r by (intro exI conjI)
qed

theorem write_inputs_refactoring_witness:
  "\<exists>d' gg'. tup_db_write_inputs 10 [3] [] None None True (write_db, None) = Some (d', gg') \<and> same_links write_db d'"
proof -
  obtain d' gg' where r: "tup_db_write_inputs 10 [3] [] None None True (write_db, None) = Some (d', gg')"
    using write_db_runs(2) by (auto simp: Option.is_none_def)
  have "same_links write_db d'" using write_inputs_refactoring [OF write_db_ok r] by (elim conjE)
  with r show ?thesis by (intro exI conjI)
qed

end
