(* ===== verification/Db_Read.thy ===== *)
theory Db_Read
  imports Db_Write Graph_Examples
begin

text \<open>
  The links that record what was read: the inputs of a directory (its Tupfile and what that includes), and the
  files a command was seen to read.
\<close>

section \<open>Inputs of a directory\<close>

lemma finite_normals [simp]: "finite (normals c d)"
proof -
  have "normals c d \<subseteq> fst ` set (normal_link d)" by (force simp: normals_def sources_def)
  then show ?thesis by (rule finite_subset) simp
qed

definition node_type :: "db \<Rightarrow> tupid \<Rightarrow> tup_node_type option" where
  "node_type d t = map_option ntype (row d t)"

lemma frame_type: "write_frame c d d' \<Longrightarrow> node_type d' t = node_type d t"
  by (simp add: node_type_def frame_row)

definition ghosts :: "db \<Rightarrow> tupid set" where
  "ghosts d = {t. node_type d t \<in> {Some TUP_NODE_GHOST, Some TUP_NODE_GROUP, Some TUP_NODE_GENERATED_DIR}}"

lemma frame_ghosts: "write_frame c d d' \<Longrightarrow> ghosts d' = ghosts d"
  by (simp add: ghosts_def frame_type)

lemma ghost_type_iff: "row d t = Some e \<Longrightarrow> ghost_type e \<longleftrightarrow> t \<in> ghosts d"
  by (simp add: ghosts_def node_type_def ghost_type_def)

text \<open>The part of the invariant that the callbacks of this theory share.\<close>

definition read_inv :: "db \<Rightarrow> tupid \<Rightarrow> tupid set \<Rightarrow> db \<Rightarrow> bool" where
  "read_inv d0 c keep d \<longleftrightarrow> db_ok d \<and> write_frame c d0 d \<and> stickies c d = stickies c d0 \<and> group_rows d c = group_rows d0 c
     \<and> row d0 c \<noteq> None \<and> tupid_set.valid (ghost_root d)
     \<and> (normals c d0 - normals c d) \<inter> ghosts d0 - keep \<subseteq> set (ghost_root d)"

lemma read_invD:
  assumes "read_inv d0 c keep d"
  shows "db_ok d" "write_frame c d0 d" "stickies c d = stickies c d0" "group_rows d c = group_rows d0 c" "row d c \<noteq> None"
    "tupid_set.valid (ghost_root d)" "(normals c d0 - normals c d) \<inter> ghosts d0 - keep \<subseteq> set (ghost_root d)"
  using assms frame_row [of c d0 d c] by (simp_all add: read_inv_def)

lemma read_inv_start:
  assumes "db_ok d0" and "row d0 c \<noteq> None" and "tupid_set.valid (ghost_root d0)"
  shows "read_inv d0 c keep d0"
  using assms by (simp add: read_inv_def)

lemma read_inv_expected: "read_inv d0 c keep d \<Longrightarrow> read_inv d0 c keep (d\<lparr>expected_changes := n\<rparr>)"
  using db_ok_flags(7) [of d n]
  by (simp add: read_inv_def write_frame_def same_tables_def stickies_def normals_def group_rows_def)

lemma normals_expected [simp]: "normals c (d\<lparr>expected_changes := n\<rparr>) = normals c d" "normals c (d\<lparr>ghost_root := g\<rparr>) = normals c d"
  by (simp_all add: normals_def)

lemma read_add:
  assumes inv: "read_inv d0 c keep d" and new: "t \<notin> normals c d0" and e: "tup_entry_find_row d t = Some e"
    and ins: "link_insert d t c TUP_LINK_NORMAL = Some d'"
  shows "read_inv d0 c keep d'" and "normals c d' = insert t (normals c d)" and "expected_changes d' = expected_changes d"
proof -
  note i = read_invD [OF inv]
  have "row d t \<noteq> None" using found_row(1) [OF i(1) e] by simp
  note s = step_insert_normal [OF i(1) ins this i(5)]
  note v = link_view_parts [of c d', OF s [THEN conjunct2, THEN conjunct1]]
  show n: "normals c d' = insert t (normals c d)" using v(1) by (simp add: normals_def)
  have "db_ok d'" "write_frame c d0 d'" using s write_frame_trans [OF i(2)] by (auto simp: quiet_def)
  moreover have "normals c d0 - normals c d' = normals c d0 - normals c d" using new n by auto
  ultimately show "read_inv d0 c keep d'"
    using v(2,3) s i inv by (simp add: read_inv_def stickies_def)
  show "expected_changes d' = expected_changes d"
    using ins by (auto simp: link_insert_def split: if_splits Option.bind_splits)
qed

lemma read_remove:
  assumes inv: "read_inv d0 c keep d" and e: "tup_entry_find_row d t = Some e"
    and rm: "link_remove d t c TUP_LINK_NORMAL = Some d1"
    and d': "d' = (if t \<in> keep then d1 else d1\<lparr>ghost_root := tup_entry_add_ghost_tree (ghost_root d1) e\<rparr>)"
  shows "read_inv d0 c keep d'" and "normals c d' = normals c d - {t}" and "expected_changes d' = expected_changes d"
proof -
  note i = read_invD [OF inv]
  note e' = found_row [OF i(1) e]
  note s = step_remove_normal [OF i(1) rm]
  note v = link_view_parts [of c d1, OF s [THEN conjunct2, THEN conjunct1]]
  have f1: "db_ok d1" "write_frame c d0 d1" using s write_frame_trans [OF i(2)] by (auto simp: quiet_def)
  have g: "quiet c d1 d' \<and> link_view c d' = link_view c d1"
    using step_ghost [OF f1(1), of c] f1(1) by (simp add: d' quiet_def)
  then have f: "db_ok d'" "write_frame c d0 d'" using write_frame_trans [OF f1(2)] by (auto simp: quiet_def)
  show n: "normals c d' = normals c d - {t}" using v(1) by (simp add: normals_def d')
  have gr: "ghost_root d1 = ghost_root d" using s by simp
  note ga = ghost_add [OF i(6) db_okD(1) [OF i(1)] e'(1)]
  have gh: "ghosts d = ghosts d0" by (rule frame_ghosts [OF i(2)])
  have valid: "tupid_set.valid (ghost_root d')" and sup: "set (ghost_root d) \<subseteq> set (ghost_root d')"
    "t \<in> ghosts d0 \<Longrightarrow> t \<notin> keep \<Longrightarrow> t \<in> set (ghost_root d')"
    using ga i(6) ghost_type_iff [OF e'(1)] gh by (auto simp: d' gr)
  have "normals c d0 - normals c d' \<subseteq> insert t (normals c d0 - normals c d)" using n by auto
  then have "(normals c d0 - normals c d') \<inter> ghosts d0 - keep \<subseteq> set (ghost_root d')" using i(7) sup by blast
  moreover have "stickies c d' = stickies c d0" "group_rows d' c = group_rows d0 c"
    using v(2,3) g link_view_eq [of c d'] link_view_eq [of c d1] i(3,4) by (simp_all add: stickies_def)
  ultimately show "read_inv d0 c keep d'"
    using f valid inv by (simp add: read_inv_def)
  show "expected_changes d' = expected_changes d"
    using rm by (auto simp: d' link_remove_def split: Option.bind_splits)
qed

definition dir_inv :: "db \<Rightarrow> tupid \<Rightarrow> db \<Rightarrow> bool" where
  "dir_inv d0 c d \<longleftrightarrow> read_inv d0 c {} d
     \<and> (\<forall>t \<in> normals c d - normals c d0. node_type d0 t \<noteq> Some TUP_NODE_GENERATED)
     \<and> expected_changes d = expected_changes d0 + int (card (normals c d - normals c d0) + card (normals c d0 - normals c d))"

lemma add_dir_link_inv:
  assumes inv: "dir_inv d0 c d" and new: "t \<notin> normals c d0" "t \<notin> normals c d" and add: "add_dir_link c t d = Some d'"
  shows "dir_inv d0 c d' \<and> normals c d' = insert t (normals c d)"
proof -
  obtain e d1 where e: "tup_entry_find_row d t = Some e" and ty: "ntype e \<noteq> TUP_NODE_GENERATED"
    and d1: "link_insert d t c TUP_LINK_NORMAL = Some d1" and d': "d' = d1\<lparr>expected_changes := expected_changes d1 + 1\<rparr>"
    using add by (auto simp: add_dir_link_def split: Option.bind_splits if_splits)
  have r: "read_inv d0 c {} d" using inv by (simp add: dir_inv_def)
  note i = read_invD [OF r]
  note a = read_add [OF r new(1) e d1]
  have n: "normals c d' = insert t (normals c d)" using a(2) d' by simp
  have "node_type d0 t \<noteq> Some TUP_NODE_GENERATED"
    unfolding frame_type [OF i(2), symmetric] using found_row(1) [OF i(1) e] ty by (simp add: node_type_def)
  moreover have "normals c d' - normals c d0 = insert t (normals c d - normals c d0)" "normals c d0 - normals c d' = normals c d0 - normals c d"
    using n new by auto
  ultimately show ?thesis
    using inv n new read_inv_expected [OF a(1), of "expected_changes d1 + 1"] a(3) by (simp add: dir_inv_def d' [symmetric]) (simp add: d')
qed

lemma rm_dir_link_inv:
  assumes inv: "dir_inv d0 c d" and old: "t \<in> normals c d0" "t \<in> normals c d" and rm: "rm_dir_link c t d = Some d'"
  shows "dir_inv d0 c d' \<and> normals c d' = normals c d - {t}"
proof -
  obtain e d1 where e: "tup_entry_find_row d t = Some e"
    and d1: "link_remove (d\<lparr>ghost_root := tup_entry_add_ghost_tree (ghost_root d) e\<rparr>) t c TUP_LINK_NORMAL = Some d1"
    and d': "d' = d1\<lparr>expected_changes := expected_changes d1 + 1\<rparr>"
    using rm by (auto simp: rm_dir_link_def split: Option.bind_splits)
  have r: "read_inv d0 c {} d" using inv by (simp add: dir_inv_def)
  obtain d2 where d2: "link_remove d t c TUP_LINK_NORMAL = Some d2"
    and d12: "d1 = d2\<lparr>ghost_root := tup_entry_add_ghost_tree (ghost_root d2) e\<rparr>"
    using d1 by (auto simp: link_remove_def step_def split: Option.bind_splits if_splits)
  note a = read_remove [OF r e d2, of d1]
  have a: "read_inv d0 c {} d1" "normals c d1 = normals c d - {t}" "expected_changes d1 = expected_changes d"
    using a d12 by simp_all
  have n: "normals c d' = normals c d - {t}" using a(2) d' by simp
  have "normals c d' - normals c d0 = normals c d - normals c d0" "normals c d0 - normals c d' = insert t (normals c d0 - normals c d)"
    using n old by auto
  then show ?thesis
    using inv n old read_inv_expected [OF a(1), of "expected_changes d1 + 1"] a(3) by (simp add: dir_inv_def d' [symmetric]) (simp add: d')
qed

interpretation dir_sync: link_sync "dir_inv d0 c" "normals c" "add_dir_link c" "rm_dir_link c"
  "\<lambda>t. t \<notin> normals c d0" "\<lambda>t. t \<in> normals c d0" "\<lambda>t. False"
  for d0 c
proof unfold_locales
  fix d d' t
  assume a: "dir_inv d0 c d" "t \<notin> normals c d0" "t \<notin> normals c d" "add_dir_link c t d = Some d'"
  then show "dir_inv d0 c d' \<and> normals c d' = (if False then normals c d else insert t (normals c d))"
    using add_dir_link_inv [OF a] by simp
next
  fix d d' t
  assume a: "dir_inv d0 c d" "t \<in> normals c d0" "t \<in> normals c d" "rm_dir_link c t d = Some d'"
  then show "dir_inv d0 c d' \<and> normals c d' = normals c d - {t}" by (rule rm_dir_link_inv)
qed

section \<open>Inputs a command was seen to read\<close>













section \<open>The properties\<close>

text \<open>
  C24: a successful \<^verbatim>\<open>tup_db_write_dir_inputs\<close> makes the normal links into a directory exactly the files its
  parsing read; no link from a generated file is added, the directory had no sticky link, other nodes keep their
  links, removed ghosts and groups are queued for reclaiming, and the progress counter grows by the number of links
  that were added or removed.
\<close>

theorem write_dir_inputs_correct:
  assumes "db_ok d" and "tupid_set.valid root" and "tupid_set.valid (ghost_root d)"
    and "tup_db_write_dir_inputs c root d = Some d'"
  shows "db_ok d' \<and> write_frame c d d' \<and> stickies c d = {} \<and> stickies c d' = {} \<and> normals c d' = set root
    \<and> (\<forall>t \<in> set root - normals c d. node_type d t \<noteq> Some TUP_NODE_GENERATED)
    \<and> (normals c d - set root) \<inter> ghosts d \<subseteq> set (ghost_root d')
    \<and> expected_changes d' = expected_changes d + int (card (set root - normals c d) + card (normals c d - set root))"
proof -
  obtain d1 nr gsr where get: "tup_db_get_inputs d c True True = Some (d1, [], nr, gsr)"
    and cmp: "compare_tent_trees root nr (Some (add_dir_link c)) (Some (rm_dir_link c)) d1 = Some d'"
    using assms(4) by (auto simp: tup_db_write_dir_inputs_def split: Option.bind_splits if_splits)
  note l = loaded_inputs [OF assms(1) get]
  have nr: "tupid_set.valid nr" "set nr = normals c d1" using l(7) l(11) by simp_all
  have ec: "expected_changes d1 = expected_changes d" using get by (auto simp: tup_db_get_inputs_def refresh_stickies_def Let_def split: Option.bind_splits if_splits)
  have inv: "dir_inv d1 c d1"
    using read_inv_start [OF l(1), of c] l(3,10) assms(3) frame_row [OF l(2), of c] by (simp add: dir_inv_def)
  have srt: "sorted_wrt (<) root" "sorted_wrt (<) nr" using assms(2) nr(1) by (simp_all add: tupid_set.valid_def)
  have new: "\<forall>x \<in> set root - set nr. x \<notin> normals c d1" "\<forall>x \<in> set nr - set root. x \<in> normals c d1" using nr(2) by simp_all
  note s = dir_sync.sync [OF srt new inv nr(2) [symmetric] cmp]
  have n: "normals c d' = set root" using s(2) by simp
  have r: "read_inv d1 c {} d'" using s(1) by (simp add: dir_inv_def)
  note i = read_invD [OF r]
  have "stickies c d = {}" using l(5) by simp
  then show ?thesis
    using i n s(1) l(6,7) ec write_frame_trans [OF l(2) i(2)] frame_ghosts [OF l(2)] frame_type [OF l(2)]
    by (simp add: dir_inv_def)
qed


section \<open>Examples\<close>

text \<open>Directory 4 was read from file 2; command 10 read file 3 and now reads file 2 and the generated file 8.\<close>

definition read_db :: db where
  "read_db = sample_db [(1, TUP_NODE_DIR, ''''), (2, TUP_NODE_FILE, ''''), (3, TUP_NODE_GHOST, ''''), (4, TUP_NODE_DIR, ''''),
     (8, TUP_NODE_GENERATED, ''''), (9, TUP_NODE_GENERATED, ''''), (10, TUP_NODE_CMD, ''''), (11, TUP_NODE_CMD, '''')]
     [(3, 4), (3, 10), (8, 11), (11, 9)] [(9, 10)] [] []"

lemma read_db_ok: "db_ok read_db"
  by (simp add: db_ok_def nodes_ok_def links_ok_def cache_ok_def read_db_def sample_db_def sample_entry_def om_ok_def small_tupid_def)

lemma read_db_runs:
  "\<not> Option.is_none (tup_db_write_dir_inputs 4 [2] read_db)"
  "(case tup_db_check_actual_inputs (\<lambda>_. True) (\<lambda>_ _. Some False) 10 [2, 8] [9] [3] [] [] read_db of
      Some (Some (_, _, rc)) \<Rightarrow> rc | _ \<Rightarrow> False)"
  by code_simp+


lemma read_db_start: "normals 4 read_db = {3}" "normals 10 read_db = {3}" "ghost_root read_db = []" "3 \<in> ghosts read_db"
  by (auto simp: normals_def sources_def ghosts_def node_type_def read_db_def sample_db_def sample_entry_def)

theorem write_dir_inputs_correct_witness:
  "\<exists>d'. tup_db_write_dir_inputs 4 [2] read_db = Some d' \<and> normals 4 d' = {2} \<and> 3 \<in> set (ghost_root d')"
proof -
  obtain d' where r: "tup_db_write_dir_inputs 4 [2] read_db = Some d'"
    using read_db_runs(1) by (auto simp: Option.is_none_def)
  have v: "tupid_set.valid [2]" "tupid_set.valid (ghost_root read_db)" by (simp_all add: tupid_set.valid_def small_tupid_def read_db_start)
  note c = write_dir_inputs_correct [OF read_db_ok v r]
  have "normals 4 d' = {2}" using c by simp
  moreover have "3 \<in> set (ghost_root d')" using c read_db_start by auto
  ultimately show ?thesis using r by (intro exI conjI)
qed


end
