(* ===== verification/Dist.thy ===== *)
theory Dist
  imports Prelude
begin

text \<open>
  The internal representation of a dist value (\<^verbatim>\<open>dist_encode_hex\<close> to
  \<^verbatim>\<open>dist_parse_manifest\<close> in \<^verbatim>\<open>src/src/tup/parser.c\<close>): a list of source and
  destination pairs is written as a string with both names in hexadecimal, and read back.  The list of entries is
  \<open>dist_manifest\<close>; a decoded string ends at its first NUL, as every C string does.
\<close>

record dist_entry =
  d_src :: string
  d_dest :: string

type_synonym dist_manifest = "dist_entry list"

definition c_str :: "string \<Rightarrow> string" where
  "c_str s = takeWhile (\<lambda>c. c \<noteq> CHR 0x00) s"

text \<open>The result \<open>None\<close> is \<open>-2\<close>: the destination is there already.\<close>

definition dist_manifest_add :: "dist_manifest \<Rightarrow> string \<Rightarrow> string \<Rightarrow> dist_manifest option" where
  "dist_manifest_add dm src dest =
     (if list_ex (\<lambda>e. d_dest e = dest) dm then None else Some (dm @ [\<lparr>d_src = src, d_dest = dest\<rparr>]))"

definition dist_hex_value :: "char \<Rightarrow> int" where
  "dist_hex_value c = (let n = of_char c in
     if n \<ge> 48 \<and> n \<le> 57 then n - 48
     else if n \<ge> 97 \<and> n \<le> 102 then n - 97 + 10
     else if n \<ge> 65 \<and> n \<le> 70 then n - 65 + 10
     else -1)"

definition hex_digits :: string where
  "hex_digits = ''0123456789abcdef''"

definition dist_encode_hex :: "string \<Rightarrow> string" where
  "dist_encode_hex s = concat (map (\<lambda>c. [hex_digits ! (of_char c div 16), hex_digits ! (of_char c mod 16)]) s)"

fun decode_pairs :: "string \<Rightarrow> string option" where
  "decode_pairs (a # b # s) =
     (let hi = dist_hex_value a; lo = dist_hex_value b in
      if hi < 0 \<or> lo < 0 then None
      else map_option ((#) (char_of (nat (hi * 16 + lo)))) (decode_pairs s))"
| "decode_pairs _ = Some []"

definition dist_decode_hex :: "string \<Rightarrow> string option" where
  "dist_decode_hex s = (if odd (length s) then None else decode_pairs s)"

definition DIST_SPEC_PREFIX :: string where
  "DIST_SPEC_PREFIX = ''__metatup_dist_v1__:''"

fun serialize_entries :: "dist_manifest \<Rightarrow> string" where
  "serialize_entries [] = []"
| "serialize_entries (e # es) =
     dist_encode_hex (d_src e) @ ''>'' @ dist_encode_hex (d_dest e) @ '';'' @ serialize_entries es"

definition dist_serialize_manifest :: "dist_manifest \<Rightarrow> string" where
  "dist_serialize_manifest dm = DIST_SPEC_PREFIX @ serialize_entries dm"

text \<open>\<open>strchr\<close> is the offset of the first occurrence.\<close>

fun strchr :: "string \<Rightarrow> char \<Rightarrow> nat option" where
  "strchr [] c = None"
| "strchr (x # s) c = (if x = c then Some 0 else map_option Suc (strchr s c))"

lemma strchr_bound: "strchr s c = Some n \<Longrightarrow> n < length s"
  by (induction s arbitrary: n) (auto split: if_splits)

function parse_entries :: "string \<Rightarrow> dist_manifest \<Rightarrow> dist_manifest option" where
  "parse_entries s dm =
     (if s = [] then Some dm
      else case strchr s (CHR ''>'') of
        None \<Rightarrow> None
      | Some sep \<Rightarrow> (case strchr s (CHR '';'') of
          None \<Rightarrow> None
        | Some e \<Rightarrow>
            if e < sep then None
            else case dist_decode_hex (take sep s) of
              None \<Rightarrow> None
            | Some src \<Rightarrow> (case dist_decode_hex (drop (sep + 1) (take e s)) of
                None \<Rightarrow> None
              | Some dest \<Rightarrow> (case dist_manifest_add dm (c_str src) (c_str dest) of
                  None \<Rightarrow> None
                | Some dm' \<Rightarrow> parse_entries (drop (e + 1) s) dm'))))"
  by auto
termination
  by (relation "measure (length \<circ> fst)") (auto dest: strchr_bound)

declare parse_entries.simps [simp del]

definition dist_parse_manifest :: "string \<Rightarrow> dist_manifest option" where
  "dist_parse_manifest spec =
     (if take (length DIST_SPEC_PREFIX) spec \<noteq> DIST_SPEC_PREFIX then None
      else parse_entries (drop (length DIST_SPEC_PREFIX) spec) [])"

section \<open>Hexadecimal\<close>

lemma hex_digit_value:
  "n < 16 \<Longrightarrow> dist_hex_value (hex_digits ! n) = int n"
  "n < 16 \<Longrightarrow> hex_digits ! n \<noteq> CHR ''>''" "n < 16 \<Longrightarrow> hex_digits ! n \<noteq> CHR '';''"
proof -
  have "\<forall>k \<in> set [0..<16]. dist_hex_value (hex_digits ! k) = int k \<and> hex_digits ! k \<noteq> CHR ''>'' \<and> hex_digits ! k \<noteq> CHR '';''"
    by code_simp
  then show "n < 16 \<Longrightarrow> dist_hex_value (hex_digits ! n) = int n"
    "n < 16 \<Longrightarrow> hex_digits ! n \<noteq> CHR ''>''" "n < 16 \<Longrightarrow> hex_digits ! n \<noteq> CHR '';''"
    by simp_all
qed

lemma encode_facts:
  "length (dist_encode_hex s) = 2 * length s"
  "CHR ''>'' \<notin> set (dist_encode_hex s)" "CHR '';'' \<notin> set (dist_encode_hex s)"
proof -
  have d: "of_char c div 16 < (16::nat)" "of_char c mod 16 < (16::nat)" for c :: char
    using nat_of_char_less_256 [of c] by (simp_all add: less_mult_imp_div_less)
  show "length (dist_encode_hex s) = 2 * length s" by (induction s) (simp_all add: dist_encode_hex_def)
  show "CHR ''>'' \<notin> set (dist_encode_hex s)" "CHR '';'' \<notin> set (dist_encode_hex s)"
    using hex_digit_value(2,3) [OF d(1)] hex_digit_value(2,3) [OF d(2)]
    by (induction s) (simp_all add: dist_encode_hex_def not_sym [OF hex_digit_value(2)] not_sym [OF hex_digit_value(3)] d)
qed

lemma decode_encode: "dist_decode_hex (dist_encode_hex s) = Some s"
proof -
  have "decode_pairs (dist_encode_hex s) = Some s"
  proof (induction s)
    case (Cons c s)
    have d: "of_char c div 16 < (16::nat)" "of_char c mod 16 < (16::nat)"
      using nat_of_char_less_256 [of c] by (simp_all add: less_mult_imp_div_less)
    have "nat (int (of_char c div 16) * 16 + int (of_char c mod 16)) = of_char c"
      by (metis div_mult_mod_eq nat_int of_nat_add of_nat_mult of_nat_numeral)
    then show ?case
      using Cons by (simp add: dist_encode_hex_def hex_digit_value(1) [OF d(1)] hex_digit_value(1) [OF d(2)])
  qed (simp add: dist_encode_hex_def)
  then show ?thesis by (simp add: dist_decode_hex_def encode_facts(1))
qed

section \<open>Manifests\<close>

definition c_string :: "string \<Rightarrow> bool" where
  "c_string s \<longleftrightarrow> CHR 0x00 \<notin> set s"

lemma c_str_id: "c_string s \<Longrightarrow> c_str s = s"
  by (simp add: c_string_def c_str_def takeWhile_eq_all_conv) blast

lemma strchr_skip: "c \<notin> set a \<Longrightarrow> strchr (a @ s) c = map_option ((+) (length a)) (strchr s c)"
  by (induction a) (cases "strchr s c"; auto)+

lemma dist_manifest_add_eq:
  "dist_manifest_add dm src dest =
     (if dest \<in> d_dest ` set dm then None else Some (dm @ [\<lparr>d_src = src, d_dest = dest\<rparr>]))"
  by (auto simp: dist_manifest_add_def list_ex_iff image_iff)

lemma parse_serialize_entries:
  assumes "list_all (\<lambda>e. c_string (d_src e) \<and> c_string (d_dest e)) es" and "distinct (map d_dest dm)"
  shows "parse_entries (serialize_entries es) dm = (if distinct (map d_dest (dm @ es)) then Some (dm @ es) else None)"
  using assms
proof (induction es arbitrary: dm)
  case Nil
  then show ?case by (simp add: parse_entries.simps)
next
  case (Cons e es)
  let ?s = "dist_encode_hex (d_src e)" and ?d = "dist_encode_hex (d_dest e)"
  let ?all = "?s @ ''>'' @ ?d @ '';'' @ serialize_entries es"
  have ne: "?all \<noteq> []" by simp
  have sep: "strchr ?all (CHR ''>'') = Some (length ?s)"
    using encode_facts(2) by (simp add: strchr_skip)
  have e: "strchr ?all (CHR '';'') = Some (length ?s + 1 + length ?d)"
    using encode_facts(3) by (simp add: strchr_skip option.map_comp comp_def)
  have parts: "take (length ?s) ?all = ?s" "drop (length ?s + 1) (take (length ?s + 1 + length ?d) ?all) = ?d"
    "drop (length ?s + 1 + length ?d + 1) ?all = serialize_entries es" "\<not> length ?s + 1 + length ?d < length ?s"
    by simp_all
  have c: "c_str (d_src e) = d_src e" "c_str (d_dest e) = d_dest e" using Cons.prems(1) by (simp_all add: c_str_id)
  have step: "parse_entries ?all dm = (case dist_manifest_add dm (d_src e) (d_dest e) of None \<Rightarrow> None
      | Some dm' \<Rightarrow> parse_entries (serialize_entries es) dm')"
    unfolding parse_entries.simps [of ?all] if_not_P [OF ne] sep e option.case parts if_not_P [OF parts(4)] decode_encode c ..
  show ?case
  proof (cases "d_dest e \<in> d_dest ` set dm")
    case True
    then show ?thesis using step by (auto simp: dist_manifest_add_eq)
  next
    case False
    then have "dist_manifest_add dm (d_src e) (d_dest e) = Some (dm @ [e])" by (simp add: dist_manifest_add_eq)
    moreover have "distinct (map d_dest (dm @ [e]))" using False Cons.prems(2) by auto
    ultimately show ?thesis using step Cons.IH [of "dm @ [e]"] Cons.prems(1) by simp
  qed
qed

lemma parse_entries_distinct:
  "parse_entries s dm = Some dm' \<Longrightarrow> distinct (map d_dest dm) \<Longrightarrow> distinct (map d_dest dm') \<and> (\<exists>es. dm' = dm @ es)"
proof (induction s dm rule: parse_entries.induct)
  case (1 s dm)
  show ?case
  proof (cases "s = []")
    case True
    then show ?thesis using 1(2,3) by (simp add: parse_entries.simps)
  next
    case False
    then obtain sep e src dest dm1 where p: "strchr s (CHR ''>'') = Some sep" "strchr s (CHR '';'') = Some e" "\<not> e < sep"
      "dist_decode_hex (take sep s) = Some src" "dist_decode_hex (drop (sep + 1) (take e s)) = Some dest"
      "dist_manifest_add dm (c_str src) (c_str dest) = Some dm1" "parse_entries (drop (e + 1) s) dm1 = Some dm'"
      using 1(2) by (auto simp: parse_entries.simps [of s] split: option.splits if_splits)
    have "dm1 = dm @ [\<lparr>d_src = c_str src, d_dest = c_str dest\<rparr>]" "distinct (map d_dest dm1)"
      using p(6) 1(3) by (auto simp: dist_manifest_add_eq split: if_splits)
    with 1(1) [OF False p] show ?thesis using p(7) by auto
  qed
qed

text \<open>
  C29: reading the string written for a manifest gives the manifest back, entries in order, whatever characters
  its names have (\<^verbatim>\<open>>\<close> and \<^verbatim>\<open>;\<close> included), provided no two entries have the
  same destination; with a repeated destination the string is refused.
\<close>

theorem dist_manifest_roundtrip:
  assumes "list_all (\<lambda>e. c_string (d_src e) \<and> c_string (d_dest e)) dm"
  shows "dist_parse_manifest (dist_serialize_manifest dm) = (if distinct (map d_dest dm) then Some dm else None)"
  using parse_serialize_entries [OF assms, of "[]"] by (simp add: dist_parse_manifest_def dist_serialize_manifest_def)

theorem dist_manifest_roundtrip_witness:
  "dist_parse_manifest (dist_serialize_manifest [\<lparr>d_src = ''a;b'', d_dest = ''/x>''\<rparr>, \<lparr>d_src = ''c'', d_dest = ''/y''\<rparr>])
   = Some [\<lparr>d_src = ''a;b'', d_dest = ''/x>''\<rparr>, \<lparr>d_src = ''c'', d_dest = ''/y''\<rparr>]"
  using dist_manifest_roundtrip [of "[\<lparr>d_src = ''a;b'', d_dest = ''/x>''\<rparr>, \<lparr>d_src = ''c'', d_dest = ''/y''\<rparr>]"]
  by (simp add: c_string_def)

text \<open>
  Also: whatever string is read, a manifest that is accepted has no destination twice.
\<close>

theorem dist_parse_distinct:
  assumes "dist_parse_manifest spec = Some dm"
  shows "distinct (map d_dest dm)"
  using assms parse_entries_distinct [of _ "[]" dm] by (auto simp: dist_parse_manifest_def split: if_splits)

theorem dist_parse_distinct_witness:
  "\<exists>dm. dist_parse_manifest (DIST_SPEC_PREFIX @ ''61>2F62;'') = Some dm \<and> dm \<noteq> [] \<and> distinct (map d_dest dm)"
proof -
  have "dist_parse_manifest (DIST_SPEC_PREFIX @ ''61>2F62;'') = Some [\<lparr>d_src = ''a'', d_dest = ''/b''\<rparr>]" by code_simp
  then show ?thesis using dist_parse_distinct by blast
qed

end
