(* ===== verification/Paths.thy ===== *)
theory Paths
  imports Prelude
begin

text \<open>
  The string functions on paths of \<^verbatim>\<open>src/src/tup/parser.c\<close>
  (\<^verbatim>\<open>canonicalize_path_simple\<close>, \<^verbatim>\<open>relpath_simple\<close>, the destinations of a
  dist) and their copy in \<^verbatim>\<open>db.c\<close>.  What a path means is said by \<open>resolve\<close>: the
  directory that a walk from a directory reaches, directories being lists of names.  Paths are those of a POSIX
  system: the separator is a slash.
\<close>

definition is_full_path :: "string \<Rightarrow> bool" where
  "is_full_path path \<longleftrightarrow> (\<exists>s. path = CHR ''/'' # s)"

lemma is_full_path_code [code, simp]:
  "is_full_path [] = False" "is_full_path (c # s) = (c = CHR ''/'')"
  by (auto simp: is_full_path_def)

text \<open>The tokens of successive calls of \<^verbatim>\<open>strtok_r\<close> with a single delimiter.\<close>

function strtok_all :: "char \<Rightarrow> string \<Rightarrow> string list" where
  "strtok_all c s = (let t = dropWhile (\<lambda>x. x = c) s in
     if t = [] then [] else takeWhile (\<lambda>x. x \<noteq> c) t # strtok_all c (dropWhile (\<lambda>x. x \<noteq> c) t))"
  by auto
termination
proof (relation "measure (length \<circ> snd)", goal_cases)
  case (2 c s t)
  have "length t \<le> length s" unfolding 2(1) by (rule length_dropWhile_le)
  moreover have "hd t \<noteq> c" unfolding 2(1) using 2 hd_dropWhile [of "\<lambda>x. x = c" s] by simp
  then have "length (dropWhile (\<lambda>x. x \<noteq> c) t) < length t"
    using 2(2) by (cases t) (simp_all add: le_imp_less_Suc length_dropWhile_le)
  ultimately show ?case by simp
qed simp

declare strtok_all.simps [simp del]

lemma strtok_all_Nil [simp]: "strtok_all c [] = []"
  by (simp add: strtok_all.simps)

lemma strtok_all_sep [simp]: "strtok_all c (c # s) = strtok_all c s"
  by (subst (1 2) strtok_all.simps) simp

lemma strtok_all_token:
  assumes "t \<noteq> []" and "c \<notin> set t"
  shows "strtok_all c (t @ c # s) = t # strtok_all c s" and "strtok_all c t = [t]"
proof -
  obtain x xs where t: "t = x # xs" "x \<noteq> c" using assms by (cases t) auto
  have tw: "takeWhile (\<lambda>x. x \<noteq> c) (t @ c # s) = t" "dropWhile (\<lambda>x. x \<noteq> c) (t @ c # s) = c # s"
    "takeWhile (\<lambda>x. x \<noteq> c) t = t" "dropWhile (\<lambda>x. x \<noteq> c) t = []"
    using assms(2) by (induction t) auto
  show "strtok_all c (t @ c # s) = t # strtok_all c s"
    using tw(1,2) t by (subst strtok_all.simps) (simp add: Let_def)
  have d: "dropWhile (\<lambda>x. x \<noteq> c) xs = []" "takeWhile (\<lambda>x. x \<noteq> c) xs = xs"
    using assms(2) t(1) by (auto simp: takeWhile_eq_all_conv)
  show "strtok_all c t = [t]" using t by (subst strtok_all.simps) (simp add: Let_def d)
qed

lemma strtok_all_tokens: "t \<in> set (strtok_all c s) \<Longrightarrow> t \<noteq> [] \<and> c \<notin> set t"
proof (induction c s rule: strtok_all.induct)
  case (1 c s)
  let ?t = "dropWhile (\<lambda>x. x = c) s"
  have "?t \<noteq> []" using 1(2) by (subst (asm) strtok_all.simps) (simp add: Let_def split: if_splits)
  moreover have "takeWhile (\<lambda>x. x \<noteq> c) ?t \<noteq> []"
    using calculation hd_dropWhile [of "\<lambda>x. x = c" s] by (cases ?t) auto
  moreover have "c \<notin> set (takeWhile (\<lambda>x. x \<noteq> c) ?t)" by (auto dest: set_takeWhileD)
  moreover have "t = takeWhile (\<lambda>x. x \<noteq> c) ?t \<or> t \<in> set (strtok_all c (dropWhile (\<lambda>x. x \<noteq> c) ?t))"
    using 1(2) calculation(1) unfolding strtok_all.simps [of c s] Let_def if_not_P [OF calculation(1)] by simp
  ultimately show ?case using 1(1) [OF refl] by auto
qed

fun join_slash :: "string list \<Rightarrow> string" where
  "join_slash [] = []"
| "join_slash [p] = p"
| "join_slash (p # ps) = p @ ''/'' @ join_slash ps"

definition plain :: "string \<Rightarrow> bool" where
  "plain t \<longleftrightarrow> t \<noteq> [] \<and> CHR ''/'' \<notin> set t"

lemma strtok_all_join: "list_all plain ps \<Longrightarrow> strtok_all (CHR ''/'') (join_slash ps) = ps"
  by (induction ps rule: join_slash.induct) (simp_all add: plain_def strtok_all_token)

lemma strtok_plain: "list_all plain (strtok_all (CHR ''/'') s)"
  by (auto simp: list_all_iff plain_def dest: strtok_all_tokens)

section \<open>Canonical paths\<close>

text \<open>
  One round of the loop of \<^verbatim>\<open>canonicalize_path_simple\<close>: the parts collected so far and the
  number of bytes counted for the result, which the code keeps in an \<^verbatim>\<open>int\<close>: \<open>int32\<close> is
  the conversion of the \<^verbatim>\<open>size_t\<close> sum back to it.
\<close>

definition int32 :: "int \<Rightarrow> int" where
  "int32 i = sint (word_of_int i :: 32 word)"

lemma int32_id [simp]: "- (2 ^ 31) \<le> i \<Longrightarrow> i < 2 ^ 31 \<Longrightarrow> int32 i = i"
  unfolding int32_def by (simp only: int_word_sint) simp

definition canon_step :: "bool \<Rightarrow> string \<Rightarrow> string list \<times> int \<Rightarrow> string list \<times> int" where
  "canon_step absolute tok = (\<lambda>(parts, len).
     if tok = ''.'' \<or> tok = [] then (parts, len)
     else if tok = ''..'' \<and> parts \<noteq> [] \<and> last parts \<noteq> ''..'' then (butlast parts, len)
     else if tok = ''..'' \<and> absolute then (parts, len)
     else (parts @ [tok], int32 (len + int (length tok) + (if absolute \<or> length parts + 1 > 1 then 1 else 0))))"

definition canon_parts :: "string \<Rightarrow> string list \<times> int" where
  "canon_parts path = fold (canon_step (is_full_path path)) (strtok_all (CHR ''/'') path)
     ([], if is_full_path path then 1 else 0)"

text \<open>
  The result and the number of bytes that were allocated for it.  A count that has wrapped to a negative number
  is converted to a size of at least \<open>2 ^ 63\<close> bytes, for which \<^verbatim>\<open>malloc\<close> fails; then the
  result is None, the error \<open>-1\<close>.
\<close>

definition canonicalize_path_simple :: "string \<Rightarrow> (string \<times> nat) option" where
  "canonicalize_path_simple path =
     (let (parts, len) = canon_parts path; size = int32 (len + 1) in
      if parts = [] \<and> \<not> is_full_path path then Some (''.'', 2)
      else if size < 0 then None
      else Some ((if is_full_path path then ''/'' else []) @ join_slash parts, nat size))"

text \<open>\<^verbatim>\<open>db.c\<close> has a copy of the function for the paths of \<^verbatim>\<open>compile_commands.json\<close>.\<close>

definition compiledb_canonicalize_path_simple :: "string \<Rightarrow> (string \<times> nat) option" where
  "compiledb_canonicalize_path_simple path =
     (let (parts, len) = canon_parts path; size = int32 (len + 1) in
      if parts = [] \<and> \<not> is_full_path path then Some (''.'', 2)
      else if size < 0 then None
      else Some ((if is_full_path path then ''/'' else []) @ join_slash parts, nat size))"

section \<open>What a path means\<close>

definition walk1 :: "string \<Rightarrow> string list \<Rightarrow> string list" where
  "walk1 c d = (if c = ''.'' then d else if c = ''..'' then butlast d else d @ [c])"

definition resolve :: "string list \<Rightarrow> string \<Rightarrow> string list" where
  "resolve cwd path = fold walk1 (strtok_all (CHR ''/'') path) (if is_full_path path then [] else cwd)"

definition name :: "string \<Rightarrow> bool" where
  "name t \<longleftrightarrow> plain t \<and> t \<noteq> ''.'' \<and> t \<noteq> ''..''"

definition canonical :: "bool \<Rightarrow> string list \<Rightarrow> bool" where
  "canonical absolute parts \<longleftrightarrow>
     (\<exists>k ns. parts = replicate k ''..'' @ ns \<and> list_all name ns \<and> (absolute \<longrightarrow> k = 0))"

lemma plain_dotdot: "plain ''..''" "plain ''.''"
  by (simp_all add: plain_def)

lemma canonical_plain: "canonical absolute parts \<Longrightarrow> list_all plain parts"
proof -
  assume "canonical absolute parts"
  then obtain k ns where p: "parts = replicate k ''..'' @ ns" "list_all name ns" by (auto simp: canonical_def)
  have "list_all plain (replicate k ''..'')" using plain_dotdot(1) by (simp only: list_all_iff set_replicate_conv_if) simp
  moreover have "list_all plain ns" using p(2) by (rule list.pred_mono_strong) (simp add: name_def)
  ultimately show "list_all plain parts" unfolding p(1) by (simp only: list_all_append)
qed

lemma dot_names: "''.'' \<noteq> ''..''" "''..'' \<noteq> ''.''" "''.'' \<noteq> []" "''..'' \<noteq> []"
  by simp_all

lemma canon_step_eqs:
  "canon_step absolute ''.'' (parts, len) = (parts, len)"
  "name tok \<Longrightarrow> canon_step absolute tok (parts, len) = (parts @ [tok], int32 (len + int (length tok) + (if absolute \<or> parts \<noteq> [] then 1 else 0)))"
  "parts \<noteq> [] \<Longrightarrow> last parts \<noteq> ''..'' \<Longrightarrow> canon_step absolute ''..'' (parts, len) = (butlast parts, len)"
  "parts = [] \<or> last parts = ''..'' \<Longrightarrow> canon_step True ''..'' (parts, len) = (parts, len)"
  "parts = [] \<or> last parts = ''..'' \<Longrightarrow>
     canon_step False ''..'' (parts, len) = (parts @ [''..''], int32 (len + 2 + (if parts \<noteq> [] then 1 else 0)))"
  unfolding canon_step_def split_conv by (simp_all only: dot_names simp_thms if_True if_False) (auto simp: name_def plain_def)

lemma walk_names: "list_all name ns \<Longrightarrow> fold walk1 ns d = d @ ns"
proof (induction ns arbitrary: d)
  case (Cons n ns)
  then have "walk1 n d = d @ [n]" by (simp add: walk1_def name_def del: list.inject)
  then show ?case using Cons by simp
qed simp

lemma walk1_dots [simp]: "walk1 ''.'' d = d" "walk1 ''..'' d = butlast d"
  by (simp_all only: walk1_def dot_names if_True if_False simp_thms)

lemma walk1_name: "name n \<Longrightarrow> walk1 n d = d @ [n]"
  by (simp only: walk1_def name_def if_False simp_thms)

lemma name_last: "list_all name ns \<Longrightarrow> ns \<noteq> [] \<Longrightarrow> last ns \<noteq> ''..''"
  by (metis last_in_set list_all_iff name_def)

lemma canonical_step:
  assumes "canonical absolute parts" and "plain tok" and step: "canon_step absolute tok (parts, len) = (parts', len')"
  shows "canonical absolute parts' \<and>
    fold walk1 parts' (if absolute then [] else d) = walk1 tok (fold walk1 parts (if absolute then [] else d))"
proof -
  obtain k ns where p: "parts = replicate k ''..'' @ ns" "list_all name ns" "absolute \<longrightarrow> k = 0"
    using assms(1) by (auto simp: canonical_def)
  consider (dot) "tok = ''.''" | (name) "name tok" | (pop) "tok = ''..''" "ns \<noteq> []" | (up) "tok = ''..''" "ns = []"
    using assms(2) by (auto simp: name_def)
  then show ?thesis
  proof cases
    case dot
    then show ?thesis using step assms(1) by (simp add: canon_step_eqs)
  next
    case name
    then have "parts' = replicate k ''..'' @ (ns @ [tok])" using step p(1) by (simp add: canon_step_eqs)
    moreover have "list_all name (ns @ [tok])" using p(2) name by simp
    ultimately show ?thesis
      using p(1,3) name unfolding canonical_def
      by (intro conjI exI [of _ k] exI [of _ "ns @ [tok]"]) (simp_all add: walk1_name)
  next
    case pop
    have l: "last parts = last ns" "parts \<noteq> []" using p(1) pop by simp_all
    then have "parts' = butlast parts" using step pop name_last [OF p(2)] by (simp add: canon_step_eqs)
    then have p': "parts' = replicate k ''..'' @ butlast ns" using p(1) pop by (simp add: butlast_append)
    have "list_all name (butlast ns)" using p(2) by (auto simp: list_all_iff dest: in_set_butlastD)
    then show ?thesis
      using p(1,3) p' walk_names [OF p(2)] walk_names [of "butlast ns"] pop unfolding canonical_def
      by (intro conjI exI [of _ k] exI [of _ "butlast ns"]) (simp_all add: butlast_append)
  next
    case up
    then have e: "parts = [] \<or> last parts = ''..''" using p(1) by (cases k) (simp_all add: last_replicate)
    show ?thesis
    proof (cases absolute)
      case True
      then have "parts' = parts" using step up e by (simp add: canon_step_eqs)
      then show ?thesis using True assms(1) p(1,3) up by simp
    next
      case False
      then have "parts' = parts @ [''..'']" using step up e by (simp add: canon_step_eqs)
      then have "parts' = replicate (Suc k) ''..'' @ []" using p(1) up by (simp add: replicate_append_same)
      then show ?thesis
        using False p(1) up unfolding canonical_def
        by (intro conjI exI [of _ "Suc k"] exI [of _ "[]"]) (simp_all flip: replicate_append_same)
    qed
  qed
qed

definition needed :: "bool \<Rightarrow> string list \<Rightarrow> nat" where
  "needed absolute parts = (if absolute then Suc (length parts) else length parts - 1) + sum_list (map length parts)"

lemma length_join_slash: "length (join_slash ps) = sum_list (map length ps) + (length ps - 1)"
  by (induction ps rule: join_slash.induct) simp_all

text \<open>The number of bytes that the tokens can still add.\<close>

definition token_bytes :: "string list \<Rightarrow> int" where
  "token_bytes toks = (\<Sum>t\<leftarrow>toks. int (length t) + 1)"

lemma token_bytes_simps [simp]: "token_bytes [] = 0" "token_bytes (t # toks) = int (length t) + 1 + token_bytes toks"
  by (simp_all add: token_bytes_def)

lemma token_bytes_pos: "0 \<le> token_bytes toks"
  by (induction toks) simp_all

lemma strtok_all_bytes: "token_bytes (strtok_all c s) \<le> int (length s) + 1"
proof (induction "length s" arbitrary: s rule: less_induct)
  case less
  let ?t = "dropWhile (\<lambda>x. x = c) s"
  have len: "length ?t \<le> length s" by (rule length_dropWhile_le)
  show ?case
  proof (cases "?t = []")
    case True
    then show ?thesis by (subst strtok_all.simps) simp
  next
    case False
    let ?w = "takeWhile (\<lambda>x. x \<noteq> c) ?t" and ?r = "dropWhile (\<lambda>x. x \<noteq> c) ?t"
    have sum: "length ?w + length ?r = length ?t" by (metis length_append takeWhile_dropWhile_id)
    have b: "token_bytes (strtok_all c ?r) \<le> int (length ?r)"
    proof (cases ?r)
      case (Cons x r)
      then have "x = c" using hd_dropWhile [of "\<lambda>x. x \<noteq> c" ?t] by simp
      have "length r < length s" using Cons sum len by simp
      from less [OF this] show ?thesis unfolding Cons \<open>x = c\<close> by simp
    next
      case Nil
      show ?thesis unfolding Nil by simp
    qed
    have "strtok_all c s = ?w # strtok_all c ?r" using False by (subst strtok_all.simps) (simp add: Let_def)
    then show ?thesis using b sum len by simp
  qed
qed

lemma needed_step:
  assumes "canon_step absolute tok (parts, len) = (parts', len')" and "int (needed absolute parts) \<le> len"
    and "len + int (length tok) + 1 < 2 ^ 31"
  shows "int (needed absolute parts') \<le> len'" and "len' \<le> len + int (length tok) + 1"
proof -
  have pop: "needed absolute (butlast parts) \<le> needed absolute parts"
    by (cases parts rule: rev_cases) (auto simp: needed_def)
  have push: "needed absolute (parts @ [tok]) = needed absolute parts + length tok + (if absolute \<or> length parts + 1 > 1 then 1 else 0)"
    by (cases parts) (simp_all add: needed_def)
  have id: "int32 (len + int (length tok) + (if absolute \<or> length parts + 1 > 1 then 1 else 0))
      = len + int (length tok) + (if absolute \<or> length parts + 1 > 1 then 1 else 0)"
    using assms(2,3) by simp
  show "int (needed absolute parts') \<le> len'"
    using assms(1,2) pop push by (simp only: canon_step_def split_conv id prod.inject split: if_split_asm) auto
  show "len' \<le> len + int (length tok) + 1"
    using assms(1) by (simp only: canon_step_def split_conv id prod.inject split: if_split_asm) auto
qed

lemma canon_fold:
  assumes "fold (canon_step absolute) toks (parts, len) = (parts', len')" and "list_all plain toks"
    and "canonical absolute parts"
  shows "canonical absolute parts'
    \<and> fold walk1 parts' (if absolute then [] else d) = fold walk1 toks (fold walk1 parts (if absolute then [] else d))"
  using assms
proof (induction toks arbitrary: parts len)
  case (Cons tok toks)
  obtain p1 l1 where s: "canon_step absolute tok (parts, len) = (p1, l1)" by (cases "canon_step absolute tok (parts, len)")
  have "plain tok" using Cons.prems(2) by simp
  note a = canonical_step [OF Cons.prems(3) this s, of d]
  have "fold (canon_step absolute) toks (p1, l1) = (parts', len')" using Cons.prems(1) s by simp
  from Cons.IH [OF this _ a [THEN conjunct1]] a Cons.prems(2) show ?case by simp
qed simp

lemma canon_fold_len:
  assumes "fold (canon_step absolute) toks (parts, len) = (parts', len')"
    and "int (needed absolute parts) \<le> len" and "len + token_bytes toks < 2 ^ 31"
  shows "int (needed absolute parts') \<le> len' \<and> len' \<le> len + token_bytes toks"
  using assms
proof (induction toks arbitrary: parts len)
  case (Cons tok toks)
  obtain p1 l1 where s: "canon_step absolute tok (parts, len) = (p1, l1)" by (cases "canon_step absolute tok (parts, len)")
  have b: "len + int (length tok) + 1 < 2 ^ 31" using Cons.prems(3) token_bytes_pos [of toks] by simp
  note n = needed_step [OF s Cons.prems(2) b]
  have "fold (canon_step absolute) toks (p1, l1) = (parts', len')" using Cons.prems(1) s by simp
  from Cons.IH [OF this n(1)] n(2) Cons.prems(3) show ?case by simp
qed simp

lemma canon_parts_ok:
  assumes "canon_parts path = (parts, len)"
  shows "canonical (is_full_path path) parts"
    and "fold walk1 parts (if is_full_path path then [] else d) = resolve d path"
proof -
  have c: "canonical a []" for a by (auto simp: canonical_def)
  from canon_fold [OF assms [unfolded canon_parts_def] strtok_plain c, of d]
  show "canonical (is_full_path path) parts" "fold walk1 parts (if is_full_path path then [] else d) = resolve d path"
    by (simp_all add: resolve_def)
qed

lemma canon_parts_len:
  assumes "canon_parts path = (parts, len)" and "length path + 2 < 2 ^ 31"
  shows "int (needed (is_full_path path) parts) \<le> len" and "len \<le> int (length path) + 1"
proof -
  have n: "int (needed (is_full_path path) []) \<le> (if is_full_path path then 1 else 0)" by (simp add: needed_def)
  have "(if is_full_path path then 1 else 0) + token_bytes (strtok_all (CHR ''/'') path) \<le> int (length path) + 1"
  proof (cases path)
    case (Cons c s)
    then show ?thesis using strtok_all_bytes [of "CHR ''/''" s] strtok_all_bytes [of "CHR ''/''" path] by auto
  qed simp
  then show "int (needed (is_full_path path) parts) \<le> len" "len \<le> int (length path) + 1"
    using canon_fold_len [OF assms(1) [unfolded canon_parts_def] n] assms(2) by auto
qed

lemma canon_fold_names:
  "list_all name ns \<Longrightarrow> fst (fold (canon_step absolute) ns (parts, len)) = parts @ ns"
  by (induction ns arbitrary: parts len) (simp_all add: canon_step_eqs)

lemma canon_fold_canonical:
  assumes "canonical absolute parts"
  shows "fst (fold (canon_step absolute) parts ([], len)) = parts"
proof -
  obtain k ns where p: "parts = replicate k ''..'' @ ns" "list_all name ns" "absolute \<longrightarrow> k = 0"
    using assms by (auto simp: canonical_def)
  have up: "fst (fold (canon_step False) (replicate k ''..'') (replicate j ''..'', n)) = replicate (j + k) ''..''" for j n
  proof (induction k arbitrary: j n)
    case (Suc k)
    have "replicate j ''..'' = [] \<or> last (replicate j ''..'') = ''..''" by (cases j) (simp_all add: last_replicate)
    note step = canon_step_eqs(5) [OF this]
    have "fold (canon_step False) (replicate (Suc k) ''..'') (replicate j ''..'', n)
        = fold (canon_step False) (replicate k ''..'') (replicate (Suc j) ''..'', snd (canon_step False ''..'' (replicate j ''..'', n)))"
      by (simp only: replicate_Suc fold_simps o_apply step snd_conv replicate_append_same)
    then show ?case using Suc.IH [of "Suc j"] by (simp only: add_Suc add_Suc_right)
  qed simp
  show ?thesis
  proof (cases absolute)
    case True
    then show ?thesis using p canon_fold_names by simp
  next
    case False
    obtain q m where q: "fold (canon_step False) (replicate k ''..'') ([], len) = (q, m)"
      by (cases "fold (canon_step False) (replicate k ''..'') ([], len)")
    then have "q = replicate k ''..''" using up [of 0 len] by simp
    then show ?thesis using False p(1) q canon_fold_names [OF p(2)] by simp
  qed
qed

lemma join_slash_head: "list_all plain ps \<Longrightarrow> \<not> is_full_path (join_slash ps)"
  by (induction ps rule: join_slash.induct) (auto simp: plain_def is_full_path_def append_eq_Cons_conv)

lemma join_slash_single:
  "list_all plain ps \<Longrightarrow> join_slash ps \<noteq> a @ ''//'' @ b"
proof (induction ps arbitrary: a rule: join_slash.induct)
  case (2 p)
  have "CHR ''/'' \<notin> set p" using 2 by (simp add: plain_def)
  then show ?case by (metis join_slash.simps(2) append_Cons in_set_conv_decomp)
next
  case (3 p q ps)
  have pl: "list_all plain (q # ps)" using 3(2) by simp
  have p: "CHR ''/'' \<notin> set p" using 3(2) by (simp add: plain_def)
  show ?case
  proof
    assume "join_slash (p # q # ps) = a @ ''//'' @ b"
    then have "p @ CHR ''/'' # join_slash (q # ps) = a @ CHR ''/'' # CHR ''/'' # b" by simp
    then consider "join_slash (q # ps) = CHR ''/'' # b" | a' where "join_slash (q # ps) = a' @ ''//'' @ b"
      using p by (auto simp: append_eq_append_conv2 append_eq_Cons_conv Cons_eq_append_conv)
    then show False
    proof cases
      case 1
      then show False using join_slash_head [OF pl] by simp
    next
      case 2
      then show False using 3(1) [OF pl] by blast
    qed
  qed
qed simp

lemma join_slash_last: "list_all plain ps \<Longrightarrow> ps \<noteq> [] \<Longrightarrow> join_slash ps \<noteq> [] \<and> last (join_slash ps) \<noteq> CHR ''/''"
proof (induction ps rule: join_slash.induct)
  case (2 p)
  then have "p \<noteq> []" "CHR ''/'' \<notin> set p" by (simp_all add: plain_def)
  then show ?case by (metis join_slash.simps(2) last_in_set)
qed simp_all

text \<open>The form of a canonical path: single slashes, none at the end, and no superfluous component.\<close>

definition canonical_path :: "string \<Rightarrow> bool" where
  "canonical_path out \<longleftrightarrow> out \<noteq> [] \<and> (\<forall>a b. out \<noteq> a @ ''//'' @ b) \<and> (out \<noteq> ''/'' \<longrightarrow> last out \<noteq> CHR ''/'')
     \<and> (out = ''.'' \<or> canonical (is_full_path out) (strtok_all (CHR ''/'') out))"

lemma canonical_pathI:
  assumes "canonical absolute parts" and "absolute \<or> parts \<noteq> []"
  shows "canonical_path ((if absolute then ''/'' else []) @ join_slash parts)"
proof -
  let ?out = "(if absolute then ''/'' else []) @ join_slash parts"
  have plain: "list_all plain parts" by (rule canonical_plain [OF assms(1)])
  have full: "is_full_path ?out = absolute" using join_slash_head [OF plain] by simp
  have toks: "strtok_all (CHR ''/'') ?out = parts" using strtok_all_join [OF plain] by simp
  have "?out \<noteq> a @ ''//'' @ b" for a b
  proof
    assume "?out = a @ ''//'' @ b"
    then have "(absolute \<and> join_slash parts = CHR ''/'' # b) \<or> (\<exists>a'. join_slash parts = a' @ ''//'' @ b)"
      by (cases a) (auto split: if_splits)
    then show False using join_slash_head [OF plain] join_slash_single [OF plain] by auto
  qed
  moreover have "?out \<noteq> []" "?out \<noteq> ''/'' \<longrightarrow> last ?out \<noteq> CHR ''/''"
    using assms(2) join_slash_last [OF plain] by (cases "parts = []"; simp)+
  ultimately show ?thesis unfolding canonical_path_def full toks using assms(1) by blast
qed

lemma canonicalize_shape:
  assumes "length path + 2 < 2 ^ 31"
  obtains parts out size where "canonicalize_path_simple path = Some (out, size)" and "length out + 1 \<le> size"
    and "size \<le> length path + 2"
    and "canonical (is_full_path path) parts" and "is_full_path path \<or> parts \<noteq> []"
    and "out = (if is_full_path path then ''/'' else []) @ join_slash parts"
    and "\<And>d. fold walk1 parts (if is_full_path path then [] else d) = resolve d path"
  | "\<not> is_full_path path" and "canonicalize_path_simple path = Some (''.'', 2)" and "\<And>d. resolve d path = d"
proof -
  obtain parts len where c: "canon_parts path = (parts, len)" by (cases "canon_parts path")
  note ok = canon_parts_ok [OF c]
  note len = canon_parts_len [OF c assms]
  show thesis
  proof (cases "parts = [] \<and> \<not> is_full_path path")
    case True
    then have "resolve d path = d" for d using ok(2) [of d] by simp
    then show thesis using that(2) True c by (simp add: canonicalize_path_simple_def)
  next
    case False
    let ?out = "(if is_full_path path then ''/'' else []) @ join_slash parts"
    have i: "int32 (len + 1) = len + 1" "0 \<le> len" using len assms by simp_all
    then have s: "canonicalize_path_simple path = Some (?out, nat (len + 1))"
      using c False by (simp add: canonicalize_path_simple_def Let_def)
    have "length ?out + 1 \<le> nat (len + 1)"
      using len(1) by (simp add: needed_def length_join_slash nat_le_iff le_nat_iff split: if_splits)
    moreover have "nat (len + 1) \<le> length path + 2" using len(2) by simp
    moreover have "is_full_path path \<or> parts \<noteq> []" using False by blast
    ultimately show thesis by (rule that(1) [OF s _ _ ok(1) _ refl ok(2)])
  qed
qed

lemma compiledb_same: "compiledb_canonicalize_path_simple = canonicalize_path_simple"
  by (intro ext) (simp add: canonicalize_path_simple_def compiledb_canonicalize_path_simple_def)

lemma strtok_dot: "strtok_all (CHR ''/'') ''.'' = [''.'']"
  by (rule strtok_all_token(2)) simp_all

lemma canonicalize_facts:
  assumes "length path + 2 < 2 ^ 31"
  obtains out size where "canonicalize_path_simple path = Some (out, size)" and "length out + 1 \<le> size"
    and "\<And>d. resolve d out = resolve d path" and "is_full_path out = is_full_path path" and "canonical_path out"
    and "length out \<le> length path + 1" and "length out + 2 < 2 ^ 31 \<longrightarrow> (\<exists>n. canonicalize_path_simple out = Some (out, n))"
  using assms
proof (cases path rule: canonicalize_shape)
  case (1 parts out size)
  have plain: "list_all plain parts" by (rule canonical_plain [OF 1(4)])
  have full: "is_full_path out = is_full_path path" using join_slash_head [OF plain] 1(6) by simp
  have toks: "strtok_all (CHR ''/'') out = parts" using strtok_all_join [OF plain] 1(6) by simp
  have "resolve d out = resolve d path" for d unfolding resolve_def [of d out] toks full by (rule 1(7))
  moreover have "fst (canon_parts out) = parts"
    unfolding canon_parts_def toks full by (rule canon_fold_canonical [OF 1(4)])
  then obtain len where len: "canon_parts out = (parts, len)" by (cases "canon_parts out") simp
  have "\<exists>n. canonicalize_path_simple out = Some (out, n)" if b: "length out + 2 < 2 ^ 31"
  proof -
    have "int32 (len + 1) = len + 1" "0 \<le> len" using canon_parts_len [OF len b] b by simp_all
    then show ?thesis using 1(5,6) full len by (auto simp: canonicalize_path_simple_def Let_def)
  qed
  moreover have "canonical_path out" unfolding 1(6) by (rule canonical_pathI [OF 1(4,5)])
  moreover have "length out \<le> length path + 1" using 1(2,3) by simp
  ultimately show thesis using that 1(1,2) full by blast
next
  case 2
  have "canonicalize_path_simple ''.'' = Some (''.'', 2)" by code_simp
  moreover have "canonical_path ''.''" by (auto simp: canonical_path_def append_eq_Cons_conv Cons_eq_append_conv)
  moreover have "resolve d ''.'' = resolve d path" for d using 2(3) strtok_dot by (simp add: resolve_def [of d "''.''"])
  ultimately show thesis using that 2(1,2) by simp
qed

section \<open>The properties\<close>

text \<open>
  C26: for a path whose length leaves the byte count in an \<^verbatim>\<open>int\<close>,
  \<^verbatim>\<open>canonicalize_path_simple\<close> and its copy in \<^verbatim>\<open>db.c\<close> return the same path.  It
  keeps the meaning (from every directory, the walk along the result ends where the walk along the path ends) and whether
  the path is absolute; it has no two slashes in a row and none at its end (unless it is \<^verbatim>\<open>/\<close>), no
  \<^verbatim>\<open>.\<close> component (unless it is \<^verbatim>\<open>.\<close> itself), and \<^verbatim>\<open>..\<close> only
  at the front of a relative path; and the function maps it to itself.
\<close>

theorem canonicalize_path_correct:
  assumes "length path + 3 < 2 ^ 31"
  shows "\<exists>out size. canonicalize_path_simple path = Some (out, size) \<and> compiledb_canonicalize_path_simple path = Some (out, size)
    \<and> (\<forall>d. resolve d out = resolve d path) \<and> is_full_path out = is_full_path path
    \<and> out \<noteq> [] \<and> (\<forall>a b. out \<noteq> a @ ''//'' @ b) \<and> (out \<noteq> ''/'' \<longrightarrow> last out \<noteq> CHR ''/'')
    \<and> (out = ''.'' \<or> canonical (is_full_path path) (strtok_all (CHR ''/'') out))
    \<and> (\<exists>n. canonicalize_path_simple out = Some (out, n))"
proof -
  have b: "length path + 2 < 2 ^ 31" using assms by simp
  obtain out size where o: "canonicalize_path_simple path = Some (out, size)" "length out \<le> length path + 1"
    "\<And>d. resolve d out = resolve d path" "is_full_path out = is_full_path path" "canonical_path out"
    "length out + 2 < 2 ^ 31 \<longrightarrow> (\<exists>n. canonicalize_path_simple out = Some (out, n))"
    using canonicalize_facts [OF b] by metis
  have "\<exists>n. canonicalize_path_simple out = Some (out, n)" using o(2,6) assms by simp
  then show ?thesis using o(1,3-5) unfolding canonical_path_def compiledb_same by auto
qed

theorem canonicalize_path_correct_witness:
  "\<exists>out size. canonicalize_path_simple ''/a//./b/../c/'' = Some (out, size) \<and> out = ''/a/c''
    \<and> (\<forall>d. resolve d out = resolve d ''/a//./b/../c/'') \<and> (\<forall>a b. out \<noteq> a @ ''//'' @ b)"
proof -
  have "fst (the (canonicalize_path_simple ''/a//./b/../c/'')) = ''/a/c''" by code_simp
  then show ?thesis using canonicalize_path_correct [of "''/a//./b/../c/''"] by auto
qed

text \<open>
  C32: for a path of fewer than \<open>2 ^ 31 - 2\<close> bytes, \<^verbatim>\<open>canonicalize_path_simple\<close> and its copy
  do not fail, and the buffer that they allocate, whose size they count in an \<^verbatim>\<open>int\<close> while they
  collect the components, is large enough for the result and its terminating NUL.
\<close>

theorem canonicalize_path_fits:
  assumes "length path + 2 < 2 ^ 31"
  shows "\<exists>out size. canonicalize_path_simple path = Some (out, size) \<and> compiledb_canonicalize_path_simple path = Some (out, size)
    \<and> length out + 1 \<le> size"
  using canonicalize_facts [OF assms] unfolding compiledb_same by metis

theorem canonicalize_path_fits_witness:
  "\<exists>out size. canonicalize_path_simple ''a/../b'' = Some (out, size) \<and> length out + 1 \<le> size"
  using canonicalize_path_fits [of "''a/../b''"] by auto

text \<open>Without the bound the count wraps: a component of \<open>2 ^ 32\<close> bytes gets a buffer of one byte.\<close>

lemma canonicalize_path_overrun:
  assumes "plain path" and "length path = 2 ^ 32"
  shows "canonicalize_path_simple path = Some (path, 1)"
proof -
  have "strtok_all (CHR ''/'') path = [path]" using assms(1) by (intro strtok_all_token(2)) (simp_all add: plain_def)
  moreover have "\<not> is_full_path path" using assms(1) by (auto simp: is_full_path_def plain_def)
  moreover have "path \<noteq> ''.''" "path \<noteq> ''..''" "path \<noteq> []" using assms(2) by auto
  moreover have "int32 (int (length path)) = 0" "int32 1 = 1" using assms(2) by (simp_all add: int32_def)
  ultimately show ?thesis by (simp add: canonicalize_path_simple_def canon_parts_def canon_step_def)
qed

section \<open>Relative paths\<close>

definition path_components :: "string \<Rightarrow> string list" where
  "path_components path = filter (\<lambda>t. t \<noteq> ''.'') (strtok_all (CHR ''/'') path)"

fun common_prefix :: "string list \<Rightarrow> string list \<Rightarrow> nat" where
  "common_prefix (a # as) (b # bs) = (if a = b then Suc (common_prefix as bs) else 0)"
| "common_prefix _ _ = 0"

text \<open>
  The components are stored in two arrays of 128 pointers without a check: \<open>None\<close> stands for the write past the
  end of an array.
\<close>

definition relpath_simple :: "string \<Rightarrow> string \<Rightarrow> string option" where
  "relpath_simple from_dir to_dir =
     (let fromparts = path_components from_dir; toparts = path_components to_dir; i = common_prefix fromparts toparts in
      if length fromparts > 128 \<or> length toparts > 128 then None
      else if i = length fromparts \<and> i = length toparts then Some ''.''
      else Some (join_slash (replicate (length fromparts - i) ''..'' @ drop i toparts)))"







text \<open>A directory 129 levels deep already runs past the arrays.\<close>

lemma relpath_overrun: "relpath_simple (join_slash (replicate 129 ''a'')) ''b'' = None"
proof -
  have "list_all plain (replicate 129 ''a'')" by (simp add: list_all_iff plain_def)
  then have "path_components (join_slash (replicate 129 ''a'')) = replicate 129 ''a''"
    by (simp only: path_components_def strtok_all_join) simp
  then show ?thesis by (simp add: relpath_simple_def)
qed

section \<open>Destinations of a dist\<close>

definition join_path2 :: "string \<Rightarrow> string \<Rightarrow> string" where
  "join_path2 a b = a @ ''/'' @ b"

definition dist_normalize_dest_path :: "string \<Rightarrow> string option" where
  "dist_normalize_dest_path path = (case canonicalize_path_simple path of
     None \<Rightarrow> None | Some (canon, n) \<Rightarrow> if is_full_path canon then Some canon else None)"

definition dist_normalize_dest :: "string \<Rightarrow> string \<Rightarrow> string option" where
  "dist_normalize_dest base nm = (case canonicalize_path_simple (base @ ''/'' @ nm) of
     None \<Rightarrow> None | Some (canon, n) \<Rightarrow> if is_full_path canon then Some canon else None)"

lemma dist_normalize_dest_path_facts:
  assumes "length path + 3 < 2 ^ 31"
  shows "(dist_normalize_dest_path path = None \<longleftrightarrow> \<not> is_full_path path)
    \<and> (\<forall>out. dist_normalize_dest_path path = Some out \<longrightarrow> is_full_path out \<and> canonical_path out
         \<and> (\<forall>d. resolve d out = resolve d path) \<and> dist_normalize_dest_path out = Some out)"
proof -
  have b: "length path + 2 < 2 ^ 31" using assms by simp
  obtain out size where o: "canonicalize_path_simple path = Some (out, size)" "length out \<le> length path + 1"
    "\<And>d. resolve d out = resolve d path" "is_full_path out = is_full_path path" "canonical_path out"
    "length out + 2 < 2 ^ 31 \<longrightarrow> (\<exists>n. canonicalize_path_simple out = Some (out, n))"
    using canonicalize_facts [OF b] by metis
  obtain n where "canonicalize_path_simple out = Some (out, n)" using o(2,6) assms by auto
  then show ?thesis using o(1,3-5) by (auto simp: dist_normalize_dest_path_def)
qed

lemma canonical_path_absolute:
  assumes "canonical_path out" and "is_full_path out"
  shows "(\<forall>a b. out \<noteq> a @ ''//'' @ b) \<and> (out \<noteq> ''/'' \<longrightarrow> last out \<noteq> CHR ''/'') \<and> list_all name (strtok_all (CHR ''/'') out)"
  using assms by (auto simp: canonical_path_def canonical_def)

lemma dist_normalize_dest_eq: "dist_normalize_dest base nm = dist_normalize_dest_path (join_path2 base nm)"
  by (simp add: dist_normalize_dest_def dist_normalize_dest_path_def join_path2_def)

text \<open>
  C33: for paths whose lengths leave the byte count in an \<^verbatim>\<open>int\<close>, a destination is accepted exactly if
  it is absolute (for \<^verbatim>\<open>dist_normalize_dest\<close>, if the base directory is absolute or empty).  The result
  is an absolute canonical path (no empty component, no \<^verbatim>\<open>.\<close> or \<^verbatim>\<open>..\<close>, no slash at the end
  unless it is \<^verbatim>\<open>/\<close>) that leads to the same place as the path that was given, or as the name in the base
  directory; and it is accepted again unchanged.
\<close>

theorem dist_normalize_correct:
  assumes "length path + 3 < 2 ^ 31" and "length base + length nm + 4 < 2 ^ 31"
  shows "(dist_normalize_dest_path path = None \<longleftrightarrow> \<not> is_full_path path)
    \<and> (dist_normalize_dest base nm = None \<longleftrightarrow> base \<noteq> [] \<and> \<not> is_full_path base)
    \<and> (\<forall>out. (dist_normalize_dest_path path = Some out \<longrightarrow> (\<forall>d. resolve d out = resolve d path))
         \<and> (dist_normalize_dest base nm = Some out \<longrightarrow> (\<forall>d. resolve d out = resolve d (join_path2 base nm)))
         \<and> (dist_normalize_dest_path path = Some out \<or> dist_normalize_dest base nm = Some out \<longrightarrow>
              is_full_path out \<and> (\<forall>a b. out \<noteq> a @ ''//'' @ b) \<and> (out \<noteq> ''/'' \<longrightarrow> last out \<noteq> CHR ''/'')
            \<and> list_all name (strtok_all (CHR ''/'') out) \<and> dist_normalize_dest_path out = Some out))"
proof -
  have j: "is_full_path (join_path2 base nm) \<longleftrightarrow> base = [] \<or> is_full_path base" by (cases base) (simp_all add: join_path2_def)
  have "length (join_path2 base nm) + 3 < 2 ^ 31" using assms(2) by (simp add: join_path2_def)
  note a = dist_normalize_dest_path_facts [OF assms(1)] and b = dist_normalize_dest_path_facts [OF this, folded dist_normalize_dest_eq]
  have "(dist_normalize_dest_path path = None \<longleftrightarrow> \<not> is_full_path path)
    \<and> (dist_normalize_dest base nm = None \<longleftrightarrow> base \<noteq> [] \<and> \<not> is_full_path base)" using a b j by blast
  then show ?thesis using a b canonical_path_absolute by blast
qed

theorem dist_normalize_correct_witness:
  "dist_normalize_dest ''/out'' ''../lib/x'' = Some ''/lib/x'' \<and> resolve [] ''/lib/x'' = resolve [] (join_path2 ''/out'' ''../lib/x'')
   \<and> dist_normalize_dest_path ''/lib/x'' = Some ''/lib/x''"
proof -
  have r: "dist_normalize_dest ''/out'' ''../lib/x'' = Some ''/lib/x''" by code_simp
  then show ?thesis using dist_normalize_correct [of "[]" "''/out''" "''../lib/x''"] by simp
qed

end
