(* ===== verification/Glob.thy ===== *)
theory Glob
  imports Paths
begin

text \<open>
  The \<^verbatim>\<open>$(globs ...)\<close> function of Tupfiles (\<^verbatim>\<open>skip_glob_slashes\<close> to
  \<^verbatim>\<open>eval_globs_one_pattern\<close> in \<^verbatim>\<open>src/src/tup/parser.c\<close>): matching a path
  against a pattern with \<^verbatim>\<open>**\<close>, and the walk over the file system below the part of the pattern
  that has no wildcard.  \<^verbatim>\<open>fnmatch\<close> with \<^verbatim>\<open>FNM_PERIOD\<close> is the parameter
  \<open>fnm\<close>; the file system is a parameter too, as the answers of \<^verbatim>\<open>lstat\<close> (which follows
  the symbolic links in front of the last component) and of the directory listing.
\<close>

section \<open>Matching\<close>

definition PATH_MAX :: nat where
  "PATH_MAX = 4096"

definition skip_glob_slashes :: "string \<Rightarrow> string" where
  "skip_glob_slashes s = dropWhile (\<lambda>c. c = CHR ''/'') s"

text \<open>The segment and the rest of the string after it.\<close>

definition next_glob_segment :: "string \<Rightarrow> string \<times> string" where
  "next_glob_segment s = (let t = skip_glob_slashes s in
     (takeWhile (\<lambda>c. c \<noteq> CHR ''/'') t, dropWhile (\<lambda>c. c \<noteq> CHR ''/'') t))"

definition glob_segment_is_doublestar :: "string \<Rightarrow> bool" where
  "glob_segment_is_doublestar seg \<longleftrightarrow> seg = ''**''"

lemma next_segment_tokens:
  assumes "next_glob_segment s = (seg, rest)"
  shows "strtok_all (CHR ''/'') s = (if seg = [] then [] else seg # strtok_all (CHR ''/'') rest)"
    and "seg \<noteq> [] \<Longrightarrow> length rest < length s" and "seg = [] \<Longrightarrow> rest = []"
proof -
  let ?t = "skip_glob_slashes s"
  have d: "seg = takeWhile (\<lambda>c. c \<noteq> CHR ''/'') ?t" "rest = dropWhile (\<lambda>c. c \<noteq> CHR ''/'') ?t"
    using assms by (auto simp: next_glob_segment_def Let_def)
  have hd: "?t \<noteq> [] \<Longrightarrow> hd ?t \<noteq> CHR ''/''"
    unfolding skip_glob_slashes_def using hd_dropWhile [of "\<lambda>c. c = CHR ''/''" s] by blast
  have ne: "seg = [] \<longleftrightarrow> ?t = []" using d(1) hd by (cases ?t) auto
  show "strtok_all (CHR ''/'') s = (if seg = [] then [] else seg # strtok_all (CHR ''/'') rest)"
    using ne d by (subst strtok_all.simps) (simp add: Let_def skip_glob_slashes_def)
  have "length s = length (takeWhile (\<lambda>c. c = CHR ''/'') s) + length ?t"
    unfolding skip_glob_slashes_def by (metis length_append takeWhile_dropWhile_id)
  moreover have "length ?t = length seg + length rest" unfolding d by (metis length_append takeWhile_dropWhile_id)
  ultimately show "seg \<noteq> [] \<Longrightarrow> length rest < length s" by (cases seg) simp_all
  show "seg = [] \<Longrightarrow> rest = []" using ne d(2) by simp
qed

text \<open>The values the inner loop over \<^verbatim>\<open>path\<close> takes.\<close>

function path_tails :: "string \<Rightarrow> string list" where
  "path_tails path = (let (seg, rest) = next_glob_segment path in
     path # (if seg = [] then [] else path_tails rest))"
  by auto
termination
proof (relation "measure length", goal_cases)
  case (2 path x seg rest)
  then have "next_glob_segment path = (seg, rest)" by simp
  then show ?case using next_segment_tokens(2) 2(3) by simp
qed simp

declare path_tails.simps [simp del]

function glob_path_match_components :: "(string \<Rightarrow> string \<Rightarrow> bool) \<Rightarrow> string \<Rightarrow> string \<Rightarrow> bool" where
  "glob_path_match_components fnm path pattern =
     (let (pseg, pnext) = next_glob_segment pattern; (sseg, snext) = next_glob_segment path in
      if pseg = [] then sseg = []
      else if glob_segment_is_doublestar pseg
      then list_ex (\<lambda>p. glob_path_match_components fnm p pnext) (path_tails path)
      else if sseg = [] then False
      else if length pseg \<ge> PATH_MAX \<or> length sseg \<ge> PATH_MAX then False
      else if \<not> fnm pseg sseg then False
      else glob_path_match_components fnm snext pnext)"
  by auto
termination
  by (relation "measure (\<lambda>(_, _, pattern). length pattern)") (auto dest!: sym [of "(_, _)"] next_segment_tokens(2))

declare glob_path_match_components.simps [simp del]

definition glob_path_match :: "(string \<Rightarrow> string \<Rightarrow> bool) \<Rightarrow> string \<Rightarrow> string \<Rightarrow> bool" where
  "glob_path_match fnm path pattern \<longleftrightarrow>
     is_full_path pattern = is_full_path path \<and> glob_path_match_components fnm path pattern"







section \<open>The directory where the walk starts\<close>

definition char_find :: "string \<Rightarrow> string \<Rightarrow> bool" where
  "char_find s l \<longleftrightarrow> list_ex (\<lambda>c. c \<in> set l) s"

definition glob_pattern_has_magic :: "string \<Rightarrow> bool" where
  "glob_pattern_has_magic pattern \<longleftrightarrow> list_ex (\<lambda>c. c = CHR ''*'' \<or> c = CHR ''?'' \<or> c = CHR ''['') pattern"

text \<open>The pointers \<^verbatim>\<open>next\<close> and \<^verbatim>\<open>root_end\<close> are the strings they point to.\<close>

function root_scan :: "string \<Rightarrow> string \<Rightarrow> string" where
  "root_scan nxt root_end =
     (let (seg, rest) = next_glob_segment nxt in
      if seg = [] then root_end
      else if glob_segment_is_doublestar seg \<or> char_find seg ''*?['' then root_end
      else root_scan rest rest)"
  by auto
termination
proof (relation "measure (length \<circ> fst)", goal_cases)
  case (2 nxt root_end x seg rest)
  then have "next_glob_segment nxt = (seg, rest)" by simp
  then show ?case using next_segment_tokens(2) 2(3) by simp
qed simp

declare root_scan.simps [simp del]

definition glob_root_from_pattern :: "string \<Rightarrow> string" where
  "glob_root_from_pattern pattern =
     (let absolute = is_full_path pattern;
          nxt = (if absolute then dropWhile (\<lambda>c. c = CHR ''/'') pattern else pattern);
          root_end = root_scan nxt (if absolute then drop 1 pattern else pattern) in
      if length root_end = length pattern then (if absolute then ''/'' else ''.'')
      else take (length pattern - length root_end) pattern)"








section \<open>The walk\<close>

text \<open>
  What \<^verbatim>\<open>lstat\<close> says of an absolute path (None if it fails), and the names that
  \<^verbatim>\<open>readdir\<close> gives for a directory (none if \<^verbatim>\<open>opendir\<close> fails).  A path of
  \<^verbatim>\<open>PATH_MAX\<close> bytes or more is refused.
\<close>

datatype file_kind = S_IFDIR | S_IFLNK | S_IFREG

record fsys =
  fs_lstat :: "string \<Rightarrow> file_kind option"
  fs_list :: "string \<Rightarrow> string list"

definition lstat :: "fsys \<Rightarrow> string \<Rightarrow> file_kind option" where
  "lstat fs path = (if length path < PATH_MAX then fs_lstat fs path else None)"

function eval_globs_walk :: "(string \<Rightarrow> string \<Rightarrow> bool) \<Rightarrow> fsys \<Rightarrow> string \<Rightarrow> string \<Rightarrow> string list" where
  "eval_globs_walk fnm fs pattern root =
     (case lstat fs root of
        None \<Rightarrow> []
      | Some kind \<Rightarrow>
          (if glob_path_match fnm root pattern then [root] else [])
          @ (if kind \<noteq> S_IFDIR then []
             else concat (map (\<lambda>nm. if nm = ''.'' \<or> nm = ''..'' then []
                                 else eval_globs_walk fnm fs pattern (root @ ''/'' @ nm)) (fs_list fs root))))"
  by auto
termination
  by (relation "measure (\<lambda>(fnm, fs, pattern, root). PATH_MAX - length root)") (auto simp: lstat_def split: if_splits)

declare eval_globs_walk.simps [simp del]

text \<open>
  \<open>tup_top\<close> is \<^verbatim>\<open>get_tup_top()\<close>, \<open>cwd\<close> the directory of the function
  within it; the result is the list of the paths that are appended.
\<close>

definition globs_canon :: "string \<Rightarrow> string \<Rightarrow> string \<Rightarrow> string option" where
  "globs_canon tup_top cwd pattern =
     (if \<not> is_full_path pattern \<and> length cwd \<ge> PATH_MAX then None
      else let joined = (if is_full_path pattern then pattern
                         else if cwd = ''.'' \<or> cwd = [] then tup_top @ ''/'' @ pattern
                         else tup_top @ ''/'' @ cwd @ ''/'' @ pattern)
           in map_option fst (canonicalize_path_simple joined))"

definition eval_globs_one_pattern :: "(string \<Rightarrow> string \<Rightarrow> bool) \<Rightarrow> fsys \<Rightarrow> string \<Rightarrow> string \<Rightarrow> string \<Rightarrow> string list option" where
  "eval_globs_one_pattern fnm fs tup_top cwd pattern =
     (case globs_canon tup_top cwd pattern of
        None \<Rightarrow> None
      | Some canon \<Rightarrow> Some
         (if \<not> glob_pattern_has_magic canon
          then (case lstat fs canon of None \<Rightarrow> [] | Some _ \<Rightarrow> [canon])
          else eval_globs_walk fnm fs canon (glob_root_from_pattern canon)))"















text \<open>
  A file system given by a table, with two sources, a directory and a link to it, through which a file is found
  but not walked; and an \<open>fnm\<close> that knows literals and a leading star.
\<close>

definition table_fs :: "(string list \<times> file_kind) list \<Rightarrow> fsys" where
  "table_fs tbl = \<lparr>fs_lstat = (\<lambda>p. map_of tbl (strtok_all (CHR ''/'') p)),
     fs_list = (\<lambda>p. map (last \<circ> fst) (filter (\<lambda>(ts, k). ts \<noteq> [] \<and> butlast ts = strtok_all (CHR ''/'') p) tbl))\<rparr>"


definition sample_fs :: fsys where
  "sample_fs = table_fs [([], S_IFDIR), ([''p''], S_IFDIR), ([''p'', ''a''], S_IFDIR), ([''p'', ''a'', ''x.c''], S_IFREG),
     ([''p'', ''l''], S_IFLNK), ([''p'', ''l'', ''x.c''], S_IFREG), ([''p'', ''y.c''], S_IFREG), ([''p'', ''z.h''], S_IFREG)]"

definition sample_fnm :: "string \<Rightarrow> string \<Rightarrow> bool" where
  "sample_fnm p s = (case p of c # q \<Rightarrow> (if c = CHR ''*'' then q = drop (length s - length q) s else p = s) | [] \<Rightarrow> s = [])"


text \<open>Below the top directory the paths that are returned have two slashes.\<close>

lemma globs_top_slashes: "eval_globs_one_pattern sample_fnm sample_fs ''/p'' ''.'' ''/*'' = Some [''//p'']"
  by code_simp

text \<open>Through the link a literal pattern does find the file.\<close>

lemma globs_through_link:
  "eval_globs_one_pattern sample_fnm sample_fs ''/p'' ''.'' ''l/*.c'' = Some []"
  "eval_globs_one_pattern sample_fnm sample_fs ''/p'' ''.'' ''l/x.c'' = Some [''/p/l/x.c'']"
  by code_simp+

end
