(* ===== verification/Vardict.thy ===== *)
theory Vardict
  imports Trees
begin

text \<open>
  The file of the configuration variables that commands read: \<^verbatim>\<open>save_vardict_file\<close>
  (\<^verbatim>\<open>src/src/tup/db.c\<close>) writes it, \<^verbatim>\<open>tup_vardict_init\<close> and
  \<^verbatim>\<open>tup_config_var\<close> (\<^verbatim>\<open>vardict.c\<close>) read it.  The file is a list of
  bytes: a count, one offset per entry, and the entries \<^verbatim>\<open>name=value\<close>, each ended by NUL.  An
  \<^verbatim>\<open>unsigned int\<close> is written as four bytes in the order of the machine, here the least significant
  first; both sides run on the same machine.
\<close>

section \<open>Writing\<close>

definition u32_bytes :: "nat \<Rightarrow> string" where
  "u32_bytes n = map (\<lambda>k. char_of (n div 256 ^ k mod 256)) [0, 1, 2, 3]"

definition bytes_u32 :: "string \<Rightarrow> nat" where
  "bytes_u32 s = (\<Sum>k \<leftarrow> [0, 1, 2, 3]. of_char (s ! k) * 256 ^ k)"

record var_line =
  v_name :: string
  v_value :: string

text \<open>The lines are the entries of the \<^verbatim>\<open>vardb\<close> in the order of its tree.\<close>

fun index_bytes :: "nat \<Rightarrow> var_line list \<Rightarrow> string" where
  "index_bytes x [] = []"
| "index_bytes x (ve # vs) =
     u32_bytes x @ index_bytes ((x + length (v_name ve) + 1 + length (v_value ve) + 1) mod 2 ^ 32) vs"

definition entry_bytes :: "var_line \<Rightarrow> string" where
  "entry_bytes ve = v_name ve @ ''='' @ v_value ve @ [CHR 0x00]"

definition save_vardict_file :: "var_line list \<Rightarrow> string" where
  "save_vardict_file vs = u32_bytes (length vs) @ index_bytes 0 vs @ concat (map entry_bytes vs)"

section \<open>Reading\<close>

text \<open>\<open>offsets\<close> and \<open>entries\<close> are pointers into the mapped file.\<close>

record vardict =
  vd_len :: nat
  num_entries :: nat
  offsets :: string
  entries :: string

text \<open>The argument is the contents of the file, \<open>None\<close> if it does not exist; the result \<open>None\<close> is \<open>-1\<close>.\<close>

definition tup_vardict_init :: "string option \<Rightarrow> vardict option" where
  "tup_vardict_init file =
     (case file of
        None \<Rightarrow> Some \<lparr>vd_len = 0, num_entries = 0, offsets = [], entries = []\<rparr>
      | Some m \<Rightarrow>
          let len = length m mod 2 ^ 32 in
          if len = 0 then Some \<lparr>vd_len = len, num_entries = 0, offsets = [], entries = []\<rparr>
          else if len < 4 then None
          else let n = bytes_u32 m; expected = (4 + 4 * n) mod 2 ^ 32 in
            if len < expected then None
            else Some \<lparr>vd_len = len, num_entries = n, offsets = drop 4 m, entries = drop expected m\<rparr>)"

definition schar :: "char \<Rightarrow> int" where
  "schar c = (let n = of_char c :: nat in if n < 128 then int n else int n - 256)"

text \<open>
  The outcome of comparing one entry with the key.  \<open>Outside\<close> is a read behind the end of the mapping.
\<close>

datatype probe = GoRight | GoLeft | Found string | Outside

fun compare_entry :: "string \<Rightarrow> string \<Rightarrow> probe" where
  "compare_entry [] key = Outside"
| "compare_entry (p # ps) [] = (if p \<noteq> CHR ''='' then GoLeft else Found (takeWhile (\<lambda>c. c \<noteq> CHR 0x00) ps))"
| "compare_entry (p # ps) (k # ks) =
     (if p = CHR ''='' then GoRight
      else if schar p < schar k then GoRight
      else if schar p > schar k then GoLeft
      else compare_entry ps ks)"

definition offset_at :: "vardict \<Rightarrow> int \<Rightarrow> nat" where
  "offset_at vd cur = bytes_u32 (drop (4 * nat cur) (offsets vd))"

text \<open>
  The binary search.  The result \<open>None\<close> is a read behind the mapping; \<open>Some None\<close> is NULL, also
  after an offset out of bounds.
\<close>

function search_var :: "vardict \<Rightarrow> string \<Rightarrow> int \<Rightarrow> int \<Rightarrow> string option option" where
  "search_var vd key left right =
     (let half = (right - left) div 2 in
      if half \<le> 0 then Some None
      else let cur = half + left in
        if cur \<ge> int (num_entries vd) then Some None
        else if offset_at vd cur \<ge> vd_len vd then Some None
        else case compare_entry (drop (offset_at vd cur) (entries vd)) key of
          Outside \<Rightarrow> None
        | Found v \<Rightarrow> Some (Some v)
        | GoRight \<Rightarrow> search_var vd key cur right
        | GoLeft \<Rightarrow> search_var vd key left cur)"
  by auto
termination
  by (relation "measure (\<lambda>(_, _, left, right). nat (right - left))") auto

declare search_var.simps [simp del]

definition tup_config_var :: "vardict \<Rightarrow> string \<Rightarrow> string option option" where
  "tup_config_var vd key = search_var vd key (-1) (int (num_entries vd))"

section \<open>The layout of a saved file\<close>

lemma u32_length [simp]: "length (u32_bytes n) = 4"
  by (simp add: u32_bytes_def)

lemma u32_roundtrip: "n < 2 ^ 32 \<Longrightarrow> bytes_u32 (u32_bytes n @ s) = n"
proof -
  assume n: "n < 2 ^ 32"
  have "n mod 256 + n div 256 mod 256 * 256 + n div 65536 mod 256 * 65536 + n div 16777216 * 16777216 = n"
  proof -
    define a b c where "a = n div 256" and "b = a div 256" and "c = b div 256"
    have "n = 256 * a + n mod 256" "a = 256 * b + a mod 256" "b = 256 * c + b mod 256"
      by (simp_all add: a_def b_def c_def)
    moreover have "n div 65536 = b" "n div 16777216 = c" by (simp_all add: a_def b_def c_def div_mult2_eq [symmetric])
    ultimately show ?thesis unfolding a_def [symmetric] by (simp only:)
  qed
  moreover have "n div 16777216 mod 256 = n div 16777216" using n by (simp add: less_mult_imp_div_less)
  ultimately show ?thesis by (simp add: bytes_u32_def u32_bytes_def of_char_of)
qed

fun starts :: "nat \<Rightarrow> var_line list \<Rightarrow> nat list" where
  "starts x [] = []"
| "starts x (ve # vs) = x # starts (x + length (entry_bytes ve)) vs"

abbreviation blob :: "var_line list \<Rightarrow> string" where
  "blob vs \<equiv> concat (map entry_bytes vs)"

lemma starts_length [simp]: "length (starts x vs) = length vs"
  by (induction vs arbitrary: x) simp_all

lemma starts_nth:
  "i < length vs \<Longrightarrow> starts x vs ! i = x + length (blob (take i vs))"
  by (induction vs arbitrary: x i) (auto simp: nth_Cons' split: nat.splits simp flip: Suc_pred' simp: take_Cons')

lemma blob_at:
  "i < length vs \<Longrightarrow> drop (length (blob (take i vs))) (blob vs) = entry_bytes (vs ! i) @ blob (drop (Suc i) vs)"
proof -
  assume i: "i < length vs"
  have "blob vs = blob (take i vs) @ blob (drop i vs)" by (metis append_take_drop_id concat_append map_append)
  moreover have "drop i vs = vs ! i # drop (Suc i) vs" using i by (rule Cons_nth_drop_Suc [symmetric])
  ultimately show ?thesis by simp
qed

lemma index_bytes_at:
  assumes "x + length (blob vs) < 2 ^ 32" and "i < length vs"
  shows "bytes_u32 (drop (4 * i) (index_bytes x vs @ s)) = starts x vs ! i"
  using assms
proof (induction vs arbitrary: x i)
  case (Cons ve vs)
  have len: "length (entry_bytes ve) = length (v_name ve) + 1 + length (v_value ve) + 1" by (simp add: entry_bytes_def)
  show ?case
  proof (cases i)
    case 0
    then show ?thesis using Cons.prems(1) by (simp add: u32_roundtrip)
  next
    case (Suc j)
    have m: "(x + length (v_name ve) + 1 + length (v_value ve) + 1) mod 2 ^ 32 = x + length (entry_bytes ve)"
      using Cons.prems(1) len by simp
    have "x + length (entry_bytes ve) + length (blob vs) < 2 ^ 32" using Cons.prems(1) by simp
    from Cons.IH [OF this, of j] Cons.prems(2) Suc show ?thesis by (simp only: index_bytes.simps m) simp
  qed
qed simp

lemma index_bytes_length: "length (index_bytes x vs) = 4 * length vs"
  by (induction vs arbitrary: x) simp_all

section \<open>The search\<close>

definition ascii :: "string \<Rightarrow> bool" where
  "ascii s \<longleftrightarrow> list_all (\<lambda>c. of_char c < (128 :: nat)) s"

lemma schar_less: "of_char a < (128 :: nat) \<Longrightarrow> of_char b < (128 :: nat) \<Longrightarrow> schar a < schar b \<longleftrightarrow> a < b"
  by (simp add: schar_def less_char_def)

text \<open>A name ends at the equals sign, so an entry compares with the key as its name does.\<close>

lemma compare_name:
  assumes "ascii nm" and "ascii key" and "CHR ''='' \<notin> set nm"
  shows "compare_entry (nm @ ''='' @ v @ CHR 0x00 # s) key =
    (if nm < key then GoRight else if key < nm then GoLeft else Found (takeWhile (\<lambda>c. c \<noteq> CHR 0x00) v))"
  using assms
proof (induction nm arbitrary: key)
  case Nil
  have "takeWhile (\<lambda>c. c \<noteq> CHR 0x00) (v @ CHR 0x00 # s) = takeWhile (\<lambda>c. c \<noteq> CHR 0x00) v" by (induction v) simp_all
  then show ?case by (cases key) simp_all
next
  case (Cons n nm)
  then show ?case by (cases key) (auto simp: ascii_def schar_less)
qed

text \<open>A well-formed \<^verbatim>\<open>vardb\<close>: names in increasing order, C strings, and a file smaller than 4 GB.\<close>

definition size_ok :: "var_line list \<Rightarrow> bool" where
  "size_ok vs \<longleftrightarrow> 4 + 4 * length vs + length (blob vs) < 2 ^ 31"

definition vardb_ok :: "var_line list \<Rightarrow> bool" where
  "vardb_ok vs \<longleftrightarrow> sorted_wrt (<) (map v_name vs)
     \<and> list_all (\<lambda>ve. ascii (v_name ve) \<and> CHR ''='' \<notin> set (v_name ve) \<and> CHR 0x00 \<notin> set (v_value ve)) vs
     \<and> size_ok vs"

definition lookup_var :: "var_line list \<Rightarrow> string \<Rightarrow> string option" where
  "lookup_var vs key = map_of (map (\<lambda>ve. (v_name ve, v_value ve)) vs) key"

definition saved :: "var_line list \<Rightarrow> vardict" where
  "saved vs = \<lparr>vd_len = 4 + 4 * length vs + length (blob vs), num_entries = length vs,
     offsets = index_bytes 0 vs @ blob vs, entries = blob vs\<rparr>"

lemma init_saved:
  assumes "size_ok vs"
  shows "tup_vardict_init (Some (save_vardict_file vs)) = Some (saved vs)"
proof -
  have b: "4 + 4 * length vs + length (blob vs) < 2 ^ 31" using assms by (simp add: size_ok_def)
  have len: "length (save_vardict_file vs) = 4 + 4 * length vs + length (blob vs)"
    by (simp add: save_vardict_file_def index_bytes_length)
  have n: "bytes_u32 (save_vardict_file vs) = length vs"
    unfolding save_vardict_file_def using b by (intro u32_roundtrip) simp
  have d: "drop 4 (save_vardict_file vs) = index_bytes 0 vs @ blob vs" by (simp add: save_vardict_file_def)
  have "drop (4 + 4 * length vs) (save_vardict_file vs) = drop (4 * length vs) (drop 4 (save_vardict_file vs))" by (simp add: add.commute)
  also have "\<dots> = blob vs" unfolding d by (simp add: index_bytes_length)
  finally have e: "drop (4 + 4 * length vs) (save_vardict_file vs) = blob vs" .
  have m: "(4 + 4 * length vs) mod 2 ^ 32 = 4 + 4 * length vs"
    "(4 + 4 * length vs + length (blob vs)) mod 2 ^ 32 = 4 + 4 * length vs + length (blob vs)" using b by simp_all
  show ?thesis
    unfolding tup_vardict_init_def option.case Let_def len m n d e saved_def by simp
qed

lemma saved_offset:
  assumes "size_ok vs" and "0 \<le> cur" and "cur < int (length vs)"
  shows "offset_at (saved vs) cur < vd_len (saved vs)"
    and "drop (offset_at (saved vs) cur) (entries (saved vs)) = entry_bytes (vs ! nat cur) @ blob (drop (Suc (nat cur)) vs)"
proof -
  have i: "nat cur < length vs" using assms(2,3) by simp
  have "0 + length (blob vs) < 2 ^ 32" using assms(1) by (simp add: size_ok_def)
  then have o: "offset_at (saved vs) cur = length (blob (take (nat cur) vs))"
    using index_bytes_at [OF _ i, of 0 "blob vs"] starts_nth [OF i, of 0] by (simp add: offset_at_def saved_def)
  have "length (blob vs) = length (blob (take (nat cur) vs)) + length (blob (drop (nat cur) vs))"
    by (metis append_take_drop_id concat_append length_append map_append)
  then show "offset_at (saved vs) cur < vd_len (saved vs)" unfolding o by (simp add: saved_def)
  show "drop (offset_at (saved vs) cur) (entries (saved vs)) = entry_bytes (vs ! nat cur) @ blob (drop (Suc (nat cur)) vs)"
    unfolding o using blob_at [OF i] by (simp add: saved_def)
qed

lemma search_saved:
  assumes ok: "vardb_ok vs" and key: "ascii key" and "-1 \<le> left" and "left < right" and "right \<le> int (length vs)"
    and "\<forall>i. int i \<le> left \<longrightarrow> v_name (vs ! i) < key" and "\<forall>i < length vs. right \<le> int i \<longrightarrow> key < v_name (vs ! i)"
  shows "search_var (saved vs) key left right = Some (lookup_var vs key)"
  using assms(3-)
proof (induction "nat (right - left)" arbitrary: left right rule: less_induct)
  case less
  have names: "sorted_wrt (<) (map v_name vs)" using ok by (simp add: vardb_ok_def)
  have mono: "v_name (vs ! i) < v_name (vs ! j)" if "i < j" "j < length vs" for i j
    using sorted_wrt_nth_less [OF names that(1)] that by simp
  let ?half = "(right - left) div 2"
  show ?case
  proof (cases "?half \<le> 0")
    case True
    then have "right = left + 1" using less.prems(2) by linarith
    then have "\<forall>i < length vs. v_name (vs ! i) \<noteq> key" using less.prems(4,5) by (metis less_irrefl zle_add1_eq_le not_le)
    then have "lookup_var vs key = None" by (auto simp: lookup_var_def map_of_eq_None_iff in_set_conv_nth)
    then show ?thesis using True by (simp add: search_var.simps)
  next
    case False
    define cur where "cur = ?half + left"
    have cur: "left < cur" "cur < right" "0 \<le> cur" "cur < int (length vs)"
      using False less.prems(1-3) by (simp_all add: cur_def)
    define ve where "ve = vs ! nat cur"
    have mem: "ve \<in> set vs" using cur(3,4) by (simp add: ve_def)
    then have good: "ascii (v_name ve)" "CHR ''='' \<notin> set (v_name ve)" "CHR 0x00 \<notin> set (v_value ve)"
      using ok by (auto simp: vardb_ok_def list_all_iff)
    have "size_ok vs" using ok by (simp add: vardb_ok_def)
    note so = saved_offset [OF this cur(3,4)]
    have val: "takeWhile (\<lambda>c. c \<noteq> CHR 0x00) (v_value ve) = v_value ve" using good(3) by (simp add: takeWhile_eq_all_conv) blast
    have cmp: "compare_entry (drop (offset_at (saved vs) cur) (entries (saved vs))) key =
       (if v_name ve < key then GoRight else if key < v_name ve then GoLeft else Found (v_value ve))"
      unfolding so(2) using compare_name [OF good(1) key good(2), of "v_value ve"] val
      by (simp add: entry_bytes_def ve_def [symmetric])
    have step: "search_var (saved vs) key left right =
       (if v_name ve < key then search_var (saved vs) key cur right
        else if key < v_name ve then search_var (saved vs) key left cur else Some (Some (v_value ve)))"
      using False so(1) cur(4) cmp by (subst search_var.simps) (simp add: Let_def cur_def [symmetric] saved_def)
    consider "v_name ve < key" | "key < v_name ve" | "v_name ve = key" by (rule linorder_cases)
    then show ?thesis
    proof cases
      case 1
      have "v_name (vs ! i) < key" if "int i \<le> cur" for i
      proof (cases "int i = cur")
        case True
        then show ?thesis using 1 by (auto simp: ve_def)
      next
        case False
        then have "i < nat cur" using that by linarith
        then have "v_name (vs ! i) < v_name ve" using mono [of i "nat cur"] cur(3,4) by (simp add: ve_def)
        then show ?thesis using 1 by (rule less_trans)
      qed
      then show ?thesis using step 1 less.hyps [of right cur] cur less.prems by simp
    next
      case 2
      have "key < v_name (vs ! i)" if "i < length vs" "cur \<le> int i" for i
      proof (cases "int i = cur")
        case True
        then show ?thesis using 2 by (auto simp: ve_def)
      next
        case False
        then have "nat cur < i" using that cur(3) by linarith
        then have "v_name ve < v_name (vs ! i)" using mono [of "nat cur" i] that(1) by (simp add: ve_def)
        with 2 show ?thesis by (rule less_trans)
      qed
      moreover have "\<not> v_name ve < key" using 2 by simp
      ultimately show ?thesis using step 2 less.hyps [of cur left] cur less.prems by simp
    next
      case 3
      have "distinct (map fst (map (\<lambda>ve. (v_name ve, v_value ve)) vs))"
        using names by (simp add: comp_def strict_sorted_iff)
      then have "lookup_var vs key = Some (v_value ve)"
        unfolding lookup_var_def using mem 3 by (intro map_of_is_SomeI) auto
      then show ?thesis using step 3 by simp
    qed
  qed
qed

text \<open>
  C30: reading back a saved \<^verbatim>\<open>vardict\<close> file finds every variable.  The names are of ASCII characters
  (1 to 127, for which the signed comparison of the search agrees with \<^verbatim>\<open>strcmp\<close>), in strictly increasing order of
  \<^verbatim>\<open>strcmp\<close> and without an equals sign, the values have no NUL, the file is smaller than \<open>2 ^ 31\<close>
  bytes, and the key is ASCII as well: then the file is accepted, the binary search of
  \<^verbatim>\<open>tup_config_var\<close> ends, never reads behind the mapping, and returns the value saved for the
  key, or NULL if there is none.
\<close>

theorem vardict_roundtrip:
  assumes "vardb_ok vs" and "ascii key"
  shows "\<exists>vd. tup_vardict_init (Some (save_vardict_file vs)) = Some vd \<and> tup_config_var vd key = Some (lookup_var vs key)"
proof -
  have "tup_config_var (saved vs) key = Some (lookup_var vs key)"
    unfolding tup_config_var_def using search_saved [OF assms, of "-1" "int (num_entries (saved vs))"] by (simp add: saved_def)
  moreover have "size_ok vs" using assms(1) by (simp add: vardb_ok_def)
  ultimately show ?thesis using init_saved by (intro exI conjI)
qed

theorem vardict_roundtrip_witness:
  "\<exists>vd. tup_vardict_init (Some (save_vardict_file [\<lparr>v_name = ''A'', v_value = ''y''\<rparr>, \<lparr>v_name = ''A1'', v_value = ''x=2''\<rparr>])) = Some vd
     \<and> tup_config_var vd ''A1'' = Some (Some ''x=2'')"
proof -
  have "vardb_ok [\<lparr>v_name = ''A'', v_value = ''y''\<rparr>, \<lparr>v_name = ''A1'', v_value = ''x=2''\<rparr>]"
    by (simp add: vardb_ok_def size_ok_def ascii_def entry_bytes_def)
  from vardict_roundtrip [OF this, of "''A1''"] show ?thesis by (simp add: ascii_def lookup_var_def)
qed

text \<open>
  Also: with names outside ASCII the two sides disagree about the order, since \<^verbatim>\<open>strcmp\<close> compares
  bytes as unsigned and \<^verbatim>\<open>tup_config_var\<close> compares plain (signed) chars: a variable that was
  saved is not found.
\<close>

theorem vardict_signed_chars:
  "sorted_wrt (<) (map v_name [\<lparr>v_name = ''a'', v_value = ''1''\<rparr>, \<lparr>v_name = [CHR 0xC3], v_value = ''2''\<rparr>])
   \<and> (case tup_vardict_init (Some (save_vardict_file [\<lparr>v_name = ''a'', v_value = ''1''\<rparr>, \<lparr>v_name = [CHR 0xC3], v_value = ''2''\<rparr>])) of
       None \<Rightarrow> False
     | Some vd \<Rightarrow> tup_config_var vd [CHR 0xC3] = Some None)
   \<and> lookup_var [\<lparr>v_name = ''a'', v_value = ''1''\<rparr>, \<lparr>v_name = [CHR 0xC3], v_value = ''2''\<rparr>] [CHR 0xC3] = Some ''2''"
proof -
  let ?vs = "[\<lparr>v_name = ''a'', v_value = ''1''\<rparr>, \<lparr>v_name = [CHR 0xC3], v_value = ''2''\<rparr>]"
  have size: "size_ok ?vs" by (simp add: size_ok_def entry_bytes_def)
  note so = saved_offset [OF size, of 0]
  have "search_var (saved ?vs) [CHR 0xC3] (-1) 2 = search_var (saved ?vs) [CHR 0xC3] (-1) 0"
    using so by (subst search_var.simps) (simp add: saved_def entry_bytes_def schar_def)
  also have "\<dots> = Some None" by (simp add: search_var.simps)
  finally have "tup_config_var (saved ?vs) [CHR 0xC3] = Some None" by (simp add: tup_config_var_def saved_def)
  then show ?thesis using init_saved [OF size] by (simp add: lookup_var_def less_char_def)
qed

end
