(* ===== verification/Exec.thy ===== *)
theory Exec
  imports Graph_Inv
begin

text \<open>
  The parallel execution of a graph (\<^verbatim>\<open>execute_graph\<close>, \<^verbatim>\<open>pop_node\<close> and the worker
  threads of \<^verbatim>\<open>src/src/tup/updater.c\<close>).  The main thread is a program counter over the two loops of
  \<^verbatim>\<open>execute_graph\<close>; a worker is an index, and the three lists of workers hold indices.  A step is taken
  by the main thread, by a worker that ends the function it runs, or by the server that dies (a signal), in any
  order.  The function a worker runs is the parameter \<open>work\<close>, whose state \<open>'w\<close> is everything outside of the
  graph.  Mutexes and condition variables protect the three lists; each critical section is within one step.
\<close>

section \<open>Popping a node\<close>

text \<open>A node that an edge leads to goes back to \<open>plist\<close>.\<close>

definition wake :: "tupid \<Rightarrow> graph \<Rightarrow> graph option" where
  "wake b g = do {
     m \<leftarrow> find_node g b;
     if n_state m \<noteq> STATE_PROCESSING
     then do {
       g1 \<leftarrow> node_remove_list NODE_LIST b g;
       g2 \<leftarrow> node_insert_head PLIST b g1;
       Some (set_state b STATE_PROCESSING g2)}
     else Some g}"

text \<open>
  One iteration of the loop of \<^verbatim>\<open>pop_node\<close>, on the first edge.  The loop never ends on a transient node
  with an edge to itself.
\<close>

definition pop_edge :: "tupid \<Rightarrow> edge \<Rightarrow> graph \<Rightarrow> graph option" where
  "pop_edge t e g = do {
     g1 \<leftarrow> wake (e_dest e) g;
     n \<leftarrow> find_node g1 t;
     Some (remove_edge e (if transient n = TRANSIENT_PROCESSING then create_edge (e_dest e) t TUP_LINK_NORMAL g1 else g1))}"

partial_function (option) pop_edges :: "tupid \<Rightarrow> graph \<Rightarrow> bool \<Rightarrow> (graph \<times> bool) option option" where
  "pop_edges t g has_edges = (case edges_of g t of
     [] \<Rightarrow> Some (Some (g, has_edges))
   | e # _ \<Rightarrow> (case pop_edge t e g of None \<Rightarrow> Some None | Some g' \<Rightarrow> pop_edges t g' True))"

definition retire :: "tupid \<Rightarrow> graph \<Rightarrow> bool \<Rightarrow> graph option" where
  "retire t g has_edges = do {
     n \<leftarrow> find_node g t;
     if transient n = TRANSIENT_PROCESSING
     then do {
       g1 \<leftarrow> node_insert_head (if has_edges then NODE_LIST else PLIST) t g;
       Some (upd_node t (\<lambda>n. n\<lparr>n_state := STATE_FINISHED, transient := TRANSIENT_DELETE\<rparr>) g1)}
     else Some (remove_node g t)}"

text \<open>The outer \<open>None\<close> is a loop that never ends, \<open>Some None\<close> is \<open>-1\<close>.\<close>

definition pop_node :: "tupid \<Rightarrow> graph \<Rightarrow> graph option option" where
  "pop_node t g = do {
     r \<leftarrow> pop_edges t g False;
     Some (do { (g1, has_edges) \<leftarrow> r; retire t g1 has_edges })}"

section \<open>Threads\<close>

record worker_thread =
  wt_n :: "tupid option"
  wt_retn :: "tupid option"
  wt_rc :: int

datatype pc = Dispatch | Check_Empties | Exited int

record 'w exec =
  x_graph :: graph
  x_world :: 'w
  workers :: "nat \<Rightarrow> worker_thread"
  free_list :: "nat list"
  busy_list :: "nat list"
  fin_list :: "nat list"
  active :: int
  failed :: int
  server_is_dead :: bool
  x_pc :: pc

text \<open>What an observer sees: a node is handed to a worker, comes back, is popped, or stays because it failed.\<close>

datatype event = Started tupid | Returned tupid int | Popped tupid | Failed tupid

type_synonym 'w work = "tupid \<Rightarrow> 'w \<times> graph \<Rightarrow> int \<times> 'w \<times> graph"

definition new_worker :: worker_thread where
  "new_worker = \<lparr>wt_n = None, wt_retn = None, wt_rc = -1\<rparr>"

definition exec_init :: "nat \<Rightarrow> 'w \<Rightarrow> graph \<Rightarrow> 'w exec" where
  "exec_init jobs w g = \<lparr>x_graph = g, x_world = w, workers = (\<lambda>_. new_worker), free_list = rev [0..<jobs],
     busy_list = [], fin_list = [], active = 0, failed = 0, server_is_dead = False, x_pc = Dispatch\<rparr>"

text \<open>A system call or an internal check failed: the function returns \<open>-2\<close>.\<close>

definition abort :: "'w exec \<Rightarrow> 'w exec" where
  "abort s = s\<lparr>x_pc := Exited (-2)\<rparr>"

definition pop_in :: "tupid \<Rightarrow> pc \<Rightarrow> 'w exec \<Rightarrow> (event list \<times> 'w exec) option" where
  "pop_in t next s = (case pop_node t (x_graph s) of
     None \<Rightarrow> None
   | Some None \<Rightarrow> Some ([], abort s)
   | Some (Some g) \<Rightarrow> Some ([Popped t], s\<lparr>x_graph := g, x_pc := next\<rparr>))"

text \<open>The start: the first node of \<open>node_list\<close> is the root.\<close>

definition exec_start :: "nat \<Rightarrow> 'w \<Rightarrow> graph \<Rightarrow> (event list \<times> 'w exec) option" where
  "exec_start jobs w g = (case node_list g of
     [] \<Rightarrow> None
   | root # _ \<Rightarrow> (case node_remove_list NODE_LIST root g of
       None \<Rightarrow> Some ([], abort (exec_init jobs w g))
     | Some g1 \<Rightarrow> pop_in root Dispatch (exec_init jobs w g1)))"

definition loop_cond :: "bool \<Rightarrow> 'w exec \<Rightarrow> bool" where
  "loop_cond keep_going s \<longleftrightarrow> plist (x_graph s) \<noteq> [] \<and> \<not> server_is_dead s \<and> (failed s = 0 \<or> keep_going)"

definition wait_cond :: "bool \<Rightarrow> 'w exec \<Rightarrow> bool" where
  "wait_cond keep_going s \<longleftrightarrow> free_list s = []
     \<or> (plist (x_graph s) = [] \<or> server_is_dead s \<or> (failed s \<noteq> 0 \<and> \<not> keep_going)) \<and> active s \<noteq> 0"

text \<open>The worker function takes over the node; \<open>None\<close> would be a NULL pointer.\<close>

definition start_worker :: "tupid \<Rightarrow> 'w exec \<Rightarrow> (event list \<times> 'w exec) option" where
  "start_worker t s = (case free_list s of
     [] \<Rightarrow> None
   | wt # free \<Rightarrow> Some ([Started t],
       s\<lparr>active := active s + 1, free_list := free, busy_list := wt # busy_list s,
         workers := (workers s)(wt := (workers s wt)\<lparr>wt_n := Some t, wt_rc := -1\<rparr>), x_pc := Check_Empties\<rparr>))"

text \<open>The body of the outer loop up to \<^verbatim>\<open>check_empties\<close>.\<close>

definition dispatch :: "'w exec \<Rightarrow> (event list \<times> 'w exec) option" where
  "dispatch s = (case plist (x_graph s) of
     [] \<Rightarrow> None
   | t # _ \<Rightarrow> (case find_node (x_graph s) t of
       None \<Rightarrow> None
     | Some n \<Rightarrow> (case node_remove_list PLIST t (x_graph s) of
         None \<Rightarrow> Some ([], abort s)
       | Some g1 \<Rightarrow>
           if n_incoming n \<noteq> []
           then (case node_insert_head NODE_LIST t g1 of
                   None \<Rightarrow> Some ([], abort s)
                 | Some g2 \<Rightarrow> Some ([], s\<lparr>x_graph := set_state t STATE_FINISHED g2, x_pc := Check_Empties\<rparr>))
           else if \<not> expanded n then pop_in t Check_Empties (s\<lparr>x_graph := g1\<rparr>)
           else start_worker t (s\<lparr>x_graph := g1\<rparr>))))"

text \<open>The body of the inner loop, with the first finished worker.\<close>

definition collect :: "'w exec \<Rightarrow> (event list \<times> 'w exec) option" where
  "collect s = (case fin_list s of
     [] \<Rightarrow> None
   | wt # fin \<Rightarrow> (case wt_retn (workers s wt) of
       None \<Rightarrow> None
     | Some t \<Rightarrow>
         let s1 = s\<lparr>workers := (workers s)(wt := (workers s wt)\<lparr>wt_retn := None\<rparr>), fin_list := fin,
                    free_list := wt # free_list s, active := active s - 1\<rparr> in
         if wt_rc (workers s wt) = 0 then pop_in t Check_Empties s1
         else (case node_insert_tail NODE_LIST t (x_graph s1) of
                 None \<Rightarrow> Some ([], abort s1)
               | Some g \<Rightarrow> Some ([Failed t], s1\<lparr>x_graph := g, failed := failed s1 + 1\<rparr>))))"

definition exec_rc :: "'w exec \<Rightarrow> int" where
  "exec_rc s = (if server_is_dead s then -1
     else if failed s \<noteq> 0 then -1
     else if node_list (x_graph s) \<noteq> [] \<or> plist (x_graph s) \<noteq> [] then -1
     else 0)"

text \<open>\<^verbatim>\<open>run_thread\<close> and \<^verbatim>\<open>worker_ret\<close>: the function runs and the worker moves to \<open>fin_list\<close>.\<close>

definition worker_ret :: "'w work \<Rightarrow> nat \<Rightarrow> 'w exec \<Rightarrow> (event list \<times> 'w exec) option" where
  "worker_ret work wt s = (case wt_n (workers s wt) of
     None \<Rightarrow> None
   | Some t \<Rightarrow>
       if wt \<in> set (busy_list s)
       then (case work t (x_world s, x_graph s) of (rc, w, g) \<Rightarrow>
         Some ([Returned t rc],
           s\<lparr>x_graph := g, x_world := w, busy_list := remove1 wt (busy_list s), fin_list := wt # fin_list s,
             workers := (workers s)(wt := (workers s wt)\<lparr>wt_n := None, wt_retn := Some t, wt_rc := rc\<rparr>)\<rparr>))
       else None)"

text \<open>Who takes the next step.\<close>

datatype actor = Main | Worker nat | Signal

fun exec_next :: "'w work \<Rightarrow> bool \<Rightarrow> actor \<Rightarrow> 'w exec \<Rightarrow> (event list \<times> 'w exec) option" where
  "exec_next work keep_going Main s =
     (case x_pc s of
        Dispatch \<Rightarrow> if loop_cond keep_going s then dispatch s else Some ([], s\<lparr>x_pc := Exited (exec_rc s)\<rparr>)
      | Check_Empties \<Rightarrow> if wait_cond keep_going s then collect s else Some ([], s\<lparr>x_pc := Dispatch\<rparr>)
      | Exited rc \<Rightarrow> None)"
| "exec_next work keep_going (Worker wt) s = worker_ret work wt s"
| "exec_next work keep_going Signal s = (if server_is_dead s then None else Some ([], s\<lparr>server_is_dead := True\<rparr>))"

text \<open>The schedule, what was seen, and the state that was reached.\<close>

inductive exec_run :: "'w work \<Rightarrow> bool \<Rightarrow> nat \<Rightarrow> 'w \<Rightarrow> graph \<Rightarrow> actor list \<Rightarrow> event list \<Rightarrow> 'w exec \<Rightarrow> bool"
  for work keep_going jobs w g where
  start: "exec_start jobs w g = Some (evs, s) \<Longrightarrow> exec_run work keep_going jobs w g [] evs s"
| move: "exec_run work keep_going jobs w g acts tr s \<Longrightarrow> exec_next work keep_going a s = Some (evs, s')
    \<Longrightarrow> exec_run work keep_going jobs w g (acts @ [a]) (tr @ evs) s'"

end
