(* ===== verification/Exec_Pop.thy ===== *)
theory Exec_Pop
  imports Exec
begin

text \<open>What \<^verbatim>\<open>pop_node\<close> does to the arcs, the queues and the fields of the nodes.\<close>

section \<open>Views of a graph\<close>

definition node_ids :: "graph \<Rightarrow> tupid set" where
  "node_ids g = {t. find_node g t \<noteq> None}"

definition in_state :: "graph \<Rightarrow> node_state \<Rightarrow> tupid set" where
  "in_state g s = {t. map_option n_state (find_node g t) = Some s}"

definition transients :: "graph \<Rightarrow> transient_type \<Rightarrow> tupid set" where
  "transients g k = {t. map_option transient (find_node g t) = Some k}"

definition is_expanded :: "graph \<Rightarrow> tupid set" where
  "is_expanded g = {t. map_option expanded (find_node g t) = Some True}"

lemma incoming_empty: "graph_ok g \<Longrightarrow> incoming_of g t = [] \<longleftrightarrow> (\<forall>a. (a, t) \<notin> arcs g)"
proof -
  assume "graph_ok g"
  then have "set (incoming_of g t) = {e \<in> graph_edges g. e_dest e = t}"
    using incoming_mem by (auto simp: graph_ok_def)
  then have "incoming_of g t = [] \<longleftrightarrow> {e \<in> graph_edges g. e_dest e = t} = {}" by (metis set_empty)
  then show ?thesis by (auto simp: arcs_def)
qed

lemma edges_empty: "graph_ok g \<Longrightarrow> edges_of g t = [] \<longleftrightarrow> (\<forall>b. (t, b) \<notin> arcs g)"
proof -
  assume "graph_ok g"
  then have "set (edges_of g t) = {e \<in> graph_edges g. e_src e = t}"
    using edges_mem by (auto simp: graph_ok_def)
  then have "edges_of g t = [] \<longleftrightarrow> {e \<in> graph_edges g. e_src e = t} = {}" by (metis set_empty)
  then show ?thesis by (auto simp: arcs_def)
qed

lemma edge_nodes:
  assumes "graph_ok g" and "(a, b) \<in> arcs g"
  shows "a \<in> node_ids g" and "b \<in> node_ids g"
proof -
  obtain e where e: "e \<in> graph_edges g" "e_src e = a" "e_dest e = b" using assms(2) by (auto simp: arcs_def)
  have "e \<in> set (edges_of g a)" "e \<in> set (incoming_of g b)"
    using e assms(1) edges_mem incoming_mem by (auto simp: graph_ok_def)
  then show "a \<in> node_ids g" "b \<in> node_ids g" by (cases "find_node g a"; cases "find_node g b"; auto simp: node_ids_def edges_of_def incoming_of_def)+
qed

lemma put_state_find [simp]:
  "find_node (set_state t s g) x = (if x = t then map_option (\<lambda>n. n\<lparr>n_state := s\<rparr>) (find_node g t) else find_node g x)"
  by (simp add: set_state_def)

lemma put_state_ok: "graph_ok g \<Longrightarrow> graph_ok (set_state t s g)"
  unfolding set_state_def by (rule graph_ok_upd_node) simp_all

lemma put_state_edges [simp]:
  "edges_of (set_state t s g) = edges_of g" "incoming_of (set_state t s g) = incoming_of g"
  "queue L (set_state t s g) = queue L g" "next_edge (set_state t s g) = next_edge g"
  by (auto simp: set_state_def edges_of_def incoming_of_def fun_eq_iff split: option.split)

lemma put_state_arcs [simp]: "arcs (set_state t s g) = arcs g" "graph_edges (set_state t s g) = graph_edges g"
  by (simp_all add: arcs_def graph_edges_def)

section \<open>One edge\<close>

text \<open>The fields of a node that no step of the loop changes.\<close>

definition kept :: "node \<Rightarrow> tup_entry \<times> bool \<times> bool \<times> transient_type" where
  "kept n = (n_tent n, expanded n, counted n, transient n)"

definition fixed :: "node \<Rightarrow> (tup_entry \<times> bool \<times> bool \<times> transient_type) \<times> bool" where
  "fixed n = (kept n, skip n)"

abbreviation kept_of :: "graph \<Rightarrow> tupid \<Rightarrow> (tup_entry \<times> bool \<times> bool \<times> transient_type) option" where
  "kept_of g t \<equiv> map_option kept (find_node g t)"

abbreviation fixed_of :: "graph \<Rightarrow> tupid \<Rightarrow> ((tup_entry \<times> bool \<times> bool \<times> transient_type) \<times> bool) option" where
  "fixed_of g t \<equiv> map_option fixed (find_node g t)"

lemma fixed_kept: "fixed_of g' x = fixed_of g x \<Longrightarrow> kept_of g' x = kept_of g x"
  by (cases "find_node g' x"; cases "find_node g x"; simp add: fixed_def)

lemma kept_ids: "(\<And>x. kept_of g' x = kept_of g x) \<Longrightarrow> node_ids g' = node_ids g"
proof -
  assume f: "\<And>x. kept_of g' x = kept_of g x"
  have "find_node g' x = None \<longleftrightarrow> find_node g x = None" for x using f [of x] by (metis option.map_disc_iff)
  then show ?thesis by (simp add: node_ids_def)
qed

lemma wake_ok:
  assumes ok: "graph_ok g" and b: "b \<in> node_ids g" and nl: "b \<notin> in_state g STATE_PROCESSING \<Longrightarrow> b \<in> set (node_list g)"
  obtains g' where "wake b g = Some g'" "graph_ok g'" "edges_of g' = edges_of g" "incoming_of g' = incoming_of g"
    "set (node_list g') = set (node_list g) - (if b \<in> in_state g STATE_PROCESSING then {} else {b})"
    "set (plist g') = set (plist g) \<union> (if b \<in> in_state g STATE_PROCESSING then {} else {b})"
    "removing_list g' = removing_list g" "next_edge g' = next_edge g"
    "\<And>x. fixed_of g' x = fixed_of g x"
    "\<And>x. map_option n_state (find_node g' x) = (if x = b then Some STATE_PROCESSING else map_option n_state (find_node g x))"
proof -
  obtain m where m: "find_node g b = Some m" using b by (auto simp: node_ids_def)
  show thesis
  proof (cases "n_state m = STATE_PROCESSING")
    case True
    then show ?thesis using m ok by (intro that [of g]) (auto simp: wake_def in_state_def)
  next
    case False
    then have nst: "b \<notin> in_state g STATE_PROCESSING" using m by (simp add: in_state_def)
    then have "b \<in> set (queue NODE_LIST g)" using nl by simp
    then have al: "active_list m = Some NODE_LIST" using ok m queues_okD(2) [of g b NODE_LIST] by (simp add: graph_ok_def)
    then obtain g1 where g1: "node_remove_list NODE_LIST b g = Some g1" using m by (simp add: node_remove_list_def)
    note r = node_remove_list_ok [OF g1 ok] node_remove_list_spec [OF g1]
    have q: "queues_ok g" using ok by (simp add: graph_ok_def)
    have f1: "find_node g1 b = Some (m\<lparr>active_list := None\<rparr>)" using r q m by simp
    then obtain g2 where g2: "node_insert_head PLIST b g1 = Some g2" by (simp add: node_insert_head_def)
    have ok1: "graph_ok g1" using r by simp
    note i = node_insert_ok [OF disjI1 [OF g2] ok1]
    have g2': "g2 = upd_node b (\<lambda>n. n\<lparr>active_list := Some PLIST\<rparr>) (set_queue PLIST (b # queue PLIST g1) g1)"
      using g2 f1 by (simp add: node_insert_head_def)
    have qs: "queue L g1 = (if L = NODE_LIST then remove1 b (queue L g) else queue L g)" for L using r(3) [OF q] by simp
    have qs2: "queue L g2 = (if L = PLIST then b # queue L g1 else queue L g1)" for L by (cases L) (simp_all add: g2')
    have nl2: "node_list g2 = remove1 b (node_list g)" using qs2 [of NODE_LIST] qs [of NODE_LIST] by simp
    have pl2: "plist g2 = b # plist g" using qs2 [of PLIST] qs [of PLIST] by simp
    have rl2: "removing_list g2 = removing_list g" using qs2 [of REMOVING_LIST] qs [of REMOVING_LIST] by simp
    have d: "distinct (node_list g)" using queues_okD(1) [OF q] by (metis queue.simps(1))
    let ?g = "set_state b STATE_PROCESSING g2"
    have ql: "node_list ?g = node_list g2" "plist ?g = plist g2" "removing_list ?g = removing_list g2"
      by (simp_all add: set_state_def)
    have fx: "find_node g2 x = (if x = b then Some (m\<lparr>active_list := Some PLIST\<rparr>) else find_node g x)" for x
      using r(5) [OF q, of x] m by (simp add: g2' f1 del: set_queue.simps)
    show ?thesis
    proof (rule that [of ?g])
      show "wake b g = Some ?g" using m False g1 g2 by (simp add: wake_def)
      show "graph_ok ?g" using i by (intro put_state_ok) simp
      show "edges_of ?g = edges_of g" "incoming_of ?g = incoming_of g" using i r by (simp_all add: fun_eq_iff)
      show "set (node_list ?g) = set (node_list g) - (if b \<in> in_state g STATE_PROCESSING then {} else {b})"
        using nst d by (simp add: ql nl2)
      show "set (plist ?g) = set (plist g) \<union> (if b \<in> in_state g STATE_PROCESSING then {} else {b})"
        using nst by (simp add: ql pl2)
      show "removing_list ?g = removing_list g" by (simp add: ql rl2)
      show "next_edge ?g = next_edge g" using i r by simp
      show "fixed_of ?g x = fixed_of g x" for x using m by (simp add: fx fixed_def kept_def)
      show "map_option n_state (find_node ?g x) = (if x = b then Some STATE_PROCESSING else map_option n_state (find_node g x))" for x
        by (simp add: fx)
    qed
  qed
qed

lemma create_edge_fixed [simp]: "fixed_of (create_edge a b k g) x = fixed_of g x"
  by (simp add: create_edge_def Let_def option.map_comp comp_def fixed_def [abs_def] kept_def [abs_def])

lemma remove_edge_fixed [simp]: "fixed_of (remove_edge e g) x = fixed_of g x"
  "map_option n_state (find_node (remove_edge e g) x) = map_option n_state (find_node g x)"
  by (simp_all add: remove_edge_def option.map_comp comp_def fixed_def [abs_def] kept_def [abs_def])

lemma fixed_ids: "(\<And>x. fixed_of g' x = fixed_of g x) \<Longrightarrow> node_ids g' = node_ids g"
proof -
  assume f: "\<And>x. fixed_of g' x = fixed_of g x"
  have "find_node g' x = None \<longleftrightarrow> find_node g x = None" for x using f [of x] by (metis option.map_disc_iff)
  then show ?thesis by (simp add: node_ids_def)
qed

lemma fixed_transient: "fixed_of g' x = fixed_of g x \<Longrightarrow> map_option transient (find_node g' x) = map_option transient (find_node g x)"
  by (cases "find_node g' x"; cases "find_node g x"; simp add: fixed_def kept_def)

definition woken :: "graph \<Rightarrow> tupid set \<Rightarrow> graph \<Rightarrow> bool" where
  "woken g D g' \<longleftrightarrow> graph_ok g'
     \<and> set (node_list g') = set (node_list g) - (D - in_state g STATE_PROCESSING)
     \<and> set (plist g') = set (plist g) \<union> (D - in_state g STATE_PROCESSING)
     \<and> removing_list g' = removing_list g \<and> (\<forall>x. fixed_of g' x = fixed_of g x)
     \<and> (\<forall>x. map_option n_state (find_node g' x) = (if x \<in> D then Some STATE_PROCESSING else map_option n_state (find_node g x)))"

lemma woken_refl: "graph_ok g \<Longrightarrow> woken g {} g"
  by (simp add: woken_def)

lemma woken_trans:
  assumes "woken g D g'" and "woken g' D' g''"
  shows "woken g (D \<union> D') g''"
proof -
  have "in_state g' STATE_PROCESSING = D \<union> in_state g STATE_PROCESSING"
    using assms(1) by (auto simp: woken_def in_state_def)
  then show ?thesis using assms unfolding woken_def by auto
qed

lemma pop_edge_ok:
  assumes ok: "graph_ok g" and e: "e \<in> set (edges_of g t)" and loop: "e_dest e \<noteq> t"
    and nl: "e_dest e \<notin> in_state g STATE_PROCESSING \<Longrightarrow> e_dest e \<in> set (node_list g)"
  obtains g' where "pop_edge t e g = Some g'" "woken g {e_dest e} g'" "set (edges_of g' t) = set (edges_of g t) - {e}"
    "length (edges_of g' t) < length (edges_of g t)"
    "{(a, b) \<in> arcs g'. a \<noteq> t} = {(a, b) \<in> arcs g. a \<noteq> t} \<union> (if t \<in> transients g TRANSIENT_PROCESSING then {(e_dest e, t)} else {})"
proof -
  let ?b = "e_dest e"
  have eg: "e \<in> graph_edges g" "e_src e = t" using e ok edges_mem by (auto simp: graph_ok_def)
  then have arc: "(t, ?b) \<in> arcs g" by (auto simp: arcs_def)
  note ids = edge_nodes [OF ok arc]
  obtain g1 where w: "wake ?b g = Some g1" "graph_ok g1" "edges_of g1 = edges_of g" "incoming_of g1 = incoming_of g"
    "set (node_list g1) = set (node_list g) - (if ?b \<in> in_state g STATE_PROCESSING then {} else {?b})"
    "set (plist g1) = set (plist g) \<union> (if ?b \<in> in_state g STATE_PROCESSING then {} else {?b})"
    "removing_list g1 = removing_list g" "next_edge g1 = next_edge g"
    "\<And>x. fixed_of g1 x = fixed_of g x"
    "\<And>x. map_option n_state (find_node g1 x) = (if x = ?b then Some STATE_PROCESSING else map_option n_state (find_node g x))"
    using wake_ok [OF ok ids(2) nl] by metis
  have wk: "woken g {?b} g1" using w by (auto simp: woken_def)
  have ids1: "t \<in> node_ids g1" "?b \<in> node_ids g1" using ids fixed_ids [OF w(9)] by auto
  obtain n where n: "find_node g1 t = Some n" using ids1 by (auto simp: node_ids_def)
  have tr: "transient n = TRANSIENT_PROCESSING \<longleftrightarrow> t \<in> transients g TRANSIENT_PROCESSING"
    using fixed_transient [OF w(9), of t] n by (cases "find_node g t") (auto simp: transients_def)
  define g2 where "g2 = (if transient n = TRANSIENT_PROCESSING then create_edge ?b t TUP_LINK_NORMAL g1 else g1)"
  have ge1: "graph_edges g1 = graph_edges g" by (simp add: graph_edges_def w(3))
  have ids': "find_node g1 ?b \<noteq> None" "find_node g1 t \<noteq> None" using ids1 by (auto simp: node_ids_def)
  have ok2: "graph_ok g2" using create_edge_ok [OF w(2) ids'] w(2) by (simp add: g2_def)
  have es2: "edges_of g2 t = edges_of g t"
    using create_edge_edges(1) [OF ids'] loop by (simp add: g2_def w(3))
  have eg2: "e \<in> graph_edges g2" unfolding graph_edges_def by (intro CollectI exI [of _ t]) (simp only: es2 e)
  have inj: "inj_on e_id (insert e (graph_edges g2))" using ok2 eg2 edges_okD(3) by (simp add: graph_ok_def insert_absorb)
  note rm = remove_edge_ok [OF ok2 inj]
  have eo2: "edges_ok g2" using ok2 by (simp add: graph_ok_def)
  have es3: "edges_of (remove_edge e g2) t = filter (\<lambda>e'. e' \<noteq> e) (edges_of g t)"
    using remove_edge_edges(1) [OF eo2 inj, of t] es2 by simp
  show thesis
  proof (rule that [of "remove_edge e g2"])
    show "pop_edge t e g = Some (remove_edge e g2)" by (simp add: pop_edge_def w(1) n g2_def)
    have q2: "queue L g2 = queue L g1" for L by (simp add: g2_def)
    have q: "queue L (remove_edge e g2) = queue L g1" for L by (simp add: q2)
    have st: "map_option n_state (find_node (remove_edge e g2) x) = map_option n_state (find_node g1 x)" for x
      by (simp add: g2_def)
    have fx: "fixed_of (remove_edge e g2) x = fixed_of g1 x" for x by (simp add: g2_def)
    show "woken g {?b} (remove_edge e g2)"
      using wk rm(1) unfolding woken_def st fx q [of NODE_LIST, unfolded queue.simps] q [of PLIST, unfolded queue.simps]
        q [of REMOVING_LIST, unfolded queue.simps] by (elim conjE) (intro conjI)
    show "set (edges_of (remove_edge e g2) t) = set (edges_of g t) - {e}" by (auto simp: es3)
    show "length (edges_of (remove_edge e g2) t) < length (edges_of g t)"
      unfolding es3 by (rule length_filter_less [OF e]) simp
    have "{e' \<in> graph_edges (remove_edge e g2). e_src e' \<noteq> t} = {e' \<in> graph_edges g2. e_src e' \<noteq> t}"
      using eg(2) by (auto simp: rm(2))
    then have "{(a, b) \<in> arcs (remove_edge e g2). a \<noteq> t} = {(a, b) \<in> arcs g2. a \<noteq> t}"
      by (fastforce simp: arcs_def set_eq_iff)
    also have "\<dots> = {(a, b) \<in> arcs g. a \<noteq> t} \<union> (if t \<in> transients g TRANSIENT_PROCESSING then {(?b, t)} else {})"
    proof -
      have "arcs g1 = arcs g" by (simp only: arcs_def ge1)
      then have "arcs g2 = (if t \<in> transients g TRANSIENT_PROCESSING then insert (?b, t) (arcs g) else arcs g)"
        using create_edge_ok [OF w(2) ids', of TUP_LINK_NORMAL] by (simp add: g2_def tr)
      then show ?thesis using loop by auto
    qed
    finally show "{(a, b) \<in> arcs (remove_edge e g2). a \<noteq> t} = \<dots>" .
  qed
qed

section \<open>The whole node\<close>

lemma pop_edges_ok:
  assumes "graph_ok g"
    and "\<And>e. e \<in> set (edges_of g t) \<Longrightarrow> e_dest e \<noteq> t \<and> (e_dest e \<notin> in_state g STATE_PROCESSING \<longrightarrow> e_dest e \<in> set (node_list g))"
  shows "\<exists>g'. pop_edges t g h = Some (Some (g', h \<or> edges_of g t \<noteq> [])) \<and> woken g (e_dest ` set (edges_of g t)) g' \<and> edges_of g' t = []
    \<and> {(a, b) \<in> arcs g'. a \<noteq> t} = {(a, b) \<in> arcs g. a \<noteq> t}
        \<union> (if t \<in> transients g TRANSIENT_PROCESSING then e_dest ` set (edges_of g t) \<times> {t} else {})"
  using assms
proof (induction "length (edges_of g t)" arbitrary: g h rule: less_induct)
  case less
  show ?case
  proof (cases "edges_of g t")
    case Nil
    then show ?thesis using less.prems(1) by (simp add: pop_edges.simps woken_refl)
  next
    case (Cons e es)
    then have e: "e \<in> set (edges_of g t)" by simp
    have dl: "e_dest e \<noteq> t" "e_dest e \<notin> in_state g STATE_PROCESSING \<Longrightarrow> e_dest e \<in> set (node_list g)"
      using less.prems(2) [OF e] by simp_all
    obtain g1 where g1: "pop_edge t e g = Some g1" "woken g {e_dest e} g1" "set (edges_of g1 t) = set (edges_of g t) - {e}"
      "length (edges_of g1 t) < length (edges_of g t)"
      "{(a, b) \<in> arcs g1. a \<noteq> t} = {(a, b) \<in> arcs g. a \<noteq> t} \<union> (if t \<in> transients g TRANSIENT_PROCESSING then {(e_dest e, t)} else {})"
      by (rule pop_edge_ok [OF less.prems(1) e dl])
    have ok1: "graph_ok g1" using g1(2) by (simp add: woken_def)
    have tr: "t \<in> transients g1 TRANSIENT_PROCESSING \<longleftrightarrow> t \<in> transients g TRANSIENT_PROCESSING"
    proof -
      have "fixed_of g1 t = fixed_of g t" using g1(2) unfolding woken_def by blast
      from fixed_transient [OF this] show ?thesis by (simp only: transients_def mem_Collect_eq)
    qed
    have pre: "e_dest e' \<noteq> t \<and> (e_dest e' \<notin> in_state g1 STATE_PROCESSING \<longrightarrow> e_dest e' \<in> set (node_list g1))"
      if "e' \<in> set (edges_of g1 t)" for e'
      using that less.prems(2) [of e'] g1(2,3) by (auto simp: woken_def in_state_def)
    obtain g' where raw: "pop_edges t g1 True = Some (Some (g', True \<or> edges_of g1 t \<noteq> [])) \<and> woken g1 (e_dest ` set (edges_of g1 t)) g'
      \<and> edges_of g' t = [] \<and> {(a, b) \<in> arcs g'. a \<noteq> t} = {(a, b) \<in> arcs g1. a \<noteq> t}
        \<union> (if t \<in> transients g1 TRANSIENT_PROCESSING then e_dest ` set (edges_of g1 t) \<times> {t} else {})"
      using less.hyps [OF g1(4) ok1 pre, of True] by (rule exE)
    then have g': "pop_edges t g1 True = Some (Some (g', True))" "woken g1 (e_dest ` set (edges_of g1 t)) g'" "edges_of g' t = []"
      "{(a, b) \<in> arcs g'. a \<noteq> t} = {(a, b) \<in> arcs g1. a \<noteq> t}
        \<union> (if t \<in> transients g TRANSIENT_PROCESSING then e_dest ` set (edges_of g1 t) \<times> {t} else {})"
      unfolding tr simp_thms by - (elim conjE; assumption)+
    have D: "{e_dest e} \<union> e_dest ` set (edges_of g1 t) = e_dest ` set (edges_of g t)"
      using g1(3) e by auto
    have "woken g (e_dest ` set (edges_of g t)) g'" using woken_trans [OF g1(2) g'(2)] by (simp only: D)
    moreover have "{(a, b) \<in> arcs g'. a \<noteq> t} = {(a, b) \<in> arcs g. a \<noteq> t}
        \<union> (if t \<in> transients g TRANSIENT_PROCESSING then e_dest ` set (edges_of g t) \<times> {t} else {})"
      unfolding g'(4) g1(5) D [symmetric] by auto
    moreover have "pop_edges t g h = Some (Some (g', True))" using Cons g1(1) g'(1) by (simp add: pop_edges.simps)
    ultimately show ?thesis using g'(3) Cons by (intro exI conjI) simp_all
  qed
qed

lemma remove_node_ok:
  assumes ok: "graph_ok g" and "edges_of g t = []" "incoming_of g t = []" and "\<And>L. t \<notin> set (queue L g)"
  shows "graph_ok (remove_node g t) \<and> arcs (remove_node g t) = arcs g"
proof -
  have e: "edges_of (remove_node g t) x = edges_of g x" "incoming_of (remove_node g t) x = incoming_of g x" for x
    using assms(2,3) by (auto simp: edges_of_def incoming_of_def split: option.splits)
  have "edges_ok (remove_node g t) \<and> arcs (remove_node g t) = arcs g"
    by (rule edges_ok_nodes) (use ok e in \<open>simp_all add: graph_ok_def remove_node_def\<close>)
  moreover have "queues_ok (remove_node g t)" using ok assms(4) unfolding graph_ok_def queues_ok_def by auto
  ultimately show ?thesis by (simp add: graph_ok_def)
qed

lemma pop_node_ok:
  assumes ok: "graph_ok g" and t: "t \<in> node_ids g" and off: "\<And>L. t \<notin> set (queue L g)" and root: "\<And>a. (a, t) \<notin> arcs g"
    and D: "D = {b. (t, b) \<in> arcs g}" and nl: "\<And>b. b \<in> D \<Longrightarrow> b \<notin> in_state g STATE_PROCESSING \<Longrightarrow> b \<in> set (node_list g)"
    and T: "T \<longleftrightarrow> t \<in> transients g TRANSIENT_PROCESSING"
  obtains g' where "pop_node t g = Some (Some g')" "graph_ok g'" "node_ids g' = node_ids g - (if T then {} else {t})"
    "arcs g' = {(a, b) \<in> arcs g. a \<noteq> t} \<union> (if T then D \<times> {t} else {})"
    "set (node_list g') = set (node_list g) - (D - in_state g STATE_PROCESSING) \<union> (if T \<and> D \<noteq> {} then {t} else {})"
    "set (plist g') = set (plist g) \<union> (D - in_state g STATE_PROCESSING) \<union> (if T \<and> D = {} then {t} else {})"
    "removing_list g' = removing_list g" "\<And>x. x \<noteq> t \<Longrightarrow> fixed_of g' x = fixed_of g x"
    "\<And>x. x \<noteq> t \<Longrightarrow> map_option n_state (find_node g' x) = (if x \<in> D then Some STATE_PROCESSING else map_option n_state (find_node g x))"
    "T \<Longrightarrow> \<exists>n n'. find_node g t = Some n \<and> find_node g' t = Some n' \<and> n_state n' = STATE_FINISHED
       \<and> transient n' = TRANSIENT_DELETE \<and> expanded n' = expanded n"
proof -
  have tD: "t \<notin> D" using root by (auto simp: D)
  have es: "e_dest ` set (edges_of g t) = D" using ok edges_mem [of g _ t] by (force simp: graph_ok_def D arcs_def)
  then have pre: "e_dest e \<noteq> t \<and> (e_dest e \<notin> in_state g STATE_PROCESSING \<longrightarrow> e_dest e \<in> set (node_list g))"
    if "e \<in> set (edges_of g t)" for e using that tD nl by blast
  have emp: "edges_of g t = [] \<longleftrightarrow> D = {}" using edges_empty [OF ok] by (auto simp: D)
  obtain g1 where g1: "pop_edges t g False = Some (Some (g1, D \<noteq> {}))" "woken g D g1" "edges_of g1 t = []"
    "{(a, b) \<in> arcs g1. a \<noteq> t} = {(a, b) \<in> arcs g. a \<noteq> t} \<union> (if T then D \<times> {t} else {})"
    using pop_edges_ok [OF ok pre, of False] unfolding es emp T by auto
  have ok1: "graph_ok g1" using g1(2) by (simp add: woken_def)
  have out1: "(t, b) \<notin> arcs g1" for b using edges_empty [OF ok1, of t] g1(3) by simp
  have arcs1: "arcs g1 = {(a, b) \<in> arcs g. a \<noteq> t} \<union> (if T then D \<times> {t} else {})"
  proof -
    have "{(a, b) \<in> arcs g1. a \<noteq> t} = arcs g1" using out1 by auto
    then show ?thesis using g1(4) by (simp only:)
  qed
  obtain n where n: "find_node g t = Some n" using t by (auto simp: node_ids_def)
  have f1: "fixed_of g1 t = fixed_of g t" using g1(2) by (simp add: woken_def)
  then obtain n1 where n1: "find_node g1 t = Some n1" "fixed n1 = fixed n" using n by auto
  have tr: "transient n1 = TRANSIENT_PROCESSING \<longleftrightarrow> T" "expanded n1 = expanded n" using n1(2) n by (auto simp: T transients_def fixed_def kept_def)
  have q1: "queue L g1 = queue L g" if "L = REMOVING_LIST" for L using g1(2) that by (simp add: woken_def)
  have off1: "t \<notin> set (queue L g1)" for L
    using off [of L] off [of NODE_LIST] off [of PLIST] g1(2) tD by (cases L) (auto simp: woken_def)
  have sts: "map_option n_state (find_node g1 x) = (if x \<in> D then Some STATE_PROCESSING else map_option n_state (find_node g x))"
    "fixed_of g1 x = fixed_of g x" for x using g1(2) by (simp_all add: woken_def)
  have ids1: "node_ids g1 = node_ids g" by (rule fixed_ids) (rule sts)
  show thesis
  proof (cases T)
    case False
    have "incoming_of g1 t = []" using incoming_empty [OF ok1, of t] root False by (auto simp: arcs1)
    note rm = remove_node_ok [OF ok1 g1(3) this off1]
    show ?thesis
    proof (rule that [of "remove_node g1 t"])
      show "pop_node t g = Some (Some (remove_node g1 t))" using False by (simp add: pop_node_def g1(1) retire_def n1 tr)
      show "arcs (remove_node g1 t) = {(a, b) \<in> arcs g. a \<noteq> t} \<union> (if T then D \<times> {t} else {})"
        using rm arcs1 by simp
      show "node_ids (remove_node g1 t) = node_ids g - (if T then {} else {t})"
        using False ids1 by (auto simp: node_ids_def set_eq_iff)
    qed (use rm g1(2) False sts in \<open>simp_all add: woken_def remove_node_def find_node_remove_node [unfolded remove_node_def]\<close>)
  next
    case True
    let ?L = "if D \<noteq> {} then NODE_LIST else PLIST"
    have al: "active_list n1 = None"
    proof (cases "active_list n1")
      case (Some L)
      then have "t \<in> set (queue L g1)" using ok1 n1 by (simp add: graph_ok_def queues_okD(2))
      then show ?thesis using off1 by blast
    qed
    obtain g2 where g2: "node_insert_head ?L t g1 = Some g2" using n1 al by (simp add: node_insert_head_def)
    note i = node_insert_ok [OF disjI1 [OF g2] ok1]
    have g2': "g2 = upd_node t (\<lambda>n. n\<lparr>active_list := Some ?L\<rparr>) (set_queue ?L (t # queue ?L g1) g1)"
      using g2 n1 al by (simp add: node_insert_head_def)
    let ?g = "upd_node t (\<lambda>n. n\<lparr>n_state := STATE_FINISHED, transient := TRANSIENT_DELETE\<rparr>) g2"
    have f2: "find_node ?g x = (if x = t then Some (n1\<lparr>active_list := Some ?L, n_state := STATE_FINISHED, transient := TRANSIENT_DELETE\<rparr>) else find_node g1 x)" for x
      using n1 by (simp add: g2' del: set_queue.simps)
    have qs: "queue L ?g = (if L = ?L then t # queue L g1 else queue L g1)" for L by (simp add: g2' del: set_queue.simps)
    have ql: "node_list ?g = (if D \<noteq> {} then t # node_list g1 else node_list g1)"
      "plist ?g = (if D \<noteq> {} then plist g1 else t # plist g1)" "removing_list ?g = removing_list g1"
      using qs [of NODE_LIST, unfolded queue.simps] qs [of PLIST, unfolded queue.simps] qs [of REMOVING_LIST, unfolded queue.simps]
      by (cases "D = {}"; simp only: list_id.distinct if_True if_False simp_thms)+
    have es2: "edges_of ?g x = edges_of g2 x" "incoming_of ?g x = incoming_of g2 x" for x
      by (cases "find_node g2 t"; auto simp: edges_of_def incoming_of_def)+
    show ?thesis
    proof (rule that [of ?g])
      show "pop_node t g = Some (Some ?g)" using True g2 by (simp add: pop_node_def g1(1) retire_def n1 tr)
      show "graph_ok ?g" by (rule graph_ok_upd_node) (use i in simp_all)
      have "arcs ?g = arcs g2" by (simp only: arcs_def graph_edges_def es2)
      then show "arcs ?g = {(a, b) \<in> arcs g. a \<noteq> t} \<union> (if T then D \<times> {t} else {})" using i arcs1 by simp
      show "node_ids ?g = node_ids g - (if T then {} else {t})" using True t ids1 unfolding node_ids_def f2 by auto
      show "set (node_list ?g) = set (node_list g) - (D - in_state g STATE_PROCESSING) \<union> (if T \<and> D \<noteq> {} then {t} else {})"
        using g1(2) True unfolding ql woken_def by (cases "D = {}") auto
      show "set (plist ?g) = set (plist g) \<union> (D - in_state g STATE_PROCESSING) \<union> (if T \<and> D = {} then {t} else {})"
        using g1(2) True unfolding ql woken_def by (cases "D = {}") auto
      show "removing_list ?g = removing_list g" using g1(2) unfolding ql woken_def by simp
      show "fixed_of ?g x = fixed_of g x" if "x \<noteq> t" for x using that sts(2) [of x] unfolding f2 by simp
      show "map_option n_state (find_node ?g x) = (if x \<in> D then Some STATE_PROCESSING else map_option n_state (find_node g x))"
        if "x \<noteq> t" for x using that sts(1) [of x] unfolding f2 by simp
      show "\<exists>n n'. find_node g t = Some n \<and> find_node ?g t = Some n' \<and> n_state n' = STATE_FINISHED
       \<and> transient n' = TRANSIENT_DELETE \<and> expanded n' = expanded n" using n tr unfolding f2 by simp
    qed
  qed
qed

end
