(* ===== verification/Exec_Shape.thy ===== *)
theory Exec_Shape
  imports Exec_Pop
begin

text \<open>
  What the graph looks like in the middle of an execution, as a function of what has happened: \<open>P\<close> are the nodes that
  were popped, \<open>R\<close> those that are gone, \<open>F\<close> those that failed and \<open>H\<close> those that are on no queue.
\<close>

definition tset :: "graph \<Rightarrow> tupid set" where
  "tset g = transients g TRANSIENT_PROCESSING"

text \<open>The graphs that \<^verbatim>\<open>build_graph\<close> hands over: everything is on \<open>node_list\<close> and hangs below the root.\<close>

definition exec_ready :: "graph \<Rightarrow> bool" where
  "exec_ready g \<longleftrightarrow> graph_ok g \<and> plist g = [] \<and> removing_list g = [] \<and> node_list g \<noteq> []
     \<and> (\<forall>t n. find_node g t = Some n \<longrightarrow> active_list n = Some NODE_LIST \<and> n_state n \<noteq> STATE_PROCESSING
          \<and> transient n \<noteq> TRANSIENT_DELETE)
     \<and> (\<forall>t \<in> node_ids g. t = hd (node_list g) \<longleftrightarrow> (\<forall>a. (a, t) \<notin> arcs g))
     \<and> hd (node_list g) \<notin> tset g \<and> (\<forall>(a, b) \<in> arcs g. a \<in> tset g \<longrightarrow> b \<notin> tset g)"

definition left_arcs :: "graph \<Rightarrow> tupid set \<Rightarrow> (tupid \<times> tupid) set" where
  "left_arcs g0 P = {(a, b) \<in> arcs g0. a \<notin> P} \<union> {(b, a). (a, b) \<in> arcs g0 \<and> a \<in> tset g0 \<and> a \<in> P \<and> b \<notin> P}"

definition source :: "graph \<Rightarrow> tupid \<Rightarrow> bool" where
  "source g t \<longleftrightarrow> (\<forall>a. (a, t) \<notin> arcs g)"

definition shape :: "graph \<Rightarrow> tupid set \<Rightarrow> tupid set \<Rightarrow> tupid set \<Rightarrow> tupid set \<Rightarrow> graph \<Rightarrow> bool" where
  "shape g0 P R F H g \<longleftrightarrow> graph_ok g \<and> removing_list g = []
     \<and> node_ids g = node_ids g0 - R \<and> arcs g = left_arcs g0 P
     \<and> (\<forall>t n. find_node g t = Some n \<longrightarrow> transient n =
          (if t \<in> tset g0 then if t \<in> P then TRANSIENT_DELETE else TRANSIENT_PROCESSING else TRANSIENT_NONE))
     \<and> is_expanded g = is_expanded g0 - R
     \<and> node_ids g = set (node_list g) \<union> set (plist g) \<union> H \<and> H \<inter> (set (node_list g) \<union> set (plist g)) = {}
     \<and> (\<forall>t \<in> H \<union> F. source g t) \<and> set (node_list g) \<inter> in_state g STATE_PROCESSING \<subseteq> F \<and> F \<subseteq> set (node_list g)
     \<and> (\<forall>t \<in> set (plist g). t \<in> in_state g STATE_PROCESSING \<or> source g t)
     \<and> (\<forall>t \<in> set (node_list g) - F. \<not> source g t)
     \<and> P \<subseteq> node_ids g0 \<and> R \<subseteq> P \<and> P - tset g0 \<subseteq> R
     \<and> (\<forall>(a, b) \<in> arcs g0. b \<in> P \<longrightarrow> a \<in> P) \<and> acyclic (arcs g0 \<inter> P \<times> P)"

lemma shapeD:
  assumes "shape g0 P R F H g"
  shows "graph_ok g" "removing_list g = []" "node_ids g = node_ids g0 - R" "arcs g = left_arcs g0 P"
    "find_node g t = Some n \<Longrightarrow> transient n =
          (if t \<in> tset g0 then if t \<in> P then TRANSIENT_DELETE else TRANSIENT_PROCESSING else TRANSIENT_NONE)"
    "is_expanded g = is_expanded g0 - R" "node_ids g = set (node_list g) \<union> set (plist g) \<union> H"
    "H \<inter> (set (node_list g) \<union> set (plist g)) = {}" "t \<in> H \<union> F \<Longrightarrow> source g t"
    "set (node_list g) \<inter> in_state g STATE_PROCESSING \<subseteq> F" "F \<subseteq> set (node_list g)"
    "t \<in> set (plist g) \<Longrightarrow> t \<in> in_state g STATE_PROCESSING \<or> source g t"
    "t \<in> set (node_list g) - F \<Longrightarrow> \<not> source g t" "P \<subseteq> node_ids g0" "R \<subseteq> P" "P - tset g0 \<subseteq> R"
    "(a, b) \<in> arcs g0 \<Longrightarrow> b \<in> P \<Longrightarrow> a \<in> P" "acyclic (arcs g0 \<inter> P \<times> P)"
  using assms unfolding shape_def by (auto split: prod.splits)

lemma queues_disjoint: "graph_ok g \<Longrightarrow> t \<in> set (node_list g) \<Longrightarrow> t \<notin> set (plist g)"
  using queues_okD(2) [of g t NODE_LIST] queues_okD(2) [of g t PLIST] by (auto simp: graph_ok_def)

lemma acyclic_new_sink:
  assumes "acyclic r" and "\<And>b. (t, b) \<notin> r" and "t \<notin> X"
  shows "acyclic (r \<union> X \<times> {t})"
proof -
  have step: "(a, b) \<in> r\<^sup>+ \<or> b = t" if "(a, b) \<in> (r \<union> X \<times> {t})\<^sup>+" for a b
    using that
  proof (induction rule: trancl_induct)
    case (step y z)
    have "(t, z) \<notin> r \<union> X \<times> {t}" using assms(2,3) by auto
    with step show ?case by (auto intro: trancl_into_trancl)
  qed auto
  show ?thesis
  proof (rule acyclicI, intro allI notI)
    fix a assume a: "(a, a) \<in> (r \<union> X \<times> {t})\<^sup>+"
    then have "a = t" using step [OF a] assms(1) by (auto simp: acyclic_def)
    moreover obtain z where "(a, z) \<in> r \<union> X \<times> {t}" using a by (meson tranclD)
    ultimately show False using assms(2,3) by auto
  qed
qed

lemma is_expanded_cong: "(\<And>x. kept_of g' x = kept_of g x) \<Longrightarrow> is_expanded g' = is_expanded g"
proof -
  assume f: "\<And>x. kept_of g' x = kept_of g x"
  have "map_option expanded (find_node g' x) = map_option expanded (find_node g x)" for x
    using f [of x] by (cases "find_node g' x"; cases "find_node g x"; simp add: kept_def)
  then show ?thesis by (simp add: is_expanded_def)
qed

lemma shapeI:
  assumes "graph_ok g" "removing_list g = []" "node_ids g = node_ids g0 - R" "arcs g = left_arcs g0 P"
    "\<And>t n. find_node g t = Some n \<Longrightarrow> transient n =
          (if t \<in> tset g0 then if t \<in> P then TRANSIENT_DELETE else TRANSIENT_PROCESSING else TRANSIENT_NONE)"
    "is_expanded g = is_expanded g0 - R" "node_ids g = set (node_list g) \<union> set (plist g) \<union> H"
    "H \<inter> (set (node_list g) \<union> set (plist g)) = {}" "\<And>t. t \<in> H \<union> F \<Longrightarrow> source g t"
    "set (node_list g) \<inter> in_state g STATE_PROCESSING \<subseteq> F" "F \<subseteq> set (node_list g)"
    "\<And>t. t \<in> set (plist g) \<Longrightarrow> t \<in> in_state g STATE_PROCESSING \<or> source g t"
    "\<And>t. t \<in> set (node_list g) - F \<Longrightarrow> \<not> source g t" "P \<subseteq> node_ids g0" "R \<subseteq> P" "P - tset g0 \<subseteq> R"
    "\<And>a b. (a, b) \<in> arcs g0 \<Longrightarrow> b \<in> P \<Longrightarrow> a \<in> P" "acyclic (arcs g0 \<inter> P \<times> P)"
  shows "shape g0 P R F H g"
  unfolding shape_def using assms by (intro conjI ballI allI impI) (auto split: prod.splits)

lemma transient_node:
  assumes "shape g0 P R F H g" and "t \<in> node_ids g"
  shows "t \<in> transients g TRANSIENT_PROCESSING \<longleftrightarrow> t \<in> tset g0 \<and> t \<notin> P"
  using assms(2) shapeD(5) [OF assms(1)] by (auto simp: node_ids_def transients_def split: if_splits)

text \<open>When no arc leads to a node, all it depends on was popped; the second time, all that depends on it.\<close>

lemma shape_source:
  assumes s: "shape g0 P R F H g" and rdy: "exec_ready g0" and t: "t \<in> node_ids g" "source g t"
  shows "t \<notin> P \<Longrightarrow> (a, t) \<in> arcs g0 \<Longrightarrow> a \<in> P" and "t \<in> P \<Longrightarrow> t \<in> tset g0" and "t \<in> P \<Longrightarrow> (t, b) \<in> arcs g0 \<Longrightarrow> b \<in> P"
proof -
  note d = shapeD [OF s]
  have src: "(a, t) \<notin> left_arcs g0 P" for a using t(2) d(4) by (simp add: source_def)
  show "a \<in> P" if "t \<notin> P" "(a, t) \<in> arcs g0" using src [of a] that by (auto simp: left_arcs_def)
  show T: "t \<in> tset g0" if "t \<in> P" using that t(1) d(3,16) by blast
  show "b \<in> P" if "t \<in> P" "(t, b) \<in> arcs g0" using src [of b] that T by (auto simp: left_arcs_def)
qed

text \<open>Popping a node that no arc leads to.\<close>

lemma shape_pop:
  assumes s: "shape g0 P R F (insert t H) g" and tH: "t \<notin> H" and rdy: "exec_ready g0"
  defines "P' \<equiv> insert t P" and "R' \<equiv> (if t \<in> tset g0 \<and> t \<notin> P then R else insert t R)"
  obtains g' where "pop_node t g = Some (Some g')" "shape g0 P' R' F H g'" "card (set (plist g')) \<le> card (set (plist g)) + card {b. (t, b) \<in> arcs g} + 1"
    "arcs g' = {(a, b) \<in> arcs g. a \<noteq> t} \<union> (if t \<in> tset g0 \<and> t \<notin> P then {b. (t, b) \<in> arcs g} \<times> {t} else {})" "t \<notin> R" "t \<in> node_ids g0"
proof -
  note d = shapeD [OF s]
  define D where "D = {b. (t, b) \<in> arcs g}"
  define T where "T \<longleftrightarrow> t \<in> tset g0 \<and> t \<notin> P"
  have tid: "t \<in> node_ids g" using d(7) by blast
  then have tR: "t \<notin> R" and tV: "t \<in> node_ids g0" using d(3) by auto
  have tT: "T \<longleftrightarrow> t \<in> transients g TRANSIENT_PROCESSING" using transient_node [OF s tid] by (simp add: T_def)
  have src: "(a, t) \<notin> arcs g" for a using d(9) [of t] by (simp add: source_def)
  have off: "t \<notin> set (queue L g)" for L using d(2,8) by (cases L) auto
  have bip: "(a, b) \<in> arcs g0 \<Longrightarrow> a \<in> tset g0 \<Longrightarrow> b \<notin> tset g0" for a b using rdy by (auto simp: exec_ready_def)
  have st: "source g t" using d(9) by blast
  note preds = shape_source(1) [OF s rdy tid st]
  have succs: "t \<in> tset g0 \<and> ((t, b) \<in> arcs g0 \<longrightarrow> b \<in> P)" if "t \<in> P" for b
    using shape_source(2,3) [OF s rdy tid st that] by blast
  have Dp: "D = {}" if "t \<in> P" using that succs bip d(4) by (auto simp: D_def left_arcs_def)
  have DT: "D = {b. (t, b) \<in> arcs g0}" if T using that bip d(4) by (auto simp: D_def T_def left_arcs_def)
  have Dsrc: "\<not> source g b" if "b \<in> D" for b using that by (auto simp: D_def source_def)
  have Did: "b \<in> node_ids g" if "b \<in> D" for b using that edge_nodes [OF d(1)] by (auto simp: D_def)
  have nl: "b \<in> set (node_list g)" if "b \<in> D" "b \<notin> in_state g STATE_PROCESSING" for b
    using that Did [OF that(1)] Dsrc [OF that(1)] d(7) d(9) [of b] d(12) [of b] by blast
  have DF: "D \<inter> F = {}" using Dsrc d(9) by blast
  have selfl: "(t, t) \<notin> arcs g0" if "t \<notin> P" using src [of t] that d(4) by (auto simp: left_arcs_def)
  obtain g' where g': "pop_node t g = Some (Some g')" "graph_ok g'" "node_ids g' = node_ids g - (if T then {} else {t})"
    "arcs g' = {(a, b) \<in> arcs g. a \<noteq> t} \<union> (if T then D \<times> {t} else {})"
    "set (node_list g') = set (node_list g) - (D - in_state g STATE_PROCESSING) \<union> (if T \<and> D \<noteq> {} then {t} else {})"
    "set (plist g') = set (plist g) \<union> (D - in_state g STATE_PROCESSING) \<union> (if T \<and> D = {} then {t} else {})"
    "removing_list g' = removing_list g" "\<And>x. x \<noteq> t \<Longrightarrow> fixed_of g' x = fixed_of g x"
    "\<And>x. x \<noteq> t \<Longrightarrow> map_option n_state (find_node g' x) = (if x \<in> D then Some STATE_PROCESSING else map_option n_state (find_node g x))"
    "T \<Longrightarrow> \<exists>n n'. find_node g t = Some n \<and> find_node g' t = Some n' \<and> n_state n' = STATE_FINISHED
       \<and> transient n' = TRANSIENT_DELETE \<and> expanded n' = expanded n"
    by (rule pop_node_ok [OF d(1) tid off src D_def nl tT]) (assumption, assumption, (rule that; assumption))
  have tnone: "\<not> T \<Longrightarrow> find_node g' t = None" using g'(3) by (auto simp: node_ids_def)
  have tnl: "t \<notin> set (node_list g)" "t \<notin> set (plist g)" using d(8) by auto
  have proc: "in_state g' STATE_PROCESSING - {t} = in_state g STATE_PROCESSING \<union> D - {t}"
  proof -
    have "x \<in> in_state g' STATE_PROCESSING \<longleftrightarrow> x \<in> in_state g STATE_PROCESSING \<or> x \<in> D" if "x \<noteq> t" for x
      unfolding in_state_def mem_Collect_eq g'(9) [OF that] by simp
    then show ?thesis by blast
  qed
  have tproc: "t \<notin> in_state g' STATE_PROCESSING"
    using g'(10) tnone by (cases T) (auto simp: in_state_def)
  have tD: "t \<notin> D" using src by (auto simp: D_def)
  have src': "source g' x \<longleftrightarrow> (if x = t then \<not> (T \<and> D \<noteq> {}) else \<forall>a. a \<noteq> t \<longrightarrow> (a, x) \<notin> arcs g)" for x
    using src by (auto simp: source_def g'(4))
  have mono: "source g x \<Longrightarrow> x \<noteq> t \<Longrightarrow> source g' x" for x by (simp add: src') (simp add: source_def)
  show thesis
  proof (rule that [OF g'(1)])
    show "arcs g' = {(a, b) \<in> arcs g. a \<noteq> t} \<union> (if t \<in> tset g0 \<and> t \<notin> P then {b. (t, b) \<in> arcs g} \<times> {t} else {})"
      using g'(4) by (simp only: T_def D_def)
    have "set (plist g') \<subseteq> set (plist g) \<union> D \<union> {t}" using g'(6) by auto
    moreover have fD: "finite D"
    proof -
      have "finite (node_ids g)" unfolding node_ids_def using unmarked_finite [of g "\<lambda>_. True"] by simp
      then show ?thesis by (rule rev_finite_subset) (use Did in blast)
    qed
    ultimately have "card (set (plist g')) \<le> card (set (plist g) \<union> D \<union> {t})" by (intro card_mono) simp_all
    also have "\<dots> \<le> card (set (plist g)) + card D + 1"
      by (rule order_trans [OF card_Un_le]) (use card_Un_le [of "set (plist g)" D] in simp)
    finally show "card (set (plist g')) \<le> card (set (plist g)) + card {b. (t, b) \<in> arcs g} + 1" by (simp only: D_def)
    show "t \<notin> R" by (rule tR)
    show "t \<in> node_ids g0" by (rule tV)
    have R'T: "R' = (if T then R else insert t R)" by (simp add: R'_def T_def)
    show "shape g0 P' R' F H g'"
    proof (rule shapeI)
      show "graph_ok g'" by (rule g'(2))
      show "removing_list g' = []" using g'(7) d(2) by simp
      show "node_ids g' = node_ids g0 - R'" using g'(3) d(3) by (auto simp: R'T)
      show "arcs g' = left_arcs g0 P'"
      proof (cases T)
        case True
        then have ntP: "t \<notin> P" "t \<in> tset g0" by (auto simp: T_def)
        have "arcs g' = {(a, b) \<in> left_arcs g0 P. a \<noteq> t} \<union> {b. (t, b) \<in> arcs g0} \<times> {t}"
          using True by (simp add: g'(4) d(4) DT)
        also have "\<dots> = left_arcs g0 P'"
          using ntP preds d(17) selfl [OF ntP(1)] unfolding left_arcs_def P'_def by auto
        finally show ?thesis .
      next
        case False
        have "arcs g' = {(a, b) \<in> left_arcs g0 P. a \<noteq> t}" using False by (simp add: g'(4) d(4))
        also have "\<dots> = left_arcs g0 P'"
        proof (cases "t \<in> P")
          case True
          then show ?thesis using Dp [OF True] d(4) unfolding D_def P'_def by (auto simp: insert_absorb)
        next
          case nP: False
          then have "t \<notin> tset g0" using False by (simp add: T_def)
          then show ?thesis using nP src d(4) unfolding left_arcs_def P'_def by auto
        qed
        finally show ?thesis .
      qed
      show "transient n = (if x \<in> tset g0 then if x \<in> P' then TRANSIENT_DELETE else TRANSIENT_PROCESSING else TRANSIENT_NONE)"
        if n: "find_node g' x = Some n" for x n
      proof (cases "x = t")
        case True
        then have "T" using n tnone by (cases T) auto
        then show ?thesis using g'(10) n True by (auto simp: P'_def T_def)
      next
        case False
        obtain m where m: "find_node g x = Some m" "fixed m = fixed n" using g'(8) [OF False] n
          by (cases "find_node g x") simp_all
        then have "transient n = transient m" by (simp add: fixed_def kept_def)
        then show ?thesis unfolding d(5) [OF m(1)] using False by (simp add: P'_def)
      qed
      show "is_expanded g' = is_expanded g0 - R'"
      proof -
        have ex: "x \<in> is_expanded g' \<longleftrightarrow> x \<in> is_expanded g" if "x \<noteq> t" for x
        proof -
          have "map_option expanded (find_node g' x) = map_option expanded (find_node g x)"
            using g'(8) [OF that] by (cases "find_node g' x"; cases "find_node g x"; simp add: fixed_def kept_def)
          then show ?thesis by (simp only: is_expanded_def mem_Collect_eq)
        qed
        have et: "t \<in> is_expanded g' \<longleftrightarrow> T \<and> t \<in> is_expanded g"
          using g'(10) tnone by (cases T) (auto simp: is_expanded_def)
        have "x \<in> is_expanded g' \<longleftrightarrow> x \<in> is_expanded g - (if T then {} else {t})" for x
          using ex [of x] et by (cases "x = t") auto
        then have "is_expanded g' = is_expanded g - (if T then {} else {t})" by blast
        then show ?thesis using d(6) by (auto simp: R'T)
      qed
      show "node_ids g' = set (node_list g') \<union> set (plist g') \<union> H"
        unfolding g'(3) d(7) g'(5) g'(6) using nl tnl tH tD by auto
      show "H \<inter> (set (node_list g') \<union> set (plist g')) = {}"
        using d(8) tH nl unfolding g'(5) g'(6) by auto
      show "source g' x" if "x \<in> H \<union> F" for x
      proof -
        have "x \<noteq> t" using that tH tnl d(11) by auto
        then show ?thesis using mono [OF d(9) [of x]] that by blast
      qed
      show "set (node_list g') \<inter> in_state g' STATE_PROCESSING \<subseteq> F"
        using proc tproc d(10) unfolding g'(5) by auto
      show "F \<subseteq> set (node_list g')" using d(11) DF unfolding g'(5) by auto
      show "x \<in> in_state g' STATE_PROCESSING \<or> source g' x" if "x \<in> set (plist g')" for x
      proof (cases "x = t")
        case True
        then show ?thesis using that tnl tD by (auto simp: src' g'(6) split: if_splits)
      next
        case False
        then have "x \<in> set (plist g) \<or> x \<in> D" using that g'(6) by (auto split: if_splits)
        then show ?thesis using False proc d(12) mono by blast
      qed
      show "\<not> source g' x" if "x \<in> set (node_list g') - F" for x
      proof (cases "x = t")
        case True
        then show ?thesis using that tnl by (auto simp: src' g'(5) split: if_splits)
      next
        case False
        then have x: "x \<in> set (node_list g)" "x \<notin> F" "x \<notin> D \<or> x \<in> in_state g STATE_PROCESSING"
          using that g'(5) by (auto split: if_splits)
        then have "x \<notin> D" using d(10) by blast
        then show ?thesis using d(13) [of x] x False unfolding src' unfolding source_def D_def by auto
      qed
      show "P' \<subseteq> node_ids g0" using d(14) tV by (simp add: P'_def)
      show "R' \<subseteq> P'" using d(15) by (auto simp: R'T P'_def)
      show "P' - tset g0 \<subseteq> R'" using d(16) by (auto simp: R'T P'_def T_def)
      show "a \<in> P'" if "(a, b) \<in> arcs g0" "b \<in> P'" for a b
        using that d(17) [of a b] preds [of a] by (auto simp: P'_def)
      show "acyclic (arcs g0 \<inter> P' \<times> P')"
      proof (cases "t \<in> P")
        case True
        then show ?thesis using d(18) by (simp add: P'_def insert_absorb)
      next
        case False
        have "arcs g0 \<inter> P' \<times> P' = (arcs g0 \<inter> P \<times> P) \<union> {a. (a, t) \<in> arcs g0} \<times> {t}"
          using False preds selfl d(17) unfolding P'_def by auto
        then show ?thesis using acyclic_new_sink [OF d(18)] False selfl by auto
      qed
    qed
  qed
qed

end
