(* ===== verification/Exec_Steps.thy ===== *)
theory Exec_Steps
  imports Exec_Shape
begin

text \<open>The other moves of a node during an execution: to and from the queues, and the work on it.\<close>

lemma remove_list_view:
  assumes ok: "graph_ok g" and r: "node_remove_list L t g = Some g'"
  shows "graph_ok g'" "arcs g' = arcs g" "fixed_of g' x = fixed_of g x"
    "map_option n_state (find_node g' x) = map_option n_state (find_node g x)"
    "set (queue M g') = (if M = L then set (queue L g) - {t} else set (queue M g))" "t \<in> set (queue L g)"
    "map_option active_list (find_node g' t) = Some None" "REMOVING_LIST \<noteq> L \<Longrightarrow> removing_list g' = removing_list g"
proof -
  have q: "queues_ok g" using ok by (simp add: graph_ok_def)
  note s = node_remove_list_spec [OF r q] and o = node_remove_list_ok [OF r ok]
  show "graph_ok g'" "arcs g' = arcs g" using o by simp_all
  show "fixed_of g' x = fixed_of g x" "map_option n_state (find_node g' x) = map_option n_state (find_node g x)"
    using s(4) [of x] by (simp_all add: option.map_comp comp_def fixed_def [abs_def] kept_def [abs_def])
  show "set (queue M g') = (if M = L then set (queue L g) - {t} else set (queue M g))"
    using s(2) [of M] queues_okD(1) [OF q] by simp
  show "t \<in> set (queue L g)" by (rule s(3))
  then have "map_option active_list (find_node g t) = Some (Some L)" using queues_okD(2) [OF q] by blast
  then show "map_option active_list (find_node g' t) = Some None" using s(4) [of t] by (auto simp: option.map_comp)
  show "REMOVING_LIST \<noteq> L \<Longrightarrow> removing_list g' = removing_list g" using s(2) [of REMOVING_LIST] by simp
qed

lemma insert_view:
  assumes ok: "graph_ok g" and r: "node_insert_head L t g = Some g' \<or> node_insert_tail L t g = Some g'"
  shows "graph_ok g'" "arcs g' = arcs g" "fixed_of g' x = fixed_of g x"
    "map_option n_state (find_node g' x) = map_option n_state (find_node g x)"
    "set (queue M g') = (if M = L then insert t (set (queue L g)) else set (queue M g))"
    "REMOVING_LIST \<noteq> L \<Longrightarrow> removing_list g' = removing_list g"
proof -
  note o = node_insert_ok [OF r ok]
  show "graph_ok g'" "arcs g' = arcs g" using o by simp_all
  obtain n l where g': "find_node g t = Some n" "l = t # queue L g \<or> l = queue L g @ [t]"
    "g' = upd_node t (\<lambda>n. n\<lparr>active_list := Some L\<rparr>) (set_queue L l g)"
    using r by (auto simp: node_insert_head_def node_insert_tail_def split: if_splits Option.bind_splits)
  show "fixed_of g' x = fixed_of g x" "map_option n_state (find_node g' x) = map_option n_state (find_node g x)"
    using g'(1) by (simp_all add: g'(3) option.map_comp comp_def fixed_def [abs_def] kept_def [abs_def])
  have q: "queue M g' = (if M = L then l else queue M g)" for M by (simp add: g'(3))
  show "set (queue M g') = (if M = L then insert t (set (queue L g)) else set (queue M g))" using q [of M] g'(2) by auto
  show "REMOVING_LIST \<noteq> L \<Longrightarrow> removing_list g' = removing_list g" using q [of REMOVING_LIST] by simp
qed

lemma insert_works:
  assumes "graph_ok g" and "t \<in> node_ids g" and "\<And>L. t \<notin> set (queue L g)"
  shows "node_insert_head L t g \<noteq> None \<and> node_insert_tail L t g \<noteq> None"
proof -
  obtain n where n: "find_node g t = Some n" using assms(2) by (auto simp: node_ids_def)
  have "active_list n = None"
  proof (cases "active_list n")
    case (Some L)
    then have "t \<in> set (queue L g)" using assms(1) n by (simp add: graph_ok_def queues_okD(2))
    then show ?thesis using assms(3) by blast
  qed
  then show ?thesis using n by (simp add: node_insert_head_def node_insert_tail_def)
qed

lemma remove_works:
  assumes "graph_ok g" and "t \<in> set (queue L g)"
  shows "node_remove_list L t g \<noteq> None"
  using assms queues_okD(2) [of g t L] by (auto simp: graph_ok_def node_remove_list_def)

text \<open>Fields outside of the queues and arcs may change.\<close>

definition same_shape :: "graph \<Rightarrow> graph \<Rightarrow> bool" where
  "same_shape g g' \<longleftrightarrow> (\<forall>x. edges_of g' x = edges_of g x \<and> incoming_of g' x = incoming_of g x) \<and> next_edge g' = next_edge g
     \<and> (\<forall>L. queue L g' = queue L g) \<and> (\<forall>x. kept_of g' x = kept_of g x)
     \<and> (\<forall>x. map_option n_state (find_node g' x) = map_option n_state (find_node g x))
     \<and> (\<forall>x. map_option active_list (find_node g' x) = map_option active_list (find_node g x))"

lemma same_shape_refl [simp]: "same_shape g g"
  by (simp add: same_shape_def)

lemma same_shape_trans: "same_shape g g' \<Longrightarrow> same_shape g' g'' \<Longrightarrow> same_shape g g''"
  unfolding same_shape_def by (elim conjE, intro conjI) simp_all

lemma same_shape_ok:
  assumes "same_shape g g'" and "graph_ok g"
  shows "graph_ok g' \<and> arcs g' = arcs g \<and> graph_edges g' = graph_edges g"
proof -
  have e: "edges_of g' x = edges_of g x" "incoming_of g' x = incoming_of g x" "next_edge g' = next_edge g" for x
    using assms(1) unfolding same_shape_def by blast+
  have pair: "map_option (\<lambda>n. (active_list n, n_tent n)) (find_node g' x) = map_option (\<lambda>n. (active_list n, n_tent n)) (find_node g x)" for x
  proof -
    have "kept_of g' x = kept_of g x" "map_option active_list (find_node g' x) = map_option active_list (find_node g x)"
      using assms(1) unfolding same_shape_def by blast+
    then show ?thesis by (cases "find_node g' x"; cases "find_node g x"; simp add: kept_def)
  qed
  have q: "queue L g' = queue L g" for L using assms(1) unfolding same_shape_def by blast
  have "queues_ok g'" by (rule queues_ok_cong [OF _ q pair]) (use assms(2) in \<open>simp add: graph_ok_def\<close>)
  moreover have "edges_ok g' \<and> arcs g' = arcs g" by (rule edges_ok_nodes [OF _ e]) (use assms(2) in \<open>simp add: graph_ok_def\<close>)
  moreover have "graph_edges g' = graph_edges g" by (simp add: graph_edges_def e)
  ultimately show ?thesis by (simp add: graph_ok_def)
qed

lemma view_cong:
  assumes "\<And>x. kept_of g' x = kept_of g x"
  shows "node_ids g' = node_ids g" "is_expanded g' = is_expanded g"
    "(\<And>t n. find_node g t = Some n \<Longrightarrow> transient n = f t) \<Longrightarrow> find_node g' u = Some m \<Longrightarrow> transient m = f u"
proof -
  show "node_ids g' = node_ids g" "is_expanded g' = is_expanded g" using kept_ids is_expanded_cong assms by metis+
  assume tr: "\<And>t n. find_node g t = Some n \<Longrightarrow> transient n = f t" and m: "find_node g' u = Some m"
  then obtain n where "find_node g u = Some n" "kept n = kept m" using assms [of u] by (cases "find_node g u") auto
  with tr [of u n] show "transient m = f u" by (simp add: kept_def)
qed

text \<open>Nodes change queues; arcs and the fixed fields stay.\<close>

lemma shape_moved:
  assumes s: "shape g0 P R F H g" and ok: "graph_ok g'" "removing_list g' = []" and a: "arcs g' = arcs g"
    and f: "\<And>x. kept_of g' x = kept_of g x"
    and q: "node_ids g = set (node_list g') \<union> set (plist g') \<union> H'" "H' \<inter> (set (node_list g') \<union> set (plist g')) = {}"
    and so: "\<And>t. t \<in> H' \<union> F' \<Longrightarrow> source g t" and nl: "set (node_list g') \<inter> in_state g' STATE_PROCESSING \<subseteq> F'" "F' \<subseteq> set (node_list g')"
    and pl: "\<And>t. t \<in> set (plist g') \<Longrightarrow> t \<in> in_state g' STATE_PROCESSING \<or> source g t"
    and ns: "\<And>t. t \<in> set (node_list g') - F' \<Longrightarrow> \<not> source g t"
  shows "shape g0 P R F' H' g'"
proof -
  note d = shapeD [OF s]
  note v = view_cong [OF f]
  have src: "source g' = source g" by (intro ext) (simp only: source_def a)
  show ?thesis
  proof (rule shapeI)
    show "transient n = (if x \<in> tset g0 then if x \<in> P then TRANSIENT_DELETE else TRANSIENT_PROCESSING else TRANSIENT_NONE)"
      if "find_node g' x = Some n" for x n using v(3) [OF d(5) that] .
    show "graph_ok g'" "removing_list g' = []" by (fact ok)+
    show "node_ids g' = node_ids g0 - R" unfolding v(1) by (fact d(3))
    show "arcs g' = left_arcs g0 P" unfolding a by (fact d(4))
    show "is_expanded g' = is_expanded g0 - R" unfolding v(2) by (fact d(6))
    show "node_ids g' = set (node_list g') \<union> set (plist g') \<union> H'" unfolding v(1) by (fact q(1))
    show "source g' x" if "x \<in> H' \<union> F'" for x unfolding src using that by (rule so)
    show "x \<in> in_state g' STATE_PROCESSING \<or> source g' x" if "x \<in> set (plist g')" for x unfolding src using that by (rule pl)
    show "\<not> source g' x" if "x \<in> set (node_list g') - F'" for x unfolding src using that by (rule ns)
  qed (fact q(2) nl d(14-18))+
qed

lemma shape_same:
  assumes s: "shape g0 P R F H g" and g': "same_shape g g'"
  shows "shape g0 P R F H g'"
proof -
  note d = shapeD [OF s]
  have ql: "node_list g' = node_list g" "plist g' = plist g" "removing_list g' = removing_list g"
    using g' unfolding same_shape_def by (metis queue.simps)+
  have f: "kept_of g' x = kept_of g x" "map_option n_state (find_node g' x) = map_option n_state (find_node g x)" for x
    using g' unfolding same_shape_def by blast+
  have st: "in_state g' k = in_state g k" for k unfolding in_state_def f(2) ..
  have a: "graph_ok g'" "arcs g' = arcs g" using same_shape_ok [OF g' d(1)] by simp_all
  show ?thesis
    by (rule shape_moved [OF s a(1) _ a(2) f(1)]; (unfold ql st)?; (rule d; assumption?))
qed

text \<open>Node \<open>t\<close> of \<open>plist\<close> has an incoming edge: back to \<open>node_list\<close>.\<close>

lemma shape_defer:
  assumes s: "shape g0 P R F H g" and t: "t \<in> set (plist g)" "\<not> source g t"
  obtains g1 g2 where "node_remove_list PLIST t g = Some g1" "node_insert_head NODE_LIST t g1 = Some g2"
    "shape g0 P R F H (set_state t STATE_FINISHED g2)" "set (plist (set_state t STATE_FINISHED g2)) = set (plist g) - {t}"
    "arcs (set_state t STATE_FINISHED g2) = arcs g"
proof -
  note d = shapeD [OF s]
  obtain g1 where g1: "node_remove_list PLIST t g = Some g1" using remove_works [OF d(1), of t PLIST] t by auto
  note r = remove_list_view [OF d(1) g1]
  have ids1: "node_ids g1 = node_ids g" by (rule kept_ids [OF fixed_kept]) (rule r(3))
  have tnl: "t \<notin> set (node_list g)" using queues_disjoint [OF d(1)] t(1) by blast
  have ql1: "set (node_list g1) = set (node_list g)" "set (plist g1) = set (plist g) - {t}" "removing_list g1 = removing_list g"
    using r(5) [of NODE_LIST] r(5) [of PLIST] r(8) by simp_all
  have off: "t \<notin> set (queue L g1)" for L using ql1 tnl d(2) by (cases L) simp_all
  have "t \<in> node_ids g1" using ids1 d(7) t(1) by blast
  then obtain g2 where g2: "node_insert_head NODE_LIST t g1 = Some g2" using insert_works [OF r(1) _ off] by blast
  note i = insert_view [OF r(1) disjI1 [OF g2]]
  let ?g = "set_state t STATE_FINISHED g2"
  have ql2: "set (node_list g2) = insert t (set (node_list g))" "set (plist g2) = set (plist g) - {t}" "removing_list g2 = []"
    using i(5) [of NODE_LIST] i(5) [of PLIST] i(6) ql1 d(2) by simp_all
  have ql: "set (node_list ?g) = insert t (set (node_list g))" "set (plist ?g) = set (plist g) - {t}" "removing_list ?g = []"
    using ql2 by (simp_all add: set_state_def)
  have f: "fixed_of ?g x = fixed_of g x" for x
  proof -
    have "fixed_of ?g x = fixed_of g2 x" by (simp add: option.map_comp comp_def fixed_def [abs_def] kept_def [abs_def])
    then show ?thesis by (simp only: i(3) r(3))
  qed
  have st: "map_option n_state (find_node ?g x) = (if x = t then Some STATE_FINISHED else map_option n_state (find_node g x))" for x
  proof (cases "x = t")
    case True
    have "find_node g2 t \<noteq> None" using \<open>t \<in> node_ids g1\<close> i(3) [of t] by (auto simp: node_ids_def)
    with True show ?thesis by auto
  next
    case False
    then show ?thesis using i(4) [of x] r(4) [of x] by simp
  qed
  have a: "arcs ?g = arcs g" using i(2) r(2) by simp
  have pr: "in_state ?g STATE_PROCESSING = in_state g STATE_PROCESSING - {t}" unfolding in_state_def st by auto
  have tF: "t \<notin> F" using d(9) [of t] t(2) by blast
  have "shape g0 P R F H ?g"
  proof (rule shape_moved [OF s _ ql(3) a fixed_kept [OF f] _ _ d(9)]; (unfold ql pr)?)
    show "graph_ok ?g" using i(1) by (rule put_state_ok)
    show "node_ids g = insert t (set (node_list g)) \<union> (set (plist g) - {t}) \<union> H" unfolding d(7) using t(1) by blast
    show "H \<inter> (insert t (set (node_list g)) \<union> (set (plist g) - {t})) = {}" using d(8) t(1) by blast
    show "insert t (set (node_list g)) \<inter> (in_state g STATE_PROCESSING - {t}) \<subseteq> F" using d(10) by blast
    show "F \<subseteq> insert t (set (node_list g))" using d(11) by blast
    show "x \<in> in_state g STATE_PROCESSING - {t} \<or> source g x" if "x \<in> set (plist g) - {t}" for x using that d(12) [of x] by blast
    show "\<not> source g x" if "x \<in> insert t (set (node_list g)) - F" for x using that d(13) [of x] t(2) by blast
  qed
  then show ?thesis using that [OF g1 g2 _ ql(2) a] by blast
qed

lemma shape_take:
  assumes s: "shape g0 P R F H g" and t: "t \<in> set (plist g)" "source g t"
  obtains g1 where "node_remove_list PLIST t g = Some g1" "shape g0 P R F (insert t H) g1" "t \<notin> H" "t \<notin> F"
    "set (plist g1) = set (plist g) - {t}" "arcs g1 = arcs g"
proof -
  note d = shapeD [OF s]
  obtain g1 where g1: "node_remove_list PLIST t g = Some g1" using remove_works [OF d(1), of t PLIST] t by auto
  note r = remove_list_view [OF d(1) g1]
  have tnl: "t \<notin> set (node_list g)" using queues_disjoint [OF d(1)] t(1) by blast
  have ql: "set (node_list g1) = set (node_list g)" "set (plist g1) = set (plist g) - {t}" "removing_list g1 = []"
    using r(5) [of NODE_LIST] r(5) [of PLIST] r(8) d(2) by simp_all
  have pr: "in_state g1 k = in_state g k" for k unfolding in_state_def r(4) ..
  have tHF: "t \<notin> H" "t \<notin> F" using d(8,11) t(1) tnl by blast+
  have "shape g0 P R F (insert t H) g1"
  proof (rule shape_moved [OF s r(1) ql(3) r(2) fixed_kept [OF r(3)]]; (unfold ql pr)?)
    show "node_ids g = set (node_list g) \<union> (set (plist g) - {t}) \<union> insert t H" unfolding d(7) using t(1) by blast
    show "insert t H \<inter> (set (node_list g) \<union> (set (plist g) - {t})) = {}" using d(8) t(1) tnl by blast
    show "source g x" if "x \<in> insert t H \<union> F" for x using that d(9) [of x] t(2) by blast
    show "x \<in> in_state g STATE_PROCESSING \<or> source g x" if "x \<in> set (plist g) - {t}" for x using that d(12) [of x] by blast
  qed (use d(10,11,13) in blast)+
  then show ?thesis using that [OF g1 _ tHF ql(2) r(2)] by blast
qed

lemma shape_fail:
  assumes s: "shape g0 P R F (insert t H) g" and t: "t \<notin> H"
  obtains g1 where "node_insert_tail NODE_LIST t g = Some g1" "shape g0 P R (insert t F) H g1" "set (plist g1) = set (plist g)"
    "arcs g1 = arcs g"
proof -
  note d = shapeD [OF s]
  have tq: "t \<notin> set (node_list g)" "t \<notin> set (plist g)" using d(8) by blast+
  have off: "t \<notin> set (queue L g)" for L using tq d(2) by (cases L) simp_all
  have "t \<in> node_ids g" using d(7) by blast
  then obtain g1 where g1: "node_insert_tail NODE_LIST t g = Some g1" using insert_works [OF d(1) _ off] by blast
  note i = insert_view [OF d(1) disjI2 [OF g1]]
  have ql: "set (node_list g1) = insert t (set (node_list g))" "set (plist g1) = set (plist g)" "removing_list g1 = []"
    using i(5) [of NODE_LIST] i(5) [of PLIST] i(6) d(2) by simp_all
  have pr: "in_state g1 k = in_state g k" for k unfolding in_state_def i(4) ..
  have "shape g0 P R (insert t F) H g1"
  proof (rule shape_moved [OF s i(1) ql(3) i(2) fixed_kept [OF i(3)]]; (unfold ql pr)?)
    show "node_ids g = insert t (set (node_list g)) \<union> set (plist g) \<union> H" unfolding d(7) by blast
    show "H \<inter> (insert t (set (node_list g)) \<union> set (plist g)) = {}" using d(8) t by blast
    show "source g x" if "x \<in> H \<union> insert t F" for x using that d(9) [of x] by blast
    show "insert t (set (node_list g)) \<inter> in_state g STATE_PROCESSING \<subseteq> insert t F" using d(10) by blast
    show "insert t F \<subseteq> insert t (set (node_list g))" using d(11) by blast
    show "x \<in> in_state g STATE_PROCESSING \<or> source g x" if "x \<in> set (plist g)" for x using that by (rule d(12))
    show "\<not> source g x" if "x \<in> insert t (set (node_list g)) - insert t F" for x using that d(13) [of x] by blast
  qed
  then show ?thesis using that [OF g1 _ ql(2) i(2)] by blast
qed

text \<open>The start: the root leaves the queue.\<close>

lemma shape_init:
  assumes rdy: "exec_ready g"
  obtains g1 where "node_remove_list NODE_LIST (hd (node_list g)) g = Some g1" "shape g {} {} {} {hd (node_list g)} g1" "plist g1 = []"
    "arcs g1 = arcs g"
proof -
  let ?r = "hd (node_list g)"
  have ok: "graph_ok g" and e: "plist g = []" "removing_list g = []" "node_list g \<noteq> []" using rdy by (simp_all add: exec_ready_def)
  have nodes: "active_list n = Some NODE_LIST \<and> n_state n \<noteq> STATE_PROCESSING \<and> transient n \<noteq> TRANSIENT_DELETE"
    if "find_node g t = Some n" for t n using rdy that unfolding exec_ready_def by blast
  have src: "t = ?r \<longleftrightarrow> source g t" if "t \<in> node_ids g" for t using rdy that unfolding exec_ready_def source_def by blast
  have rin: "?r \<in> set (queue NODE_LIST g)" using e(3) by simp
  obtain g1 where g1: "node_remove_list NODE_LIST ?r g = Some g1" using remove_works [OF ok rin] by auto
  note r = remove_list_view [OF ok g1]
  note v = view_cong [OF fixed_kept [OF r(3)]]
  have nl: "t \<in> set (node_list g) \<longleftrightarrow> t \<in> node_ids g" for t
    using ok queues_okD(2) [of g t NODE_LIST] nodes [of t] by (auto simp: graph_ok_def node_ids_def)
  have ql: "set (node_list g1) = node_ids g - {?r}" "set (plist g1) = {}" "removing_list g1 = []"
    using r(5) [of NODE_LIST] r(5) [of PLIST] r(8) e nl by auto
  have so: "source g1 = source g" by (intro ext) (simp only: source_def r(2))
  have pr: "in_state g1 STATE_PROCESSING = {}"
  proof -
    have "map_option n_state (find_node g t) \<noteq> Some STATE_PROCESSING" for t using nodes by auto
    then show ?thesis unfolding in_state_def r(4) by simp
  qed
  have rid: "?r \<in> node_ids g" using rin nl by simp
  have "shape g {} {} {} {?r} g1"
  proof (rule shapeI)
    show "arcs g1 = left_arcs g {}" using r(2) by (auto simp: left_arcs_def)
    show "transient n = (if x \<in> tset g then if x \<in> {} then TRANSIENT_DELETE else TRANSIENT_PROCESSING else TRANSIENT_NONE)"
      if "find_node g1 x = Some n" for x n
    proof (rule v(3) [OF _ that])
      show "transient n = (if t \<in> tset g then if t \<in> {} then TRANSIENT_DELETE else TRANSIENT_PROCESSING else TRANSIENT_NONE)"
        if "find_node g t = Some n" for t n
        using nodes [OF that] that by (cases "transient n") (auto simp: tset_def transients_def)
    qed
    show "node_ids g1 = set (node_list g1) \<union> set (plist g1) \<union> {?r}" unfolding v(1) ql using rid by blast
    show "source g1 x" if "x \<in> {?r} \<union> {}" for x using that src [OF rid] unfolding so by blast
    show "\<not> source g1 x" if "x \<in> set (node_list g1) - {}" for x using that src [of x] unfolding ql so by blast
  qed (use ql pr r v in \<open>simp_all add: acyclic_def\<close>)
  then show ?thesis using that [OF g1] ql(2) r(2) by auto
qed

end
