(* ===== verification/Exec_Runs.thy ===== *)
theory Exec_Runs
  imports Exec_Steps
begin

text \<open>
  The invariant of an execution under every schedule, for any worker function that leaves the queues and arcs of the
  graph alone, and the measure that every step decreases.
\<close>

section \<open>What the events say\<close>

definition popped :: "event list \<Rightarrow> tupid set" where
  "popped tr = {t. Popped t \<in> set tr}"

definition stuck :: "event list \<Rightarrow> tupid set" where
  "stuck tr = {t. Failed t \<in> set tr}"

text \<open>A transient node leaves the graph when it is popped for the second time.\<close>

definition departed :: "graph \<Rightarrow> event list \<Rightarrow> tupid set" where
  "departed g0 tr = {t \<in> popped tr. t \<in> tset g0 \<longrightarrow> 2 \<le> count_list tr (Popped t)}"

definition ready_at :: "graph \<Rightarrow> event list \<Rightarrow> tupid \<Rightarrow> bool" where
  "ready_at g0 pre t \<longleftrightarrow>
     (if t \<in> popped pre then t \<in> tset g0 \<and> (\<forall>b. (t, b) \<in> arcs g0 \<longrightarrow> b \<in> popped pre)
      else \<forall>a. (a, t) \<in> arcs g0 \<longrightarrow> a \<in> popped pre)"

definition ordered :: "graph \<Rightarrow> event list \<Rightarrow> bool" where
  "ordered g0 tr \<longleftrightarrow> (\<forall>pre e post t. tr = pre @ e # post \<and> (e = Started t \<or> e = Popped t) \<longrightarrow> ready_at g0 pre t)"

definition fair_counts :: "graph \<Rightarrow> event list \<Rightarrow> tupid set \<Rightarrow> bool" where
  "fair_counts g0 tr H \<longleftrightarrow> (\<forall>t. count_list tr (Popped t) \<le> (if t \<in> tset g0 then 2 else 1))
     \<and> (\<forall>t. count_list tr (Started t) \<le> count_list tr (Popped t) + (if t \<in> H \<union> stuck tr then 1 else 0))"

lemma ordered_Nil [simp]: "ordered g0 []"
  by (simp add: ordered_def)

lemma ordered_snoc:
  "ordered g0 (tr @ [e]) \<longleftrightarrow> ordered g0 tr \<and> (\<forall>t. e = Started t \<or> e = Popped t \<longrightarrow> ready_at g0 tr t)"
proof -
  have "tr @ [e] = pre @ e' # post \<longleftrightarrow> post = [] \<and> pre = tr \<and> e' = e \<or> (\<exists>post'. post = post' @ [e] \<and> tr = pre @ e' # post')"
    for pre e' post by (cases post rule: rev_cases) auto
  then show ?thesis unfolding ordered_def by (simp only:) blast
qed

lemma popped_snoc [simp]:
  "popped [] = {}" "popped (tr @ [Popped t]) = insert t (popped tr)" "popped (tr @ [Started t]) = popped tr"
  "popped (tr @ [Failed t]) = popped tr" "popped (tr @ [Returned t rc]) = popped tr"
  by (auto simp: popped_def)

lemma stuck_snoc [simp]:
  "stuck [] = {}" "stuck (tr @ [Popped t]) = stuck tr" "stuck (tr @ [Started t]) = stuck tr"
  "stuck (tr @ [Failed t]) = insert t (stuck tr)" "stuck (tr @ [Returned t rc]) = stuck tr"
  by (auto simp: stuck_def)

lemma count_popped: "t \<in> popped tr \<longleftrightarrow> 0 < count_list tr (Popped t)"
  by (auto simp: popped_def count_list_0_iff neq0_conv [symmetric])

lemma departed_snoc [simp]:
  "departed g0 [] = {}" "departed g0 (tr @ [Started t]) = departed g0 tr" "departed g0 (tr @ [Failed t]) = departed g0 tr"
  "departed g0 (tr @ [Returned t rc]) = departed g0 tr"
  by (auto simp: departed_def)

lemma departed_pop: "departed g0 (tr @ [Popped t]) = (if t \<in> tset g0 \<and> t \<notin> popped tr then departed g0 tr else insert t (departed g0 tr))"
  using count_popped [of _ tr] by (auto simp: departed_def Suc_le_eq)

section \<open>The workers\<close>

definition threads_ok :: "nat \<Rightarrow> tupid list \<Rightarrow> tupid list \<Rightarrow> 'w exec \<Rightarrow> bool" where
  "threads_ok jobs bs fs s \<longleftrightarrow> distinct (free_list s @ busy_list s @ fin_list s)
     \<and> set (free_list s @ busy_list s @ fin_list s) = {0..<jobs}
     \<and> active s = int (length (busy_list s) + length (fin_list s))
     \<and> map (\<lambda>wt. wt_n (workers s wt)) (busy_list s) = map Some bs
     \<and> map (\<lambda>wt. wt_retn (workers s wt)) (fin_list s) = map Some fs \<and> distinct (bs @ fs)"

text \<open>A node comes off \<open>plist\<close> and is popped only after its function returned 0.\<close>

definition results_ok :: "graph \<Rightarrow> event list \<Rightarrow> 'w exec \<Rightarrow> bool" where
  "results_ok g0 tr s \<longleftrightarrow> (\<forall>t \<in> is_expanded g0 - {hd (node_list g0)}. count_list tr (Popped t) \<le> count_list tr (Returned t 0))
     \<and> (\<forall>t wt. t \<in> is_expanded g0 - {hd (node_list g0)} \<and> wt \<in> set (fin_list s) \<and> wt_retn (workers s wt) = Some t \<and> wt_rc (workers s wt) = 0
          \<longrightarrow> count_list tr (Popped t) < count_list tr (Returned t 0))"

definition pc_ok :: "bool \<Rightarrow> 'w exec \<Rightarrow> bool" where
  "pc_ok keep_going s \<longleftrightarrow> (case x_pc s of
     Dispatch \<Rightarrow> free_list s \<noteq> [] \<and> (server_is_dead s \<or> active s = 0 \<or> loop_cond keep_going s)
   | Check_Empties \<Rightarrow> True
   | Exited rc \<Rightarrow> rc \<in> {0, -1} \<and> (rc = 0 \<longrightarrow> failed s = 0 \<and> node_list (x_graph s) = [] \<and> plist (x_graph s) = [] \<and> active s = 0)
       \<and> (\<not> server_is_dead s \<longrightarrow> rc = exec_rc s \<and> \<not> loop_cond keep_going s \<and> active s = 0))"

definition exec_inv :: "bool \<Rightarrow> nat \<Rightarrow> graph \<Rightarrow> event list \<Rightarrow> tupid list \<Rightarrow> tupid list \<Rightarrow> 'w exec \<Rightarrow> bool" where
  "exec_inv keep_going jobs g0 tr bs fs s \<longleftrightarrow> threads_ok jobs bs fs s
     \<and> shape g0 (popped tr) (departed g0 tr) (stuck tr) (set (bs @ fs)) (x_graph s) \<and> fair_counts g0 tr (set (bs @ fs))
     \<and> ordered g0 tr \<and> results_ok g0 tr s \<and> failed s \<ge> 0 \<and> (failed s = 0 \<longleftrightarrow> stuck tr = {}) \<and> pc_ok keep_going s"

section \<open>The measure\<close>

definition arc_weight :: "graph \<Rightarrow> tupid set \<Rightarrow> nat" where
  "arc_weight g0 P = 2 * card {(a, b) \<in> arcs g0. a \<notin> P} + card {(a, b) \<in> arcs g0. a \<in> tset g0 \<and> a \<in> P \<and> b \<notin> P}"

definition pc_weight :: "pc \<Rightarrow> nat" where
  "pc_weight p = (case p of Dispatch \<Rightarrow> 1 | Check_Empties \<Rightarrow> 2 | Exited rc \<Rightarrow> 0)"

definition node_weight :: "graph \<Rightarrow> event list \<Rightarrow> nat" where
  "node_weight g0 tr = card (node_ids g0 - departed g0 tr) + card (tset g0 - popped tr)"

definition exec_measure :: "graph \<Rightarrow> event list \<Rightarrow> 'w exec \<Rightarrow> nat" where
  "exec_measure g0 tr s = 10 * arc_weight g0 (popped tr)
     + 10 * node_weight g0 tr
     + 6 * card (set (plist (x_graph s))) + 3 * length (busy_list s) + length (fin_list s) + pc_weight (x_pc s)
     + (if server_is_dead s then 0 else 1)"

lemma finite_nodes [simp]: "finite (node_ids g)"
  unfolding node_ids_def using unmarked_finite [of g "\<lambda>_. True"] by simp

lemma finite_arcs: "graph_ok g \<Longrightarrow> finite (arcs g)"
  by (rule finite_subset [of _ "node_ids g \<times> node_ids g"]) (auto dest: edge_nodes)

lemma tset_nodes: "tset g \<subseteq> node_ids g"
  by (auto simp: tset_def transients_def node_ids_def)

lemma arc_weight_pop:
  assumes rdy: "exec_ready g0" and t: "t \<notin> P" and pre: "\<And>a. (a, t) \<in> arcs g0 \<Longrightarrow> a \<in> P" and cl: "\<And>a b. (a, b) \<in> arcs g0 \<Longrightarrow> b \<in> P \<Longrightarrow> a \<in> P"
  shows "arc_weight g0 (insert t P) + card {b. (t, b) \<in> left_arcs g0 P} \<le> arc_weight g0 P"
proof -
  have fin: "finite (arcs g0)" using rdy finite_arcs by (simp add: exec_ready_def)
  define X where "X = {(a, b) \<in> arcs g0. a \<notin> P}"
  define Y where "Y = {(a, b) \<in> arcs g0. a \<in> tset g0 \<and> a \<in> P \<and> b \<notin> P}"
  define D0 where "D0 = {(a, b) \<in> arcs g0. a = t}"
  define D1 where "D1 = {(a, b) \<in> arcs g0. b = t \<and> a \<in> tset g0}"
  have fX: "finite X" "finite Y" "finite D0" "finite D1"
    unfolding X_def Y_def D0_def D1_def by (rule finite_subset [OF _ fin], auto)+
  have sub: "D0 \<subseteq> X" "D1 \<subseteq> Y" using t pre by (auto simp: D0_def D1_def X_def Y_def)
  have X': "{(a, b) \<in> arcs g0. a \<notin> insert t P} = X - D0" by (auto simp: X_def D0_def)
  have Y': "{(a, b) \<in> arcs g0. a \<in> tset g0 \<and> a \<in> insert t P \<and> b \<notin> insert t P} \<subseteq> (Y - D1) \<union> D0"
    by (auto simp: Y_def D1_def D0_def)
  have "card {(a, b) \<in> arcs g0. a \<in> tset g0 \<and> a \<in> insert t P \<and> b \<notin> insert t P} \<le> card ((Y - D1) \<union> D0)"
    by (rule card_mono [OF _ Y']) (use fX in simp)
  also have "\<dots> \<le> card (Y - D1) + card D0" by (rule card_Un_le)
  finally have c: "card {(a, b) \<in> arcs g0. a \<in> tset g0 \<and> a \<in> insert t P \<and> b \<notin> insert t P} \<le> card Y - card D1 + card D0"
    using card_Diff_subset [OF fX(4) sub(2)] by simp
  have cX: "card (X - D0) = card X - card D0" by (rule card_Diff_subset [OF fX(3) sub(1)])
  have "{b. (t, b) \<in> left_arcs g0 P} \<subseteq> snd ` D0 \<union> fst ` D1"
    using t by (force simp: left_arcs_def D0_def D1_def)
  then have "card {b. (t, b) \<in> left_arcs g0 P} \<le> card (snd ` D0 \<union> fst ` D1)" by (intro card_mono) (use fX in simp_all)
  also have "\<dots> \<le> card D0 + card D1"
    by (rule order_trans [OF card_Un_le]) (intro add_mono card_image_le fX)
  finally have d: "card {b. (t, b) \<in> left_arcs g0 P} \<le> card D0 + card D1" .
  have "card D0 \<le> card X" "card D1 \<le> card Y" using fX sub by (auto intro: card_mono)
  then show ?thesis
    using c d cX unfolding arc_weight_def X' X_def [symmetric] Y_def [symmetric] by linarith
qed

section \<open>Popping in the run\<close>

lemma count_snoc [simp]: "count_list (tr @ [e]) x = count_list tr x + (if e = x then 1 else 0)"
  by (induction tr) auto

lemma ready_at_source:
  assumes "shape g0 (popped tr) R F H g" and "exec_ready g0" and "t \<in> node_ids g" "source g t"
  shows "ready_at g0 tr t"
proof (cases "t \<in> popped tr")
  case True
  show ?thesis unfolding ready_at_def if_P [OF True]
    by (intro conjI allI impI) (rule shape_source(2,3) [OF assms True]; assumption?)+
next
  case False
  show ?thesis unfolding ready_at_def if_not_P [OF False] by (intro allI impI) (rule shape_source(1) [OF assms False])
qed

lemma pop_in_run:
  assumes rdy: "exec_ready g0" and s: "shape g0 (popped tr) (departed g0 tr) (stuck tr) (insert t H) g"
    and tH: "t \<notin> H" and fc: "fair_counts g0 tr (insert t H)" and ord: "ordered g0 tr"
  defines "tr' \<equiv> tr @ [Popped t]"
  obtains g' where "pop_node t g = Some (Some g')" "shape g0 (popped tr') (departed g0 tr') (stuck tr') H g'"
    "fair_counts g0 tr' H" "ordered g0 tr'"
    "10 * arc_weight g0 (popped tr') + 10 * node_weight g0 tr' + 6 * card (set (plist g')) + 4
       \<le> 10 * arc_weight g0 (popped tr) + 10 * node_weight g0 tr + 6 * card (set (plist g))"
proof -
  note d = shapeD [OF s]
  have tid: "t \<in> node_ids g" using d(7) by blast
  have st: "source g t" using d(9) by blast
  note src = shape_source [OF s rdy tid st]
  obtain g' where g': "pop_node t g = Some (Some g')"
    "shape g0 (insert t (popped tr)) (if t \<in> tset g0 \<and> t \<notin> popped tr then departed g0 tr else insert t (departed g0 tr)) (stuck tr) H g'"
    "card (set (plist g')) \<le> card (set (plist g)) + card {b. (t, b) \<in> arcs g} + 1"
    "t \<notin> departed g0 tr" "t \<in> node_ids g0"
    by (rule shape_pop [OF s tH rdy]) (rule that; assumption)
  have sh: "shape g0 (popped tr') (departed g0 tr') (stuck tr') H g'"
    using g'(2) by (simp add: tr'_def departed_pop)
  have "ready_at g0 tr t" by (rule ready_at_source [OF s rdy tid st])
  then have o: "ordered g0 tr'" using ord by (simp add: tr'_def ordered_snoc)
  have tF: "t \<notin> stuck tr" using d(8,11) by blast
  have cp: "count_list tr (Popped t) = (if t \<in> popped tr then 1 else 0)" if "t \<in> tset g0 \<or> t \<notin> popped tr"
  proof (cases "t \<in> popped tr")
    case True
    then have "count_list tr (Popped t) < 2" using g'(4) that by (auto simp: departed_def)
    then show ?thesis using True count_popped [of t tr] by simp
  qed (use count_popped [of t tr] in simp)
  have cpt: "count_list tr (Popped t) + 1 \<le> (if t \<in> tset g0 then 2 else 1)" using cp src(2) by (auto split: if_splits)
  have f: "fair_counts g0 tr' H"
    unfolding fair_counts_def
  proof (intro conjI allI)
    fix x
    show "count_list tr' (Popped x) \<le> (if x \<in> tset g0 then 2 else 1)"
    proof (cases "x = t")
      case False
      then show ?thesis using fc by (simp add: tr'_def fair_counts_def)
    qed (use cpt in \<open>simp add: tr'_def\<close>)
    have "count_list tr (Started x) \<le> count_list tr (Popped x) + (if x \<in> insert t H \<union> stuck tr then 1 else 0)"
      using fc unfolding fair_counts_def by blast
    then show "count_list tr' (Started x) \<le> count_list tr' (Popped x) + (if x \<in> H \<union> stuck tr' then 1 else 0)"
      by (cases "x = t") (auto simp: tr'_def split: if_splits)
  qed
  have Vfin: "finite (node_ids g0 - departed g0 tr)" "finite (tset g0 - popped tr)"
    using finite_subset [OF tset_nodes] by auto
  have nw: "node_weight g0 tr' + 1 \<le> node_weight g0 tr"
  proof (cases "t \<in> tset g0 \<and> t \<notin> popped tr")
    case True
    then have "tset g0 - popped tr' = (tset g0 - popped tr) - {t}" by (auto simp: tr'_def)
    moreover have "card ((tset g0 - popped tr) - {t}) + 1 = card (tset g0 - popped tr)"
      using True Vfin card_Suc_Diff1 [of "tset g0 - popped tr" t] by simp
    ultimately show ?thesis using True by (simp add: node_weight_def tr'_def departed_pop)
  next
    case False
    then have "node_ids g0 - departed g0 tr' = (node_ids g0 - departed g0 tr) - {t}" by (auto simp: tr'_def departed_pop)
    moreover have "card ((node_ids g0 - departed g0 tr) - {t}) + 1 = card (node_ids g0 - departed g0 tr)"
      using g'(4,5) Vfin card_Suc_Diff1 [of "node_ids g0 - departed g0 tr" t] by simp
    moreover have "card (tset g0 - popped tr') \<le> card (tset g0 - popped tr)"
      by (rule card_mono) (use Vfin in \<open>auto simp: tr'_def\<close>)
    ultimately show ?thesis by (simp add: node_weight_def)
  qed
  have aw: "arc_weight g0 (popped tr') + card {b. (t, b) \<in> arcs g} \<le> arc_weight g0 (popped tr)"
  proof (cases "t \<in> popped tr")
    case True
    have "{b. (t, b) \<in> arcs g} = {}"
      using True src(2) rdy d(4) by (auto simp: left_arcs_def exec_ready_def)
    then show ?thesis using True by (simp add: tr'_def insert_absorb)
  next
    case False
    then show ?thesis using arc_weight_pop [OF rdy False src(1) d(17)] d(4) by (simp add: tr'_def)
  qed
  show thesis
    by (rule that [OF g'(1) sh f o]) (use nw aw g'(3) in linarith)
qed

lemma plist_card: "graph_ok g \<Longrightarrow> card (set (plist g)) = length (plist g)"
  using queues_okD(1) [of g PLIST] by (simp add: graph_ok_def distinct_card)

section \<open>The steps of the main thread\<close>

lemma exec_invD:
  assumes "exec_inv keep_going jobs g0 tr bs fs s"
  shows "threads_ok jobs bs fs s" "shape g0 (popped tr) (departed g0 tr) (stuck tr) (set (bs @ fs)) (x_graph s)"
    "fair_counts g0 tr (set (bs @ fs))" "ordered g0 tr" "results_ok g0 tr s" "failed s \<ge> 0" "failed s = 0 \<longleftrightarrow> stuck tr = {}"
    "pc_ok keep_going s"
  using assms unfolding exec_inv_def by blast+

lemma fair_counts_mono: "fair_counts g0 tr H \<Longrightarrow> H \<subseteq> H' \<Longrightarrow> fair_counts g0 tr H'"
  unfolding fair_counts_def by (auto split: if_splits) (metis le_SucI subsetD)

text \<open>Popping: the common part of the three places where \<^verbatim>\<open>pop_node\<close> is called.\<close>

lemma exec_pop:
  assumes rdy: "exec_ready g0" and th: "threads_ok jobs bs fs s"
    and sh: "shape g0 (popped tr) (departed g0 tr) (stuck tr) (insert t (set (bs @ fs))) (x_graph s)" and t: "t \<notin> set (bs @ fs)"
    and fc: "fair_counts g0 tr (insert t (set (bs @ fs)))" and o: "ordered g0 tr" and rs: "results_ok g0 tr s"
    and f: "failed s \<ge> 0" "failed s = 0 \<longleftrightarrow> stuck tr = {}"
    and re: "t \<in> is_expanded g0 - {hd (node_list g0)} \<Longrightarrow> count_list tr (Popped t) < count_list tr (Returned t 0)"
    and pc: "\<And>g'. pc_ok keep_going (s\<lparr>x_graph := g', x_pc := next\<rparr>)"
  obtains s' where "pop_in t next s = Some ([Popped t], s')" "exec_inv keep_going jobs g0 (tr @ [Popped t]) bs fs s'"
    "exec_measure g0 (tr @ [Popped t]) s' + pc_weight (x_pc s) + 4 \<le> exec_measure g0 tr s + pc_weight next"
proof -
  obtain g' where g': "pop_node t (x_graph s) = Some (Some g')"
    "shape g0 (popped (tr @ [Popped t])) (departed g0 (tr @ [Popped t])) (stuck (tr @ [Popped t])) (set (bs @ fs)) g'"
    "fair_counts g0 (tr @ [Popped t]) (set (bs @ fs))" "ordered g0 (tr @ [Popped t])"
    "10 * arc_weight g0 (popped (tr @ [Popped t])) + 10 * node_weight g0 (tr @ [Popped t]) + 6 * card (set (plist g')) + 4
       \<le> 10 * arc_weight g0 (popped tr) + 10 * node_weight g0 tr + 6 * card (set (plist (x_graph s)))"
    by (rule pop_in_run [OF rdy sh t fc o]) (rule that; assumption)
  let ?s = "s\<lparr>x_graph := g', x_pc := next\<rparr>"
  have "threads_ok jobs bs fs ?s" using th by (simp add: threads_ok_def)
  moreover have "results_ok g0 (tr @ [Popped t]) ?s"
    unfolding results_ok_def
  proof (intro conjI ballI allI impI)
    fix x assume x: "x \<in> is_expanded g0 - {hd (node_list g0)}"
    then have "count_list tr (Popped x) \<le> count_list tr (Returned x 0)" using rs unfolding results_ok_def by blast
    then show "count_list (tr @ [Popped t]) (Popped x) \<le> count_list (tr @ [Popped t]) (Returned x 0)"
      using re x by (cases "x = t") simp_all
  next
    fix x wt assume x: "x \<in> is_expanded g0 - {hd (node_list g0)} \<and> wt \<in> set (fin_list ?s) \<and> wt_retn (workers ?s wt) = Some x \<and> wt_rc (workers ?s wt) = 0"
    have "x \<noteq> t"
    proof
      assume "x = t"
      then have "Some t \<in> set (map (\<lambda>wt. wt_retn (workers s wt)) (fin_list s))" using x by force
      then have "t \<in> set fs" using th unfolding threads_ok_def by auto
      then show False using t by simp
    qed
    then show "count_list (tr @ [Popped t]) (Popped x) < count_list (tr @ [Popped t]) (Returned x 0)"
      using x rs unfolding results_ok_def by auto
  qed
  ultimately have "exec_inv keep_going jobs g0 (tr @ [Popped t]) bs fs ?s"
    unfolding exec_inv_def using g'(2-4) f pc [of g'] by (intro conjI) simp_all
  moreover have "exec_measure g0 (tr @ [Popped t]) ?s + pc_weight (x_pc s) + 4 \<le> exec_measure g0 tr s + pc_weight next"
    using g'(5) unfolding exec_measure_def by simp
  moreover have "pop_in t next s = Some ([Popped t], ?s)" by (simp add: pop_in_def g'(1))
  ultimately show thesis using that by blast
qed

lemma fair_countsD:
  assumes "fair_counts g0 tr H"
  shows "count_list tr (Popped t) \<le> (if t \<in> tset g0 then 2 else 1)"
    and "count_list tr (Started t) \<le> count_list tr (Popped t) + (if t \<in> H \<union> stuck tr then 1 else 0)"
  using assms unfolding fair_counts_def by blast+

lemma fair_counts_start:
  assumes "fair_counts g0 tr H" and "t \<notin> H \<union> stuck tr"
  shows "fair_counts g0 (tr @ [Started t]) (insert t H)"
  unfolding fair_counts_def
proof (intro conjI allI)
  fix x
  show "count_list (tr @ [Started t]) (Popped x) \<le> (if x \<in> tset g0 then 2 else 1)" using fair_countsD(1) [OF assms(1), of x] by simp
  show "count_list (tr @ [Started t]) (Started x) \<le> count_list (tr @ [Started t]) (Popped x)
      + (if x \<in> insert t H \<union> stuck (tr @ [Started t]) then 1 else 0)"
    using fair_countsD(2) [OF assms(1), of x] assms(2) by (cases "x = t") (auto split: if_splits)
qed

lemma map_other: "wt \<notin> set xs \<Longrightarrow> map (\<lambda>x. f (if x = wt then y else w x)) xs = map (\<lambda>x. f (w x)) xs"
  by (rule map_cong) auto

lemma source_incoming: "graph_ok g \<Longrightarrow> find_node g t = Some n \<Longrightarrow> n_incoming n = [] \<longleftrightarrow> source g t"
  using incoming_empty [of g t] by (simp add: incoming_of_def source_def)

lemma not_expanded:
  assumes "shape g0 P R F H g" and "find_node g t = Some n" and "\<not> expanded n"
  shows "t \<notin> is_expanded g0"
proof -
  have "t \<notin> is_expanded g" using assms(2,3) by (simp add: is_expanded_def)
  moreover have "t \<notin> R" using shapeD(3) [OF assms(1)] assms(2) by (auto simp: node_ids_def)
  ultimately show ?thesis using shapeD(6) [OF assms(1)] by blast
qed

lemma exec_dispatch:
  assumes rdy: "exec_ready g0" and i: "exec_inv keep_going jobs g0 tr bs fs s" and pc: "x_pc s = Dispatch" and lc: "loop_cond keep_going s"
  obtains evs s' bs' where "dispatch s = Some (evs, s')" "exec_inv keep_going jobs g0 (tr @ evs) bs' fs s'"
    "exec_measure g0 (tr @ evs) s' < exec_measure g0 tr s"
proof -
  note inv = exec_invD [OF i]
  note d = shapeD [OF inv(2)]
  obtain t ts where pl: "plist (x_graph s) = t # ts" using lc by (cases "plist (x_graph s)") (auto simp: loop_cond_def)
  then have tp: "t \<in> set (plist (x_graph s))" by simp
  then have "t \<in> node_ids (x_graph s)" using d(7) by blast
  then obtain n where n: "find_node (x_graph s) t = Some n" by (auto simp: node_ids_def)
  have cpl: "0 < card (set (plist (x_graph s)))" using tp by (simp add: card_gt_0_iff) (metis list.set_intros(1) pl empty_iff set_empty2)
  show thesis
  proof (cases "source (x_graph s) t")
    case False
    obtain g1 g2 where g: "node_remove_list PLIST t (x_graph s) = Some g1" "node_insert_head NODE_LIST t g1 = Some g2"
      "shape g0 (popped tr) (departed g0 tr) (stuck tr) (set (bs @ fs)) (set_state t STATE_FINISHED g2)"
      "set (plist (set_state t STATE_FINISHED g2)) = set (plist (x_graph s)) - {t}"
      "arcs (set_state t STATE_FINISHED g2) = arcs (x_graph s)"
      by (rule shape_defer [OF inv(2) tp False])
    let ?s = "s\<lparr>x_graph := set_state t STATE_FINISHED g2, x_pc := Check_Empties\<rparr>"
    have "dispatch s = Some ([], ?s)"
      using False source_incoming [OF d(1) n] by (simp add: dispatch_def pl n g)
    moreover have "exec_inv keep_going jobs g0 (tr @ []) bs fs ?s"
      using inv g(3) unfolding exec_inv_def by (simp add: threads_ok_def results_ok_def pc_ok_def)
    moreover have "exec_measure g0 (tr @ []) ?s < exec_measure g0 tr s"
      using cpl tp pc by (simp add: exec_measure_def g(4) pc_weight_def card_Diff_singleton)
    ultimately show ?thesis using that by blast
  next
    case True
    obtain g1 where g: "node_remove_list PLIST t (x_graph s) = Some g1"
      "shape g0 (popped tr) (departed g0 tr) (stuck tr) (insert t (set (bs @ fs))) g1" "t \<notin> set (bs @ fs)" "t \<notin> stuck tr"
      "set (plist g1) = set (plist (x_graph s)) - {t}" "arcs g1 = arcs (x_graph s)"
      by (rule shape_take [OF inv(2) tp True])
    let ?s = "s\<lparr>x_graph := g1\<rparr>"
    have th: "threads_ok jobs bs fs ?s" using inv(1) by (simp add: threads_ok_def)
    have rs: "results_ok g0 tr ?s" using inv(5) by (simp add: results_ok_def)
    have fc: "fair_counts g0 tr (insert t (set (bs @ fs)))" by (rule fair_counts_mono [OF inv(3)]) blast
    have m: "exec_measure g0 tr ?s + 6 = exec_measure g0 tr s"
      using cpl tp by (simp add: exec_measure_def g(5) card_Diff_singleton)
    have inc: "n_incoming n = []" using True source_incoming [OF d(1) n] by simp
    show ?thesis
    proof (cases "expanded n")
      case False
      have te: "t \<notin> is_expanded g0" by (rule not_expanded [OF inv(2) n False])
      have sh': "shape g0 (popped tr) (departed g0 tr) (stuck tr) (insert t (set (bs @ fs))) (x_graph ?s)" using g(2) by simp
      have f': "failed ?s \<ge> 0" "failed ?s = 0 \<longleftrightarrow> stuck tr = {}" using inv(6,7) by simp_all
      obtain s' where s': "pop_in t Check_Empties ?s = Some ([Popped t], s')" "exec_inv keep_going jobs g0 (tr @ [Popped t]) bs fs s'"
        "exec_measure g0 (tr @ [Popped t]) s' + pc_weight (x_pc ?s) + 4 \<le> exec_measure g0 tr ?s + pc_weight Check_Empties"
        by (rule exec_pop [OF rdy th sh' g(3) fc inv(4) rs f']) (use te in \<open>auto simp: pc_ok_def\<close>)
      have "dispatch s = Some ([Popped t], s')" using s'(1) inc False by (simp add: dispatch_def pl n g(1))
      moreover have "exec_measure g0 (tr @ [Popped t]) s' < exec_measure g0 tr s" using s'(3) m by (simp add: pc_weight_def pc)
      ultimately show ?thesis using that s'(2) by blast
    next
      case ex: True
      obtain wt free where fr: "free_list s = wt # free" using inv(8) pc by (cases "free_list s") (auto simp: pc_ok_def)
      let ?s1 = "?s\<lparr>active := active ?s + 1, free_list := free, busy_list := wt # busy_list ?s,
         workers := (workers ?s)(wt := (workers ?s wt)\<lparr>wt_n := Some t, wt_rc := -1\<rparr>), x_pc := Check_Empties\<rparr>"
      have "dispatch s = Some ([Started t], ?s1)" using inc ex by (simp add: dispatch_def pl n g(1) start_worker_def fr)
      moreover have "exec_inv keep_going jobs g0 (tr @ [Started t]) (t # bs) fs ?s1"
      proof -
        have wt: "wt \<notin> set (busy_list s)" "wt \<notin> set (fin_list s)" using inv(1) fr by (auto simp: threads_ok_def)
        have "threads_ok jobs (t # bs) fs ?s1"
          using inv(1) fr wt g(3) unfolding threads_ok_def by (auto simp: map_other)
        moreover have "shape g0 (popped (tr @ [Started t])) (departed g0 (tr @ [Started t])) (stuck (tr @ [Started t])) (set ((t # bs) @ fs)) (x_graph ?s1)"
          using g(2) by simp
        moreover have "fair_counts g0 (tr @ [Started t]) (set ((t # bs) @ fs))"
          using fair_counts_start [OF inv(3)] g(3,4) by simp
        moreover have "ordered g0 (tr @ [Started t])"
          using inv(4) ready_at_source [OF inv(2) rdy \<open>t \<in> node_ids (x_graph s)\<close> True] by (simp add: ordered_snoc)
        moreover have "results_ok g0 (tr @ [Started t]) ?s1"
          using inv(5) wt unfolding results_ok_def by auto
        ultimately show ?thesis using inv(6,7) unfolding exec_inv_def by (simp add: pc_ok_def)
      qed
      moreover have "exec_measure g0 (tr @ [Started t]) ?s1 < exec_measure g0 tr s"
        using m pc by (simp add: exec_measure_def pc_weight_def node_weight_def)
      ultimately show ?thesis using that by blast
    qed
  qed
qed

lemma exec_collect:
  assumes rdy: "exec_ready g0" and i: "exec_inv keep_going jobs g0 tr bs fs s" and pc: "x_pc s = Check_Empties" and fin: "fin_list s \<noteq> []"
  obtains evs s' fs' where "collect s = Some (evs, s')" "exec_inv keep_going jobs g0 (tr @ evs) bs fs' s'"
    "exec_measure g0 (tr @ evs) s' < exec_measure g0 tr s"
proof -
  note inv = exec_invD [OF i]
  obtain wt ws where ws: "fin_list s = wt # ws" using fin by (cases "fin_list s") auto
  obtain t fs' where fs: "fs = t # fs'" "wt_retn (workers s wt) = Some t"
    "map (\<lambda>wt. wt_retn (workers s wt)) ws = map Some fs'"
    using inv(1) ws unfolding threads_ok_def by (cases fs) auto
  have tn: "t \<notin> set (bs @ fs')" using inv(1) fs(1) by (auto simp: threads_ok_def)
  have H: "set (bs @ fs) = insert t (set (bs @ fs'))" using fs(1) by auto
  have wt: "wt \<notin> set (busy_list s)" "wt \<notin> set ws" "wt \<notin> set (free_list s)" using inv(1) ws by (auto simp: threads_ok_def)
  let ?s1 = "s\<lparr>workers := (workers s)(wt := (workers s wt)\<lparr>wt_retn := None\<rparr>), fin_list := ws,
                    free_list := wt # free_list s, active := active s - 1\<rparr>"
  have th: "threads_ok jobs bs fs' ?s1"
    using inv(1) ws wt fs tn unfolding threads_ok_def by (auto simp: map_other)
  have rs: "results_ok g0 tr ?s1" using inv(5) ws wt unfolding results_ok_def by (auto split: if_splits)
  have sh: "shape g0 (popped tr) (departed g0 tr) (stuck tr) (insert t (set (bs @ fs'))) (x_graph ?s1)" using inv(2) H by simp
  have fc: "fair_counts g0 tr (insert t (set (bs @ fs')))" using inv(3) H by simp
  have m: "exec_measure g0 tr ?s1 + 1 = exec_measure g0 tr s" by (simp add: exec_measure_def ws)
  show thesis
  proof (cases "wt_rc (workers s wt) = 0")
    case True
    have f': "failed ?s1 \<ge> 0" "failed ?s1 = 0 \<longleftrightarrow> stuck tr = {}" using inv(6,7) by simp_all
    have re: "count_list tr (Popped t) < count_list tr (Returned t 0)" if "t \<in> is_expanded g0 - {hd (node_list g0)}"
      using inv(5) that True fs(2) ws unfolding results_ok_def by (metis list.set_intros(1))
    have pc': "pc_ok keep_going (?s1\<lparr>x_graph := g', x_pc := Check_Empties\<rparr>)" for g' by (simp add: pc_ok_def)
    obtain s' where s': "pop_in t Check_Empties ?s1 = Some ([Popped t], s')" "exec_inv keep_going jobs g0 (tr @ [Popped t]) bs fs' s'"
      "exec_measure g0 (tr @ [Popped t]) s' + pc_weight (x_pc ?s1) + 4 \<le> exec_measure g0 tr ?s1 + pc_weight Check_Empties"
      by (rule exec_pop [OF rdy th sh tn fc inv(4) rs f' re pc']) (assumption, (rule that; assumption))
    have "collect s = Some ([Popped t], s')" using s'(1) True by (simp add: collect_def ws fs(2))
    moreover have "exec_measure g0 (tr @ [Popped t]) s' < exec_measure g0 tr s" using s'(3) m by (simp add: pc_weight_def pc)
    ultimately show ?thesis using that s'(2) by blast
  next
    case False
    obtain g1 where g: "node_insert_tail NODE_LIST t (x_graph s) = Some g1"
      "shape g0 (popped tr) (departed g0 tr) (insert t (stuck tr)) (set (bs @ fs')) g1" "set (plist g1) = set (plist (x_graph s))"
      "arcs g1 = arcs (x_graph s)"
      using shape_fail [OF _ tn] sh by (metis exec.select_convs(1) exec.surjective exec.update_convs(3,4,6,7))
    let ?s = "?s1\<lparr>x_graph := g1, failed := failed ?s1 + 1\<rparr>"
    have "collect s = Some ([Failed t], ?s)" using False g(1) by (simp add: collect_def ws fs(2))
    moreover have "exec_inv keep_going jobs g0 (tr @ [Failed t]) bs fs' ?s"
    proof -
      have "threads_ok jobs bs fs' ?s" using th by (simp add: threads_ok_def)
      moreover have "results_ok g0 (tr @ [Failed t]) ?s" using rs by (simp add: results_ok_def)
      moreover have "fair_counts g0 (tr @ [Failed t]) (set (bs @ fs'))" using fc by (simp add: fair_counts_def)
      ultimately show ?thesis
        using g(2) inv(4,6) pc unfolding exec_inv_def by (simp add: ordered_snoc pc_ok_def)
    qed
    moreover have "exec_measure g0 (tr @ [Failed t]) ?s < exec_measure g0 tr s"
      using m by (simp add: exec_measure_def g(3) node_weight_def)
    ultimately show ?thesis using that by blast
  qed
qed

section \<open>The worker function\<close>

locale worker_function =
  fixes work :: "'w work"
  assumes keeps_shape: "same_shape g (snd (snd (work t (w, g))))"
begin

lemma exec_worker:
  assumes i: "exec_inv keep_going jobs g0 tr bs fs s" and b: "wt \<in> set (busy_list s)"
  obtains evs s' bs' fs' where "worker_ret work wt s = Some (evs, s')" "exec_inv keep_going jobs g0 (tr @ evs) bs' fs' s'"
    "exec_measure g0 (tr @ evs) s' < exec_measure g0 tr s"
proof -
  note inv = exec_invD [OF i]
  obtain xs ys where bl: "busy_list s = xs @ wt # ys" using b by (meson split_list)
  have th: "map (\<lambda>wt. wt_n (workers s wt)) (xs @ wt # ys) = map Some bs"
    "map (\<lambda>wt. wt_retn (workers s wt)) (fin_list s) = map Some fs" "distinct (bs @ fs)"
    "distinct (free_list s @ (xs @ wt # ys) @ fin_list s)" "set (free_list s @ (xs @ wt # ys) @ fin_list s) = {0..<jobs}"
    "active s = int (length (xs @ wt # ys) + length (fin_list s))"
    using inv(1) bl unfolding threads_ok_def by simp_all
  obtain as t cs where bs: "bs = as @ t # cs" "map (\<lambda>wt. wt_n (workers s wt)) xs = map Some as"
    "wt_n (workers s wt) = Some t" "map (\<lambda>wt. wt_n (workers s wt)) ys = map Some cs"
  proof -
    have "map Some bs = map (\<lambda>wt. wt_n (workers s wt)) xs @ wt_n (workers s wt) # map (\<lambda>wt. wt_n (workers s wt)) ys"
      using th(1) by simp
    then obtain as r where "bs = as @ r" "map Some as = map (\<lambda>wt. wt_n (workers s wt)) xs"
      "map Some r = wt_n (workers s wt) # map (\<lambda>wt. wt_n (workers s wt)) ys" by (auto simp: map_eq_append_conv)
    then show thesis using that by (cases r) auto
  qed
  obtain rc w g where w: "work t (x_world s, x_graph s) = (rc, w, g)" by (metis prod_cases3)
  have same: "same_shape (x_graph s) g" using keeps_shape [of "x_graph s" t "x_world s"] w by simp
  then have ql: "node_list g = node_list (x_graph s)" "plist g = plist (x_graph s)" unfolding same_shape_def by (metis queue.simps)+
  let ?s = "s\<lparr>x_graph := g, x_world := w, busy_list := remove1 wt (busy_list s), fin_list := wt # fin_list s,
             workers := (workers s)(wt := (workers s wt)\<lparr>wt_n := None, wt_retn := Some t, wt_rc := rc\<rparr>)\<rparr>"
  have nx: "wt \<notin> set xs" "wt \<notin> set ys" "wt \<notin> set (fin_list s)" "wt \<notin> set (free_list s)" using th(4) by auto
  have rm: "remove1 wt (busy_list s) = xs @ ys" using nx by (simp add: bl remove1_append)
  have H: "set ((as @ cs) @ t # fs) = set (bs @ fs)" by (auto simp: bs(1))
  have "worker_ret work wt s = Some ([Returned t rc], ?s)" using b w bs(3) by (simp add: worker_ret_def)
  moreover have "exec_inv keep_going jobs g0 (tr @ [Returned t rc]) (as @ cs) (t # fs) ?s"
  proof -
    have "threads_ok jobs (as @ cs) (t # fs) ?s"
      using th(2-6) bs nx unfolding threads_ok_def rm by (auto simp: map_other rm)
    moreover have "shape g0 (popped tr) (departed g0 tr) (stuck tr) (set ((as @ cs) @ t # fs)) g"
      unfolding H by (rule shape_same [OF inv(2) same])
    moreover have "fair_counts g0 (tr @ [Returned t rc]) (set ((as @ cs) @ t # fs))"
      unfolding H using inv(3) by (simp add: fair_counts_def)
    moreover have "results_ok g0 (tr @ [Returned t rc]) ?s"
      unfolding results_ok_def
    proof (intro conjI ballI allI impI)
      fix x assume x: "x \<in> is_expanded g0 - {hd (node_list g0)}"
      then have "count_list tr (Popped x) \<le> count_list tr (Returned x 0)" using inv(5) unfolding results_ok_def by blast
      then show "count_list (tr @ [Returned t rc]) (Popped x) \<le> count_list (tr @ [Returned t rc]) (Returned x 0)" by simp
    next
      fix x wt' assume x: "x \<in> is_expanded g0 - {hd (node_list g0)} \<and> wt' \<in> set (fin_list ?s)
        \<and> wt_retn (workers ?s wt') = Some x \<and> wt_rc (workers ?s wt') = 0"
      show "count_list (tr @ [Returned t rc]) (Popped x) < count_list (tr @ [Returned t rc]) (Returned x 0)"
      proof (cases "wt' = wt")
        case True
        then have "x = t" "rc = 0" using x by simp_all
        moreover have "count_list tr (Popped x) \<le> count_list tr (Returned x 0)" using inv(5) x unfolding results_ok_def by blast
        ultimately show ?thesis by simp
      next
        case False
        then have "count_list tr (Popped x) < count_list tr (Returned x 0)" using inv(5) x unfolding results_ok_def by auto
        then show ?thesis by simp
      qed
    qed
    moreover have "pc_ok keep_going ?s"
      using inv(8) th(6) unfolding pc_ok_def by (auto simp: loop_cond_def exec_rc_def ql split: pc.splits)
    ultimately show ?thesis using inv(4,6,7) unfolding exec_inv_def by (simp add: ordered_snoc)
  qed
  moreover have "exec_measure g0 (tr @ [Returned t rc]) ?s < exec_measure g0 tr s"
    by (simp add: exec_measure_def node_weight_def ql rm) (simp add: bl)
  ultimately show thesis using that by blast
qed

text \<open>Every step that can be taken keeps the invariant and decreases the measure.\<close>

lemma exec_next_inv:
  assumes rdy: "exec_ready g0" and i: "exec_inv keep_going jobs g0 tr bs fs s" and st: "exec_next work keep_going a s = Some (evs, s')"
  shows "(\<exists>bs' fs'. exec_inv keep_going jobs g0 (tr @ evs) bs' fs' s') \<and> exec_measure g0 (tr @ evs) s' < exec_measure g0 tr s"
proof (cases a)
  case Main
  show ?thesis
  proof (cases "x_pc s")
    case Dispatch
    show ?thesis
    proof (cases "loop_cond keep_going s")
      case True
      then have dsp: "dispatch s = Some (evs, s')" using st Main Dispatch by simp
      show ?thesis by (rule exec_dispatch [OF rdy i Dispatch True]) (use dsp in auto)
    next
      case False
      then have s': "evs = []" "s' = s\<lparr>x_pc := Exited (exec_rc s)\<rparr>" using st Main Dispatch by auto
      note inv = exec_invD [OF i]
      have "pc_ok keep_going s'"
        using inv(8) False Dispatch unfolding s' pc_ok_def
        by (auto simp: exec_rc_def loop_cond_def split: if_splits)
      moreover have "threads_ok jobs bs fs s'" "results_ok g0 tr s'" using inv(1,5) by (simp_all add: s' threads_ok_def results_ok_def)
      ultimately have "exec_inv keep_going jobs g0 (tr @ evs) bs fs s'" using inv unfolding exec_inv_def by (simp add: s')
      moreover have "exec_measure g0 (tr @ evs) s' < exec_measure g0 tr s" using Dispatch by (simp add: s' exec_measure_def pc_weight_def)
      ultimately show ?thesis by blast
    qed
  next
    case Check_Empties
    show ?thesis
    proof (cases "wait_cond keep_going s")
      case True
      then have c: "collect s = Some (evs, s')" using st Main Check_Empties by simp
      then have "fin_list s \<noteq> []" by (auto simp: collect_def)
      then show ?thesis by (rule exec_collect [OF rdy i Check_Empties]) (use c in auto)
    next
      case False
      then have s': "evs = []" "s' = s\<lparr>x_pc := Dispatch\<rparr>" using st Main Check_Empties by auto
      note inv = exec_invD [OF i]
      have "pc_ok keep_going s'" using False unfolding s' pc_ok_def by (auto simp: wait_cond_def loop_cond_def)
      moreover have "threads_ok jobs bs fs s'" "results_ok g0 tr s'" using inv(1,5) by (simp_all add: s' threads_ok_def results_ok_def)
      ultimately have "exec_inv keep_going jobs g0 (tr @ evs) bs fs s'" using inv unfolding exec_inv_def by (simp add: s')
      moreover have "exec_measure g0 (tr @ evs) s' < exec_measure g0 tr s" using Check_Empties by (simp add: s' exec_measure_def pc_weight_def)
      ultimately show ?thesis by blast
    qed
  qed (use st Main in simp)
next
  case (Worker wt)
  then have w: "worker_ret work wt s = Some (evs, s')" using st by simp
  then have "wt \<in> set (busy_list s)" by (auto simp: worker_ret_def split: option.splits if_splits)
  then show ?thesis by (rule exec_worker [OF i]) (use w in auto)
next
  case Signal
  then have s': "evs = []" "s' = s\<lparr>server_is_dead := True\<rparr>" and nd: "\<not> server_is_dead s" using st by (auto split: if_splits)
  note inv = exec_invD [OF i]
  have "pc_ok keep_going s'" using inv(8) nd unfolding s' pc_ok_def by (auto split: pc.splits)
  moreover have "threads_ok jobs bs fs s'" "results_ok g0 tr s'" using inv(1,5) by (simp_all add: s' threads_ok_def results_ok_def)
  ultimately have "exec_inv keep_going jobs g0 (tr @ evs) bs fs s'" using inv unfolding exec_inv_def by (simp add: s')
  moreover have "exec_measure g0 (tr @ evs) s' < exec_measure g0 tr s" using nd by (simp add: s' exec_measure_def)
  ultimately show ?thesis by blast
qed

text \<open>As long as the main thread is in its loops, it or a worker can take a step.\<close>

lemma exec_progress:
  assumes rdy: "exec_ready g0" and i: "exec_inv keep_going jobs g0 tr bs fs s" and pc: "\<And>rc. x_pc s \<noteq> Exited rc" and jobs: "0 < jobs"
  shows "\<exists>a. a \<noteq> Signal \<and> exec_next work keep_going a s \<noteq> None"
proof (cases "x_pc s")
  case Dispatch
  have "exec_next work keep_going Main s \<noteq> None"
  proof (cases "loop_cond keep_going s")
    case True
    show ?thesis by (rule exec_dispatch [OF rdy i Dispatch True]) (use Dispatch True in simp)
  qed (use Dispatch in simp)
  then show ?thesis by blast
next
  case Check_Empties
  show ?thesis
  proof (cases "wait_cond keep_going s \<and> fin_list s = []")
    case True
    have "busy_list s \<noteq> []"
    proof
      assume "busy_list s = []"
      then show False using True jobs exec_invD(1) [OF i] by (auto simp: wait_cond_def threads_ok_def)
    qed
    then obtain wt where b: "wt \<in> set (busy_list s)" by (meson last_in_set)
    have "exec_next work keep_going (Worker wt) s \<noteq> None" by (rule exec_worker [OF i b]) simp
    then show ?thesis by blast
  next
    case False
    have "exec_next work keep_going Main s \<noteq> None"
    proof (cases "wait_cond keep_going s")
      case True
      then have "fin_list s \<noteq> []" using False by blast
      then show ?thesis by (rule exec_collect [OF rdy i Check_Empties]) (use Check_Empties True in simp)
    qed (use Check_Empties in simp)
    then show ?thesis by blast
  qed
qed (use pc in blast)

lemma exec_start_inv:
  assumes rdy: "exec_ready g" and jobs: "0 < jobs"
  obtains evs s where "exec_start jobs w g = Some (evs, s)" "exec_inv keep_going jobs g evs [] [] s"
    "exec_measure g evs s \<le> 20 * (card (arcs g) + card (node_ids g))"
proof -
  let ?r = "hd (node_list g)"
  obtain g1 where g1: "node_remove_list NODE_LIST ?r g = Some g1" "shape g {} {} {} {?r} g1" "plist g1 = []" "arcs g1 = arcs g"
    by (rule shape_init [OF rdy])
  let ?s = "exec_init jobs w g1"
  have th: "threads_ok jobs [] [] ?s" by (auto simp: threads_ok_def exec_init_def)
  have sh: "shape g (popped []) (departed g []) (stuck []) (insert ?r (set ([] @ []))) (x_graph ?s)" using g1(2) by (simp add: exec_init_def)
  have fc: "fair_counts g [] (insert ?r (set ([] @ [])))" by (simp add: fair_counts_def)
  have rs: "results_ok g [] ?s" by (simp add: results_ok_def exec_init_def)
  have f: "failed ?s \<ge> 0" "failed ?s = 0 \<longleftrightarrow> stuck [] = {}" by (simp_all add: exec_init_def)
  have pc: "pc_ok keep_going (?s\<lparr>x_graph := g', x_pc := Dispatch\<rparr>)" for g' using jobs by (simp add: pc_ok_def exec_init_def)
  have tn: "?r \<notin> set ([] @ [])" by simp
  obtain s' where s': "pop_in ?r Dispatch ?s = Some ([Popped ?r], s')" "exec_inv keep_going jobs g ([] @ [Popped ?r]) [] [] s'"
      "exec_measure g ([] @ [Popped ?r]) s' + pc_weight (x_pc ?s) + 4 \<le> exec_measure g [] ?s + pc_weight Dispatch"
    by (rule exec_pop [OF rdy th sh tn fc ordered_Nil rs f _ pc]) (simp, (rule that; assumption))
  have ne: "node_list g = ?r # tl (node_list g)" using rdy by (simp add: exec_ready_def)
  have "exec_start jobs w g = Some ([Popped ?r], s')"
    unfolding exec_start_def by (subst ne) (simp add: g1(1) s'(1))
  moreover have "exec_measure g [Popped ?r] s' \<le> 20 * (card (arcs g) + card (node_ids g))"
  proof -
    have "arc_weight g {} = 2 * card (arcs g)" by (simp add: arc_weight_def)
    moreover have "node_weight g [] \<le> 2 * card (node_ids g)"
      using card_mono [OF finite_nodes tset_nodes, of g] by (simp add: node_weight_def)
    moreover have "pc_weight Dispatch = 1" by (simp add: pc_weight_def)
    ultimately show ?thesis using s'(3) by (auto simp: exec_measure_def exec_init_def g1(3))
  qed
  ultimately show thesis using that s'(2) by simp
qed

lemma exec_run_inv:
  assumes rdy: "exec_ready g" and jobs: "0 < jobs" and r: "exec_run work keep_going jobs w g acts tr s"
  shows "(\<exists>bs fs. exec_inv keep_going jobs g tr bs fs s)
    \<and> length acts + exec_measure g tr s \<le> 20 * (card (arcs g) + card (node_ids g))"
  using r
proof (induction rule: exec_run.induct)
  case (start evs s)
  show ?case by (rule exec_start_inv [OF rdy jobs, of w keep_going]) (use start in auto)
next
  case (move acts tr s a evs s')
  then obtain bs fs where "exec_inv keep_going jobs g tr bs fs s" by blast
  then show ?case using exec_next_inv [OF rdy _ move.hyps(2)] move.IH by fastforce
qed

end

end
