(* ===== verification/Update.thy ===== *)
theory Update
  imports Exec_Runs
begin

text \<open>
  The functions that workers run (\<^verbatim>\<open>src/src/tup/updater.c\<close>): \<^verbatim>\<open>update_work\<close>, \<^verbatim>\<open>update\<close> with the
  treatment of the old outputs of a command, \<^verbatim>\<open>process_output\<close>, and \<^verbatim>\<open>todo_work\<close>.  The world
  outside of the graph is the database, the file at the path of every entry, and the backups in
  \<^verbatim>\<open>.metatup/tmp\<close>; \<open>ran\<close> lists the commands that were handed to the server.  A \<open>shell\<close> stands for what is
  called but not modelled: directories and files that cannot be accessed, the server that runs a command,
  \<^verbatim>\<open>write_files\<close>, which records the accesses, and \<^verbatim>\<open>delete_name_file\<close>.
\<close>

section \<open>The world\<close>

record file_node =
  f_mode :: nat
  f_data :: string
  f_mtime :: timespec

record world =
  w_db :: db
  files :: "tupid \<Rightarrow> file_node option"
  backups :: "tupid \<Rightarrow> file_node option"
  ran :: "tupid list"

datatype check_type = CHECK_SUCCESS | CHECK_CMDFAIL | CHECK_SIGNALLED

text \<open>\<open>Exec_Error\<close> is a negative result of \<^verbatim>\<open>server_exec\<close> or \<^verbatim>\<open>do_ln\<close>, which sets neither field.\<close>

datatype exec_outcome = Exec_Error | Exec_Exited int | Exec_Signalled | Exec_Unknown

text \<open>
  The system calls of the comparison on the backup and on the current file of an entry (\<open>Read\<close> with the
  number of reads before it), which may fail with something else than \<^verbatim>\<open>ENOENT\<close>.
\<close>

datatype copy = Backup | Current

datatype file_call = Lstat copy tupid | Open copy tupid | Read copy tupid nat | Close copy tupid | Readlink copy tupid

text \<open>
  \<open>sh_fits\<close> says that the path of an entry fits into \<^verbatim>\<open>PATH_MAX\<close> bytes, \<open>sh_io\<close> that a call
  succeeds; \<open>sh_expand\<close> is the \<^verbatim>\<open>expanded_name\<close> of \<^verbatim>\<open>expand_command\<close>, which is
  \<^verbatim>\<open>NULL\<close> when there is nothing to expand; its errors are among those of \<open>sh_prepare\<close>.
\<close>

record shell =
  sh_open :: "tupid \<Rightarrow> bool"
  sh_busy :: "tupid \<Rightarrow> bool"
  sh_fits :: "tupid \<Rightarrow> bool"
  sh_io :: "file_call \<Rightarrow> bool"
  sh_env_dt :: tupid
  sh_prepare :: "tupid \<Rightarrow> db \<Rightarrow> bool \<times> db"
  sh_expand :: "tupid \<Rightarrow> string \<Rightarrow> db \<Rightarrow> string option"
  sh_exec :: "tupid \<Rightarrow> string \<Rightarrow> (tupid \<Rightarrow> file_node option) \<Rightarrow> exec_outcome \<times> (tupid \<Rightarrow> file_node option)"
  sh_write_files :: "check_type \<Rightarrow> tupid \<Rightarrow> (tupid \<Rightarrow> file_node option) \<Rightarrow> db \<Rightarrow> bool \<times> bool \<times> db"
  sh_display :: "tupid \<Rightarrow> bool"
  sh_postexec :: "tupid \<Rightarrow> bool"
  sh_millis :: "tupid \<Rightarrow> int"
  sh_delete :: "tupid \<Rightarrow> db \<Rightarrow> bool \<times> db"

definition skip_output :: "db \<Rightarrow> tup_entry \<Rightarrow> bool" where
  "skip_output d tent \<longleftrightarrow> ntype tent = TUP_NODE_GROUP
     \<or> (case map_of (node_tbl d) (dt tent) of None \<Rightarrow> False | Some p \<Rightarrow> is_virtual_tent p)"

section \<open>Comparing files\<close>

text \<open>
  The results are None for \<open>-1\<close> and otherwise the value of \<^verbatim>\<open>*eq\<close>.  The loop of
  \<^verbatim>\<open>compare_files\<close> reads 4096 bytes of each file at a time.
\<close>

function read_loop :: "(file_call \<Rightarrow> bool) \<Rightarrow> tupid \<Rightarrow> nat \<Rightarrow> string \<Rightarrow> string \<Rightarrow> bool option" where
  "read_loop io t k a b =
     (let b1 = take 4096 a; b2 = take 4096 b in
      if \<not> io (Read Backup t k) \<or> \<not> io (Read Current t k) then None
      else if length b1 \<noteq> length b2 then Some False
      else if length b1 = 0 then Some True
      else if b1 \<noteq> b2 then Some False
      else read_loop io t (Suc k) (drop 4096 a) (drop 4096 b))"
  by auto
termination
proof (relation "measure (\<lambda>(io, t, k, a, b). length a)", goal_cases)
  case (2 io t k a b b1 b2)
  then show ?case by (cases a) auto
qed simp

declare read_loop.simps [simp del]

definition compare_files :: "(file_call \<Rightarrow> bool) \<Rightarrow> tupid \<Rightarrow> string \<Rightarrow> string \<Rightarrow> bool option" where
  "compare_files io t a b =
     (if \<not> io (Open Backup t) \<or> \<not> io (Open Current t) then None
      else case read_loop io t 0 a b of
        None \<Rightarrow> None
      | Some eq \<Rightarrow> if io (Close Backup t) \<and> io (Close Current t) then Some eq else None)"

definition S_ISLNK :: "nat \<Rightarrow> bool" where
  "S_ISLNK m \<longleftrightarrow> m div 4096 mod 16 = 10"

definition compare_links :: "(file_call \<Rightarrow> bool) \<Rightarrow> tupid \<Rightarrow> string \<Rightarrow> string \<Rightarrow> bool option" where
  "compare_links io t a b =
     (if \<not> io (Readlink Backup t) \<or> \<not> io (Readlink Current t) then None
      else Some (length (take 4096 a) = length (take 4096 b) \<and> take 4096 a = take 4096 b))"

definition compare_paths :: "(file_call \<Rightarrow> bool) \<Rightarrow> tupid \<Rightarrow> file_node option \<Rightarrow> file_node option \<Rightarrow> bool option" where
  "compare_paths io t p1 p2 =
     (if \<not> io (Lstat Backup t) then None
      else case p1 of
        None \<Rightarrow> Some False
      | Some a \<Rightarrow>
          if \<not> io (Lstat Current t) then None
          else case p2 of
            None \<Rightarrow> Some False
          | Some b \<Rightarrow>
              if length (f_data a) \<noteq> length (f_data b) then Some False
              else if f_mode a \<noteq> f_mode b then Some False
              else if S_ISLNK (f_mode a) then compare_links io t (f_data a) (f_data b)
              else compare_files io t (f_data a) (f_data b))"

section \<open>The outputs of a command\<close>

definition set_skip :: "bool \<Rightarrow> tupid \<Rightarrow> graph \<Rightarrow> graph" where
  "set_skip b t g = upd_node t (\<lambda>n. n\<lparr>skip := b\<rparr>) g"

definition node_of :: "graph \<Rightarrow> tupid \<Rightarrow> node" where
  "node_of g t = the (find_node g t)"

text \<open>Each loop runs over the edges of the command; the boolean is False for \<open>-1\<close>.\<close>

fun move_outputs :: "shell \<Rightarrow> edge list \<Rightarrow> world \<times> graph \<Rightarrow> bool \<times> world \<times> graph" where
  "move_outputs sh [] s = (True, s)"
| "move_outputs sh (e # es) (w, g) =
     (let out = e_dest e; tent = n_tent (node_of g out) in
      if \<not> skip_output (w_db w) tent \<and> transient (node_of g out) \<noteq> TRANSIENT_DELETE
      then (if \<not> sh_open sh (dt tent) \<or> \<not> sh_fits sh out then (False, w, g)
            else if files w out = None then move_outputs sh es (w, g)
            else if sh_busy sh out then (False, w, g)
            else move_outputs sh es (w\<lparr>backups := (backups w)(out := files w out), files := (files w)(out := None)\<rparr>, g))
      else move_outputs sh es (w, g))"

fun restore_outputs :: "shell \<Rightarrow> edge list \<Rightarrow> world \<times> graph \<Rightarrow> bool \<times> world" where
  "restore_outputs sh [] (w, g) = (True, w)"
| "restore_outputs sh (e # es) (w, g) =
     (let out = e_dest e; tent = n_tent (node_of g out) in
      if \<not> skip_output (w_db w) tent
      then (if \<not> sh_fits sh out \<or> backups w out \<noteq> None \<and> sh_busy sh out then (False, w)
            else let w1 = (if backups w out = None then w
                           else w\<lparr>files := (files w)(out := backups w out), backups := (backups w)(out := None)\<rparr>) in
              if \<not> sh_io sh (Lstat Current out) then (False, w1)
              else case files w1 out of
                None \<Rightarrow> restore_outputs sh es (w1, g)
              | Some f \<Rightarrow> (case tup_db_set_mtime (w_db w1) out (f_mtime f) of
                  None \<Rightarrow> (False, w1)
                | Some d \<Rightarrow> restore_outputs sh es (w1\<lparr>w_db := d\<rparr>, g)))
      else restore_outputs sh es (w, g))"

definition unskip_outputs :: "edge list \<Rightarrow> graph \<Rightarrow> graph" where
  "unskip_outputs es g = fold (\<lambda>e. set_skip False (e_dest e)) es g"

fun check_outputs :: "shell \<Rightarrow> edge list \<Rightarrow> world \<times> graph \<Rightarrow> bool \<times> graph" where
  "check_outputs sh [] (w, g) = (True, g)"
| "check_outputs sh (e # es) (w, g) =
     (let out = e_dest e in
      if \<not> skip_output (w_db w) (n_tent (node_of g out))
      then (if \<not> sh_fits sh out then (False, g)
            else case compare_paths (sh_io sh) out (backups w out) (files w out) of
              None \<Rightarrow> (False, g)
            | Some eq \<Rightarrow> check_outputs sh es (w, if eq then g else set_skip False out g))
      else check_outputs sh es (w, g))"

text \<open>\<open>here\<close> is the directory of the command, which is open already.\<close>

fun unlink_outputs :: "shell \<Rightarrow> tupid \<Rightarrow> edge list \<Rightarrow> world \<times> graph \<Rightarrow> bool \<times> world \<times> graph" where
  "unlink_outputs sh here [] s = (True, s)"
| "unlink_outputs sh here (e # es) (w, g) =
     (let out = e_dest e; tent = n_tent (node_of g out) in
      if \<not> skip_output (w_db w) tent \<and> transient (node_of g out) \<noteq> TRANSIENT_DELETE
      then (let g1 = set_skip False out g in
            if dt tent \<noteq> here \<and> \<not> sh_open sh (dt tent) then (False, w, g1)
            else if files w out \<noteq> None \<and> sh_busy sh out then (False, w, g1)
            else unlink_outputs sh here es (w\<lparr>files := (files w)(out := None)\<rparr>, g1))
      else unlink_outputs sh here es (w, g))"

fun mark_transient_outputs :: "edge list \<Rightarrow> graph \<Rightarrow> db \<Rightarrow> db option" where
  "mark_transient_outputs [] g d = Some d"
| "mark_transient_outputs (e # es) g d =
     (if \<not> skip_output d (n_tent (node_of g (e_dest e)))
      then do { d1 \<leftarrow> tup_db_add_transient_list d (e_dest e); mark_transient_outputs es g d1 }
      else mark_transient_outputs es g d)"

section \<open>Running a command\<close>

text \<open>The result of \<^verbatim>\<open>write_files\<close> after the exit of the process: whether there is an error, and the removed link.\<close>

definition exit_check :: "shell \<Rightarrow> tupid \<Rightarrow> exec_outcome \<Rightarrow> world \<Rightarrow> bool \<times> bool \<times> db" where
  "exit_check sh t out w = (case out of
     Exec_Exited c \<Rightarrow>
       if c = 0 then (case sh_write_files sh CHECK_SUCCESS t (files w) (w_db w) of (ok, removed, d) \<Rightarrow> (\<not> ok, removed, d))
       else (case sh_write_files sh CHECK_CMDFAIL t (files w) (w_db w) of (ok, removed, d) \<Rightarrow> (True, removed, d))
   | Exec_Signalled \<Rightarrow> (case sh_write_files sh CHECK_SIGNALLED t (files w) (w_db w) of (ok, removed, d) \<Rightarrow> (True, removed, d))
   | _ \<Rightarrow> (True, False, w_db w))"

definition process_output :: "shell \<Rightarrow> tupid \<Rightarrow> exec_outcome \<Rightarrow> bool \<Rightarrow> world \<times> graph \<Rightarrow> int \<times> world \<times> graph" where
  "process_output sh t out compare_outputs = (\<lambda>(w, g).
     (case exit_check sh t out w of (is_err, important_link_removed, d) \<Rightarrow>
       let w1 = w\<lparr>w_db := d\<rparr>; es = edges_of g t;
           (ok, w2, g2) = (if \<not> compare_outputs then (True, w1, g)
             else if is_err then (case restore_outputs sh es (w1, g) of (ok, w2) \<Rightarrow> (ok, w2, g))
             else if important_link_removed then (True, w1, unskip_outputs es g)
             else (case check_outputs sh es (w1, g) of (ok, g2) \<Rightarrow> (ok, w1, g2)))
       in if \<not> ok then (-1, w2, g2)
          else if \<not> sh_display sh t then (-1, w2, g2)
          else if is_err then (-1, w2, g2)
          else if map_option (\<lambda>e. tv_sec (mtime e)) (map_of (node_tbl (w_db w2)) t) \<noteq> Some (sh_millis sh t)
          then (case tup_db_set_mtime (w_db w2) t \<lparr>tv_sec = sh_millis sh t, tv_nsec = 0\<rparr> of
                  None \<Rightarrow> (-1, w2, g2) | Some d2 \<Rightarrow> (0, w2\<lparr>w_db := d2\<rparr>, g2))
          else (0, w2, g2)))"

text \<open>The commands \<^verbatim>\<open>!tup_ln\<close> and \<^verbatim>\<open>!tup_preserve\<close> do not use the server.\<close>

definition use_server :: "string \<Rightarrow> bool" where
  "use_server cmd \<longleftrightarrow> take 8 cmd \<noteq> ''!tup_ln '' \<and> take 14 cmd \<noteq> ''!tup_preserve ''"

definition update :: "shell \<Rightarrow> tupid \<Rightarrow> world \<times> graph \<Rightarrow> int \<times> world \<times> graph" where
  "update sh t = (\<lambda>(w, g).
     let n = node_of g t; tent = n_tent n; es = edges_of g t;
         compare_outputs = has_flag tent CHR ''o''; remove_transients = has_flag tent CHR ''t''
     in if \<not> set (flags_s tent) \<subseteq> set ''cobjts'' then (-1, w, g)
        else if \<not> sh_open sh (dt tent) then (-1, w, g)
        else case (if compare_outputs then move_outputs sh es (w, g) else unlink_outputs sh (dt tent) es (w, g)) of
          (False, w1, g1) \<Rightarrow> (-1, w1, g1)
        | (True, w1, g1) \<Rightarrow>
            (case sh_prepare sh t (w_db w1) of
              (False, d) \<Rightarrow> (-1, w1\<lparr>w_db := d\<rparr>, g1)
            | (True, d) \<Rightarrow>
                let cmd = (case sh_expand sh t (name_s tent) d of None \<Rightarrow> name_s tent | Some x \<Rightarrow> x) in
                (case sh_exec sh t cmd (files w1) of (out, fs) \<Rightarrow>
                  let w2 = w1\<lparr>w_db := d, files := fs, ran := ran w1 @ [t]\<rparr> in
                  if out = Exec_Error then (-1, w2, g1)
                  else case process_output sh t out compare_outputs (w2, g1) of (rc, w3, g3) \<Rightarrow>
                    let (rc', w4) = (if rc = 0 \<and> remove_transients
                          then (case mark_transient_outputs es g3 (w_db w3) of None \<Rightarrow> (-1, w3) | Some d4 \<Rightarrow> (0, w3\<lparr>w_db := d4\<rparr>))
                          else (rc, w3))
                    in if use_server cmd \<and> \<not> sh_postexec sh t then (-1, w4, g3) else (rc', w4, g3))))"

section \<open>The work on a node\<close>

text \<open>The result code is 0 or \<open>-1\<close>; a failure does not stop the loop.\<close>

fun modify_outputs :: "edge list \<Rightarrow> int \<times> db \<times> graph \<Rightarrow> int \<times> db \<times> graph" where
  "modify_outputs [] s = s"
| "modify_outputs (e # es) (rc, d, g) =
     (if e_style e = TUP_LINK_NORMAL
      then (let (rc1, d1) = (if ntype (n_tent (node_of g (e_dest e))) = TUP_NODE_CMD
                  then (case tup_db_add_modify_list d (e_dest e) of None \<Rightarrow> (-1, d) | Some d1 \<Rightarrow> (rc, d1))
                  else (rc, d))
            in modify_outputs es (rc1, d1, set_skip False (e_dest e) g))
      else modify_outputs es (rc, d, g))"

fun modify_next :: "edge list \<Rightarrow> int \<times> db \<times> graph \<Rightarrow> int \<times> db \<times> graph" where
  "modify_next [] s = s"
| "modify_next (e # es) (rc, d, g) =
     modify_next es (if \<not> skip (node_of g (e_dest e)) then modify_outputs (edges_of g (e_dest e)) (rc, d, g) else (rc, d, g))"

definition or_fail :: "db option \<Rightarrow> int \<times> db \<times> graph \<Rightarrow> int \<times> db \<times> graph" where
  "or_fail r = (\<lambda>(rc, d, g). case r of None \<Rightarrow> (-1, d, g) | Some d' \<Rightarrow> (rc, d', g))"

definition update_cmd :: "shell \<Rightarrow> tupid \<Rightarrow> world \<times> graph \<Rightarrow> int \<times> world \<times> graph" where
  "update_cmd sh t = (\<lambda>(w, g).
     case (if \<not> skip (node_of g t) then update sh t (w, g) else (0, w, g)) of (rc, w1, g1) \<Rightarrow>
       if rc = 0
       then (let (rc2, d2, g2) = modify_next (edges_of g1 t) (0, w_db w1, g1);
                 (rc3, d3, g3) = or_fail (tup_db_unflag_modify d2 t) (rc2, d2, g2);
                 (rc4, d4, g4) = (if is_transient_tent (n_tent (node_of g3 t))
                                  then or_fail (tup_db_unflag_transient d3 t) (rc3, d3, g3) else (rc3, d3, g3))
             in (rc4, w1\<lparr>w_db := d4\<rparr>, g4))
       else (rc, w1, g1))"

definition unlink_node :: "shell \<Rightarrow> tupid \<Rightarrow> world \<times> graph \<Rightarrow> bool \<times> world" where
  "unlink_node sh t = (\<lambda>(w, g).
     if \<not> sh_open sh (dt (n_tent (node_of g t))) then (False, w)
     else if files w t = None \<or> sh_busy sh t then (False, w)
     else (True, w\<lparr>files := (files w)(t := None)\<rparr>))"

definition update_other :: "shell \<Rightarrow> tupid \<Rightarrow> world \<times> graph \<Rightarrow> int \<times> world \<times> graph" where
  "update_other sh t = (\<lambda>(w, g).
     let n = node_of g t;
         (rc1, d1, g1) = (if \<not> skip n then modify_outputs (edges_of g t) (0, w_db w, g) else (0, w_db w, g));
         (rc2, d2, g2) = or_fail (tup_db_unflag_modify d1 t) (rc1, d1, g1);
         w2 = w\<lparr>w_db := d2\<rparr>;
         (rc3, w3) = (if transient n = TRANSIENT_DELETE
            then (let (ok, wu) = unlink_node sh t (w2, g2); rcu = (if ok then rc2 else -1) in
                  if rcu = 0
                  then (case tup_db_unflag_transient (w_db wu) t of None \<Rightarrow> (-1, wu) | Some d \<Rightarrow> (rcu, wu\<lparr>w_db := d\<rparr>))
                  else (rcu, wu))
            else (rc2, w2))
     in if ntype (n_tent n) = TUP_NODE_VAR \<and> dt (n_tent n) = sh_env_dt sh \<and> edges_of g2 t = [] \<and> rc3 = 0
        then (case sh_delete sh t (w_db w3) of (ok, d) \<Rightarrow> (if ok then 0 else -1, w3\<lparr>w_db := d\<rparr>, g2))
        else (rc3, w3, g2))"

definition update_work :: "shell \<Rightarrow> world work" where
  "update_work sh t = (\<lambda>(w, g).
     if ntype (n_tent (node_of g t)) = TUP_NODE_CMD then update_cmd sh t (w, g) else update_other sh t (w, g))"

text \<open>\<^verbatim>\<open>todo_work\<close> shows the nodes that count; the world is the list of what was shown.\<close>

definition todo_work :: "tupid list work" where
  "todo_work t = (\<lambda>(shown, g).
     (0, if ntype (n_tent (node_of g t)) = count_flags g \<or> count_flags g = TUP_NODE_ROOT then shown @ [t] else shown, g))"

text \<open>When no call fails the comparison tells equal files apart from different ones.\<close>

lemma read_loop_eq: "(\<And>c. io c) \<Longrightarrow> read_loop io t k a b = Some (a = b)"
proof (induction "length a" arbitrary: a b k rule: less_induct)
  case less
  have split: "a = b \<longleftrightarrow> take 4096 a = take 4096 b \<and> drop 4096 a = drop 4096 b"
    by (metis append_take_drop_id)
  show ?case
  proof (cases "a = [] \<or> take 4096 a \<noteq> take 4096 b")
    case True
    show ?thesis
    proof (cases "take 4096 a = take 4096 b")
      case eq: True
      then have "a = []" "b = []" using True by (auto simp: take_eq_Nil)
      then show ?thesis using less.prems by (simp add: read_loop.simps [of io t k "[]" "[]"])
    next
      case False
      then have "read_loop io t k a b = Some False"
        unfolding read_loop.simps [of io t k a b] Let_def using less.prems by (metis length_0_conv)
      then show ?thesis using False by auto
    qed
  next
    case False
    then have "length (drop 4096 a) < length a" by (cases a) auto
    from less.hyps [OF this] less.prems have "read_loop io t (Suc k) (drop 4096 a) (drop 4096 b) = Some (drop 4096 a = drop 4096 b)" .
    moreover have "length (take 4096 a) \<noteq> 0" using False by (cases a) auto
    moreover have "b \<noteq> []" using False by auto
    ultimately show ?thesis using False less.prems unfolding read_loop.simps [of io t k a b] Let_def split by (simp del: length_take)
  qed
qed

lemma compare_paths_eq:
  assumes "\<And>c. io c"
  shows "compare_paths io t p1 p2 = Some (\<exists>a b. p1 = Some a \<and> p2 = Some b \<and> f_mode a = f_mode b
     \<and> (if S_ISLNK (f_mode a) then length (f_data a) = length (f_data b) \<and> take 4096 (f_data a) = take 4096 (f_data b)
        else f_data a = f_data b))"
  using assms
  by (auto simp: compare_paths_def compare_links_def compare_files_def read_loop_eq split: option.splits if_splits)

section \<open>The work keeps the shape of the graph\<close>

lemma set_skip_same [simp]: "same_shape g (set_skip b t g)"
  by (cases "find_node g t") (auto simp: same_shape_def set_skip_def option.map_comp comp_def kept_def [abs_def] edges_of_def incoming_of_def)

lemma unskip_same: "same_shape g (unskip_outputs es g)"
  unfolding unskip_outputs_def by (induction es arbitrary: g) (auto intro: same_shape_trans [OF set_skip_same])

lemma check_same: "check_outputs sh es (w, g) = (ok, g') \<Longrightarrow> same_shape g g'"
  by (induction sh es "(w, g)" arbitrary: w g rule: check_outputs.induct)
     (auto simp: Let_def split: if_splits option.splits intro: same_shape_trans [OF set_skip_same])

lemma move_graph: "move_outputs sh es (w, g) = (ok, w', g') \<Longrightarrow> g' = g"
  by (induction sh es "(w, g)" arbitrary: w g rule: move_outputs.induct) (auto simp: Let_def split: if_splits)

lemma unlink_same: "unlink_outputs sh h es (w, g) = (ok, w', g') \<Longrightarrow> same_shape g g'"
  by (induction sh h es "(w, g)" arbitrary: w g rule: unlink_outputs.induct)
     (auto simp: Let_def split: if_splits intro: same_shape_trans [OF set_skip_same])

lemma modify_same: "modify_outputs es (rc, d, g) = (rc', d', g') \<Longrightarrow> same_shape g g'"
  by (induction es "(rc, d, g)" arbitrary: rc d g rule: modify_outputs.induct)
     (auto simp: Let_def split: if_splits option.splits intro: same_shape_trans [OF set_skip_same])

lemma modify_next_same: "modify_next es (rc, d, g) = (rc', d', g') \<Longrightarrow> same_shape g g'"
proof (induction es "(rc, d, g)" arbitrary: rc d g rule: modify_next.induct)
  case (2 e es rc d g)
  obtain rc1 d1 g1 where m: "(if \<not> skip (node_of g (e_dest e)) then modify_outputs (edges_of g (e_dest e)) (rc, d, g) else (rc, d, g)) = (rc1, d1, g1)"
    by (metis prod_cases3)
  then have "same_shape g g1" using modify_same [of "edges_of g (e_dest e)" rc d g rc1 d1 g1] by (auto split: if_splits)
  moreover have "same_shape g1 g'" using 2 m by auto
  ultimately show ?case by (rule same_shape_trans)
qed simp

lemma or_fail_graph [simp]: "snd (snd (or_fail r (rc, d, g))) = g"
  by (simp add: or_fail_def split: option.split)

lemma process_same: "process_output sh t out c (w, g) = (rc, w', g') \<Longrightarrow> same_shape g g'"
  using unskip_same [of g "edges_of g t"]
  by (auto simp: process_output_def Let_def split: prod.splits if_splits option.splits dest!: check_same)

lemma update_same: "update sh t (w, g) = (rc, w', g') \<Longrightarrow> same_shape g g'"
  by (auto simp: update_def Let_def split: prod.splits bool.splits if_splits option.splits
      dest!: process_same move_graph unlink_same intro: same_shape_trans)

lemma update_cmd_same: "same_shape g (snd (snd (update_cmd sh t (w, g))))"
proof -
  obtain rc w1 g1 where u: "(if \<not> skip (node_of g t) then update sh t (w, g) else (0, w, g)) = (rc, w1, g1)" by (metis prod_cases3)
  then have s1: "same_shape g g1" using update_same by (auto split: if_splits)
  obtain rc2 d2 g2 where m: "modify_next (edges_of g1 t) (0, w_db w1, g1) = (rc2, d2, g2)" by (metis prod_cases3)
  then have "same_shape g g2" using same_shape_trans [OF s1 modify_next_same [OF m]] by simp
  then show ?thesis using s1 u m
    by (auto simp: update_cmd_def Let_def or_fail_def split: prod.splits if_splits option.splits)
qed

lemma update_other_same: "same_shape g (snd (snd (update_other sh t (w, g))))"
proof -
  obtain rc1 d1 g1 where m: "(if \<not> skip (node_of g t) then modify_outputs (edges_of g t) (0, w_db w, g) else (0, w_db w, g)) = (rc1, d1, g1)"
    by (metis prod_cases3)
  then have "same_shape g g1" using modify_same by (auto split: if_splits)
  then show ?thesis using m
    by (auto simp: update_other_def Let_def or_fail_def split: prod.splits if_splits option.splits)
qed

interpretation updater: worker_function "update_work sh" for sh
  by unfold_locales (simp add: update_work_def update_cmd_same update_other_same)

interpretation todo: worker_function todo_work
  by unfold_locales (simp add: todo_work_def)

end
