(* ===== verification/Update_Run.thy ===== *)
theory Update_Run
  imports Update
begin

text \<open>What every execution of a graph guarantees, whatever the threads do.\<close>

lemma next_alive:
  assumes "exec_next work keep_going a s = Some (evs, s')" and "a \<noteq> Signal"
  shows "server_is_dead s' = server_is_dead s"
  using assms
  by (cases a) (auto simp: dispatch_def collect_def pop_in_def start_worker_def abort_def worker_ret_def Let_def
      split: pc.splits if_splits list.splits option.splits prod.splits)

lemma run_alive:
  assumes "exec_run work keep_going jobs w g acts tr s" and "Signal \<notin> set acts"
  shows "\<not> server_is_dead s"
  using assms
proof (induction rule: exec_run.induct)
  case (start evs s)
  then show ?case by (auto simp: exec_start_def pop_in_def exec_init_def abort_def split: list.splits option.splits)
next
  case (move acts tr s a evs s')
  then show ?case using next_alive [OF move.hyps(2)] by auto
qed

context worker_function begin

lemma run_ordered:
  assumes rdy: "exec_ready g" and jobs: "0 < jobs" and r: "exec_run work keep_going jobs w g acts tr s"
  shows "ordered g tr" and "count_list tr (Started t) \<le> (if t \<in> tset g then 2 else 1)"
    and "t \<in> is_expanded g - {hd (node_list g)} \<Longrightarrow> count_list tr (Popped t) \<le> count_list tr (Returned t 0)"
    and "distinct (free_list s @ busy_list s @ fin_list s)"
    and "set (free_list s @ busy_list s @ fin_list s) = {0..<jobs}"
proof -
  obtain bs fs where i: "exec_inv keep_going jobs g tr bs fs s" using exec_run_inv [OF rdy jobs r] by blast
  note inv = exec_invD [OF i]
  note d = shapeD [OF inv(2)]
  show "ordered g tr" by (rule inv(4))
  show "t \<in> is_expanded g - {hd (node_list g)} \<Longrightarrow> count_list tr (Popped t) \<le> count_list tr (Returned t 0)"
    using inv(5) unfolding results_ok_def by blast
  show "count_list tr (Started t) \<le> (if t \<in> tset g then 2 else 1)"
  proof (cases "t \<in> set (bs @ fs) \<union> stuck tr")
    case True
    then have "t \<in> node_ids (x_graph s)" using d(7,11) by blast
    then have "t \<notin> departed g tr" using d(3) by blast
    then have "count_list tr (Popped t) + 1 \<le> (if t \<in> tset g then 2 else 1)"
      using count_popped [of t tr] by (cases "t \<in> popped tr") (auto simp: departed_def)
    then show ?thesis using fair_countsD(2) [OF inv(3), of t] True by auto
  next
    case False
    then show ?thesis using fair_countsD [OF inv(3), of t] by auto
  qed
  show "distinct (free_list s @ busy_list s @ fin_list s)" "set (free_list s @ busy_list s @ fin_list s) = {0..<jobs}"
    using inv(1) unfolding threads_ok_def by blast+
qed

lemma run_terminates:
  assumes rdy: "exec_ready g" and jobs: "0 < jobs" and r: "exec_run work keep_going jobs w g acts tr s"
  shows "length acts \<le> 20 * (card (arcs g) + card (node_ids g))" and "x_pc s \<noteq> Exited (-2)"
    and "(\<And>rc. x_pc s \<noteq> Exited rc) \<Longrightarrow> \<exists>a. a \<noteq> Signal \<and> exec_next work keep_going a s \<noteq> None"
proof -
  obtain bs fs where i: "exec_inv keep_going jobs g tr bs fs s" using exec_run_inv [OF rdy jobs r] by blast
  show "length acts \<le> 20 * (card (arcs g) + card (node_ids g))" using exec_run_inv [OF rdy jobs r] by linarith
  show "x_pc s \<noteq> Exited (-2)" using exec_invD(8) [OF i] by (auto simp: pc_ok_def)
  show "(\<And>rc. x_pc s \<noteq> Exited rc) \<Longrightarrow> \<exists>a. a \<noteq> Signal \<and> exec_next work keep_going a s \<noteq> None"
    by (rule exec_progress [OF rdy i _ jobs])
qed

lemma run_result:
  assumes rdy: "exec_ready g" and jobs: "0 < jobs" and r: "exec_run work keep_going jobs w g acts tr s"
    and ex: "x_pc s = Exited rc" and alive: "\<not> server_is_dead s" and ok: "stuck tr = {} \<or> keep_going"
  shows "acyclic (arcs g) \<Longrightarrow> popped tr = {t \<in> node_ids g. \<not> (\<exists>f \<in> stuck tr - popped tr. (f, t) \<in> (arcs g)\<^sup>*)}"
    and "rc = 0 \<longleftrightarrow> stuck tr = {} \<and> acyclic (arcs g)" and "rc = 0 \<Longrightarrow> departed g tr = node_ids g"
proof -
  obtain bs fs where i: "exec_inv keep_going jobs g tr bs fs s" using exec_run_inv [OF rdy jobs r] by blast
  note inv = exec_invD [OF i]
  note d = shapeD [OF inv(2)]
  let ?A = "arcs g" and ?P = "popped tr"
  have pc: "rc = exec_rc s" "\<not> loop_cond keep_going s" "active s = 0" using inv(8) ex alive by (auto simp: pc_ok_def)
  have "int (length (busy_list s) + length (fin_list s)) = 0" using inv(1) pc(3) unfolding threads_ok_def by metis
  then have "length (busy_list s) + length (fin_list s) = 0" by (simp only: of_nat_eq_0_iff)
  then have "length (busy_list s) = 0 \<and> length (fin_list s) = 0" by (rule add_is_0 [THEN iffD1])
  then have "busy_list s = []" "fin_list s = []" by simp_all
  then have H: "set (bs @ fs) = {}" using inv(1) by (auto simp: threads_ok_def)
  have pl: "plist (x_graph s) = []" using pc(2) alive ok inv(7) by (auto simp: loop_cond_def)
  have ids: "node_ids (x_graph s) = set (node_list (x_graph s))" using d(7) H pl by simp
  have okg: "graph_ok g" using rdy by (simp add: exec_ready_def)
  have blocked: "u \<in> stuck tr \<or> (\<exists>a. (a, u) \<in> ?A \<and> a \<in> node_ids g \<and> a \<notin> ?P)" if "u \<in> node_ids g" "u \<notin> ?P" for u
  proof (cases "u \<in> stuck tr")
    case False
    have "u \<in> set (node_list (x_graph s))" using that d(3,15) ids by blast
    then have "\<not> source (x_graph s) u" using d(13) [of u] False by blast
    then obtain a where "(a, u) \<in> left_arcs g ?P" using d(4) by (auto simp: source_def)
    then have "(a, u) \<in> ?A" "a \<notin> ?P" using that by (auto simp: left_arcs_def)
    then show ?thesis using edge_nodes(1) [OF okg] by blast
  qed simp
  have up: "(f, u) \<in> ?A\<^sup>* \<Longrightarrow> u \<in> ?P \<Longrightarrow> f \<in> ?P" for f u
    by (induction rule: rtrancl_induct) (use d(17) in blast)+
  have char: "?P = {t \<in> node_ids g. \<not> (\<exists>f \<in> stuck tr - ?P. (f, t) \<in> ?A\<^sup>*)}" if ac: "acyclic ?A"
  proof -
    have "wf ?A" using finite_acyclic_wf [OF finite_arcs [OF okg] ac] .
    then have hit: "u \<in> node_ids g \<Longrightarrow> u \<notin> ?P \<Longrightarrow> \<exists>f \<in> stuck tr - ?P. (f, u) \<in> ?A\<^sup>*" for u
    proof (induction u rule: wf_induct_rule)
      case (less u)
      show ?case
      proof (cases "u \<in> stuck tr")
        case True
        then show ?thesis using less.prems by blast
      next
        case False
        then obtain a where a: "(a, u) \<in> ?A" "a \<in> node_ids g" "a \<notin> ?P" using blocked [OF less.prems] by blast
        then obtain f where "f \<in> stuck tr - ?P" "(f, a) \<in> ?A\<^sup>*" using less.IH by blast
        then show ?thesis using a(1) by (meson rtrancl.rtrancl_into_rtrancl)
      qed
    qed
    show ?thesis using hit up d(14) by blast
  qed
  then show "acyclic ?A \<Longrightarrow> ?P = {t \<in> node_ids g. \<not> (\<exists>f \<in> stuck tr - ?P. (f, t) \<in> ?A\<^sup>*)}" .
  have empty: "set (node_list (x_graph s)) = {}" if "stuck tr = {}" "acyclic ?A"
  proof -
    have P: "?P = node_ids g" using char [OF that(2)] that(1) by blast
    have "left_arcs g ?P = {}" using edge_nodes [OF okg] unfolding P left_arcs_def by auto
    then have src: "source (x_graph s) t" for t using d(4) by (simp add: source_def)
    show ?thesis
    proof (rule equals0I)
      fix t assume "t \<in> set (node_list (x_graph s))"
      then show False using d(13) [of t] src that(1) by simp
    qed
  qed
  have rc: "rc = 0 \<longleftrightarrow> stuck tr = {} \<and> node_list (x_graph s) = []"
    using pc(1) alive pl inv(7) by (simp add: exec_rc_def)
  have all: "departed g tr = node_ids g \<and> ?P = node_ids g" if "rc = 0"
  proof -
    have "node_ids (x_graph s) = {}" using that rc ids by simp
    then have "node_ids g \<subseteq> departed g tr" using d(3) by blast
    then show ?thesis using d(14,15) by blast
  qed
  then show "rc = 0 \<Longrightarrow> departed g tr = node_ids g" by blast
  have "acyclic ?A" if "rc = 0"
  proof -
    have "?A \<inter> ?P \<times> ?P = ?A" using edge_nodes [OF okg] all [OF that] by auto
    then show ?thesis using d(18) by simp
  qed
  then show "rc = 0 \<longleftrightarrow> stuck tr = {} \<and> acyclic ?A" using rc empty by auto
qed

text \<open>The return value is 0 only when no function failed.\<close>

lemma run_zero:
  assumes rdy: "exec_ready g" and jobs: "0 < jobs" and r: "exec_run work keep_going jobs w g acts tr s"
    and ex: "x_pc s = Exited 0"
  shows "stuck tr = {}"
proof -
  obtain bs fs where i: "exec_inv keep_going jobs g tr bs fs s" using exec_run_inv [OF rdy jobs r] by blast
  then show ?thesis using exec_invD(7,8) [OF i] ex by (auto simp: pc_ok_def)
qed

text \<open>Every run can be continued to its end by the main thread and the workers alone.\<close>

lemma run_exits:
  assumes rdy: "exec_ready g" and jobs: "0 < jobs" and r: "exec_run work keep_going jobs w g acts tr s"
  shows "\<exists>acts' tr' s' rc. Signal \<notin> set acts' \<and> exec_run work keep_going jobs w g (acts @ acts') tr' s' \<and> x_pc s' = Exited rc"
  using r
proof (induction "20 * (card (arcs g) + card (node_ids g)) - length acts" arbitrary: acts tr s rule: less_induct)
  case less
  show ?case
  proof (cases "\<exists>rc. x_pc s = Exited rc")
    case True
    then obtain rc where "x_pc s = Exited rc" ..
    moreover have "Signal \<notin> set []" "exec_run work keep_going jobs w g (acts @ []) tr s" using less.prems by simp_all
    ultimately show ?thesis by blast
  next
    case False
    then obtain a evs s1 where a: "a \<noteq> Signal" "exec_next work keep_going a s = Some (evs, s1)"
      using run_terminates(3) [OF rdy jobs less.prems] by (metis option.exhaust surj_pair)
    note m = exec_run.move [OF less.prems a(2)]
    have "length (acts @ [a]) \<le> 20 * (card (arcs g) + card (node_ids g))" by (rule run_terminates(1) [OF rdy jobs m])
    then have "20 * (card (arcs g) + card (node_ids g)) - length (acts @ [a]) < 20 * (card (arcs g) + card (node_ids g)) - length acts"
      by simp
    from less.hyps [OF this m] obtain acts' tr' s' rc where
      "Signal \<notin> set acts'" "exec_run work keep_going jobs w g ((acts @ [a]) @ acts') tr' s'" "x_pc s' = Exited rc" by blast
    moreover have "Signal \<notin> set (a # acts')" using a(1) calculation(1) by simp
    ultimately show ?thesis by (metis append.assoc append_Cons append_Nil)
  qed
qed

end

end
