(* ===== verification/Exec_Ready.thy ===== *)
theory Exec_Ready
  imports Graph_Trim Samples Db_Inv Update_Run
begin

text \<open>
  The graphs that \<^verbatim>\<open>build_graph\<close> hands to \<^verbatim>\<open>execute_graph\<close>: the root stays at the head of
  \<open>node_list\<close>, every other node hangs below it, and transient nodes have not been processed.
\<close>

section \<open>The root and the transient flags\<close>

definition rooted :: "graph \<Rightarrow> bool" where
  "rooted g \<longleftrightarrow> g_style g = TUP_LINK_NORMAL \<and> removing_list g = [] \<and> node_list g \<noteq> [] \<and> hd (node_list g) = 0
     \<and> map_option n_tent (find_node g 0) = Some root_entry
     \<and> (\<forall>t n. find_node g t = Some n \<longrightarrow> transient n = transient (new_node (n_tent n)))"

lemma rootedD:
  assumes "rooted g"
  shows "g_style g = TUP_LINK_NORMAL" "removing_list g = []" "node_list g \<noteq> []" "hd (node_list g) = 0" "map_option n_tent (find_node g 0) = Some root_entry"
    "find_node g t = Some n \<Longrightarrow> transient n = transient (new_node (n_tent n))"
  using assms by (auto simp: rooted_def)

named_theorems rooted_intros

lemma rooted_create_graph [simp]: "fl \<noteq> TUP_NODE_GROUP \<Longrightarrow> rooted (create_graph fl)"
  by (simp add: rooted_def) (simp add: create_graph_def new_node_def)

lemma rooted_upd [rooted_intros]:
  assumes "rooted g" and "\<And>n. transient (f n) = transient n" "\<And>n. n_tent (f n) = n_tent n"
  shows "rooted (upd_node t f g)"
  using assms by (auto simp: rooted_def option.map_comp comp_def)

lemma rooted_cur [simp]: "rooted (g\<lparr>g_cur := c\<rparr>) = rooted g"
  by (simp add: rooted_def)

lemma find_node_queues [simp]:
  "find_node (g\<lparr>removing_list := l\<rparr>) = find_node g" "find_node (g\<lparr>node_list := l\<rparr>) = find_node g"
  by (simp_all add: find_node_def fun_eq_iff)

lemma rooted_remove_list [rooted_intros]:
  assumes "node_remove_list L t g = Some g'" and "rooted g" and "t \<noteq> 0 \<or> L = PLIST"
  shows "rooted g'"
proof -
  have "remove1 t (node_list g) \<noteq> [] \<and> hd (remove1 t (node_list g)) = 0" if "t \<noteq> 0"
    using rootedD(3,4) [OF assms(2)] that by (cases "node_list g") auto
  then show ?thesis using assms
    by (cases L) (auto simp: rooted_def node_remove_list_def option.map_comp comp_def split: if_splits Option.bind_splits)
qed

lemma rooted_insert [rooted_intros]:
  "node_insert_tail NODE_LIST t g = Some g' \<Longrightarrow> rooted g \<Longrightarrow> rooted g'"
  "node_insert_head PLIST t g = Some g' \<Longrightarrow> rooted g \<Longrightarrow> rooted g'"
  by (auto simp: rooted_def node_insert_tail_def node_insert_head_def option.map_comp comp_def
      split: if_splits Option.bind_splits)

lemma rooted_create_node [rooted_intros]:
  assumes "create_node g tent = Some g'" and "rooted g"
  shows "rooted g'"
proof -
  have "g_style g' = g_style g" "removing_list g' = removing_list g" "node_list g' = node_list g @ [tnode_tupid tent]"
    "find_node g (tnode_tupid tent) = None"
    "\<And>x. find_node g' x = (if x = tnode_tupid tent then Some (new_node tent) else find_node g x)"
    using assms(1) by (auto simp: create_node_def split: if_splits)
  then show ?thesis using assms(2) by (auto simp: rooted_def new_node_def)
qed

lemma rooted_create_edge [rooted_intros]: "rooted g \<Longrightarrow> rooted (create_edge a b s g)"
  unfolding create_edge_def Let_def
  by (intro rooted_upd) (simp_all add: rooted_def)

section \<open>Preservation while the graph is built\<close>

lemma rooted_make_edge [rooted_intros]:
  assumes "make_edge g t = Some g'" and "rooted g" and "t \<noteq> 0"
  shows "rooted g'"
proof -
  have c: "rooted (count_node g t n)" for n
    using assms(2) rooted_upd [of g "\<lambda>n. n\<lparr>counted := True\<rparr>" t] by (simp add: count_node_def rooted_def)
  have e: "rooted (fst (expand_node g1 t))" if "rooted g1" for g1
    using that rooted_upd [of g1 "\<lambda>n. n\<lparr>expanded := True\<rparr>" t] assms(3)
    by (auto simp: expand_node_def Let_def split: option.split intro: rooted_intros)
  show ?thesis using assms(1,2) c e
    by (auto simp: make_edge_def Let_def split: Option.bind_splits if_splits intro!: rooted_create_edge rooted_upd)
qed

lemma rooted_build_cb [rooted_intros]:
  "build_graph_cb tent g = Some g' \<Longrightarrow> rooted g \<Longrightarrow> tnode_tupid tent \<noteq> 0 \<Longrightarrow> rooted g'"
  by (auto simp: build_graph_cb_def split: Option.bind_splits option.splits intro: rooted_intros)

lemma rooted_group_cb [rooted_intros]:
  assumes "build_graph_group_cb tent g = Some g'" and "rooted g" and "tnode_tupid tent \<noteq> 0"
  shows "rooted g'"
proof -
  have "rooted g2" if "expand_new g1 t = Some g2" "rooted g1" "t \<noteq> 0" for g1 g2 t
    using that rooted_upd [of g1 "\<lambda>n. n\<lparr>expanded := True\<rparr>" t]
    by (auto simp: expand_new_def expand_node_def Let_def split: Option.bind_splits if_splits option.splits intro: rooted_intros)
  then show ?thesis using assms
    by (auto simp: build_graph_group_cb_def find_or_create_node_def split: Option.bind_splits option.splits intro!: rooted_create_edge)
       (blast intro: rooted_create_node)+
qed

lemma rooted_for_each:
  assumes "\<And>e g g'. cb e g = Some g' \<Longrightarrow> rooted g \<Longrightarrow> tnode_tupid e \<noteq> 0 \<Longrightarrow> rooted g'"
    and "list_all (row_entry R) es" and "for_each cb es g = Some g'" and "rooted g"
  shows "rooted g'"
  using assms(2-) by (induction es arbitrary: g) (auto simp: row_entry_def split: Option.bind_splits dest: assms(1))

lemma rooted_finish [rooted_intros]:
  assumes "finish_node g t = Some g'" and "rooted g"
  shows "rooted g'"
proof -
  from assms(1) obtain g1 g2 where g: "node_remove_list PLIST t g = Some g1" "node_insert_tail NODE_LIST t g1 = Some g2"
    "g' = set_state t STATE_FINISHED g2" by (auto simp: finish_node_def split: Option.bind_splits)
  have "rooted g2" using rooted_insert(1) [OF g(2) rooted_remove_list [OF g(1) assms(2)]] by simp
  then show ?thesis unfolding g(3) set_state_def by (rule rooted_upd) simp_all
qed

lemma rooted_links:
  assumes "tup_db_select_node_by_link d build_graph_cb t g = Some g'" and "rooted g" and "nodes_ok d"
  shows "rooted g'"
proof -
  from assms(1) obtain ts es where e: "find_rows d ts = Some es" "for_each build_graph_cb es g = Some g'"
    by (auto simp: tup_db_select_node_by_link_def get_outputs_def split: Option.bind_splits if_splits)
  show ?thesis by (rule rooted_for_each [OF rooted_build_cb find_rows_entries(2) [OF assms(3) e(1)] e(2) assms(2)])
qed

lemma rooted_group_users:
  assumes "tup_db_select_node_by_distinct_group_link d build_graph_group_cb t g = Some g'" and "rooted g" and "nodes_ok d"
  shows "rooted g'"
proof -
  from assms(1) obtain ts where "for_each_id d build_graph_group_cb ts g = Some g'"
    by (auto simp: tup_db_select_node_by_distinct_group_link_def split: Option.bind_splits if_splits)
  then obtain es where e: "find_rows d ts = Some es" "for_each build_graph_group_cb es g = Some g'"
    using for_each_id_rows [of d build_graph_group_cb ts g] for_each_id_None [of d ts build_graph_group_cb g]
    by (cases "find_rows d ts") auto
  show ?thesis by (rule rooted_for_each [OF rooted_group_cb find_rows_entries(2) [OF assms(3) e(1)] e(2) assms(2)])
qed

lemma rooted_find_deps:
  assumes "find_deps d g t = Some g'" and "rooted g" and "nodes_ok d"
  shows "rooted g'"
  using assms rootedD(1) [OF assms(2)] rooted_links [OF _ assms(2,3)] rooted_group_users [OF _ _ assms(3)]
  by (auto simp: find_deps_def split: Option.bind_splits if_splits)

lemma rooted_build_iter:
  assumes "build_iter d g t = Some g'" and "rooted g" and "nodes_ok d"
  shows "rooted g'"
  using assms rooted_find_deps [of d "g\<lparr>g_cur := t\<rparr>" t] rooted_finish [of g t g']
  by (auto simp: build_iter_def set_state_def split: Option.bind_splits node_state.splits intro!: rooted_upd)

lemma rooted_build_loop:
  assumes "build_loop d g = Some (Some g')" and "rooted g" and "nodes_ok d"
  shows "rooted g'"
proof -
  have "nodes_ok d \<longrightarrow> rooted g \<longrightarrow> (\<forall>g'. r = Some g' \<longrightarrow> rooted g')" if "build_loop d g = Some r" for r
    by (rule build_loop.raw_induct [OF _ that, of "\<lambda>d g r. nodes_ok d \<longrightarrow> rooted g \<longrightarrow> (\<forall>g'. r = Some g' \<longrightarrow> rooted g')"])
       (auto split: list.splits option.splits dest: rooted_build_iter)
  then show ?thesis using assms by blast
qed

section \<open>Sticky edges\<close>

text \<open>\<open>add_graph_stickies\<close> adds edges to the commands and touches nothing else.\<close>

definition frozen :: "node \<Rightarrow> ((tup_entry \<times> bool \<times> bool \<times> transient_type) \<times> bool) \<times> list_id option \<times> node_state" where
  "frozen n = (fixed n, active_list n, n_state n)"

definition same_nodes :: "graph \<Rightarrow> graph \<Rightarrow> bool" where
  "same_nodes g g' \<longleftrightarrow> (\<forall>L. queue L g' = queue L g) \<and> g_style g' = g_style g
     \<and> (\<forall>x. map_option frozen (find_node g' x) = map_option frozen (find_node g x))"

lemma same_nodes_refl [simp]: "same_nodes g g"
  by (simp add: same_nodes_def)

lemma same_nodes_trans: "same_nodes g g' \<Longrightarrow> same_nodes g' g'' \<Longrightarrow> same_nodes g g''"
  by (simp add: same_nodes_def)

lemma same_nodes_find:
  assumes "same_nodes g g'" and "find_node g' x = Some n'"
  obtains n where "find_node g x = Some n" and "frozen n' = frozen n" and "n_tent n' = n_tent n"
    and "transient n' = transient n" and "expanded n' = expanded n" and "active_list n' = active_list n" and "n_state n' = n_state n"
proof -
  have "map_option frozen (find_node g' x) = map_option frozen (find_node g x)" using assms(1) by (simp add: same_nodes_def)
  then obtain n where "find_node g x = Some n" "frozen n' = frozen n" using assms(2) by (cases "find_node g x") auto
  then show thesis using that by (simp add: frozen_def fixed_def kept_def)
qed

lemma same_nodes_ids:
  assumes "same_nodes g g'"
  shows "find_node g' x = None \<longleftrightarrow> find_node g x = None" and "node_ids g' = node_ids g"
proof -
  show n: "find_node g' x = None \<longleftrightarrow> find_node g x = None" for x
    using assms unfolding same_nodes_def by (metis option.map_disc_iff)
  show "node_ids g' = node_ids g" by (simp add: node_ids_def n)
qed

lemma create_edge_same_nodes: "same_nodes g (create_edge a b s g)"
proof -
  have "map_option frozen (find_node (create_edge a b s g) x) = map_option frozen (find_node g x)" for x
    by (simp add: create_edge_def Let_def option.map_comp comp_def)
       (cases "find_node g a"; cases "find_node g b"; simp add: frozen_def fixed_def kept_def)
  then show ?thesis by (simp add: same_nodes_def)
qed

lemma add_sticky_edges_ok:
  assumes "graph_ok g" and "t \<in> node_ids g"
  shows "graph_ok (add_sticky_edges ss t g) \<and> same_nodes g (add_sticky_edges ss t g)
    \<and> arcs (add_sticky_edges ss t g) = arcs g \<union> (set ss \<inter> node_ids g) \<times> {t}"
  using assms
proof (induction ss arbitrary: g)
  case (Cons s ss)
  show ?case
  proof (cases "s \<in> node_ids g")
    case True
    let ?g = "create_edge s t TUP_LINK_STICKY g"
    have c: "graph_ok ?g" "arcs ?g = insert (s, t) (arcs g)"
      using create_edge_ok [OF Cons.prems(1), of s t TUP_LINK_STICKY] True Cons.prems(2) by (simp_all add: node_ids_def)
    have n: "same_nodes g ?g" by (rule create_edge_same_nodes)
    note ids = same_nodes_ids(2) [OF n]
    note ih = Cons.IH [OF c(1)] Cons.prems(2)
    then have "graph_ok (add_sticky_edges ss t ?g) \<and> same_nodes ?g (add_sticky_edges ss t ?g)
        \<and> arcs (add_sticky_edges ss t ?g) = arcs ?g \<union> (set ss \<inter> node_ids ?g) \<times> {t}" by (simp add: ids)
    then show ?thesis using True c n ids same_nodes_trans [OF n] by (auto simp: node_ids_def)
  next
    case False
    then show ?thesis using Cons by (auto simp: node_ids_def)
  qed
qed simp

definition sticky_arcs :: "db \<Rightarrow> graph \<Rightarrow> (tupid \<times> tupid) set" where
  "sticky_arcs d g = {(s, t) \<in> set (sticky_link d). s \<in> node_ids g
     \<and> (\<exists>n. find_node g t = Some n \<and> ntype (n_tent n) = TUP_NODE_CMD)}"

lemma sticky_arcs_cong: "same_nodes g g' \<Longrightarrow> sticky_link d' = sticky_link d \<Longrightarrow> sticky_arcs d' g' = sticky_arcs d g"
proof -
  assume a: "same_nodes g g'" and l: "sticky_link d' = sticky_link d"
  have "map_option (\<lambda>n. ntype (n_tent n)) (find_node g' t) = map_option (\<lambda>n. ntype (n_tent n)) (find_node g t)" for t
  proof (cases "find_node g' t")
    case None
    then show ?thesis using same_nodes_ids(1) [OF a, of t] by simp
  next
    case (Some n')
    obtain n where "find_node g t = Some n" "n_tent n' = n_tent n" by (rule same_nodes_find [OF a Some])
    then show ?thesis using Some by simp
  qed
  then have ty: "map_option (\<lambda>n. ntype (n_tent n)) (find_node g' t) = Some TUP_NODE_CMD \<longleftrightarrow>
      map_option (\<lambda>n. ntype (n_tent n)) (find_node g t) = Some TUP_NODE_CMD" for t by simp
  have "(\<exists>n. find_node h t = Some n \<and> ntype (n_tent n) = TUP_NODE_CMD) \<longleftrightarrow>
      map_option (\<lambda>n. ntype (n_tent n)) (find_node h t) = Some TUP_NODE_CMD" for h t by auto
  then show ?thesis using same_nodes_ids(2) [OF a] l ty by (simp add: sticky_arcs_def)
qed

lemma stickies_of_nodes_ok:
  assumes "db_ok d" and "graph_ok g" and "stickies_of_nodes ts d g = Some (d', g')"
  shows "db_ok d' \<and> graph_ok g' \<and> same_nodes g g' \<and> same_tables d d' \<and> same_links d d'
    \<and> arcs g' = arcs g \<union> {(s, t) \<in> sticky_arcs d g. t \<in> set ts}"
  using assms
proof (induction ts arbitrary: d g)
  case (Cons t ts)
  from Cons.prems(3) obtain n where n: "find_node g t = Some n" by (auto split: Option.bind_splits)
  have tg: "t \<in> node_ids g" using n by (simp add: node_ids_def)
  show ?case
  proof (cases "ntype (n_tent n) = TUP_NODE_CMD")
    case True
    then obtain d1 sr nr gsr where get: "tup_db_get_inputs d t True False = Some (d1, sr, nr, gsr)"
      and rest: "stickies_of_nodes ts d1 (add_sticky_edges sr t g) = Some (d', g')"
      using Cons.prems(3) n by (auto split: Option.bind_splits)
    note g1 = get_inputs_sticky [OF Cons.prems(1) get]
    have a: "graph_ok (add_sticky_edges sr t g)" "same_nodes g (add_sticky_edges sr t g)"
      "arcs (add_sticky_edges sr t g) = arcs g \<union> (set sr \<inter> node_ids g) \<times> {t}"
      using add_sticky_edges_ok [OF Cons.prems(2) tg, of sr] by simp_all
    note ih = Cons.IH [OF g1(1) a(1) rest]
    have sl: "sticky_link d1 = sticky_link d" using g1(7) by (simp add: same_links_def)
    have "(set sr \<inter> node_ids g) \<times> {t} = {(s, u) \<in> sticky_arcs d g. u = t}"
      using n True unfolding g1(3) sticky_arcs_def sources_def by simp blast
    moreover have "sticky_arcs d1 (add_sticky_edges sr t g) = sticky_arcs d g" by (rule sticky_arcs_cong [OF a(2) sl])
    ultimately have "arcs g' = arcs g \<union> {(s, u) \<in> sticky_arcs d g. u \<in> set (t # ts)}" using ih a(3) by auto
    moreover have "same_nodes g g'" using same_nodes_trans [OF a(2)] ih by blast
    moreover have "same_tables d d' \<and> same_links d d'" using ih g1(6,7) by (simp add: same_tables_def same_links_def)
    ultimately show ?thesis using ih by blast
  next
    case False
    then have "stickies_of_nodes ts d g = Some (d', g')" using Cons.prems(3) n by simp
    note ih = Cons.IH [OF Cons.prems(1,2) this]
    have "(s, t) \<notin> sticky_arcs d g" for s using n False by (simp add: sticky_arcs_def)
    then have "{(s, u) \<in> sticky_arcs d g. u \<in> set (t # ts)} = {(s, u) \<in> sticky_arcs d g. u \<in> set ts}" by auto
    then show ?thesis using ih by simp
  qed
qed (simp add: same_tables_def same_links_def)

section \<open>What \<open>build_graph\<close> hands over\<close>

definition transient_file :: "db \<Rightarrow> tupid \<Rightarrow> bool" where
  "transient_file d t \<longleftrightarrow> (case row d t of None \<Rightarrow> False | Some e \<Rightarrow> ntype e = TUP_NODE_GENERATED \<and> is_transient_tent e)"

lemma non_transient_start:
  assumes "\<forall>e \<in> set es. \<not> (ntype e = TUP_NODE_CMD \<and> is_transient_tent e)"
  shows "for_each build_graph_non_transient_cb es g = for_each build_graph_cb es g"
  using assms by (induction es arbitrary: g) (auto simp: build_graph_non_transient_cb_def split: Option.bind_splits)

lemma loop_facts:
  assumes "nodes_ok d" and "list_all (row_entry (row d)) es" and "fl \<noteq> TUP_NODE_GROUP"
  obtains g r where "for_each build_graph_cb es (create_graph fl) = Some g" and "build_loop d g = Some r"
    and "\<And>g'. r = Some g' \<Longrightarrow> pending (row d) {0} g' \<and> rooted g' \<and> hdr g' = hdr (create_graph fl) \<and> plist g' = []
         \<and> nodes g' = (normal_deps d)\<^sup>* `` (tnode_tupid ` set es) \<and> (\<forall>x \<in> nodes g'. st g' x = Some STATE_FINISHED)
         \<and> arcs g' = {0} \<times> tnode_tupid ` set es \<union> {(a, b) \<in> normal_deps d. a \<in> nodes g'}"
proof -
  from initial_graph [OF assms(1,2)] obtain g where g: "for_each build_graph_cb es (create_graph fl) = Some g"
    "fresh_graph d g" "hdr g = hdr (create_graph fl)" by metis
  from build_loop_facts [OF assms] g(1) obtain r where r: "build_loop d g = Some r"
    "\<And>g'. r = Some g' \<Longrightarrow> plist g' = [] \<and> nodes g' = (normal_deps d)\<^sup>* `` (tnode_tupid ` set es)
         \<and> (\<forall>x \<in> nodes g'. st g' x = Some STATE_FINISHED)
         \<and> arcs g' = {0} \<times> tnode_tupid ` set es \<union> {(a, b) \<in> normal_deps d. a \<in> nodes g'}" by auto
  have m: "g_style g \<noteq> TUP_LINK_GROUP" using g(3) assms(3) by (simp add: hdr_def create_graph_def)
  have rt: "rooted g" by (rule rooted_for_each [OF rooted_build_cb assms(2) g(1) rooted_create_graph [OF assms(3)]])
  have "pending (row d) {0} g' \<and> rooted g' \<and> hdr g' = hdr (create_graph fl)" if "r = Some g'" for g'
  proof -
    have "normal_walk.walk_inv d g g'"
      using normal_walk.walk [OF normal_walk.walk_start [OF g(2) m]] r(1) that by auto
    moreover have "rooted g'" by (rule rooted_build_loop [OF _ rt assms(1)]) (use r(1) that in simp)
    ultimately show ?thesis using g(3) by (simp add: normal_walk.walk_inv_def)
  qed
  then show thesis using r(2) by (intro that [OF g(1) r(1)] conjI) (blast | simp)+
qed

lemma ready_intro:
  assumes p: "pending (row d) {0} g1" and rt: "rooted g1" and pl: "plist g1 = []"
    and n: "nodes g1 = (normal_deps d)\<^sup>* `` S" and fin: "\<forall>x \<in> nodes g1. st g1 x = Some STATE_FINISHED"
    and ar: "arcs g1 = {0} \<times> S \<union> {(a, b) \<in> normal_deps d. a \<in> nodes g1}"
    and ok: "graph_ok g" and sn: "same_nodes g1 g" and ar2: "arcs g = arcs g1 \<union> sticky_arcs d g1"
    and typed: "\<forall>(a, b) \<in> normal_deps d. \<not> (transient_file d a \<and> transient_file d b)"
  shows "exec_ready g \<and> node_list g = node_list g1 \<and> hd (node_list g) = 0 \<and> node_ids g = insert 0 (nodes g1) \<and> is_expanded g = nodes g1"
proof -
  have root: "map_option n_tent (find_node g1 0) = Some root_entry" by (rule rootedD(5) [OF rt])
  have ids1: "node_ids g1 = insert 0 (nodes g1)" using root by (auto simp: node_ids_def nodes_def)
  note ids = same_nodes_ids(2) [OF sn] ids1
  have q: "queue L g = queue L g1" for L using sn by (simp add: same_nodes_def)
  have ql: "node_list g = node_list g1" "plist g = []" "removing_list g = []"
    using q [of NODE_LIST] q [of PLIST] q [of REMOVING_LIST] pl rootedD(2) [OF rt] by simp_all
  have old: "active_list n = Some NODE_LIST \<and> n_state n \<noteq> STATE_PROCESSING \<and> transient n \<noteq> TRANSIENT_DELETE \<and> (expanded n \<longleftrightarrow> t \<noteq> 0)
      \<and> (transient n = TRANSIENT_PROCESSING \<longrightarrow> transient_file d t)
      \<and> (transient n = TRANSIENT_PROCESSING \<longrightarrow> ntype (n_tent n) = TUP_NODE_GENERATED)" if f: "find_node g1 t = Some n" for t n
  proof -
    have fits: "node_fits {0} t n" "t \<noteq> 0 \<Longrightarrow> row d t = Some (n_tent n)" using p f by (simp_all add: pending_def)
    have "t \<notin> set (queue PLIST g1)" using pl by simp
    then have "active_list n \<noteq> Some PLIST" using p f queues_okD(2) [of g1 t PLIST] by (simp add: pending_def graph_ok_def)
    moreover have tr: "transient n = transient (new_node (n_tent n))" by (rule rootedD(6) [OF rt f])
    moreover have "n_tent n = root_entry" if "t = 0" using root f that by simp
    ultimately show ?thesis using fits
      by (auto simp: node_fits_def new_node_def transient_file_def root_entry_def split: if_splits)
  qed
  have new: "active_list n = Some NODE_LIST \<and> n_state n \<noteq> STATE_PROCESSING \<and> transient n \<noteq> TRANSIENT_DELETE \<and> (expanded n \<longleftrightarrow> t \<noteq> 0)
      \<and> (transient n = TRANSIENT_PROCESSING \<longrightarrow> transient_file d t)
      \<and> (transient n = TRANSIENT_PROCESSING \<longrightarrow> ntype (n_tent n) = TUP_NODE_GENERATED)" if "find_node g t = Some n" for t n
    using same_nodes_find [OF sn that] old [of t] by metis
  have tset: "t \<in> tset g \<Longrightarrow> transient_file d t \<and> (\<forall>n. find_node g t = Some n \<longrightarrow> ntype (n_tent n) = TUP_NODE_GENERATED)" for t
    using new by (auto simp: tset_def transients_def)
  have nz: "0 \<notin> nodes g1" by (simp add: nodes_def)
  have S: "S \<subseteq> nodes g1" unfolding n by auto
  have closed: "(a, b) \<in> normal_deps d \<Longrightarrow> a \<in> nodes g1 \<Longrightarrow> b \<in> nodes g1" for a b
    unfolding n by (auto intro: rtrancl_into_rtrancl)
  have cmd: "t \<noteq> 0 \<and> t \<notin> tset g" if st: "(s, t) \<in> sticky_arcs d g1" for s t
  proof -
    obtain m where m: "find_node g1 t = Some m" "ntype (n_tent m) = TUP_NODE_CMD" using st by (auto simp: sticky_arcs_def)
    then have "t \<noteq> 0" using root by (auto simp: root_entry_def)
    moreover obtain m' where m': "find_node g t = Some m'" using same_nodes_ids(1) [OF sn, of t] m(1) by auto
    then have "n_tent m' = n_tent m" using same_nodes_find [OF sn m'] m(1) by (metis option.inject)
    ultimately show ?thesis using tset [of t] m(2) m' by auto
  qed
  have into: "(\<forall>a. (a, t) \<notin> arcs g) \<longleftrightarrow> t = 0" if t: "t \<in> node_ids g" for t
  proof (cases "t = 0")
    case True
    have "(a, 0) \<notin> arcs g" for a
    proof -
      have "(a, 0) \<notin> arcs g1" using nz S closed [of a 0] unfolding ar by blast
      then show ?thesis using cmd [of a 0] unfolding ar2 by blast
    qed
    then show ?thesis using True by simp
  next
    case False
    then have "t \<in> nodes g1" using t ids by simp
    then obtain s where s: "s \<in> S" "(s, t) \<in> (normal_deps d)\<^sup>*" unfolding n by auto
    have "\<exists>a. (a, t) \<in> arcs g1"
    proof (cases "s = t")
      case True
      then show ?thesis using s(1) ar by auto
    next
      case False
      then obtain a where a: "(s, a) \<in> (normal_deps d)\<^sup>*" "(a, t) \<in> normal_deps d" using s(2) by (meson rtranclE)
      then have "a \<in> nodes g1" using s(1) unfolding n by auto
      then show ?thesis using a(2) ar by auto
    qed
    then show ?thesis using False ar2 by auto
  qed
  have hd0: "hd (node_list g) = 0" using rootedD(4) [OF rt] ql(1) by simp
  have t0: "0 \<notin> tset g"
  proof
    assume t: "0 \<in> tset g"
    then obtain m' where m': "find_node g 0 = Some m'" by (auto simp: tset_def transients_def)
    have "n_tent m' = root_entry" using same_nodes_find [OF sn m'] root by (metis option.map(2) option.inject)
    then show False using tset [OF t] m' by (simp add: root_entry_def)
  qed
  have arc: "b \<notin> tset g" if ab: "(a, b) \<in> arcs g" "a \<in> tset g" for a b
  proof (cases "(a, b) \<in> sticky_arcs d g1")
    case True
    then show ?thesis using cmd by blast
  next
    case False
    then have "(a, b) \<in> normal_deps d" using ab t0 unfolding ar2 ar by auto
    then have "\<not> (transient_file d a \<and> transient_file d b)" using typed by blast
    then show ?thesis using tset ab(2) by blast
  qed
  have ex: "is_expanded g = nodes g1"
  proof (rule set_eqI)
    fix t
    have "t \<in> is_expanded g \<longleftrightarrow> t \<in> node_ids g \<and> t \<noteq> 0"
      using new [of t] by (cases "find_node g t") (auto simp: is_expanded_def node_ids_def)
    then show "t \<in> is_expanded g \<longleftrightarrow> t \<in> nodes g1" using ids nz by auto
  qed
  have hds: "\<forall>t \<in> node_ids g. t = hd (node_list g) \<longleftrightarrow> (\<forall>a. (a, t) \<notin> arcs g)" using into unfolding hd0 by blast
  have nodes: "\<forall>t n. find_node g t = Some n \<longrightarrow> active_list n = Some NODE_LIST \<and> n_state n \<noteq> STATE_PROCESSING \<and> transient n \<noteq> TRANSIENT_DELETE"
    using new by blast
  have nl: "node_list g \<noteq> []" using ql(1) rootedD(3) [OF rt] by simp
  have "exec_ready g" unfolding exec_ready_def
    by (intro conjI ok ql(2,3) nl nodes hds) (use t0 hd0 arc in auto)
  then show ?thesis using ql(1) hd0 ids ex by simp
qed

lemma build_graph_facts:
  assumes db: "db_ok d" and es: "list_all (row_entry (row d)) es"
    and plain: "\<forall>e \<in> set es. \<not> (ntype e = TUP_NODE_CMD \<and> is_transient_tent e)"
    and typed: "\<forall>(a, b) \<in> normal_deps d. \<not> (transient_file d a \<and> transient_file d b)"
  shows "\<exists>g0 r. for_each build_graph_non_transient_cb es (create_graph TUP_NODE_CMD) = Some g0 \<and> build_graph d g0 = Some r
    \<and> (\<forall>d' g. r = Some (d', g) \<longrightarrow> exec_ready g \<and> hd (node_list g) = 0 \<and> 0 \<notin> is_expanded g
         \<and> is_expanded g = (normal_deps d)\<^sup>* `` (tnode_tupid ` set es) \<and> node_ids g = insert 0 (is_expanded g)
         \<and> arcs g = {0} \<times> tnode_tupid ` set es \<union> {(a, b) \<in> normal_deps d. a \<in> is_expanded g} \<union> sticky_arcs d g)"
proof -
  have ok: "nodes_ok d" using db by (simp add: db_ok_def)
  obtain g0 r where l: "for_each build_graph_cb es (create_graph TUP_NODE_CMD) = Some g0" "build_loop d g0 = Some r"
    "\<And>g1. r = Some g1 \<Longrightarrow> pending (row d) {0} g1 \<and> rooted g1 \<and> hdr g1 = hdr (create_graph TUP_NODE_CMD) \<and> plist g1 = []
         \<and> nodes g1 = (normal_deps d)\<^sup>* `` (tnode_tupid ` set es) \<and> (\<forall>x \<in> nodes g1. st g1 x = Some STATE_FINISHED)
         \<and> arcs g1 = {0} \<times> tnode_tupid ` set es \<union> {(a, b) \<in> normal_deps d. a \<in> nodes g1}"
    by (rule loop_facts [OF ok es tup_node_type.distinct(25)]) (rule that; assumption)
  show ?thesis
  proof (cases r)
    case None
    then have "build_graph d g0 = Some None" using l(2) by (simp add: build_graph_def)
    then show ?thesis using l(1) non_transient_start [OF plain] by auto
  next
    case (Some g1)
    note f = l(3) [OF Some]
    have tr: "transient_root g1 = []" "count_flags g1 = TUP_NODE_CMD"
    proof -
      have "hdr g1 = hdr (create_graph TUP_NODE_CMD)" using f by blast
      then show "transient_root g1 = []" "count_flags g1 = TUP_NODE_CMD" by (simp_all add: hdr_def create_graph_def)
    qed
    have sty: "g_style g1 = TUP_LINK_NORMAL" by (rule rootedD(1) [OF conjunct1 [OF conjunct2 [OF f]]])
    have at: "attach_loop d g1 = Some (Some g1)"
      using tr by (subst attach_loop.simps) (simp add: attach_transient_nodes_def)
    let ?g1 = "g1\<lparr>transient_root := []\<rparr>"
    have g1: "?g1 = g1" using tr by simp
    have bg: "build_graph d g0 = Some (do { (d4, g4) \<leftarrow> add_graph_stickies d g1; if plist g4 \<noteq> [] then None else Some (d4, g4)})"
      using l(2) Some at tr(2) sty by (simp add: build_graph_def g1)
    have ready: "exec_ready g \<and> hd (node_list g) = 0 \<and> 0 \<notin> is_expanded g
         \<and> is_expanded g = (normal_deps d)\<^sup>* `` (tnode_tupid ` set es) \<and> node_ids g = insert 0 (is_expanded g)
         \<and> arcs g = {0} \<times> tnode_tupid ` set es \<union> {(a, b) \<in> normal_deps d. a \<in> is_expanded g} \<union> sticky_arcs d g"
      if a: "add_graph_stickies d g1 = Some (d', g)" for d' g
    proof -
      have gok: "graph_ok g1" using f by (simp add: pending_def)
      note s = stickies_of_nodes_ok [OF db gok a [unfolded add_graph_stickies_def]]
      have "t \<in> set (node_list g1)" if "(u, t) \<in> sticky_arcs d g1" for u t
      proof -
        from that obtain n where n: "find_node g1 t = Some n" by (auto simp: sticky_arcs_def)
        have "node_fits {0} t n" using f n by (simp add: pending_def)
        moreover have "t \<notin> set (queue PLIST g1)" using f by simp
        then have "active_list n \<noteq> Some PLIST" using gok n queues_okD(2) [of g1 t PLIST] by (simp add: graph_ok_def)
        ultimately have "active_list n = Some NODE_LIST" by (auto simp: node_fits_def split: if_splits)
        then show ?thesis using gok n queues_okD(2) [of g1 t NODE_LIST] by (simp add: graph_ok_def)
      qed
      then have "{(u, t) \<in> sticky_arcs d g1. t \<in> set (node_list g1)} = sticky_arcs d g1" by blast
      then have ar: "arcs g = arcs g1 \<union> sticky_arcs d g1" using s by simp
      have same: "same_nodes g1 g" "graph_ok g" using s by simp_all
      have sa: "sticky_arcs d g = sticky_arcs d g1" by (rule sticky_arcs_cong [OF same(1) refl])
      have ff: "pending (row d) {0} g1" "rooted g1" "plist g1 = []" "nodes g1 = (normal_deps d)\<^sup>* `` (tnode_tupid ` set es)"
        "\<forall>x \<in> nodes g1. st g1 x = Some STATE_FINISHED"
        "arcs g1 = {0} \<times> tnode_tupid ` set es \<union> {(a, b) \<in> normal_deps d. a \<in> nodes g1}" using f by blast+
      note R = ready_intro [OF ff same(2,1) ar typed]
      then have "0 \<notin> is_expanded g" by (simp add: nodes_def)
      then show ?thesis using R ff(4,6) ar sa by (elim conjE) simp
    qed
    moreover have "add_graph_stickies d g1 = Some (d', g)" if "build_graph d g0 = Some (Some (d', g))" for d' g
      using that bg by (auto split: Option.bind_splits if_splits)
    ultimately have all: "exec_ready g \<and> hd (node_list g) = 0 \<and> 0 \<notin> is_expanded g
         \<and> is_expanded g = (normal_deps d)\<^sup>* `` (tnode_tupid ` set es) \<and> node_ids g = insert 0 (is_expanded g)
         \<and> arcs g = {0} \<times> tnode_tupid ` set es \<union> {(a, b) \<in> normal_deps d. a \<in> is_expanded g} \<union> sticky_arcs d g"
      if "build_graph d g0 = Some (Some (d', g))" for d' g using that by blast
    obtain res where res: "build_graph d g0 = Some res" using bg by blast
    show ?thesis
    proof (intro exI conjI allI impI)
      show "for_each build_graph_non_transient_cb es (create_graph TUP_NODE_CMD) = Some g0"
        using l(1) non_transient_start [OF plain] by simp
      show "build_graph d g0 = Some res" by (rule res)
    qed (use all res in blast)+
  qed
qed

end
