(* ===== verification/Exec_Props.thy ===== *)
theory Exec_Props
  imports Exec_Ready
begin

text \<open>
  The properties of \<^verbatim>\<open>execute_graph\<close> with the worker function of an update, for every schedule, and their
  composition with \<^verbatim>\<open>build_graph\<close>; a schedule interpreter gives the witnesses.
\<close>

section \<open>Following a schedule\<close>

fun run_acts :: "'w work \<Rightarrow> bool \<Rightarrow> actor list \<Rightarrow> event list \<times> 'w exec \<Rightarrow> (event list \<times> 'w exec) option" where
  "run_acts wk keep_going [] r = Some r"
| "run_acts wk keep_going (a # acts) (tr, s) = (case exec_next wk keep_going a s of
     None \<Rightarrow> None | Some (evs, s') \<Rightarrow> run_acts wk keep_going acts (tr @ evs, s'))"

lemma run_acts_sound:
  assumes "exec_run wk keep_going jobs w g acts tr s" and "run_acts wk keep_going rest (tr, s) = Some (tr', s')"
  shows "exec_run wk keep_going jobs w g (acts @ rest) tr' s'"
  using assms
proof (induction rest arbitrary: acts tr s)
  case (Cons a rest)
  from Cons.prems(2) obtain evs s1 where n: "exec_next wk keep_going a s = Some (evs, s1)"
    and r: "run_acts wk keep_going rest (tr @ evs, s1) = Some (tr', s')" by (auto split: option.splits)
  show ?case using Cons.IH [OF exec_run.move [OF Cons.prems(1) n] r] by simp
qed simp

definition run_from_start :: "'w work \<Rightarrow> bool \<Rightarrow> nat \<Rightarrow> 'w \<Rightarrow> graph \<Rightarrow> actor list \<Rightarrow> (event list \<times> 'w exec) option" where
  "run_from_start wk keep_going jobs w g acts =
     (case exec_start jobs w g of None \<Rightarrow> None | Some r \<Rightarrow> run_acts wk keep_going acts r)"

lemma run_from_start_sound:
  "run_from_start wk keep_going jobs w g acts = Some (tr, s) \<Longrightarrow> exec_run wk keep_going jobs w g acts tr s"
  using run_acts_sound [OF exec_run.start]
  by (fastforce simp: run_from_start_def split: option.splits)

section \<open>Properties\<close>

text \<open>
  C1: whatever the threads do, a node is handed to a worker or popped for the first time only when
  all nodes with an edge to it have been popped, and a transient node for the second time (to remove its file)
  only when everything that uses it has been popped; no node is started more often than that, a node is popped only
  after its function returned 0, and every worker is on exactly one of the free, busy and finished lists.
\<close>

theorem execute_graph_ordered:
  assumes "exec_ready g" and "0 < jobs" and "exec_run (update_work sh) keep_going jobs w g acts tr s"
  shows "(\<forall>pre e post t. tr = pre @ e # post \<and> (e = Started t \<or> e = Popped t) \<longrightarrow>
       (if t \<in> popped pre then t \<in> tset g \<and> (\<forall>b. (t, b) \<in> arcs g \<longrightarrow> b \<in> popped pre)
        else \<forall>a. (a, t) \<in> arcs g \<longrightarrow> a \<in> popped pre))
    \<and> (\<forall>t. count_list tr (Started t) \<le> (if t \<in> tset g then 2 else 1))
    \<and> (\<forall>t \<in> is_expanded g - {hd (node_list g)}. count_list tr (Popped t) \<le> count_list tr (Returned t 0))
    \<and> distinct (free_list s @ busy_list s @ fin_list s) \<and> set (free_list s @ busy_list s @ fin_list s) = {0..<jobs}"
  using updater.run_ordered [OF assms] by (auto simp: ordered_def ready_at_def)

text \<open>
  C4: no schedule is longer than a bound given by the graph, so the loops of \<^verbatim>\<open>execute_graph\<close>
  end; no queue operation fails in it (\<open>-2\<close> is never returned); and from every state that is reached the main thread
  and the workers alone can bring the function to its return: it never waits for a worker that cannot come.
\<close>

theorem execute_graph_terminates:
  assumes "exec_ready g" and "0 < jobs" and "exec_run (update_work sh) keep_going jobs w g acts tr s"
  shows "length acts \<le> 20 * (card (arcs g) + card (node_ids g)) \<and> x_pc s \<noteq> Exited (-2)
    \<and> (\<exists>acts' tr' s' rc. Signal \<notin> set acts' \<and> exec_run (update_work sh) keep_going jobs w g (acts @ acts') tr' s' \<and> x_pc s' = Exited rc)"
  using updater.run_terminates(1,2) [OF assms] updater.run_exits [OF assms] by blast

text \<open>
  C2: when \<^verbatim>\<open>execute_graph\<close> returns without a signal, and no function failed or keep-going is
  set, the popped nodes are (without a cycle) exactly those that depend on no failed node; it returns 0 exactly when
  no function failed and the graph has no cycle; and then every node has left the graph.
\<close>

theorem execute_graph_result:
  assumes "exec_ready g" and "0 < jobs" and "exec_run (update_work sh) keep_going jobs w g acts tr s"
    and "x_pc s = Exited rc" and "\<not> server_is_dead s" and "stuck tr = {} \<or> keep_going"
  shows "(acyclic (arcs g) \<longrightarrow> popped tr = {t \<in> node_ids g. \<not> (\<exists>f \<in> stuck tr - popped tr. (f, t) \<in> (arcs g)\<^sup>*)})
    \<and> (rc = 0 \<longleftrightarrow> stuck tr = {} \<and> acyclic (arcs g)) \<and> (rc = 0 \<longrightarrow> departed g tr = node_ids g)"
  using updater.run_result [OF assms] by blast

text \<open>
  C3: from the rows that are flagged as modified (no transient commands among them), in a well-formed database whose
  links do not lead from one transient file to another, and with at least one worker, \<^verbatim>\<open>build_graph\<close> returns; if it succeeds, every
  schedule of \<^verbatim>\<open>execute_graph\<close> on its graph can be continued to the return, and a return of 0 without a
  signal means, with or without keep-going, that the function of every node reachable from those rows returned 0 and
  that the node was popped.
\<close>

theorem build_graph_executes:
  assumes "db_ok d" and "list_all (row_entry (row d)) es" and "\<forall>e \<in> set es. \<not> (ntype e = TUP_NODE_CMD \<and> is_transient_tent e)"
    and "\<forall>(a, b) \<in> normal_deps d. \<not> (transient_file d a \<and> transient_file d b)" and "0 < jobs"
  shows "\<exists>g0 r. for_each build_graph_non_transient_cb es (create_graph TUP_NODE_CMD) = Some g0 \<and> build_graph d g0 = Some r
    \<and> (\<forall>d' g acts tr s. r = Some (d', g) \<and> exec_run (update_work sh) keep_going jobs w g acts tr s \<longrightarrow>
         (\<exists>acts' tr' s' rc. Signal \<notin> set acts' \<and> exec_run (update_work sh) keep_going jobs w g (acts @ acts') tr' s' \<and> x_pc s' = Exited rc)
       \<and> (x_pc s = Exited 0 \<and> \<not> server_is_dead s \<longrightarrow>
            (\<forall>t \<in> (normal_deps d)\<^sup>* `` (tnode_tupid ` set es). Returned t 0 \<in> set tr \<and> Popped t \<in> set tr)))"
proof -
  obtain g0 r where b: "for_each build_graph_non_transient_cb es (create_graph TUP_NODE_CMD) = Some g0" "build_graph d g0 = Some r"
    "\<forall>d' g. r = Some (d', g) \<longrightarrow> exec_ready g \<and> hd (node_list g) = 0 \<and> 0 \<notin> is_expanded g
         \<and> is_expanded g = (normal_deps d)\<^sup>* `` (tnode_tupid ` set es) \<and> node_ids g = insert 0 (is_expanded g)
         \<and> arcs g = {0} \<times> tnode_tupid ` set es \<union> {(a, b) \<in> normal_deps d. a \<in> is_expanded g} \<union> sticky_arcs d g"
    using build_graph_facts [OF assms(1-4)] by (elim exE conjE) (rule that)
  have "Returned t 0 \<in> set tr \<and> Popped t \<in> set tr"
    if "r = Some (d', g)" "exec_run (update_work sh) keep_going jobs w g acts tr s" "x_pc s = Exited 0" "\<not> server_is_dead s"
      "t \<in> (normal_deps d)\<^sup>* `` (tnode_tupid ` set es)" for d' g acts tr s t
  proof -
    have g: "exec_ready g" "hd (node_list g) = 0" "t \<in> is_expanded g" "t \<in> node_ids g" using b(3) that(1,5) by auto
    have st: "stuck tr = {} \<or> keep_going" using updater.run_zero [OF g(1) assms(5) that(2,3)] by simp
    have "t \<in> departed g tr" using updater.run_result(3) [OF g(1) assms(5) that(2-4) st refl] g(4) by simp
    then have p: "0 < count_list tr (Popped t)" using count_popped [of t tr] by (auto simp: departed_def)
    have "t \<noteq> 0" using b(3) that(1) g(3) by blast
    then have "count_list tr (Popped t) \<le> count_list tr (Returned t 0)"
      using updater.run_ordered(3) [OF g(1) assms(5) that(2)] g(2,3) by simp
    then show ?thesis using p by (metis count_list_0_iff less_nat_zero_code not_gr_zero order_less_le_trans)
  qed
  moreover have "\<exists>acts' tr' s' rc. Signal \<notin> set acts' \<and> exec_run (update_work sh) keep_going jobs w g (acts @ acts') tr' s' \<and> x_pc s' = Exited rc"
    if "r = Some (d', g)" "exec_run (update_work sh) keep_going jobs w g acts tr s" for d' g acts tr s
    using updater.run_exits [OF _ assms(5) that(2)] b(3) that(1) by blast
  ultimately show ?thesis using b(1,2) by blast
qed

section \<open>A small build\<close>

text \<open>File 1 is the input of the transient command 2, whose output 3 is the input of command 4.\<close>

declare build_loop.simps [code] attach_loop.simps [code]

definition small_db :: db where
  "small_db = sample_db [(1, TUP_NODE_FILE, []), (2, TUP_NODE_CMD, ''t''), (3, TUP_NODE_GENERATED, ''t''),
      (4, TUP_NODE_CMD, []), (5, TUP_NODE_GENERATED, [])] [(1, 2), (2, 3), (3, 4), (4, 5)] [(1, 4)] [] []"

definition small_rows :: "tup_entry list" where
  "small_rows = [sample_entry 1 TUP_NODE_FILE []]"

definition small_start :: graph where
  "small_start = the (for_each build_graph_non_transient_cb small_rows (create_graph TUP_NODE_CMD))"

definition small_graph :: graph where
  "small_graph = snd (the (the (build_graph small_db small_start)))"

definition small_file :: file_node where
  "small_file = \<lparr>f_mode = 32768, f_data = ''x'', f_mtime = \<lparr>tv_sec = 5, tv_nsec = 0\<rparr>\<rparr>"

definition small_shell :: shell where
  "small_shell = \<lparr>sh_open = (\<lambda>_. True), sh_busy = (\<lambda>_. False), sh_fits = (\<lambda>_. True), sh_io = (\<lambda>_. True),
     sh_env_dt = 9, sh_prepare = (\<lambda>_ d. (True, d)), sh_expand = (\<lambda>_ _ _. None),
     sh_exec = (\<lambda>t cmd fs. (Exec_Exited 0, fs(t + 1 := Some small_file))),
     sh_write_files = (\<lambda>_ _ _ d. (True, False, d)), sh_display = (\<lambda>_. True), sh_postexec = (\<lambda>_. True),
     sh_millis = (\<lambda>_. 7), sh_delete = (\<lambda>_ d. (True, d))\<rparr>"

definition small_world :: world where
  "small_world = \<lparr>w_db = small_db, files = (\<lambda>_. None)(1 := Some small_file), backups = (\<lambda>_. None), ran = []\<rparr>"

lemma small_built: "\<not> Option.is_none (build_graph small_db small_start)"
  "\<not> Option.is_none (the (build_graph small_db small_start))"
  "list_all (row_entry (row small_db)) small_rows"
  by code_simp+

lemma small_db_ok: "db_ok small_db"
  by (simp add: db_ok_def nodes_ok_def links_ok_def cache_ok_def small_db_def sample_db_def sample_entry_def om_ok_def small_tupid_def)

lemma small_typed: "\<forall>(a, b) \<in> normal_deps small_db. \<not> (transient_file small_db a \<and> transient_file small_db b)"
  by (auto simp: normal_deps_def transient_file_def small_db_def sample_db_def sample_entry_def is_transient_tent_def has_flag_def is_group_def)

lemma small_plain: "\<forall>e \<in> set small_rows. \<not> (ntype e = TUP_NODE_CMD \<and> is_transient_tent e)"
  by (simp add: small_rows_def sample_entry_def)

lemma small_ready: "exec_ready small_graph"
proof -
  from build_graph_facts [OF small_db_ok small_built(3) small_plain small_typed] obtain g0 r where
    g: "for_each build_graph_non_transient_cb small_rows (create_graph TUP_NODE_CMD) = Some g0" "build_graph small_db g0 = Some r"
    "\<forall>d' g. r = Some (d', g) \<longrightarrow> exec_ready g" by (elim exE conjE) simp
  have "small_start = g0" using g(1) by (simp add: small_start_def)
  then show ?thesis using g(2,3) small_built(2) by (cases r) (auto simp: small_graph_def Option.is_none_def)
qed

lemma small_first: "\<exists>tr s. exec_run (update_work small_shell) True 2 small_world small_graph [] tr s"
proof -
  obtain evs s where "exec_start 2 small_world small_graph = Some (evs, s)"
    by (rule updater.exec_start_inv [OF small_ready, of 2 small_world True]) simp_all
  from exec_run.start [OF this] show ?thesis by blast
qed

lemma small_run:
  obtains acts tr s rc where "Signal \<notin> set acts" "exec_run (update_work small_shell) True 2 small_world small_graph acts tr s"
    "x_pc s = Exited rc"
  using small_first updater.run_exits [OF small_ready zero_less_numeral] by (metis append_Nil)

theorem execute_graph_ordered_witness:
  "\<exists>acts tr s rc. exec_run (update_work small_shell) True 2 small_world small_graph acts tr s \<and> x_pc s = Exited rc
    \<and> (\<forall>t. count_list tr (Started t) \<le> (if t \<in> tset small_graph then 2 else 1))"
  using small_run execute_graph_ordered [OF small_ready zero_less_numeral] by metis

theorem execute_graph_terminates_witness:
  "\<exists>acts tr s rc. exec_run (update_work small_shell) True 2 small_world small_graph acts tr s \<and> x_pc s = Exited rc
    \<and> length acts \<le> 20 * (card (arcs small_graph) + card (node_ids small_graph))"
  using small_run execute_graph_terminates [OF small_ready zero_less_numeral] by metis

theorem execute_graph_result_witness:
  "\<exists>acts tr s rc. exec_run (update_work small_shell) True 2 small_world small_graph acts tr s \<and> x_pc s = Exited rc
    \<and> (rc = 0 \<longleftrightarrow> stuck tr = {} \<and> acyclic (arcs small_graph))"
proof -
  obtain acts tr s rc where r: "Signal \<notin> set acts" "exec_run (update_work small_shell) True 2 small_world small_graph acts tr s"
    "x_pc s = Exited rc" by (rule small_run)
  have "\<not> server_is_dead s" by (rule run_alive [OF r(2,1)])
  from execute_graph_result [OF small_ready zero_less_numeral r(2,3) this] r(2,3) show ?thesis by blast
qed

theorem build_graph_executes_witness:
  "\<exists>d' acts tr s rc. build_graph small_db small_start = Some (Some (d', small_graph))
    \<and> exec_run (update_work small_shell) True 2 small_world small_graph acts tr s \<and> x_pc s = Exited rc"
proof -
  from build_graph_executes [OF small_db_ok small_built(3) small_plain small_typed zero_less_numeral [of "num.Bit0 num.One"], where sh = small_shell and keep_going = True and w = small_world]
  obtain g0 r where g: "for_each build_graph_non_transient_cb small_rows (create_graph TUP_NODE_CMD) = Some g0"
    "build_graph small_db g0 = Some r"
    "\<forall>d' g acts tr s. r = Some (d', g) \<and> exec_run (update_work small_shell) True 2 small_world g acts tr s \<longrightarrow>
       (\<exists>acts' tr' s' rc. Signal \<notin> set acts' \<and> exec_run (update_work small_shell) True 2 small_world g (acts @ acts') tr' s' \<and> x_pc s' = Exited rc)"
    by (elim exE conjE) (rule that, assumption, assumption, blast)
  have st: "small_start = g0" using g(1) by (simp add: small_start_def)
  obtain d' where d: "r = Some (d', small_graph)"
    using g(2) st small_built(2) by (cases r) (auto simp: small_graph_def Option.is_none_def)
  then show ?thesis using g(2,3) st small_first by blast
qed

end
