(* ===== verification/Estring.thy ===== *)
theory Estring
  imports Prelude
begin

text \<open>
  Growing string buffers (\<^verbatim>\<open>src/src/tup/estring.c\<close>).  The memory is a list of bytes, \<open>None\<close> where
  it was not written; a write outside of it, and a length that leaves the range of a C int, have no result.
  Allocation does not fail in the model.
\<close>

section \<open>The buffer\<close>

record estring =
  es_buf :: "char option list"
  es_len :: nat
  es_maxlen :: nat

definition ESTRING_DEFAULT_SIZE :: nat where
  "ESTRING_DEFAULT_SIZE = 4096"

definition INT_MAX :: nat where
  "INT_MAX = 2147483647"

definition poke :: "char option list \<Rightarrow> nat \<Rightarrow> string \<Rightarrow> char option list option" where
  "poke buf i bs = (if i + length bs \<le> length buf then Some (take i buf @ map Some bs @ drop (i + length bs) buf) else None)"

definition NUL :: char where
  "NUL = CHR 0x00"

definition estring_init :: "estring option" where
  "estring_init = do {
     b \<leftarrow> poke (replicate ESTRING_DEFAULT_SIZE None) 0 [NUL];
     Some \<lparr>es_buf = b, es_len = 0, es_maxlen = ESTRING_DEFAULT_SIZE\<rparr>}"

text \<open>The loop that doubles \<open>maxlen\<close>; a buffer of size 0 would never grow.\<close>

partial_function (option) grow :: "nat \<Rightarrow> nat \<Rightarrow> nat option" where
  "grow need maxlen =
     (if need > maxlen then (if maxlen * 2 > INT_MAX then None else grow need (maxlen * 2)) else Some maxlen)"

definition estring_reserve :: "estring \<Rightarrow> nat \<Rightarrow> (char option list \<times> nat) option" where
  "estring_reserve e need =
     (if need > es_maxlen e
      then do { m \<leftarrow> grow need (es_maxlen e); Some (es_buf e @ replicate (m - length (es_buf e)) None, m)}
      else Some (es_buf e, es_maxlen e))"

definition estring_append :: "estring \<Rightarrow> string \<Rightarrow> estring option" where
  "estring_append e src =
     (if es_len e + length src + 1 > INT_MAX then None
      else do {
        (buf, m) \<leftarrow> estring_reserve e (es_len e + length src + 1);
        b1 \<leftarrow> poke buf (es_len e) src;
        b2 \<leftarrow> poke b1 (es_len e + length src) [NUL];
        Some \<lparr>es_buf = b2, es_len = es_len e + length src, es_maxlen = m\<rparr>})"

definition escape_text :: "char \<Rightarrow> string" where
  "escape_text escape = (if escape = CHR 0x27 then [CHR 0x27, CHR 0x22, CHR 0x27, CHR 0x22, CHR 0x27] else [CHR 0x5C, CHR 0x22])"

text \<open>\<open>memchr\<close> splits the source at the next character to escape.\<close>

function estring_append_escape :: "estring \<Rightarrow> string \<Rightarrow> char \<Rightarrow> estring option" where
  "estring_append_escape e p escape =
     (if p = [] then Some e
      else if escape \<notin> set p then estring_append e p
      else do {
        e1 \<leftarrow> estring_append e (takeWhile (\<lambda>c. c \<noteq> escape) p);
        e2 \<leftarrow> estring_append e1 (escape_text escape);
        estring_append_escape e2 (tl (dropWhile (\<lambda>c. c \<noteq> escape) p)) escape})"
  by pat_completeness auto
termination
proof (relation "measure (\<lambda>(e, p, escape). length p)", goal_cases)
  case (2 e p escape)
  have "length (tl (dropWhile (\<lambda>c. c \<noteq> escape) p)) \<le> length p - 1"
    using length_dropWhile_le [of "\<lambda>c. c \<noteq> escape" p] by (simp add: diff_le_mono)
  then show ?case using 2(1) by (cases p) auto
qed simp

declare estring_append_escape.simps [simp del]

section \<open>What a buffer holds\<close>

definition es_text :: "estring \<Rightarrow> string" where
  "es_text e = map the (take (es_len e) (es_buf e))"

definition es_ok :: "estring \<Rightarrow> bool" where
  "es_ok e \<longleftrightarrow> length (es_buf e) = es_maxlen e \<and> es_len e < es_maxlen e \<and> es_maxlen e \<le> INT_MAX
     \<and> (\<forall>i < es_len e. es_buf e ! i \<noteq> None) \<and> es_buf e ! es_len e = Some NUL"

lemma grow_enough:
  assumes "0 < maxlen" and "need * 2 \<le> INT_MAX + 1"
  shows "\<exists>m. grow need maxlen = Some m \<and> need \<le> m \<and> maxlen \<le> m \<and> (maxlen \<le> INT_MAX \<longrightarrow> m \<le> INT_MAX)"
  using assms
proof (induction "need - maxlen" arbitrary: maxlen rule: less_induct)
  case less
  show ?case
  proof (cases "need > maxlen")
    case True
    then have b: "\<not> INT_MAX < maxlen * 2" using less.prems(2) by simp
    have "need - maxlen * 2 < need - maxlen" using True less.prems(1) by simp
    from less.hyps [OF this _ less.prems(2)] less.prems(1) obtain m where
      m: "grow need (maxlen * 2) = Some m" "need \<le> m" "maxlen * 2 \<le> m" "maxlen * 2 \<le> INT_MAX \<longrightarrow> m \<le> INT_MAX" by auto
    then show ?thesis using True b by (subst grow.simps) auto
  next
    case False
    then show ?thesis by (subst grow.simps) auto
  qed
qed

lemma estring_init_ok: "\<exists>e. estring_init = Some e \<and> es_ok e \<and> es_text e = []"
  by (simp add: estring_init_def poke_def es_ok_def es_text_def ESTRING_DEFAULT_SIZE_def INT_MAX_def)

lemma estring_reserve_ok:
  assumes "es_ok e" and "need * 2 \<le> INT_MAX + 1"
  obtains buf m where "estring_reserve e need = Some (buf, m)" "length buf = m" "need \<le> m" "es_maxlen e \<le> m" "m \<le> INT_MAX"
    "take (es_len e) buf = take (es_len e) (es_buf e)"
proof -
  have l: "length (es_buf e) = es_maxlen e" "es_len e < es_maxlen e" "es_maxlen e \<le> INT_MAX" using assms(1) by (simp_all add: es_ok_def)
  from grow_enough [of "es_maxlen e" need] assms(2) l obtain m where
    m: "grow need (es_maxlen e) = Some m" "need \<le> m" "es_maxlen e \<le> m" "m \<le> INT_MAX" by auto
  show thesis
  proof (cases "need > es_maxlen e")
    case True
    then show ?thesis using m l by (intro that [of "es_buf e @ replicate (m - length (es_buf e)) None" m]) (simp_all add: estring_reserve_def)
  next
    case False
    then show ?thesis using l by (intro that [of "es_buf e" "es_maxlen e"]) (simp_all add: estring_reserve_def)
  qed
qed

lemma estring_append_ok:
  assumes "es_ok e" and "(es_len e + length src + 1) * 2 \<le> INT_MAX + 1"
  shows "\<exists>e'. estring_append e src = Some e' \<and> es_ok e' \<and> es_text e' = es_text e @ src \<and> es_len e' = es_len e + length src"
proof -
  let ?need = "es_len e + length src + 1"
  have l: "length (es_buf e) = es_maxlen e" "es_len e < es_maxlen e" "es_maxlen e \<le> INT_MAX" using assms(1) by (simp_all add: es_ok_def)
  obtain buf m where m: "estring_reserve e ?need = Some (buf, m)" "length buf = m" "?need \<le> m" "es_maxlen e \<le> m" "m \<le> INT_MAX"
    and pre: "take (es_len e) buf = take (es_len e) (es_buf e)" by (rule estring_reserve_ok [OF assms])
  note mb = m(2)
  define e' where "e' = \<lparr>es_buf = take (es_len e) buf @ map Some src @ Some NUL # drop ?need buf, es_len = es_len e + length src, es_maxlen = m\<rparr>"
  have "estring_append e src = Some e'"
    using m by (simp add: estring_append_def poke_def e'_def)
  moreover have "es_text e' = es_text e @ src"
    using l pre mb m(3) by (simp add: es_text_def e'_def comp_def)
  moreover have "es_ok e'"
  proof -
    have "es_buf e' ! i \<noteq> None" if "i < es_len e + length src" for i
    proof (cases "i < es_len e")
      case True
      then have "es_buf e' ! i = es_buf e ! i" using l pre mb m(3) unfolding e'_def by (simp add: nth_append)
      then show ?thesis using assms(1) True by (simp add: es_ok_def)
    next
      case False
      moreover have "i - es_len e < length src" using that False by simp
      ultimately have "es_buf e' ! i = Some (src ! (i - es_len e))" using that l mb m(3) by (simp add: e'_def nth_append)
      then show ?thesis by simp
    qed
    then show ?thesis using mb m l unfolding es_ok_def by (simp add: e'_def nth_append)
  qed
  ultimately show ?thesis by (simp add: e'_def)
qed

text \<open>The text that \<open>estring_append_escape\<close> adds.\<close>

fun escaped :: "char \<Rightarrow> string \<Rightarrow> string" where
  "escaped escape [] = []"
| "escaped escape (x # s) = (if x = escape then escape_text escape else [x]) @ escaped escape s"

lemma escaped_append: "escaped c (s @ t) = escaped c s @ escaped c t"
  by (induction s) simp_all

lemma escaped_plain: "c \<notin> set s \<Longrightarrow> escaped c s = s"
  by (induction s) auto

lemma escaped_length: "length s \<le> length (escaped c s) \<and> length (escaped c s) \<le> 5 * length s"
  by (induction s) (auto simp: escape_text_def)

lemma escape_split:
  assumes "c \<in> set p"
  shows "p = takeWhile (\<lambda>x. x \<noteq> c) p @ c # tl (dropWhile (\<lambda>x. x \<noteq> c) p)"
proof -
  have "dropWhile (\<lambda>x. x \<noteq> c) p \<noteq> []" using assms by (simp add: dropWhile_eq_Nil_conv)
  then obtain y ys where d: "dropWhile (\<lambda>x. x \<noteq> c) p = y # ys" by (cases "dropWhile (\<lambda>x. x \<noteq> c) p") auto
  then have "y = c" using hd_dropWhile [of "\<lambda>x. x \<noteq> c" p] by simp
  then show ?thesis using d takeWhile_dropWhile_id [of "\<lambda>x. x \<noteq> c" p] by simp
qed

text \<open>
  C39: appending with escapes writes only inside the buffer, and the buffer then holds the old text, the source with
  each escape character replaced, and a NUL, as long as the length leaves room for one more doubling of an int.
\<close>

theorem estring_append_escape_ok:
  assumes "es_ok e" and "(es_len e + length (escaped c p) + 1) * 2 \<le> INT_MAX + 1"
  shows "\<exists>e'. estring_append_escape e p c = Some e' \<and> es_ok e' \<and> es_text e' = es_text e @ escaped c p
    \<and> es_len e' = es_len e + length (escaped c p)"
  using assms
proof (induction "length p" arbitrary: e p rule: less_induct)
  case less
  show ?case
  proof (cases "c \<in> set p")
    case False
    then have "escaped c p = p" by (rule escaped_plain)
    then show ?thesis
      using estring_append_ok [OF less.prems(1), of p] less.prems False
      by (cases "p = []") (simp_all add: estring_append_escape.simps [of e p] estring_append_escape.simps [of e "[]"])
  next
    case True
    define a where "a = takeWhile (\<lambda>x. x \<noteq> c) p"
    define b where "b = tl (dropWhile (\<lambda>x. x \<noteq> c) p)"
    define r where "r = escape_text c"
    have p: "p = a @ c # b" using escape_split [OF True] by (simp add: a_def b_def)
    have na: "c \<notin> set a" using set_takeWhileD by (fastforce simp: a_def)
    have esc: "escaped c p = a @ r @ escaped c b"
      unfolding p using escaped_plain [OF na] by (simp add: escaped_append r_def)
    have bound: "(es_len e + (length a + (length r + length (escaped c b))) + 1) * 2 \<le> INT_MAX + 1" using less.prems(2) esc by simp
    from estring_append_ok [OF less.prems(1), of a] bound obtain e1 where
      1: "estring_append e a = Some e1" "es_ok e1" "es_text e1 = es_text e @ a" "es_len e1 = es_len e + length a" by auto
    from estring_append_ok [OF 1(2), of r] bound 1(4) obtain e2 where
      2: "estring_append e1 r = Some e2" "es_ok e2" "es_text e2 = es_text e1 @ r" "es_len e2 = es_len e1 + length r" by auto
    have "length b < length p" using p by (metis add_Suc_right le_add2 length_Cons length_append less_Suc_eq_le)
    from less.hyps [OF this 2(2)] bound 1(4) 2(4) obtain e3 where
      3: "estring_append_escape e2 b c = Some e3" "es_ok e3" "es_text e3 = es_text e2 @ escaped c b" "es_len e3 = es_len e2 + length (escaped c b)"
      by (auto simp: algebra_simps)
    have "estring_append_escape e p c = Some e3"
      using True 1(1) 2(1) 3(1) by (auto simp add: estring_append_escape.simps [of e p] a_def [symmetric] b_def [symmetric] r_def [symmetric])
    then show ?thesis using 1 2 3 esc by simp
  qed
qed

theorem estring_append_escape_ok_witness:
  "\<exists>e e'. estring_init = Some e \<and> estring_append_escape e ''a'' (CHR 0x27) = Some e' \<and> es_text e' = ''a''"
proof -
  obtain e where e: "estring_init = Some e" "es_ok e" "es_text e = []" using estring_init_ok by blast
  have "es_len e = 0" using e(1) by (auto simp: estring_init_def split: Option.bind_splits)
  then have "(es_len e + length (escaped (CHR 0x27) ''a'') + 1) * 2 \<le> INT_MAX + 1" by (simp add: INT_MAX_def)
  from estring_append_escape_ok [OF e(2) this] e(1,3) show ?thesis by auto
qed

end
