(* ===== verification/Tup_Printf.thy ===== *)
theory Tup_Printf
  imports Estring
begin

text \<open>
  Name lists and the expansion of %-flags (\<^verbatim>\<open>src/src/tup/parser.c\<close>): the lists of inputs and outputs
  of a rule with their running totals, \<^verbatim>\<open>set_nle_base\<close>, and \<^verbatim>\<open>tup_printf\<close>.  The
  string buffer of \<^verbatim>\<open>tup_printf\<close> is its text: what appending does to the memory is in \<open>Estring\<close>.
  A command ends with its NUL.
\<close>

section \<open>Name lists\<close>

definition MAX_GLOBS :: nat where
  "MAX_GLOBS = 10"

text \<open>The base is a pointer into the path; \<open>glob\<close> holds starts (relative to the base) and lengths.\<close>

record name_list_entry =
  nle_path :: string
  nle_base :: nat
  nle_extlesslen :: int
  nle_baselen :: nat
  nle_extlessbaselen :: int
  nle_glob :: "(nat \<times> nat) list"
  nle_orderid :: int

record name_list =
  nl_entries :: "name_list_entry list"
  num_entries :: int
  totlen :: int
  basetotlen :: int
  extlessbasetotlen :: int
  globtotlen :: "int list"
  nl_globcnt :: nat

definition init_name_list :: name_list where
  "init_name_list = \<lparr>nl_entries = [], num_entries = 0, totlen = 0, basetotlen = 0, extlessbasetotlen = 0,
     globtotlen = replicate MAX_GLOBS 0, nl_globcnt = 0\<rparr>"

text \<open>The loop of \<^verbatim>\<open>set_nle_base\<close> moves the base back to the character after the last separator.\<close>

fun back_to_sep :: "string \<Rightarrow> nat \<Rightarrow> nat \<Rightarrow> nat \<times> nat" where
  "back_to_sep path 0 baselen = (0, baselen)"
| "back_to_sep path (Suc b) baselen =
     (if path ! b = CHR ''/'' then (Suc b, baselen) else back_to_sep path b (baselen + 1))"

definition set_nle_base :: "name_list_entry \<Rightarrow> name_list_entry" where
  "set_nle_base nle =
     (case back_to_sep (nle_path nle) (length (nle_path nle)) 0 of (b, n) \<Rightarrow>
       nle\<lparr>nle_base := b, nle_baselen := n,
           nle_extlessbaselen := int n - (int (length (nle_path nle)) - nle_extlesslen nle), nle_glob := []\<rparr>)"

text \<open>
  The extension-less length of a path: \<^verbatim>\<open>nl_add_bin\<close> and \<^verbatim>\<open>nl_add_external_path\<close> look for
  the last dot of the path, \<^verbatim>\<open>build_name_list_cb\<close> for the last dot of the file name, and
  \<^verbatim>\<open>do_rule_outputs\<close>, for outputs, leaves 0 if there is no dot.
\<close>

fun back_to_dot :: "string \<Rightarrow> nat \<Rightarrow> nat" where
  "back_to_dot path 0 = 0"
| "back_to_dot path (Suc i) = (if path ! Suc i = CHR ''.'' then Suc i else back_to_dot path i)"

definition output_extlesslen :: "string \<Rightarrow> int" where
  "output_extlesslen path = (if path = [] then -1 else int (back_to_dot path (length path - 1)))"

definition bin_extlesslen :: "string \<Rightarrow> int" where
  "bin_extlesslen path = (if output_extlesslen path = 0 then int (length path) else output_extlesslen path)"

fun cb_back :: "string \<Rightarrow> nat \<Rightarrow> int \<Rightarrow> nat \<times> int" where
  "cb_back name 0 ext = (0, ext)"
| "cb_back name (Suc l) ext = (if Suc l < length name \<and> name ! Suc l = CHR ''.'' then (Suc l, ext) else cb_back name l (ext - 1))"

definition cb_extlesslen :: "string \<Rightarrow> string \<Rightarrow> int" where
  "cb_extlesslen path name = (case cb_back name (length name) (int (length path)) of (l, ext) \<Rightarrow> if l = 0 then int (length path) else ext)"

definition new_nle :: "string \<Rightarrow> int \<Rightarrow> int \<Rightarrow> name_list_entry" where
  "new_nle path extlesslen orderid = set_nle_base \<lparr>nle_path = path, nle_base = 0, nle_extlesslen = extlesslen, nle_baselen = 0,
     nle_extlessbaselen = 0, nle_glob = [], nle_orderid = orderid\<rparr>"

fun add_globs :: "int \<Rightarrow> (nat \<times> nat) list \<Rightarrow> int list \<Rightarrow> int list" where
  "add_globs sign (g # gs) (t # ts) = (t + sign * int (snd g)) # add_globs sign gs ts"
| "add_globs sign gs ts = ts"

definition add_name_list_entry :: "name_list \<Rightarrow> name_list_entry \<Rightarrow> name_list" where
  "add_name_list_entry nl nle =
     \<lparr>nl_entries = nl_entries nl @ [nle], num_entries = num_entries nl + 1,
      totlen = totlen nl + int (length (nle_path nle)), basetotlen = basetotlen nl + int (nle_baselen nle),
      extlessbasetotlen = extlessbasetotlen nl + nle_extlessbaselen nle,
      globtotlen = add_globs 1 (nle_glob nle) (globtotlen nl), nl_globcnt = length (nle_glob nle)\<rparr>"

definition delete_name_list_entry :: "name_list \<Rightarrow> name_list_entry \<Rightarrow> name_list" where
  "delete_name_list_entry nl nle =
     nl\<lparr>num_entries := num_entries nl - 1, totlen := totlen nl - int (length (nle_path nle)),
        basetotlen := basetotlen nl - int (nle_baselen nle),
        extlessbasetotlen := extlessbasetotlen nl - nle_extlessbaselen nle,
        globtotlen := add_globs (-1) (nle_glob nle) (globtotlen nl), nl_entries := remove1 nle (nl_entries nl)\<rparr>"

definition delete_name_list :: "name_list \<Rightarrow> name_list" where
  "delete_name_list nl = fold (\<lambda>nle nl. delete_name_list_entry nl nle) (nl_entries nl) nl"

definition move_name_list_entry :: "name_list \<Rightarrow> name_list \<Rightarrow> name_list_entry \<Rightarrow> name_list \<times> name_list" where
  "move_name_list_entry newnl oldnl nle = (add_name_list_entry newnl nle, delete_name_list_entry oldnl nle)"

section \<open>Flags\<close>

datatype printf_error = Unfinished_Flag | No_Inputs | Order_Only_Not_Allowed | No_Order_Only | No_Extension
  | Outputs_Not_Allowed | No_Outputs | Not_One_Output | Quote_Flag | Too_Many_For_Glob | No_Glob
  | Strtol_Overflow | Number_Range | Number_Unfinished | Number_Flag | Unknown_Flag char | Negative_Length

text \<open>\<open>Negative_Length\<close> is no error of the program: it copies a negative number of bytes, which is undefined.

  What a flag can refer to; \<open>pe_dir\<close> is the name of the directory that is parsed.\<close>

record printf_env =
  pe_nl :: name_list
  pe_onl :: "name_list option"
  pe_ooinput_nl :: "name_list option"
  pe_ext :: "string option"
  pe_dir :: string

definition nle_file :: "name_list_entry \<Rightarrow> string" where
  "nle_file nle = take (nle_baselen nle) (drop (nle_base nle) (nle_path nle))"

definition nle_file_extless :: "name_list_entry \<Rightarrow> string" where
  "nle_file_extless nle = take (nat (nle_extlessbaselen nle)) (drop (nle_base nle) (nle_path nle))"

fun spaced :: "string list \<Rightarrow> string" where
  "spaced [] = []"
| "spaced [s] = s"
| "spaced (s # ss) = s @ '' '' @ spaced ss"

definition entries_text :: "(name_list_entry \<Rightarrow> string) \<Rightarrow> name_list \<Rightarrow> string" where
  "entries_text f nl = spaced (map f (nl_entries nl))"

definition extless_text :: "name_list_entry list \<Rightarrow> printf_error + string" where
  "extless_text es = (if \<exists>nle \<in> set es. nle_extlessbaselen nle < 0 then Inl Negative_Length else Inr (spaced (map nle_file_extless es)))"

definition quoted :: "char \<Rightarrow> name_list_entry \<Rightarrow> string" where
  "quoted q nle = [q] @ escaped q (nle_path nle) @ [q]"

definition is_digit :: "char \<Rightarrow> bool" where
  "is_digit c \<longleftrightarrow> of_char c \<ge> (48 :: nat) \<and> of_char c \<le> (57 :: nat)"

definition digits_value :: "string \<Rightarrow> int" where
  "digits_value ds = foldl (\<lambda>n c. 10 * n + int (of_char c - 48)) 0 ds"

text \<open>The loop over the entries of a numbered flag stops at the first larger \<open>orderid\<close>.\<close>

definition numbered :: "int \<Rightarrow> name_list \<Rightarrow> name_list_entry list" where
  "numbered num nl = filter (\<lambda>nle. nle_orderid nle = num) (takeWhile (\<lambda>nle. nle_orderid nle \<le> num) (nl_entries nl))"

definition number_text :: "printf_env \<Rightarrow> string \<Rightarrow> int \<Rightarrow> char \<Rightarrow> printf_error + string" where
  "number_text env ds num c =
     (if c = CHR ''f'' then Inr (spaced (map nle_path (numbered num (pe_nl env))))
      else if c = CHR ''B'' then extless_text (numbered num (pe_nl env))
      else if c = CHR ''b'' then Inr (spaced (map nle_file (numbered num (pe_nl env))))
      else if c = CHR ''o'' then
        (case pe_onl env of None \<Rightarrow> Inr [] | Some onl \<Rightarrow> Inr (spaced (map nle_path (numbered num onl))))
      else if c = CHR ''i'' then
        (case pe_ooinput_nl env of None \<Rightarrow> Inl Order_Only_Not_Allowed
         | Some oo \<Rightarrow> Inr (spaced (map nle_path (numbered num oo))))
      else if c = CHR ''t'' then Inr (''%'' @ ds @ [c])
      else Inl Number_Flag)"

text \<open>\<open>num\<close> is an int that takes the value of a long.\<close>

definition expand_number :: "printf_env \<Rightarrow> string \<Rightarrow> printf_error + string \<times> string" where
  "expand_number env next =
     (let ds = takeWhile is_digit next; endp = dropWhile is_digit next; v = digits_value ds;
          num = sint (word_of_int v :: 32 word) in
      if v > 9223372036854775807 then Inl Strtol_Overflow
      else if (num \<le> 0 \<or> num \<ge> 99) \<and> (endp = [] \<or> hd endp \<noteq> CHR ''t'') then Inl Number_Range
      else (case endp of [] \<Rightarrow> Inl Number_Unfinished | c # q \<Rightarrow> map_sum id (\<lambda>t. (t, q)) (number_text env ds num c)))"

text \<open>\<open>%'f\<close>, \<open>%'o\<close> and the same with a double quote.\<close>

definition quote_flag :: "printf_env \<Rightarrow> char \<Rightarrow> char \<Rightarrow> printf_error + string" where
  "quote_flag env c k =
     (if k = CHR ''f'' then (if num_entries (pe_nl env) = 0 then Inl No_Inputs else Inr (entries_text (quoted c) (pe_nl env)))
      else if k = CHR ''o'' then
        (case pe_onl env of None \<Rightarrow> Inl Outputs_Not_Allowed
         | Some onl \<Rightarrow> if num_entries onl = 0 then Inl No_Outputs else Inr (entries_text (quoted c) onl))
      else Inl Quote_Flag)"

text \<open>The flags of one character.\<close>

definition simple_flag :: "printf_env \<Rightarrow> bool \<Rightarrow> char \<Rightarrow> printf_error + string" where
  "simple_flag env expand_percperc c =
     (if c = CHR ''f'' then if num_entries (pe_nl env) = 0 then Inl No_Inputs else Inr (entries_text nle_path (pe_nl env))
      else if c = CHR ''b'' then if num_entries (pe_nl env) = 0 then Inl No_Inputs else Inr (entries_text nle_file (pe_nl env))
      else if c = CHR ''B'' then if num_entries (pe_nl env) = 0 then Inl No_Inputs else extless_text (nl_entries (pe_nl env))
      else if c = CHR ''i'' then
        (case pe_ooinput_nl env of None \<Rightarrow> Inl Order_Only_Not_Allowed
         | Some oo \<Rightarrow> if num_entries oo = 0 then Inl No_Order_Only else Inr (entries_text nle_path oo))
      else if c = CHR ''e'' then (case pe_ext env of None \<Rightarrow> Inl No_Extension | Some ext \<Rightarrow> Inr ext)
      else if c = CHR ''o'' then
        (case pe_onl env of None \<Rightarrow> Inl Outputs_Not_Allowed
         | Some onl \<Rightarrow> if num_entries onl = 0 then Inl No_Outputs else Inr (entries_text nle_path onl))
      else if c = CHR ''O'' then
        (case pe_onl env of None \<Rightarrow> Inl Outputs_Not_Allowed
         | Some onl \<Rightarrow> (case nl_entries onl of
             [] \<Rightarrow> Inl Not_One_Output
           | nle # _ \<Rightarrow> if num_entries onl \<noteq> 1 then Inl Not_One_Output
               else if nle_extlesslen nle < 0 then Inl Negative_Length
               else Inr (take (nat (nle_extlesslen nle)) (nle_path nle))))
      else if c = CHR ''d'' then Inr (pe_dir env)
      else if c = CHR ''g'' then
        (case nl_entries (pe_nl env) of
           [] \<Rightarrow> Inl No_Inputs
         | nle # _ \<Rightarrow> if num_entries (pe_nl env) = 0 then Inl No_Inputs
             else if num_entries (pe_nl env) > 1 then Inl Too_Many_For_Glob
             else if nl_globcnt (pe_nl env) = 0 then Inl No_Glob
             else (case nle_glob nle of [] \<Rightarrow> Inl No_Glob
               | (s, l) # _ \<Rightarrow> Inr (take l (drop (nle_base nle + s) (nle_path nle)))))
      else if c = CHR ''<'' then Inr ''%<''
      else if c = CHR ''%'' then Inr (if expand_percperc then ''%'' else ''%%'')
      else Inl (Unknown_Flag c))"

text \<open>The text of the flag \<open>c\<close>, with the rest of the command; \<open>p\<close> is what follows \<open>c\<close>.\<close>

definition expand_flag :: "printf_env \<Rightarrow> bool \<Rightarrow> char \<Rightarrow> string \<Rightarrow> printf_error + string \<times> string" where
  "expand_flag env expand_percperc c p =
     (if c = CHR 0x27 \<or> c = CHR 0x22
      then (case p of [] \<Rightarrow> Inl Quote_Flag | k # q \<Rightarrow> map_sum id (\<lambda>t. (t, q)) (quote_flag env c k))
      else if is_digit c then expand_number env (c # p)
      else map_sum id (\<lambda>t. (t, p)) (simple_flag env expand_percperc c))"

lemma map_sum_Inr: "map_sum id f r = Inr y \<longleftrightarrow> (\<exists>x. r = Inr x \<and> y = f x)"
  by (cases r) auto

lemma expand_flag_shorter: "expand_flag env x c p = Inr (u, q) \<Longrightarrow> length q \<le> length p"
  using length_dropWhile_le [of is_digit "c # p"]
  by (auto simp: expand_flag_def expand_number_def map_sum_Inr Let_def split: if_splits option.splits list.splits)

section \<open>The loop\<close>

function printf_loop :: "printf_env \<Rightarrow> bool \<Rightarrow> string \<Rightarrow> printf_error + string" where
  "printf_loop env expand_percperc p =
     (case dropWhile (\<lambda>c. c \<noteq> CHR ''%'') p of
        [] \<Rightarrow> Inr p
      | [_] \<Rightarrow> Inl Unfinished_Flag
      | _ # c # q \<Rightarrow> (case expand_flag env expand_percperc c q of
            Inl e \<Rightarrow> Inl e
          | Inr (u, q') \<Rightarrow> (case printf_loop env expand_percperc q' of
              Inl e \<Rightarrow> Inl e
            | Inr r \<Rightarrow> Inr (takeWhile (\<lambda>c. c \<noteq> CHR ''%'') p @ u @ r))))"
  by pat_completeness auto
termination
proof (relation "measure (\<lambda>(env, x, p). length p)", goal_cases)
  case (2 env x p a list c q pr u q')
  then have "length (dropWhile (\<lambda>c. c \<noteq> CHR ''%'') p) = Suc (Suc (length q))" by simp
  moreover have "length (dropWhile (\<lambda>c. c \<noteq> CHR ''%'') p) \<le> length p" by (rule length_dropWhile_le)
  moreover have "length q' \<le> length q" using expand_flag_shorter 2 by metis
  ultimately show ?case by simp
qed simp

declare printf_loop.simps [simp del]

definition tup_printf :: "printf_env \<Rightarrow> string \<Rightarrow> string option \<Rightarrow> bool \<Rightarrow> printf_error + string" where
  "tup_printf env cmd extra_command expand_percperc =
     (case printf_loop env expand_percperc cmd of
        Inl e \<Rightarrow> Inl e
      | Inr s \<Rightarrow> (case extra_command of
          None \<Rightarrow> Inr s
        | Some extra \<Rightarrow> (case printf_loop env True extra of Inl e \<Rightarrow> Inl e | Inr t \<Rightarrow> Inr (s @ '' '' @ t))))"

section \<open>Totals of a name list\<close>

definition name_list_ok :: "name_list \<Rightarrow> bool" where
  "name_list_ok nl \<longleftrightarrow> num_entries nl = int (length (nl_entries nl))
     \<and> totlen nl = (\<Sum>e \<leftarrow> nl_entries nl. int (length (nle_path e)))
     \<and> basetotlen nl = (\<Sum>e \<leftarrow> nl_entries nl. int (nle_baselen e))
     \<and> extlessbasetotlen nl = (\<Sum>e \<leftarrow> nl_entries nl. nle_extlessbaselen e)"

lemma name_list_init [simp]: "name_list_ok init_name_list"
  by (simp add: name_list_ok_def init_name_list_def)

lemma name_list_add: "name_list_ok nl \<Longrightarrow> name_list_ok (add_name_list_entry nl nle)"
  by (simp add: name_list_ok_def add_name_list_entry_def)

lemma sum_remove1: "x \<in> set xs \<Longrightarrow> (\<Sum>e \<leftarrow> remove1 x xs. f e :: int) = (\<Sum>e \<leftarrow> xs. f e) - f x"
  by (induction xs) auto

lemma name_list_delete: "name_list_ok nl \<Longrightarrow> nle \<in> set (nl_entries nl) \<Longrightarrow> name_list_ok (delete_name_list_entry nl nle)"
  by (simp add: name_list_ok_def delete_name_list_entry_def sum_remove1 length_remove1)
     (cases "nl_entries nl"; simp)

lemma name_list_move:
  "name_list_ok newnl \<Longrightarrow> name_list_ok oldnl \<Longrightarrow> nle \<in> set (nl_entries oldnl) \<Longrightarrow>
   name_list_ok (fst (move_name_list_entry newnl oldnl nle)) \<and> name_list_ok (snd (move_name_list_entry newnl oldnl nle))"
  by (simp add: move_name_list_entry_def name_list_add name_list_delete)

section \<open>The base of a path\<close>

lemma back_to_sep_result:
  "b \<le> length path \<Longrightarrow> back_to_sep path b n = (b', n') \<Longrightarrow>
   b' \<le> b \<and> n' = n + (b - b') \<and> CHR ''/'' \<notin> set (drop b' (take b path)) \<and> (b' = 0 \<or> path ! (b' - 1) = CHR ''/'')"
proof (induction b arbitrary: n)
  case (Suc b)
  show ?case
  proof (cases "path ! b = CHR ''/''")
    case True
    then show ?thesis using Suc.prems by auto
  next
    case False
    then have "back_to_sep path b (n + 1) = (b', n')" using Suc.prems by simp
    note ih = Suc.IH [OF _ this]
    have "b < length path" using Suc.prems(1) by simp
    then have "take (Suc b) path = take b path @ [path ! b]" by (rule take_Suc_conv_app_nth)
    then show ?thesis using ih False \<open>b < length path\<close> by auto
  qed
qed simp

lemma new_nle_file:
  "nle_path (new_nle path e i) = path \<and> CHR ''/'' \<notin> set (nle_file (new_nle path e i))
   \<and> (\<exists>d. path = d @ nle_file (new_nle path e i) \<and> (d = [] \<or> last d = CHR ''/''))
   \<and> nle_baselen (new_nle path e i) = length (nle_file (new_nle path e i))
   \<and> nle_extlessbaselen (new_nle path e i) = int (length (nle_file (new_nle path e i))) - (int (length path) - e)"
proof -
  obtain b n where b: "back_to_sep path (length path) 0 = (b, n)" by (metis surj_pair)
  note r = back_to_sep_result [OF order_refl b]
  have p: "path = take b path @ drop b path" by simp
  have "take b path = [] \<or> last (take b path) = CHR ''/''"
  proof (cases "b = 0")
    case False
    moreover have "length (take b path) = b" using r by simp
    ultimately have "last (take b path) = path ! (b - 1)" by (subst last_conv_nth) auto
    then show ?thesis using r False by simp
  qed simp
  then have "\<exists>d. path = d @ drop b path \<and> (d = [] \<or> last d = CHR ''/'')" using p by metis
  then show ?thesis using r b by (simp add: new_nle_def set_nle_base_def nle_file_def)
qed

lemma back_to_dot_result:
  "back_to_dot path i = j \<Longrightarrow> j \<le> i \<and> (\<forall>k. j < k \<and> k \<le> i \<longrightarrow> path ! k \<noteq> CHR ''.'') \<and> (j = 0 \<or> path ! j = CHR ''.'')"
proof (induction i)
  case (Suc i)
  then show ?case by (auto split: if_splits simp: le_Suc_eq)
qed simp

section \<open>Flags stand for themselves\<close>

lemma expand_flag_append:
  assumes "expand_flag env x c p = Inr (u, q)"
  shows "expand_flag env x c (p @ r) = Inr (u, q @ r)"
proof -
  have num: "expand_number env (s @ r) = Inr (u, q @ r)" if n: "expand_number env s = Inr (u, q)" for s
  proof -
    obtain d ds where d: "dropWhile is_digit s = d # ds"
      using n by (cases "dropWhile is_digit s") (auto simp: expand_number_def Let_def split: if_splits)
    then have "\<exists>y. y \<in> set s \<and> \<not> is_digit y" by (metis dropWhile_eq_Nil_conv list.distinct(1))
    then obtain y where "y \<in> set s" "\<not> is_digit y" by blast
    then have t: "takeWhile is_digit (s @ r) = takeWhile is_digit s" "dropWhile is_digit (s @ r) = dropWhile is_digit s @ r"
      by (simp_all add: takeWhile_append1 dropWhile_append1)
    show ?thesis using n d unfolding expand_number_def t Let_def by (auto simp: map_sum_Inr split: if_splits)
  qed
  show ?thesis using assms num [of "c # p"]
    by (auto simp: expand_flag_def map_sum_Inr split: if_splits option.splits list.splits)
qed

lemma loop_plain: "CHR ''%'' \<notin> set p \<Longrightarrow> printf_loop env x p = Inr p"
proof -
  assume "CHR ''%'' \<notin> set p"
  then have "dropWhile (\<lambda>c. c \<noteq> CHR ''%'') p = []" by (auto simp only: dropWhile_eq_Nil_conv)
  then show ?thesis by (simp add: printf_loop.simps del: dropWhile_eq_Nil_conv)
qed

lemma loop_flag:
  assumes "CHR ''%'' \<notin> set a"
  shows "printf_loop env x (a @ CHR ''%'' # c # q) = (case expand_flag env x c q of
     Inl e \<Rightarrow> Inl e | Inr (u, q') \<Rightarrow> map_sum id (\<lambda>r. a @ u @ r) (printf_loop env x q'))"
proof -
  have "\<forall>y \<in> set a. y \<noteq> CHR ''%''" using assms by auto
  then have "takeWhile (\<lambda>c. c \<noteq> CHR ''%'') (a @ CHR ''%'' # c # q) = a"
    "dropWhile (\<lambda>c. c \<noteq> CHR ''%'') (a @ CHR ''%'' # c # q) = CHR ''%'' # c # q"
    using takeWhile_append_stop [of a _ "CHR ''%''" "c # q"] dropWhile_append_stop [of a _ "CHR ''%''" "c # q"] by simp_all
  then show ?thesis by (subst printf_loop.simps) (simp split: sum.split)
qed

lemma loop_cases [case_names plain flag bad]:
  obtains "CHR ''%'' \<notin> set p" | a c q where "CHR ''%'' \<notin> set a" "p = a @ CHR ''%'' # c # q"
  | a where "CHR ''%'' \<notin> set a" "p = a @ [CHR ''%'']"
proof (cases "CHR ''%'' \<in> set p")
  case True
  then obtain a b where "p = a @ CHR ''%'' # b" "CHR ''%'' \<notin> set a" by (meson split_list_first)
  then show thesis using that by (cases b) auto
qed

lemma loop_bad: "CHR ''%'' \<notin> set a \<Longrightarrow> printf_loop env x (a @ [CHR ''%'']) = Inl Unfinished_Flag"
proof -
  assume "CHR ''%'' \<notin> set a"
  then have "\<forall>y \<in> set a. y \<noteq> CHR ''%''" by auto
  then have "dropWhile (\<lambda>c. c \<noteq> CHR ''%'') (a @ [CHR ''%'']) = [CHR ''%'']"
    using dropWhile_append_stop [of a _ "CHR ''%''" "[]"] by simp
  then show ?thesis by (simp add: printf_loop.simps)
qed

lemma loop_append: "printf_loop env x a = Inr u \<Longrightarrow> printf_loop env x (a @ b) = map_sum id (\<lambda>r. u @ r) (printf_loop env x b)"
proof (induction "length a" arbitrary: a u rule: less_induct)
  case less
  show ?case
  proof (cases a rule: loop_cases)
    case plain
    then have u: "u = a" using less.prems by (simp add: loop_plain)
    show ?thesis
    proof (cases b rule: loop_cases)
      case plain
      then show ?thesis using u \<open>CHR ''%'' \<notin> set a\<close> by (simp add: loop_plain)
    next
      case (flag b1 c q)
      then show ?thesis using u plain loop_flag [of "a @ b1" env x c q] loop_flag [of b1 env x c q]
        by (auto split: sum.split simp: sum.map_comp comp_def id_def)
    next
      case (bad b1)
      then show ?thesis using u plain loop_bad [of "a @ b1" env x] loop_bad [of b1 env x] by simp
    qed
  next
    case (flag a1 c q)
    then obtain t q' r where e: "expand_flag env x c q = Inr (t, q')" "printf_loop env x q' = Inr r" "u = a1 @ t @ r"
      using less.prems by (auto simp: loop_flag map_sum_Inr split: sum.splits)
    have "length q' < length a" using expand_flag_shorter [OF e(1)] flag by simp
    from less.hyps [OF this e(2)] have "printf_loop env x (q' @ b) = map_sum id (\<lambda>s. r @ s) (printf_loop env x b)" .
    then show ?thesis using flag e loop_flag [OF flag(1), of env x c "q @ b"] expand_flag_append [OF e(1), of b]
      by (cases "printf_loop env x b") simp_all
  next
    case (bad a1)
    then show ?thesis using less.prems by (simp add: loop_bad)
  qed
qed

section \<open>Two passes\<close>

text \<open>Names without a percent sign.\<close>

definition no_percent :: "printf_env \<Rightarrow> bool" where
  "no_percent env \<longleftrightarrow> CHR ''%'' \<notin> set (pe_dir env) \<and> (\<forall>e. pe_ext env = Some e \<longrightarrow> CHR ''%'' \<notin> set e)
     \<and> (\<forall>nl \<in> {pe_nl env} \<union> set_option (pe_onl env) \<union> set_option (pe_ooinput_nl env).
          \<forall>nle \<in> set (nl_entries nl). CHR ''%'' \<notin> set (nle_path nle))"

lemma spaced_set: "c \<in> set (spaced ss) \<Longrightarrow> c = CHR '' '' \<or> (\<exists>s \<in> set ss. c \<in> set s)"
  by (induction ss rule: spaced.induct) auto

lemma spaced_no_percent: "\<forall>s \<in> set ss. CHR ''%'' \<notin> set s \<Longrightarrow> CHR ''%'' \<notin> set (spaced ss)"
  using spaced_set by fastforce

lemma escaped_set: "c \<in> set (escaped q s) \<Longrightarrow> c \<in> set s \<or> c = CHR 0x27 \<or> c = CHR 0x22 \<or> c = CHR 0x5C"
  by (induction s) (auto simp: escape_text_def split: if_splits)

lemma name_no_percent:
  assumes "CHR ''%'' \<notin> set (nle_path nle)"
  shows "CHR ''%'' \<notin> set (nle_file nle)" "CHR ''%'' \<notin> set (nle_file_extless nle)"
    "q \<noteq> CHR ''%'' \<Longrightarrow> CHR ''%'' \<notin> set (quoted q nle)" "CHR ''%'' \<notin> set (take l (drop m (nle_path nle)))" "CHR ''%'' \<notin> set (take l (nle_path nle))"
proof -
  have sub: "set (take l (drop m s)) \<subseteq> set s" for l m and s :: string by (meson set_drop_subset set_take_subset subset_trans)
  show "CHR ''%'' \<notin> set (nle_file nle)" "CHR ''%'' \<notin> set (nle_file_extless nle)" "CHR ''%'' \<notin> set (take l (drop m (nle_path nle)))"
    using assms sub unfolding nle_file_def nle_file_extless_def by blast+
  show "CHR ''%'' \<notin> set (take l (nle_path nle))" using assms set_take_subset by fast
  show "q \<noteq> CHR ''%'' \<Longrightarrow> CHR ''%'' \<notin> set (quoted q nle)"
    using assms escaped_set [of "CHR ''%''" q "nle_path nle"] by (auto simp: quoted_def)
qed

text \<open>What a flag leaves in the first pass, the second pass turns into what one pass gives.\<close>

definition settled :: "printf_env \<Rightarrow> printf_error + string \<Rightarrow> printf_error + string \<Rightarrow> bool" where
  "settled env r1 r2 \<longleftrightarrow> (case r1 of Inl e \<Rightarrow> r2 = Inl e | Inr u \<Rightarrow> printf_loop env True u = r2)"

lemma settled_plain: "(\<And>u. r = Inr u \<Longrightarrow> CHR ''%'' \<notin> set u) \<Longrightarrow> settled env r r"
  by (simp add: settled_def loop_plain split: sum.split)

lemma entries_no_percent:
  "\<forall>nle \<in> set (nl_entries nl). CHR ''%'' \<notin> set (f nle) \<Longrightarrow> CHR ''%'' \<notin> set (entries_text f nl)"
  "\<forall>nle \<in> set es. CHR ''%'' \<notin> set (nle_file_extless nle) \<Longrightarrow> extless_text es = Inr u \<Longrightarrow> CHR ''%'' \<notin> set u"
  by (auto simp: entries_text_def extless_text_def dest!: spaced_set split: if_splits)

lemma loop_percent: "printf_loop env True ''%%'' = Inr ''%''" "printf_loop env x ''%<'' = Inr ''%<''"
  using loop_flag [of "[]" env True "CHR ''%''" "[]"] loop_flag [of "[]" env x "CHR ''<''" "[]"]
  by (simp_all add: expand_flag_def simple_flag_def is_digit_def loop_plain)

lemma no_percent_texts:
  assumes "no_percent env" and "nl = pe_nl env \<or> pe_onl env = Some nl \<or> pe_ooinput_nl env = Some nl"
  shows "nle \<in> set (nl_entries nl) \<Longrightarrow> CHR ''%'' \<notin> set (nle_path nle)"
    and "CHR ''%'' \<notin> set (entries_text nle_path nl)" "CHR ''%'' \<notin> set (entries_text nle_file nl)"
    "q \<noteq> CHR ''%'' \<Longrightarrow> CHR ''%'' \<notin> set (entries_text (quoted q) nl)"
    "set es \<subseteq> set (nl_entries nl) \<Longrightarrow> extless_text es = Inr u \<Longrightarrow> CHR ''%'' \<notin> set u"
    "set es \<subseteq> set (nl_entries nl) \<Longrightarrow> CHR ''%'' \<notin> set (spaced (map nle_path es)) \<and> CHR ''%'' \<notin> set (spaced (map nle_file es))"
proof -
  show n: "nle \<in> set (nl_entries nl) \<Longrightarrow> CHR ''%'' \<notin> set (nle_path nle)" for nle
    using assms unfolding no_percent_def by auto
  show "CHR ''%'' \<notin> set (entries_text nle_path nl)" "CHR ''%'' \<notin> set (entries_text nle_file nl)"
    "q \<noteq> CHR ''%'' \<Longrightarrow> CHR ''%'' \<notin> set (entries_text (quoted q) nl)"
    using n name_no_percent by (auto intro!: entries_no_percent(1))
  show "set es \<subseteq> set (nl_entries nl) \<Longrightarrow> extless_text es = Inr u \<Longrightarrow> CHR ''%'' \<notin> set u"
    using n name_no_percent(2) entries_no_percent(2) [of es u] by blast
  show "set es \<subseteq> set (nl_entries nl) \<Longrightarrow> CHR ''%'' \<notin> set (spaced (map nle_path es)) \<and> CHR ''%'' \<notin> set (spaced (map nle_file es))"
    using n name_no_percent(1) by (intro conjI impI spaced_no_percent ballI; clarsimp; blast)
qed

lemma simple_flag_settled:
  assumes "no_percent env"
  shows "settled env (simple_flag env False c) (simple_flag env True c)"
proof (cases "c = CHR ''%'' \<or> c = CHR ''<''")
  case True
  then show ?thesis by (auto simp: settled_def simple_flag_def loop_percent)
next
  case False
  then have eq: "simple_flag env True c = simple_flag env False c" by (simp add: simple_flag_def)
  note t = no_percent_texts [OF assms]
  show ?thesis unfolding eq
  proof (rule settled_plain)
    fix u assume u: "simple_flag env False c = Inr u"
    have ed: "CHR ''%'' \<notin> set (pe_dir env)" "pe_ext env = Some e \<Longrightarrow> CHR ''%'' \<notin> set e" for e using assms unfolding no_percent_def by blast+
    have sub: "CHR ''%'' \<notin> set (take l (drop m (nle_path nle)))" "CHR ''%'' \<notin> set (take l (nle_path nle))"
      if "nle \<in> set (nl_entries (pe_nl env)) \<or> (\<exists>onl. pe_onl env = Some onl \<and> nle \<in> set (nl_entries onl))" for nle l m
    proof -
      from that have n: "CHR ''%'' \<notin> set (nle_path nle)"
      proof (elim disjE exE conjE)
        show "nle \<in> set (nl_entries (pe_nl env)) \<Longrightarrow> CHR ''%'' \<notin> set (nle_path nle)" by (rule t(1) [OF disjI1 [OF refl]])
        show "pe_onl env = Some onl \<Longrightarrow> nle \<in> set (nl_entries onl) \<Longrightarrow> CHR ''%'' \<notin> set (nle_path nle)" for onl
          by (rule t(1) [OF disjI2 [OF disjI1]])
      qed
      show "CHR ''%'' \<notin> set (take l (drop m (nle_path nle)))" "CHR ''%'' \<notin> set (take l (nle_path nle))"
        using name_no_percent(4,5) [OF n] .
    qed
    consider "c = CHR ''f''" | "c = CHR ''b''" | "c = CHR ''B''" | "c = CHR ''i''" | "c = CHR ''e''" | "c = CHR ''o''"
      | "c = CHR ''O''" | "c = CHR ''d''" | "c = CHR ''g''" | "c \<notin> set ''fbBieoOdg''" by fastforce
    then show "CHR ''%'' \<notin> set u"
    proof cases
      case 1
      then show ?thesis using u t(2) [of "pe_nl env"] by (simp add: simple_flag_def split: if_splits)
    next
      case 2
      then show ?thesis using u t(3) [of "pe_nl env"] by (simp add: simple_flag_def split: if_splits)
    next
      case 3
      then show ?thesis using u t(5) [of "pe_nl env" "nl_entries (pe_nl env)" u] by (simp add: simple_flag_def split: if_splits)
    next
      case 4
      then obtain oo where "pe_ooinput_nl env = Some oo" "u = entries_text nle_path oo"
        using u by (auto simp: simple_flag_def split: if_splits option.splits)
      then show ?thesis using t(2) [of oo] by simp
    next
      case 5
      then show ?thesis using u ed(2) by (simp add: simple_flag_def split: option.splits)
    next
      case 6
      then obtain onl where "pe_onl env = Some onl" "u = entries_text nle_path onl"
        using u by (auto simp: simple_flag_def split: if_splits option.splits)
      then show ?thesis using t(2) [of onl] by simp
    next
      case 7
      then obtain onl nle rest l where "pe_onl env = Some onl" "nl_entries onl = nle # rest" "u = take l (nle_path nle)"
        using u by (cases "pe_onl env"; cases "nl_entries (the (pe_onl env))") (auto simp: simple_flag_def split: if_splits)
      then show ?thesis using sub(2) [of nle l] by auto
    next
      case 8
      then show ?thesis using u ed(1) by (simp add: simple_flag_def)
    next
      case 9
      then obtain nle rest m l where "nl_entries (pe_nl env) = nle # rest" "u = take l (drop m (nle_path nle))"
        using u by (cases "nl_entries (pe_nl env)"; cases "nle_glob (hd (nl_entries (pe_nl env)))")
          (auto simp: simple_flag_def split: if_splits prod.splits)
      then show ?thesis using sub(1) [of nle l m] by simp
    next
      case 10
      then show ?thesis using u False by (simp add: simple_flag_def)
    qed
  qed
qed

lemma number_text_settled:
  assumes "no_percent env" and "ds \<noteq> []" and "list_all is_digit ds" and "number_text env ds num c = Inr u"
    and "c = CHR ''t'' \<longrightarrow> digits_value ds \<le> 9223372036854775807"
  shows "printf_loop env True u = Inr u"
proof (cases "c = CHR ''t''")
  case True
  then have u: "u = ''%'' @ ds @ ''t''" using assms(4) by (simp add: number_text_def)
  obtain k ks where k: "ds = k # ks" "is_digit k" using assms(2,3) by (cases ds) auto
  have nq: "k \<noteq> CHR 0x27 \<and> k \<noteq> CHR 0x22" using k(2) by (auto simp: is_digit_def)
  have "takeWhile is_digit (ds @ ''t'') = ds" "dropWhile is_digit (ds @ ''t'') = ''t''"
    using assms(3) by (simp_all add: list_all_iff is_digit_def)
  then have "expand_number env (ds @ ''t'') = Inr (u, [])" using assms(5) True u
    by (simp add: expand_number_def Let_def number_text_def)
  then have "expand_flag env True k (ks @ ''t'') = Inr (u, [])" using k nq by (simp add: expand_flag_def)
  then show ?thesis using loop_flag [of "[]" env True k "ks @ ''t''"] u k by (simp add: loop_plain)
next
  case False
  have num: "set (numbered num nl) \<subseteq> set (nl_entries nl)" for nl using set_takeWhileD by (fastforce simp: numbered_def)
  note t = no_percent_texts(5,6) [OF assms(1)]
  have "CHR ''%'' \<notin> set u"
    using assms(4) False t(2) [OF _ num] t(1) [of "pe_nl env" "numbered num (pe_nl env)" u] num
    unfolding number_text_def by (simp split: if_splits option.splits) blast+
  then show ?thesis by (rule loop_plain)
qed

lemma quote_flag_settled:
  assumes "no_percent env" and "quote_flag env c k = Inr u" and "c = CHR 0x27 \<or> c = CHR 0x22"
  shows "printf_loop env True u = Inr u"
proof (rule loop_plain)
  have c: "c \<noteq> CHR ''%''" using assms(3) by auto
  note t = no_percent_texts(4) [OF assms(1) _ c]
  show "CHR ''%'' \<notin> set u"
    using assms(2) t [of "pe_nl env"] t by (auto simp: quote_flag_def split: if_splits option.splits)
qed

lemma expand_number_Inr:
  assumes "expand_number env s = Inr (u, q)"
  shows "\<exists>num k. number_text env (takeWhile is_digit s) num k = Inr u \<and> digits_value (takeWhile is_digit s) \<le> 9223372036854775807"
  using assms unfolding expand_number_def Let_def
  by (cases "dropWhile is_digit s") (auto simp: map_sum_Inr simp del: dropWhile_eq_Nil_conv split: if_splits)

lemma expand_flag_settled:
  assumes "no_percent env"
  shows "(\<exists>e. expand_flag env False c p = Inl e \<and> expand_flag env True c p = Inl e)
    \<or> (\<exists>u u2 q. expand_flag env False c p = Inr (u, q) \<and> expand_flag env True c p = Inr (u2, q) \<and> printf_loop env True u = Inr u2)"
proof (cases "c = CHR 0x27 \<or> c = CHR 0x22")
  case True
  show ?thesis
  proof (cases p)
    case (Cons k q)
    show ?thesis
    proof (cases "quote_flag env c k")
      case (Inr u)
      then show ?thesis using True Cons quote_flag_settled [OF assms Inr True] by (simp add: expand_flag_def)
    qed (use True Cons in \<open>simp add: expand_flag_def\<close>)
  qed (use True in \<open>simp add: expand_flag_def\<close>)
next
  case q: False
  show ?thesis
  proof (cases "is_digit c")
    case True
    have e: "expand_flag env x c p = expand_number env (c # p)" for x using q True by (simp add: expand_flag_def)
    show ?thesis
    proof (cases "expand_number env (c # p)")
      case (Inr r)
      obtain u rest where r: "r = (u, rest)" by (cases r)
      let ?ds = "takeWhile is_digit (c # p)"
      obtain k num where k: "number_text env ?ds num k = Inr u" "digits_value ?ds \<le> 9223372036854775807"
        using expand_number_Inr [of env "c # p" u rest] Inr r by blast
      have "list_all is_digit ?ds" using set_takeWhileD by (fastforce simp: list_all_iff)
      moreover have "?ds \<noteq> []" using True by simp
      ultimately have "printf_loop env True u = Inr u" using number_text_settled [OF assms _ _ k(1)] k(2) by simp
      then show ?thesis using e Inr r by simp
    qed (simp add: e)
  next
    case False
    have e: "expand_flag env x c p = map_sum id (\<lambda>t. (t, p)) (simple_flag env x c)" for x using q False by (simp add: expand_flag_def)
    have s: "settled env (simple_flag env False c) (simple_flag env True c)" by (rule simple_flag_settled [OF assms])
    show ?thesis
    proof (cases "simple_flag env False c")
      case (Inl err)
      then show ?thesis using e s by (simp add: settled_def)
    next
      case (Inr u)
      then have l: "printf_loop env True u = simple_flag env True c" using s by (simp add: settled_def)
      have "\<exists>u2. simple_flag env True c = Inr u2"
      proof (cases "c = CHR ''%''")
        case True
        then show ?thesis by (simp add: simple_flag_def)
      next
        case False
        then have "simple_flag env True c = simple_flag env False c" by (simp add: simple_flag_def)
        then show ?thesis using Inr by simp
      qed
      then show ?thesis using e Inr l by auto
    qed
  qed
qed

text \<open>
  C34: the outputs of a rule are expanded twice, first keeping \<open>%%\<close> and again after the variables. When no
  name, extension or directory holds a percent sign, this is the same as expanding once: the same text or the same error.
\<close>

theorem two_passes:
  assumes "no_percent env"
  shows "(case tup_printf env cmd None False of Inl e \<Rightarrow> Inl e | Inr s \<Rightarrow> tup_printf env s None True) = tup_printf env cmd None True"
proof -
  have "(case printf_loop env False cmd of Inl e \<Rightarrow> Inl e | Inr s \<Rightarrow> printf_loop env True s) = printf_loop env True cmd"
  proof (induction "length cmd" arbitrary: cmd rule: less_induct)
    case less
    show ?case
    proof (cases cmd rule: loop_cases)
      case plain
      then show ?thesis by (simp add: loop_plain)
    next
      case (flag a c q)
      note lf = loop_flag [OF flag(1)]
      from expand_flag_settled [OF assms, of c q] show ?thesis
      proof (elim disjE exE conjE)
        fix e assume "expand_flag env False c q = Inl e" "expand_flag env True c q = Inl e"
        then show ?thesis using flag lf by simp
      next
        fix u u2 rest assume x: "expand_flag env False c q = Inr (u, rest)" "expand_flag env True c q = Inr (u2, rest)"
          "printf_loop env True u = Inr u2"
        have "length rest < length cmd" using expand_flag_shorter [OF x(1)] flag(2) by simp
        note ih = less [OF this]
        have au: "printf_loop env True (a @ u @ s) = map_sum id (\<lambda>r. a @ u2 @ r) (printf_loop env True s)" for s
          using loop_append [OF loop_plain [OF flag(1)], of env True "u @ s"] loop_append [OF x(3), of s]
          by (simp add: sum.map_comp comp_def id_def)
        show ?thesis
        proof (cases "printf_loop env False rest")
          case (Inl e)
          then have "printf_loop env True rest = Inl e" using ih by simp
          then show ?thesis using Inl flag(2) x lf by simp
        next
          case (Inr s)
          then have "printf_loop env True s = printf_loop env True rest" using ih by simp
          then show ?thesis using Inr flag(2) x lf au by simp
        qed
      qed
    next
      case (bad a)
      then show ?thesis by (simp add: loop_bad)
    qed
  qed
  moreover have tp: "tup_printf env s None x = printf_loop env x s" for s x by (simp add: tup_printf_def split: sum.split)
  ultimately show ?thesis unfolding tp by -
qed

section \<open>Quoting\<close>

text \<open>
  How a POSIX shell reads words: quotes, backslashes and blanks.  A character that means something else to the
  shell outside of quotes, or an expansion within double quotes, gives \<open>None\<close>.
\<close>

datatype sh_mode = Sh_Plain | Sh_Single | Sh_Double

definition sh_special :: "char \<Rightarrow> bool" where
  "sh_special c \<longleftrightarrow> c \<in> set ''|&;<>()$`*?[]#~=%!{}'' \<or> c = CHR 0x0A \<or> c = CHR 0x09"

fun sh_words :: "sh_mode \<Rightarrow> string \<Rightarrow> bool \<Rightarrow> string \<Rightarrow> string list option" where
  "sh_words Sh_Plain cur started [] = Some (if started then [cur] else [])"
| "sh_words Sh_Plain cur started (c # cs) =
     (if c = CHR '' '' then map_option (\<lambda>ws. if started then cur # ws else ws) (sh_words Sh_Plain [] False cs)
      else if c = CHR 0x27 then sh_words Sh_Single cur True cs
      else if c = CHR 0x22 then sh_words Sh_Double cur True cs
      else if c = CHR 0x5C then (case cs of [] \<Rightarrow> None | d # ds \<Rightarrow> sh_words Sh_Plain (cur @ [d]) True ds)
      else if sh_special c then None
      else sh_words Sh_Plain (cur @ [c]) True cs)"
| "sh_words Sh_Single cur started [] = None"
| "sh_words Sh_Single cur started (c # cs) =
     (if c = CHR 0x27 then sh_words Sh_Plain cur True cs else sh_words Sh_Single (cur @ [c]) True cs)"
| "sh_words Sh_Double cur started [] = None"
| "sh_words Sh_Double cur started (c # cs) =
     (if c = CHR 0x22 then sh_words Sh_Plain cur True cs
      else if c = CHR 0x5C then
        (case cs of [] \<Rightarrow> None
         | d # ds \<Rightarrow> if d = CHR 0x5C \<or> d = CHR 0x22 \<or> d = CHR ''$'' \<or> d = CHR ''`'' then sh_words Sh_Double (cur @ [d]) True ds
             else sh_words Sh_Double (cur @ [c]) True cs)
      else if c = CHR ''$'' \<or> c = CHR ''`'' then None
      else sh_words Sh_Double (cur @ [c]) True cs)"

lemma sh_single: "sh_words Sh_Single cur True (escaped (CHR 0x27) s @ CHR 0x27 # r) = sh_words Sh_Plain (cur @ s) True r"
  by (induction s arbitrary: cur) (auto simp: escape_text_def)

lemma sh_double:
  "CHR 0x5C \<notin> set s \<Longrightarrow> CHR ''$'' \<notin> set s \<Longrightarrow> CHR ''`'' \<notin> set s \<Longrightarrow>
   sh_words Sh_Double cur True (escaped (CHR 0x22) s @ CHR 0x22 # r) = sh_words Sh_Plain (cur @ s) True r"
  by (induction s arbitrary: cur) (auto simp: escape_text_def)

definition double_safe :: "char \<Rightarrow> string \<Rightarrow> bool" where
  "double_safe q s \<longleftrightarrow> q = CHR 0x27 \<or> q = CHR 0x22 \<and> CHR 0x5C \<notin> set s \<and> CHR ''$'' \<notin> set s \<and> CHR ''`'' \<notin> set s"

lemma sh_quoted:
  assumes "double_safe q (nle_path nle)"
  shows "sh_words Sh_Plain [] False (quoted q nle @ r) = sh_words Sh_Plain (nle_path nle) True r"
  using assms sh_single [of "[]" "nle_path nle" r] sh_double [of "nle_path nle" "[]" r]
  by (auto simp: double_safe_def quoted_def)

lemma sh_entries:
  assumes "\<forall>nle \<in> set es. double_safe q (nle_path nle)"
  shows "sh_words Sh_Plain [] False (spaced (map (quoted q) es)) = Some (map nle_path es)"
  using assms
proof (induction es rule: induct_list012)
  case (2 e)
  then show ?case using sh_quoted [of q e "[]"] by simp
next
  case (3 e f es)
  then show ?case using sh_quoted [of q e "'' '' @ spaced (map (quoted q) (f # es))"] by simp
qed simp

text \<open>
  C35: in a command with \<open>%'f\<close>, the inserted text is read by the shell as exactly the list of input
  paths, one word each, whatever characters they hold; with \<open>%"f\<close> this holds for paths
  without a backslash, a dollar sign or a backquote.
\<close>

theorem quoted_inputs_shell:
  assumes "name_list_ok (pe_nl env)" and "nl_entries (pe_nl env) \<noteq> []"
    and "\<forall>nle \<in> set (nl_entries (pe_nl env)). double_safe q (nle_path nle)"
    and "CHR ''%'' \<notin> set before" and "CHR ''%'' \<notin> set after"
  shows "\<exists>t. tup_printf env (before @ [CHR ''%'', q, CHR ''f''] @ after) None x = Inr (before @ t @ after)
    \<and> sh_words Sh_Plain [] False t = Some (map nle_path (nl_entries (pe_nl env)))"
proof -
  have q: "q = CHR 0x27 \<or> q = CHR 0x22" using assms(2,3) by (cases "nl_entries (pe_nl env)") (auto simp: double_safe_def)
  have n: "num_entries (pe_nl env) \<noteq> 0" using assms(1,2) by (simp add: name_list_ok_def)
  have "expand_flag env x q (CHR ''f'' # after) = Inr (entries_text (quoted q) (pe_nl env), after)"
    using q n by (simp add: expand_flag_def quote_flag_def)
  then have "printf_loop env x (before @ [CHR ''%'', q, CHR ''f''] @ after) = Inr (before @ entries_text (quoted q) (pe_nl env) @ after)"
    using loop_flag [OF assms(4), of env x q "CHR ''f'' # after"] loop_plain [OF assms(5), of env x] by simp
  then show ?thesis using sh_entries [OF assms(3)] by (simp add: tup_printf_def entries_text_def)
qed

section \<open>Lengths without extension\<close>

lemma split_unique:
  assumes "d @ f = d' @ f'" and "CHR ''/'' \<notin> set f" "CHR ''/'' \<notin> set f'"
    and "d = [] \<or> last d = CHR ''/''" "d' = [] \<or> last d' = CHR ''/''"
  shows "f = f'" and "d = d'"
proof -
  have le: "length g \<le> length g'" if e: "h @ g = h' @ g'" and g: "CHR ''/'' \<notin> set g" and h: "h' = [] \<or> last h' = CHR ''/''"
    for g g' h h' :: string
  proof (rule ccontr)
    assume "\<not> length g \<le> length g'"
    moreover have "length h + length g = length h' + length g'" using arg_cong [OF e, of length] by simp
    ultimately have l: "length h < length h'" by simp
    then obtain u where "h' = h @ u" "u \<noteq> []" using e by (auto simp: append_eq_append_conv2)
    then have "last h' \<in> set g" using e by auto
    then show False using h g \<open>h' = h @ u\<close> \<open>u \<noteq> []\<close> by auto
  qed
  have "length f = length f'" 
    by (rule le_antisym [OF le [OF assms(1,2,5)] le [OF assms(1) [symmetric] assms(3,4)]])
  then show "f = f'" "d = d'" using assms(1) by auto
qed

lemma new_nle_split:
  assumes "path = d @ f" and "CHR ''/'' \<notin> set f" and "d = [] \<or> last d = CHR ''/''"
  shows "nle_file (new_nle path e i) = f" and "nle_extlessbaselen (new_nle path e i) = e - int (length d)"
proof -
  note n = new_nle_file [of path e i]
  then obtain d' where d': "path = d' @ nle_file (new_nle path e i)" "d' = [] \<or> last d' = CHR ''/''" by blast
  have "d @ f = d' @ nle_file (new_nle path e i)" using assms(1) d'(1) by simp
  then show f: "nle_file (new_nle path e i) = f"
    by (rule split_unique(1) [symmetric]) (use assms(2,3) n d'(2) in blast)+
  show "nle_extlessbaselen (new_nle path e i) = e - int (length d)" using n f assms(1) by simp
qed

lemma cb_back_result: "cb_back name l ext = (l', ext') \<Longrightarrow> l' \<le> l \<and> ext' = ext - int (l - l')"
  by (induction name l ext rule: cb_back.induct) (auto split: if_splits)

text \<open>
  Also: for a file of a bin or an external path, the length without extension is computed from the last dot
  of the whole path, so \<open>%B\<close> copies a negative number of bytes when the file name has no dot and a directory
  before it has one (past the first character), as in \<open>../foo\<close>; for the inputs that a directory glob finds the length is
  never negative.
\<close>

theorem bin_extless_length:
  assumes "path = d @ f" and "f \<noteq> []" and "CHR ''/'' \<notin> set f" and "d = [] \<or> last d = CHR ''/''"
  shows "(nle_extlessbaselen (new_nle path (bin_extlesslen path) i) < 0)
      = (CHR ''.'' \<notin> set f \<and> (\<exists>k. 0 < k \<and> k < length d \<and> d ! k = CHR ''.''))
    \<and> 0 \<le> nle_extlessbaselen (new_nle path (cb_extlesslen path f) i)"
proof
  define j where "j = back_to_dot path (length path - 1)"
  note jr = back_to_dot_result [OF j_def [symmetric]]
  have ne: "path \<noteq> []" using assms(1,2) by simp
  have neg: "nle_extlessbaselen (new_nle path (bin_extlesslen path) i) < 0 \<longleftrightarrow> 0 < j \<and> j < length d"
    using new_nle_split(2) [OF assms(1,3,4)] ne assms(1) by (auto simp: bin_extlesslen_def output_extlesslen_def j_def)
  have "(0 < j \<and> j < length d) = (CHR ''.'' \<notin> set f \<and> (\<exists>k. 0 < k \<and> k < length d \<and> d ! k = CHR ''.''))"
  proof
    assume l: "0 < j \<and> j < length d"
    then have "d ! j = CHR ''.''" using jr assms(1) by (simp add: nth_append)
    moreover have "CHR ''.'' \<notin> set f"
    proof
      assume "CHR ''.'' \<in> set f"
      then obtain k where k: "k < length f" "f ! k = CHR ''.''" by (auto simp: in_set_conv_nth)
      then have "path ! (length d + k) = CHR ''.''" using assms(1) by (simp add: nth_append)
      moreover have "j < length d + k" "length d + k \<le> length path - 1" using l k(1) assms(1) by auto
      ultimately show False using jr by blast
    qed
    ultimately show "CHR ''.'' \<notin> set f \<and> (\<exists>k. 0 < k \<and> k < length d \<and> d ! k = CHR ''.'')" using l by blast
  next
    assume r: "CHR ''.'' \<notin> set f \<and> (\<exists>k. 0 < k \<and> k < length d \<and> d ! k = CHR ''.'')"
    then obtain k where k: "0 < k" "k < length d" "path ! k = CHR ''.''" using assms(1) by (auto simp: nth_append)
    have "k \<le> j"
    proof (rule ccontr)
      assume "\<not> k \<le> j"
      then have "j < k" by simp
      moreover have "k \<le> length path - 1" using k(2) assms(1,2) by (cases f) auto
      ultimately show False using jr k(3) by blast
    qed
    moreover have "j < length d"
    proof (rule ccontr)
      assume "\<not> j < length d"
      moreover have "path ! j = CHR ''.''" using jr \<open>k \<le> j\<close> k(1) by simp
      moreover have "j < length path" 
      proof -
        have "j \<le> length path - 1" using jr by blast
        moreover have "0 < length path" using ne by simp
        ultimately show ?thesis by linarith
      qed
      ultimately have "f ! (j - length d) = CHR ''.''" "j - length d < length f" using assms(1) by (simp_all add: nth_append)
      then have "CHR ''.'' \<in> set f" by (metis nth_mem)
      then show False using r by blast
    qed
    ultimately show "0 < j \<and> j < length d" using k(1) by simp
  qed
  then show "(nle_extlessbaselen (new_nle path (bin_extlesslen path) i) < 0)
      = (CHR ''.'' \<notin> set f \<and> (\<exists>k. 0 < k \<and> k < length d \<and> d ! k = CHR ''.''))" using neg by simp
  obtain l ext where c: "cb_back f (length f) (int (length path)) = (l, ext)" by (metis surj_pair)
  have "int (length d) \<le> cb_extlesslen path f" using cb_back_result [OF c] c assms(1) by (auto simp: cb_extlesslen_def)
  then show "0 \<le> nle_extlessbaselen (new_nle path (cb_extlesslen path f) i)"
    using new_nle_split(2) [OF assms(1,3,4)] by simp
qed

section \<open>Witnesses\<close>

definition sample_env :: "string list \<Rightarrow> printf_env" where
  "sample_env paths = \<lparr>pe_nl = fold (\<lambda>p nl. add_name_list_entry nl (new_nle p (bin_extlesslen p) 1)) paths init_name_list,
     pe_onl = None, pe_ooinput_nl = None, pe_ext = None, pe_dir = ''dir''\<rparr>"

text \<open>
  Also: an input whose name holds a percent sign breaks a rule that names its output after it: the first pass puts the
  name into the pattern, and the second pass takes what follows the percent sign for a flag; and a number that
  overflows an int is accepted as the number it wraps around to, while 99, which the message allows, is not.
\<close>

theorem printf_anomalies:
  "tup_printf (sample_env [''5%x'']) ''%f.o'' None True = Inr ''5%x.o''
   \<and> (case tup_printf (sample_env [''5%x'']) ''%f.o'' None False of Inl e \<Rightarrow> Inl e
        | Inr s \<Rightarrow> tup_printf (sample_env [''5%x'']) s None True) = Inl (Unknown_Flag (CHR ''x''))
   \<and> tup_printf (sample_env [''a'']) ''%4294967297f'' None True = Inr ''a''
   \<and> tup_printf (sample_env [''a'']) ''%99f'' None True = Inl Number_Range
   \<and> tup_printf (sample_env [''../foo'']) ''%B'' None True = Inl Negative_Length"
proof (intro conjI)
  show "tup_printf (sample_env [''5%x'']) ''%f.o'' None True = Inr ''5%x.o''" by code_simp
  show "(case tup_printf (sample_env [''5%x'']) ''%f.o'' None False of Inl e \<Rightarrow> Inl e
        | Inr s \<Rightarrow> tup_printf (sample_env [''5%x'']) s None True) = Inl (Unknown_Flag (CHR ''x''))" by code_simp
  show "tup_printf (sample_env [''a'']) ''%4294967297f'' None True = Inr ''a''" by code_simp
  show "tup_printf (sample_env [''a'']) ''%99f'' None True = Inl Number_Range" by code_simp
  show "tup_printf (sample_env [''../foo'']) ''%B'' None True = Inl Negative_Length" by code_simp
qed

theorem two_passes_witness:
  "(case tup_printf (sample_env [''a.c'']) ''cc %f %%'' None False of Inl e \<Rightarrow> Inl e
      | Inr s \<Rightarrow> tup_printf (sample_env [''a.c'']) s None True) = tup_printf (sample_env [''a.c'']) ''cc %f %%'' None True"
proof (rule two_passes)
  show "no_percent (sample_env [''a.c''])"
    by (simp add: no_percent_def sample_env_def add_name_list_entry_def init_name_list_def new_nle_def set_nle_base_def split: prod.split)
qed

theorem quoted_inputs_shell_witness:
  "\<exists>t. tup_printf (sample_env [''it's'', ''a b'']) (''cat '' @ [CHR ''%'', CHR 0x27, CHR ''f''] @ '' > x'') None True = Inr (''cat '' @ t @ '' > x'')
    \<and> sh_words Sh_Plain [] False t = Some [''it's'', ''a b'']"
proof -
  let ?env = "sample_env [''it's'', ''a b'']"
  have "map nle_path (nl_entries (pe_nl ?env)) = [''it's'', ''a b'']" by code_simp
  moreover have "name_list_ok (pe_nl ?env)" by (simp add: sample_env_def name_list_add)
  moreover have "nl_entries (pe_nl ?env) \<noteq> []" using calculation(1) by auto
  moreover have "\<forall>nle \<in> set (nl_entries (pe_nl ?env)). double_safe (CHR 0x27) (nle_path nle)" by (simp add: double_safe_def)
  ultimately show ?thesis using quoted_inputs_shell [of ?env "CHR 0x27" "''cat ''" "'' > x''" True] by simp
qed

theorem bin_extless_length_witness:
  "nle_extlessbaselen (new_nle ''../foo'' (bin_extlesslen ''../foo'') 1) < 0"
proof -
  have "\<exists>k. 0 < k \<and> k < length ''../'' \<and> ''../'' ! k = CHR ''.''" by (rule exI [of _ 1]) simp
  then show ?thesis using bin_extless_length [of "''../foo''" "''../''" "''foo''" 1] by simp
qed

end
