(* ===== verification/Vardb.thy ===== *)
theory Vardb
  imports Trees Estring
begin

text \<open>
  Tables of variables (\<^verbatim>\<open>src/src/tup/vardb.c\<close>).  The tree of entries is the ordered association list of its keys.  A val argument is a
  pointer: it can be NULL, a string of the caller, or the buffer that the entry itself owns; the last matters
  because the entry frees its buffer before it copies the argument.  Allocation does not fail in the model.
\<close>

section \<open>Entries\<close>

datatype vardb_merge_mode = VDB_MERGE_INHERIT | VDB_MERGE_OVERRIDE | VDB_MERGE_APPEND | VDB_MERGE_PREPEND

datatype value_ptr = Null | Str string | Own

record var_entry =
  ve_value :: "string option"
  ve_vallen :: nat
  ve_merge_mode :: vardb_merge_mode
  ve_tent :: "tupid option"

record vardb =
  root :: "(string, var_entry) omap"
  count :: int

definition vardb_init :: vardb where
  "vardb_init = \<lparr>root = [], count = 0\<rparr>"

text \<open>Closing a table empties the tree and leaves the count.\<close>

definition vardb_close :: "vardb \<Rightarrow> vardb" where
  "vardb_close v = v\<lparr>root := []\<rparr>"

definition vardb_search :: "vardb \<Rightarrow> string \<Rightarrow> nat \<Rightarrow> var_entry option" where
  "vardb_search v var varlen = map_of (root v) (take varlen var)"

text \<open>What the argument points to, \<open>None\<close> for a NULL pointer.\<close>

definition text_of :: "value_ptr \<Rightarrow> var_entry option \<Rightarrow> string option" where
  "text_of p ve = (case p of Null \<Rightarrow> None | Str s \<Rightarrow> Some s | Own \<Rightarrow> (case ve of None \<Rightarrow> None | Some e \<Rightarrow> ve_value e))"

text \<open>\<open>None\<close>: the copy reads a buffer that was freed just before.\<close>

definition vardb_set2_mode ::
    "vardb \<Rightarrow> string \<Rightarrow> nat \<Rightarrow> value_ptr \<Rightarrow> vardb_merge_mode \<Rightarrow> tupid option \<Rightarrow> (vardb \<times> var_entry) option" where
  "vardb_set2_mode v var varlen val mode tent =
     (let key = take varlen var; st = vardb_search v var varlen;
          vallen = (case text_of val st of None \<Rightarrow> 0 | Some s \<Rightarrow> length s) in
      case st of
        Some ve \<Rightarrow>
          if val = Own \<and> ve_value ve \<noteq> None then None
          else let e = \<lparr>ve_value = text_of val st, ve_vallen = vallen, ve_merge_mode = mode, ve_tent = tent\<rparr>
               in Some (v\<lparr>root := om_put key e (root v)\<rparr>, e)
      | None \<Rightarrow>
          let e = \<lparr>ve_value = text_of val None, ve_vallen = vallen, ve_merge_mode = mode, ve_tent = tent\<rparr>
          in Some (v\<lparr>root := om_put key e (root v), count := count v + 1\<rparr>, e))"

definition vardb_set_mode :: "vardb \<Rightarrow> string \<Rightarrow> value_ptr \<Rightarrow> vardb_merge_mode \<Rightarrow> tupid option \<Rightarrow> vardb option" where
  "vardb_set_mode v var val mode tent = map_option fst (vardb_set2_mode v var (length var) val mode tent)"

definition vardb_set2 :: "vardb \<Rightarrow> string \<Rightarrow> nat \<Rightarrow> value_ptr \<Rightarrow> tupid option \<Rightarrow> (vardb \<times> var_entry) option" where
  "vardb_set2 v var varlen val tent = vardb_set2_mode v var varlen val VDB_MERGE_OVERRIDE tent"

definition vardb_set :: "vardb \<Rightarrow> string \<Rightarrow> value_ptr \<Rightarrow> tupid option \<Rightarrow> vardb option" where
  "vardb_set v var val tent = map_option fst (vardb_set2_mode v var (length var) val VDB_MERGE_OVERRIDE tent)"

text \<open>The caller's val is a string or NULL here.\<close>

definition vardb_merge :: "vardb \<Rightarrow> string \<Rightarrow> string option \<Rightarrow> vardb_merge_mode \<Rightarrow> vardb option" where
  "vardb_merge v var val mode =
     (let ptr = (case val of None \<Rightarrow> Null | Some s \<Rightarrow> Str s) in
      case vardb_search v var (length var) of
        Some ve \<Rightarrow>
          if mode \<noteq> VDB_MERGE_OVERRIDE
          then (case ve_value ve of
                  None \<Rightarrow> vardb_set_mode v var ptr mode None
                | Some old \<Rightarrow>
                    if old = [] then vardb_set_mode v var ptr mode None
                    else (case val of
                        None \<Rightarrow> vardb_set_mode v var Own mode None
                      | Some new \<Rightarrow>
                          if new = [] then vardb_set_mode v var Own mode None
                          else let s = (if mode = VDB_MERGE_PREPEND then new @ '' '' @ take (ve_vallen ve) old
                                        else take (ve_vallen ve) old @ '' '' @ new)
                               in Some (v\<lparr>root := om_put var (ve\<lparr>ve_value := Some s, ve_vallen := ve_vallen ve + length new + 1,
                                                                 ve_merge_mode := mode\<rparr>) (root v)\<rparr>)))
          else vardb_set_mode v var ptr mode None
      | None \<Rightarrow> vardb_set_mode v var ptr mode None)"

definition vardb_append :: "vardb \<Rightarrow> string \<Rightarrow> string option \<Rightarrow> vardb option" where
  "vardb_append v var val = vardb_merge v var val VDB_MERGE_APPEND"

definition vardb_get :: "vardb \<Rightarrow> string \<Rightarrow> nat \<Rightarrow> var_entry option" where
  "vardb_get v var varlen = vardb_search v var varlen"

text \<open>
  \<^verbatim>\<open>vardb_compare\<close> walks two tables in parallel.  A callback may be NULL (\<open>None\<close>) and may fail; what
  the callbacks change is the state they pass on.
\<close>

type_synonym 's var_cb = "(string \<Rightarrow> var_entry \<Rightarrow> 's \<Rightarrow> 's option) option"

definition call_var :: "'s var_cb \<Rightarrow> string \<Rightarrow> var_entry \<Rightarrow> 's \<Rightarrow> 's option" where
  "call_var cb k ve s = (case cb of None \<Rightarrow> Some s | Some f \<Rightarrow> f k ve s)"

definition call_same :: "(var_entry \<Rightarrow> var_entry \<Rightarrow> 's \<Rightarrow> 's option) option \<Rightarrow> var_entry \<Rightarrow> var_entry \<Rightarrow> 's \<Rightarrow> 's option" where
  "call_same cb va vb s = (case cb of None \<Rightarrow> Some s | Some f \<Rightarrow> f va vb s)"

fun compare_vars :: "'s var_cb \<Rightarrow> 's var_cb \<Rightarrow> (var_entry \<Rightarrow> var_entry \<Rightarrow> 's \<Rightarrow> 's option) option
    \<Rightarrow> (string \<times> var_entry) list \<Rightarrow> (string \<times> var_entry) list \<Rightarrow> 's \<Rightarrow> 's option" where
  "compare_vars extra_a extra_b same [] [] s = Some s"
| "compare_vars extra_a extra_b same [] ((k, veb) # b) s = do { s1 \<leftarrow> call_var extra_b k veb s; compare_vars extra_a extra_b same [] b s1 }"
| "compare_vars extra_a extra_b same ((k, vea) # a) [] s = do { s1 \<leftarrow> call_var extra_a k vea s; compare_vars extra_a extra_b same a [] s1 }"
| "compare_vars extra_a extra_b same ((ka, vea) # a) ((kb, veb) # b) s =
     (if strcmp ka kb = 0 then do { s1 \<leftarrow> call_same same vea veb s; compare_vars extra_a extra_b same a b s1 }
      else if strcmp ka kb < 0 then do { s1 \<leftarrow> call_var extra_a ka vea s; compare_vars extra_a extra_b same a ((kb, veb) # b) s1 }
      else do { s1 \<leftarrow> call_var extra_b kb veb s; compare_vars extra_a extra_b same ((ka, vea) # a) b s1 })"

definition vardb_compare :: "vardb \<Rightarrow> vardb \<Rightarrow> 's var_cb \<Rightarrow> 's var_cb
    \<Rightarrow> (var_entry \<Rightarrow> var_entry \<Rightarrow> 's \<Rightarrow> 's option) option \<Rightarrow> 's \<Rightarrow> 's option" where
  "vardb_compare vdba vdbb extra_a extra_b same s = compare_vars extra_a extra_b same (root vdba) (root vdbb) s"

definition vardb_copy :: "vardb \<Rightarrow> string \<Rightarrow> nat \<Rightarrow> estring \<Rightarrow> estring option" where
  "vardb_copy v var varlen e = (case vardb_search v var varlen of
     Some ve \<Rightarrow> estring_append e (take (ve_vallen ve) (case ve_value ve of None \<Rightarrow> [] | Some s \<Rightarrow> s))
   | None \<Rightarrow> Some e)"

section \<open>Refinement of a map\<close>

definition vardb_ok :: "vardb \<Rightarrow> bool" where
  "vardb_ok v \<longleftrightarrow> om_ok (root v) \<and> count v = int (length (root v))
     \<and> (\<forall>k ve. map_of (root v) k = Some ve \<longrightarrow> ve_vallen ve = (case ve_value ve of None \<Rightarrow> 0 | Some s \<Rightarrow> length s))"

definition vardb_abs :: "vardb \<Rightarrow> string \<Rightarrow> string option option" where
  "vardb_abs v k = map_option ve_value (map_of (root v) k)"

datatype var_op = Set_Var string "string option" | Merge_Var string "string option" vardb_merge_mode

definition var_step :: "var_op \<Rightarrow> vardb \<Rightarrow> vardb option" where
  "var_step op v = (case op of
     Set_Var var val \<Rightarrow> vardb_set v var (case val of None \<Rightarrow> Null | Some s \<Rightarrow> Str s) None
   | Merge_Var var val mode \<Rightarrow> vardb_merge v var val mode)"

text \<open>The specification: an empty or missing text leaves the other one; \<open>None\<close> is the case that is not defined.\<close>

definition empty_text :: "string option \<Rightarrow> bool" where
  "empty_text t \<longleftrightarrow> t = None \<or> t = Some []"

definition spec_step :: "var_op \<Rightarrow> (string \<Rightarrow> string option option) \<Rightarrow> (string \<Rightarrow> string option option) option" where
  "spec_step op m = (case op of
     Set_Var var val \<Rightarrow> Some (m(var := Some val))
   | Merge_Var var val mode \<Rightarrow> (case m var of
       None \<Rightarrow> Some (m(var := Some val))
     | Some old \<Rightarrow>
         if mode = VDB_MERGE_OVERRIDE \<or> empty_text old then Some (m(var := Some val))
         else if empty_text val then None
         else Some (m(var := Some (Some (if mode = VDB_MERGE_PREPEND then the val @ '' '' @ the old else the old @ '' '' @ the val))))))"

fun run_ops :: "('op \<Rightarrow> 's \<Rightarrow> 's option) \<Rightarrow> 'op list \<Rightarrow> 's \<Rightarrow> 's option" where
  "run_ops f [] s = Some s"
| "run_ops f (op # ops) s = do { s1 \<leftarrow> f op s; run_ops f ops s1 }"

lemma length_om_put: "om_ok m \<Longrightarrow> length (om_put k v m) = (if map_of m k = None then length m + 1 else length m)"
  by (induction k v m rule: om_put.induct) (auto simp: om_ok_Cons map_of_eq_None_iff)

lemma put_ok:
  assumes "vardb_ok v" and "ve_vallen e = (case ve_value e of None \<Rightarrow> 0 | Some s \<Rightarrow> length s)"
    and "c = count v + (if map_of (root v) k = None then 1 else 0)"
  shows "vardb_ok (v\<lparr>root := om_put k e (root v), count := c\<rparr>)"
    and "vardb_abs (v\<lparr>root := om_put k e (root v), count := c\<rparr>) = (vardb_abs v)(k := Some (ve_value e))"
  using assms by (auto simp: vardb_ok_def vardb_abs_def length_om_put fun_eq_iff)

lemma set_mode_step:
  assumes "vardb_ok v" and "val \<noteq> Own"
  shows "\<exists>v'. vardb_set_mode v var val mode tent = Some v' \<and> vardb_ok v'
    \<and> vardb_abs v' = (vardb_abs v)(var := Some (text_of val None))"
proof (cases "map_of (root v) var")
  case None
  then show ?thesis
    using put_ok [OF assms(1), of "\<lparr>ve_value = text_of val None, ve_vallen = (case text_of val None of None \<Rightarrow> 0 | Some s \<Rightarrow> length s),
      ve_merge_mode = mode, ve_tent = tent\<rparr>" "count v + 1" var] assms(2)
    by (simp add: vardb_set_mode_def vardb_set2_mode_def vardb_search_def Let_def)
next
  case (Some ve)
  have t: "text_of val (Some ve) = text_of val None" using assms(2) by (cases val) (simp_all add: text_of_def)
  show ?thesis
    using put_ok [OF assms(1), of "\<lparr>ve_value = text_of val None, ve_vallen = (case text_of val None of None \<Rightarrow> 0 | Some s \<Rightarrow> length s),
      ve_merge_mode = mode, ve_tent = tent\<rparr>" "count v" var] assms(2) Some t
    by (simp add: vardb_set_mode_def vardb_set2_mode_def vardb_search_def Let_def)
qed

lemma set_own:
  assumes "map_of (root v) var = Some ve" and "ve_value ve \<noteq> None"
  shows "vardb_set_mode v var Own mode tent = None"
  using assms by (simp add: vardb_set_mode_def vardb_set2_mode_def vardb_search_def Let_def)

lemma set_is_set_mode: "vardb_set v var val tent = vardb_set_mode v var val VDB_MERGE_OVERRIDE tent"
  by (simp add: vardb_set_def vardb_set_mode_def)

lemma var_step_refines:
  assumes ok: "vardb_ok v"
  shows "map_option vardb_abs (var_step op v) = spec_step op (vardb_abs v) \<and> (\<forall>v'. var_step op v = Some v' \<longrightarrow> vardb_ok v')"
proof (cases op)
  case (Set_Var var val)
  then show ?thesis
    using set_mode_step [OF ok, of "case val of None \<Rightarrow> Null | Some s \<Rightarrow> Str s" var VDB_MERGE_OVERRIDE None]
    by (cases val) (auto simp: var_step_def spec_step_def set_is_set_mode text_of_def)
next
  case (Merge_Var var val mode)
  let ?ptr = "case val of None \<Rightarrow> Null | Some s \<Rightarrow> Str s"
  obtain v' where v': "vardb_set_mode v var ?ptr mode None = Some v'" "vardb_ok v'" "vardb_abs v' = (vardb_abs v)(var := Some val)"
    using set_mode_step [OF ok, of ?ptr var mode None] by (cases val) (auto simp: text_of_def)
  show ?thesis
  proof (cases "map_of (root v) var")
    case None
    then show ?thesis using v' Merge_Var by (simp add: var_step_def spec_step_def vardb_merge_def vardb_search_def vardb_abs_def)
  next
    case (Some ve)
    show ?thesis
    proof (cases "mode = VDB_MERGE_OVERRIDE \<or> empty_text (ve_value ve)")
      case True
      then have "vardb_merge v var val mode = vardb_set_mode v var ?ptr mode None"
        using Some by (auto simp: vardb_merge_def vardb_search_def empty_text_def Let_def split: option.split)
      then show ?thesis using v' Some Merge_Var True by (simp add: var_step_def spec_step_def vardb_abs_def [of v])
    next
      case False
      then obtain old where old: "ve_value ve = Some old" "old \<noteq> []" "mode \<noteq> VDB_MERGE_OVERRIDE"
        by (cases "ve_value ve") (auto simp: empty_text_def)
      have own: "vardb_set_mode v var Own mode None = None" using set_own [OF Some] old by simp
      have len: "ve_vallen ve = length old" using ok Some old by (simp add: vardb_ok_def)
      show ?thesis
      proof (cases "empty_text val")
        case True
        then have "vardb_merge v var val mode = None"
          using own Some old by (auto simp: vardb_merge_def vardb_search_def empty_text_def Let_def split: option.split)
        then show ?thesis using Some old Merge_Var True by (simp add: var_step_def spec_step_def vardb_abs_def empty_text_def)
      next
        case False
        then obtain new where new: "val = Some new" "new \<noteq> []" by (cases "val") (auto simp: empty_text_def)
        define t where "t = (if mode = VDB_MERGE_PREPEND then new @ '' '' @ old else old @ '' '' @ new)"
        have lent: "length t = length old + length new + 1" by (simp add: t_def)
        let ?e = "ve\<lparr>ve_value := Some t, ve_vallen := length old + length new + 1, ve_merge_mode := mode\<rparr>"
        have step: "var_step op v = Some (v\<lparr>root := om_put var ?e (root v), count := count v\<rparr>)"
          using Some old new len Merge_Var by (simp add: var_step_def vardb_merge_def vardb_search_def t_def Let_def)
        define v2 where "v2 = v\<lparr>root := om_put var ?e (root v), count := count v\<rparr>"
        have "vardb_ok v2" "vardb_abs v2 = (vardb_abs v)(var := Some (Some t))"
          unfolding v2_def using put_ok [OF ok, of ?e "count v" var] Some lent by simp_all
        moreover have "spec_step op (vardb_abs v) = Some ((vardb_abs v)(var := Some (Some t)))"
          using Some old new Merge_Var by (simp add: spec_step_def vardb_abs_def [of v] empty_text_def t_def)
        ultimately show ?thesis using step unfolding v2_def [symmetric] by simp
      qed
    qed
  qed
qed

text \<open>
  C38: a table filled by any sequence of settings, appends and prepends is the map that the sequence describes, with
  sorted keys, a correct count and correct lengths; the sequence is undefined exactly when it appends or prepends an empty
  text to a variable that has one, where \<^verbatim>\<open>vardb_merge\<close> passes the buffer of the entry to
  \<^verbatim>\<open>vardb_set_mode\<close>, which frees it before it copies it.
\<close>

theorem vardb_refines:
  "map_option vardb_abs (run_ops var_step ops vardb_init) = run_ops spec_step ops (\<lambda>_. None)
   \<and> pred_option vardb_ok (run_ops var_step ops vardb_init)"
proof -
  have "map_option vardb_abs (run_ops var_step ops v) = run_ops spec_step ops (vardb_abs v)
    \<and> (\<forall>v'. run_ops var_step ops v = Some v' \<longrightarrow> vardb_ok v')" if "vardb_ok v" for v
    using that
  proof (induction ops arbitrary: v)
    case (Cons op ops)
    note st = var_step_refines [OF Cons.prems, of op]
    show ?case
    proof (cases "var_step op v")
      case None
      then have "spec_step op (vardb_abs v) = None" using st by simp
      then show ?thesis using None by simp
    next
      case (Some v1)
      then have "spec_step op (vardb_abs v) = Some (vardb_abs v1)" "vardb_ok v1" using st by (metis option.map(2))+
      then show ?thesis using Some Cons.IH [of v1] by simp
    qed
  qed simp
  moreover have "vardb_ok vardb_init" "vardb_abs vardb_init = (\<lambda>_. None)"
    by (simp_all add: vardb_ok_def vardb_init_def vardb_abs_def fun_eq_iff)
  ultimately show ?thesis by (cases "run_ops var_step ops vardb_init") force+
qed

section \<open>Comparing two tables\<close>

definition visit_var :: "vardb \<Rightarrow> vardb \<Rightarrow> 's var_cb \<Rightarrow> 's var_cb \<Rightarrow> (var_entry \<Rightarrow> var_entry \<Rightarrow> 's \<Rightarrow> 's option) option
    \<Rightarrow> string \<Rightarrow> 's \<Rightarrow> 's option" where
  "visit_var a b extra_a extra_b same k s = (case (map_of (root a) k, map_of (root b) k) of
     (Some va, Some vb) \<Rightarrow> call_same same va vb s
   | (Some va, None) \<Rightarrow> call_var extra_a k va s
   | (None, Some vb) \<Rightarrow> call_var extra_b k vb s
   | (None, None) \<Rightarrow> Some s)"

lemma run_ops_cong: "(\<And>op s. op \<in> set ops \<Longrightarrow> f op s = g op s) \<Longrightarrow> run_ops f ops s = run_ops g ops s"
  by (induction ops arbitrary: s) (auto intro!: Option.bind_cong)

lemma run_ops_min:
  fixes k :: "'k::linorder"
  assumes "finite X" and "\<And>x. x \<in> X \<Longrightarrow> k < x" and "\<And>x s. x \<in> X \<Longrightarrow> f x s = g x s"
  shows "run_ops f (sorted_list_of_set (insert k X)) s = do { s1 \<leftarrow> f k s; run_ops g (sorted_list_of_set X) s1 }"
proof -
  have "k \<notin> X" using assms(2) by auto
  moreover have "insort k (sorted_list_of_set X) = k # sorted_list_of_set X"
    using assms(1,2) by (intro insort_is_Cons) (auto intro: less_imp_le)
  ultimately have "sorted_list_of_set (insert k X) = k # sorted_list_of_set X"
    using assms(1) by (simp add: sorted_list_of_set.fold_insort_key.insert)
  moreover have "run_ops f (sorted_list_of_set X) s1 = run_ops g (sorted_list_of_set X) s1" for s1
    using assms(1,3) by (intro run_ops_cong) simp
  ultimately show ?thesis by (simp cong: Option.bind_cong)
qed

definition visit_pairs :: "'s var_cb \<Rightarrow> 's var_cb \<Rightarrow> (var_entry \<Rightarrow> var_entry \<Rightarrow> 's \<Rightarrow> 's option) option
    \<Rightarrow> (string \<times> var_entry) list \<Rightarrow> (string \<times> var_entry) list \<Rightarrow> string \<Rightarrow> 's \<Rightarrow> 's option" where
  "visit_pairs ea eb sm a b = visit_var \<lparr>root = a, count = 0\<rparr> \<lparr>root = b, count = 0\<rparr> ea eb sm"

abbreviation keys_of :: "(string \<times> var_entry) list \<Rightarrow> (string \<times> var_entry) list \<Rightarrow> string set" where
  "keys_of a b \<equiv> set (om_keys a) \<union> set (om_keys b)"

lemma visit_pairs_Cons:
  "x \<noteq> k \<Longrightarrow> visit_pairs ea eb sm ((k, v) # a) b x = visit_pairs ea eb sm a b x"
  "x \<noteq> k \<Longrightarrow> visit_pairs ea eb sm a ((k, v) # b) x = visit_pairs ea eb sm a b x"
  by (rule ext, simp add: visit_pairs_def visit_var_def)+

lemma notin_keys:
  fixes k :: "'k::linorder"
  shows "\<forall>x \<in> set (om_keys a). k < x \<Longrightarrow> map_of a k = None"
  by (metis less_irrefl map_of_None_keys)

text \<open>One step of the walk, in the three cases of the first key.\<close>

lemma visit_first:
  assumes "compare_vars ea eb sm a b s = do { s1 \<leftarrow> visit_pairs ea eb sm a b k s; compare_vars ea eb sm a' b' s1 }"
    and "\<And>s1. compare_vars ea eb sm a' b' s1 = run_ops (visit_pairs ea eb sm a' b') (sorted_list_of_set (keys_of a' b')) s1"
    and "\<forall>x \<in> set (om_keys a'). k < x" and "\<forall>x \<in> set (om_keys b'). k < x"
    and "keys_of a b = insert k (keys_of a' b')"
    and "a' = a \<or> (\<exists>v. a = (k, v) # a')" and "b' = b \<or> (\<exists>v. b = (k, v) # b')"
  shows "compare_vars ea eb sm a b s = run_ops (visit_pairs ea eb sm a b) (sorted_list_of_set (keys_of a b)) s"
proof -
  have "visit_pairs ea eb sm a b x s1 = visit_pairs ea eb sm a' b' x s1" if "x \<in> keys_of a' b'" for x s1
  proof -
    have "x \<noteq> k" using that assms(3,4) by blast
    then show ?thesis using assms(6,7) by (metis visit_pairs_Cons)
  qed
  then show ?thesis
    unfolding assms(1,2,5) by (intro run_ops_min [symmetric]) (use assms(3,4) in blast)+
qed

lemma compare_vars_visits:
  "om_ok a \<Longrightarrow> om_ok b \<Longrightarrow>
    compare_vars ea eb sm a b s = run_ops (visit_pairs ea eb sm a b) (sorted_list_of_set (keys_of a b)) s"
proof (induction "length a + length b" arbitrary: a b s rule: less_induct)
  case less
  show ?case
  proof (cases a)
    case a: Nil
    show ?thesis
    proof (cases b)
      case b: (Cons p b')
      obtain k veb where p: "p = (k, veb)" by fastforce
      have "\<forall>x \<in> set (om_keys b'). k < x" "om_ok b'" using less.prems(2) b p by (simp_all add: om_ok_Cons)
      then show ?thesis
        by (intro visit_first [of ea eb sm a b s k a b'] less.hyps) (simp_all add: a b p visit_pairs_def visit_var_def)
    qed (simp add: a)
  next
    case a: (Cons p a')
    obtain ka vea where p: "p = (ka, vea)" by fastforce
    have oka: "\<forall>x \<in> set (om_keys a'). ka < x" "om_ok a'" using less.prems(1) a p by (simp_all add: om_ok_Cons)
    show ?thesis
    proof (cases b)
      case b: Nil
      show ?thesis
        using oka by (intro visit_first [of ea eb sm a b s ka a' b] less.hyps) (simp_all add: a b p visit_pairs_def visit_var_def)
    next
      case b: (Cons q b')
      obtain kb veb where q: "q = (kb, veb)" by fastforce
      have okb: "\<forall>x \<in> set (om_keys b'). kb < x" "om_ok b'" using less.prems(2) b q by (simp_all add: om_ok_Cons)
      consider (eq) "ka = kb" | (lt) "ka < kb" | (gt) "kb < ka" by fastforce
      then show ?thesis
      proof cases
        case eq
        then show ?thesis
          using oka okb
          by (intro visit_first [of ea eb sm a b s ka a' b'] less.hyps) (auto simp: a b p q visit_pairs_def visit_var_def strcmp_eq)
      next
        case lt
        then have later: "\<forall>x \<in> set (om_keys b). ka < x" using okb b q by auto
        then show ?thesis
          using oka okb lt less.prems(2) notin_keys [OF later]
          by (intro visit_first [of ea eb sm a b s ka a' b] less.hyps) (auto simp: a b p q visit_pairs_def visit_var_def strcmp_eq strcmp_less)
      next
        case gt
        then have later: "\<forall>x \<in> set (om_keys a). kb < x" using oka a p by auto
        then show ?thesis
          using oka okb gt less.prems(1) notin_keys [OF later]
          by (intro visit_first [of ea eb sm a b s kb a b'] less.hyps) (auto simp: a b p q visit_pairs_def visit_var_def strcmp_eq strcmp_less)
      qed
    qed
  qed
qed

lemma visit_pairs_root: "visit_pairs ea eb sm (root va) (root vb) = visit_var va vb ea eb sm"
  by (rule ext) + (simp add: visit_pairs_def visit_var_def)

text \<open>
  Also: comparing two tables visits every variable that one of them holds exactly once, in increasing order of the names, with
  the callback that fits (in the first only, in the second only, in both), until a callback fails.
\<close>

theorem vardb_compare_visits:
  assumes "vardb_ok va" and "vardb_ok vb"
  shows "vardb_compare va vb ea eb sm s
    = run_ops (visit_var va vb ea eb sm) (sorted_list_of_set (dom (vardb_abs va) \<union> dom (vardb_abs vb))) s"
proof -
  have "dom (vardb_abs v) = set (om_keys (root v))" for v
    using dom_map_of_conv_image_fst [of "root v"] by (simp add: vardb_abs_def dom_def)
  moreover have "om_ok (root va)" "om_ok (root vb)" using assms by (simp_all add: vardb_ok_def)
  ultimately show ?thesis
    using compare_vars_visits [of "root va" "root vb" ea eb sm s] by (simp add: vardb_compare_def visit_pairs_root)
qed

definition note_var :: "string \<Rightarrow> (string \<times> string) list var_cb" where
  "note_var tag = Some (\<lambda>k ve log. Some (log @ [(tag, k)]))"

lemma vardb_compare_visits_witness:
  "let e = \<lparr>ve_value = Some ''v'', ve_vallen = 1, ve_merge_mode = VDB_MERGE_OVERRIDE, ve_tent = None\<rparr>;
       va = \<lparr>root = [(''a'', e), (''c'', e)], count = 2\<rparr>; vb = \<lparr>root = [(''b'', e), (''c'', e)], count = 2\<rparr>
   in vardb_compare va vb (note_var ''-'') (note_var ''+'') None []
        = run_ops (visit_var va vb (note_var ''-'') (note_var ''+'') None) [''a'', ''b'', ''c''] []
      \<and> vardb_compare va vb (note_var ''-'') (note_var ''+'') None [] = Some [(''-'', ''a''), (''+'', ''b'')]"
proof -
  define e where "e = \<lparr>ve_value = Some ''v'', ve_vallen = 1, ve_merge_mode = VDB_MERGE_OVERRIDE, ve_tent = None\<rparr>"
  define va where "va = \<lparr>root = [(''a'', e), (''c'', e)], count = 2\<rparr>"
  define vb where "vb = \<lparr>root = [(''b'', e), (''c'', e)], count = 2\<rparr>"
  have ok: "vardb_ok va" "vardb_ok vb"
    by (auto simp: vardb_ok_def va_def vb_def e_def om_ok_def split: if_splits)
  have "dom (vardb_abs va) \<union> dom (vardb_abs vb) = {''a'', ''b'', ''c''}"
    by (auto simp: vardb_abs_def va_def vb_def dom_def split: if_splits)
  then have *: "sorted_list_of_set (dom (vardb_abs va) \<union> dom (vardb_abs vb)) = [''a'', ''b'', ''c'']" by simp
  have "vardb_compare va vb (note_var ''-'') (note_var ''+'') None []
      = run_ops (visit_var va vb (note_var ''-'') (note_var ''+'') None) [''a'', ''b'', ''c''] []"
    using vardb_compare_visits [OF ok, of "note_var ''-''" "note_var ''+''" None "[]"] unfolding * .
  moreover have "vardb_compare va vb (note_var ''-'') (note_var ''+'') None [] = Some [(''-'', ''a''), (''+'', ''b'')]"
    by (simp add: vardb_compare_def va_def vb_def note_var_def call_var_def call_same_def)
  ultimately show ?thesis by (simp add: e_def va_def vb_def Let_def)
qed

end
