(* ===== verification/Pel_Group.thy ===== *)
theory Pel_Group
  imports Paths
begin

unbundle bit_operations_syntax

text \<open>
  Paths as lists of elements (\<^verbatim>\<open>src/src/tup/pel_group.c\<close>): a path that a command accesses is split, cleaned of
  \<^verbatim>\<open>.\<close> and \<^verbatim>\<open>..\<close>, and made relative to the top of the hierarchy.  An element is the text between the
  pointer and its length; the two inner loops of \<^verbatim>\<open>split_path_elements\<close> find the same tokens as \<open>strtok_all\<close>.
  Allocation does not fail.
\<close>

section \<open>Splitting\<close>

definition PG_HIDDEN :: "32 word" where "PG_HIDDEN = 1"
definition PG_OUTSIDE_TUP :: "32 word" where "PG_OUTSIDE_TUP = 2"
definition PG_ROOT :: "32 word" where "PG_ROOT = 4"
definition PG_GROUP :: "32 word" where "PG_GROUP = 8"

record pel_group =
  path_list :: "string list"
  pg_flags :: "32 word"
  num_elements :: int

definition has_pg :: "32 word \<Rightarrow> pel_group \<Rightarrow> bool" where
  "has_pg f pg \<longleftrightarrow> pg_flags pg AND f \<noteq> 0"

definition pel_ignored :: "string \<Rightarrow> bool" where
  "pel_ignored path \<longleftrightarrow> path = ''.'' \<or> path = ''..'' \<or> path = ''.metatup'' \<or> path = ''.git'' \<or> path = ''.hg''
     \<or> path = ''.bzr'' \<or> path = ''.svn'' \<or> path = ''.ccache''"

definition add_pel :: "string \<Rightarrow> pel_group \<Rightarrow> pel_group" where
  "add_pel path pg = pg\<lparr>path_list := path_list pg @ [path]\<rparr>"

definition init_pel_group :: pel_group where
  "init_pel_group = \<lparr>path_list = [], pg_flags = 0, num_elements = 0\<rparr>"

text \<open>The element is given by its position in the list.\<close>

definition del_pel :: "nat \<Rightarrow> pel_group \<Rightarrow> pel_group" where
  "del_pel i pg = pg\<lparr>path_list := take i (path_list pg) @ drop (Suc i) (path_list pg), num_elements := num_elements pg - 1\<rparr>"

definition split_step :: "string \<Rightarrow> pel_group \<Rightarrow> pel_group" where
  "split_step path pg =
     (if path = ''.'' then pg
      else if path = ''..'' then
        (if num_elements pg \<noteq> 0 then del_pel (length (path_list pg) - 1) pg else add_pel path pg)
      else add_pel path (pg\<lparr>num_elements := num_elements pg + 1\<rparr>))"

definition split_path_elements :: "string \<Rightarrow> pel_group \<Rightarrow> pel_group" where
  "split_path_elements dir pg =
     fold split_step (strtok_all (CHR ''/'') dir) (if is_full_path dir then pg\<lparr>pg_flags := PG_ROOT\<rparr> else pg)"

text \<open>What is left of the top directory, and how many elements matched it.\<close>

fun match_top :: "string \<Rightarrow> string list \<Rightarrow> string \<times> nat" where
  "match_top tup_top [] = (tup_top, 0)"
| "match_top tup_top (pel # pels) =
     (let top1 = dropWhile (\<lambda>c. c = CHR ''/'') tup_top in
      if take (length pel) top1 \<noteq> pel then (top1, 0)
      else (let (rest, n) = match_top (drop (length pel) top1) pels in (rest, Suc n)))"

definition enter_top :: "string \<Rightarrow> pel_group \<Rightarrow> pel_group" where
  "enter_top tup_top pg =
     (if has_pg PG_ROOT pg then
        (let (rest, num_pels) = match_top tup_top (path_list pg) in
         if rest \<noteq> [] then pg\<lparr>pg_flags := pg_flags pg OR PG_OUTSIDE_TUP\<rparr>
         else (del_pel 0 ^^ num_pels) pg)
      else pg)"

definition hidden_pel :: "string \<Rightarrow> bool" where
  "hidden_pel pel \<longleftrightarrow> pel \<noteq> [] \<and> hd pel = CHR ''.'' \<and> pel \<noteq> ''..'' \<and> pel_ignored pel"

definition mark_hidden :: "pel_group \<Rightarrow> pel_group" where
  "mark_hidden pg = (if list_ex hidden_pel (path_list pg) then pg\<lparr>pg_flags := pg_flags pg OR PG_HIDDEN\<rparr> else pg)"

definition mark_group :: "pel_group \<Rightarrow> pel_group" where
  "mark_group pg =
     (if path_list pg \<noteq> [] \<and> hd (last (path_list pg)) = CHR ''<'' \<and> last (last (path_list pg)) = CHR ''>''
      then pg\<lparr>pg_flags := pg_flags pg OR PG_GROUP\<rparr> else pg)"

definition get_path_elements :: "string \<Rightarrow> string option \<Rightarrow> pel_group option" where
  "get_path_elements tup_top path = (case path of
     None \<Rightarrow> None
   | Some p \<Rightarrow> Some (mark_group (mark_hidden (enter_top tup_top (split_path_elements p init_pel_group)))))"

definition del_pel_group :: "pel_group \<Rightarrow> pel_group" where
  "del_pel_group pg = pg\<lparr>path_list := [], num_elements := num_elements pg - int (length (path_list pg))\<rparr>"

section \<open>What the elements mean\<close>













lemma pg_bits [simp]:
  "PG_ROOT \<noteq> 0" "PG_OUTSIDE_TUP \<noteq> 0" "PG_ROOT AND PG_ROOT \<noteq> 0" "(0 :: 32 word) AND f = 0" "PG_ROOT AND PG_OUTSIDE_TUP = 0" "PG_ROOT AND PG_HIDDEN = 0" "PG_ROOT AND PG_GROUP = 0"
  "PG_HIDDEN AND PG_ROOT = 0" "PG_OUTSIDE_TUP AND PG_ROOT = 0" "PG_GROUP AND PG_ROOT = 0"
  "PG_HIDDEN AND PG_OUTSIDE_TUP = 0" "PG_GROUP AND PG_OUTSIDE_TUP = 0" "PG_OUTSIDE_TUP AND PG_OUTSIDE_TUP \<noteq> 0"
  "PG_OUTSIDE_TUP AND PG_HIDDEN = 0" "PG_GROUP AND PG_HIDDEN = 0" "PG_HIDDEN AND PG_HIDDEN \<noteq> 0"
  "PG_HIDDEN AND PG_GROUP = 0" "PG_OUTSIDE_TUP AND PG_GROUP = 0" "PG_GROUP AND PG_GROUP \<noteq> 0"
  by (simp_all add: PG_ROOT_def PG_HIDDEN_def PG_OUTSIDE_TUP_def PG_GROUP_def)






text \<open>With a component that is a proper prefix, a directory outside is taken for one inside.\<close>

lemma top_prefix_confusion:
  "get_path_elements ''/ab'' (Some ''/a/b/c'') = Some \<lparr>path_list = [''c''], pg_flags = PG_ROOT, num_elements = 1\<rparr>"
  "get_path_elements ''/abc'' (Some ''/ab/c'') = Some \<lparr>path_list = [], pg_flags = PG_ROOT, num_elements = 0\<rparr>"
  by code_simp+

end
