(* ===== verification/Db_Nodes.thy ===== *)
theory Db_Nodes
  imports Db_Inv Pel_Group
begin

text \<open>
  The node table of \<^verbatim>\<open>src/src/tup/db.c\<close>: lookup by directory and name, insertion, changes of a row, deletion
  with ghosts (\<^verbatim>\<open>tup_db_delete_node\<close>, \<^verbatim>\<open>delete_name_file.c\<close>), and the variants of
  \<^verbatim>\<open>variant.c\<close> that deletion consults.  The cache of \<^verbatim>\<open>entry.c\<close> and the table agree, so both are
  the rows of \<open>node_tbl\<close>: the parent of an entry is the row of its \<open>dt\<close>, the cached children of a directory are
  the rows below it, and reading a row does not fail.  Reference counts are not modelled.
\<close>

section \<open>Results of recursive functions\<close>

text \<open>
  The deletion of a directory and the creation of a node call each other.  They get a number of nested calls that they may make:
  \<open>None\<close> says that it was not enough, \<open>Some None\<close> that the C function returns \<^verbatim>\<open>-1\<close>.
\<close>

type_synonym 'a run = "'a option option"

definition ret :: "'a \<Rightarrow> 'a run" where
  "ret x = Some (Some x)"

fun seq :: "'a run \<Rightarrow> ('a \<Rightarrow> 'b run) \<Rightarrow> 'b run" where
  "seq None f = None"
| "seq (Some None) f = Some None"
| "seq (Some (Some x)) f = f x"

lemma seq_ret: "seq r f = ret y \<longleftrightarrow> (\<exists>x. r = ret x \<and> f x = ret y)"
  by (cases "(r, f)" rule: seq.cases) (auto simp: ret_def)

lemma seq_None: "seq r f = None \<longleftrightarrow> r = None \<or> (\<exists>x. r = ret x \<and> f x = None)"
  by (cases "(r, f)" rule: seq.cases) (auto simp: ret_def)

lemma ret_iff [simp]: "ret x = ret y \<longleftrightarrow> x = y" "ret x \<noteq> None" "ret x \<noteq> Some None" "Some (Some x) = ret y \<longleftrightarrow> x = y"
  by (simp_all add: ret_def)

lemma some_ret: "Some r = ret x \<longleftrightarrow> r = Some x"
  by (simp add: ret_def)

section \<open>What the system decides\<close>

datatype open_result = Open_Missing | Open_Error | Opened
datatype stat_result = Stat_Missing | Stat_Error | Stat_Dir | Stat_Other timespec

text \<open>
  The id that SQLite gives to a new row, the outcome of opening a directory, of \<^verbatim>\<open>fstatat\<close> on a name in it, of removing a
  generated directory, of removing the file of a variant, and of compiling a regular expression; and the top of the hierarchy.
\<close>

record host =
  new_rowid :: "db \<Rightarrow> tupid"
  open_dir :: "tupid \<Rightarrow> open_result"
  stat_at :: "tupid \<Rightarrow> string \<Rightarrow> stat_result"
  rmdir_ok :: "tupid \<Rightarrow> bool"
  unlink_ok :: "variant \<Rightarrow> bool"
  regex_ok :: "string \<Rightarrow> bool"
  tup_top :: string

section \<open>Reading and changing rows\<close>

definition find_child :: "db \<Rightarrow> tupid \<Rightarrow> string \<Rightarrow> tup_entry option" where
  "find_child d t nm = (case filter (\<lambda>(_, e). dt e = t \<and> name_s e = nm) (node_tbl d) of
     [] \<Rightarrow> None | (_, e) # _ \<Rightarrow> Some e)"

text \<open>\<open>None\<close> is an error, \<open>Some None\<close> a name that is not in the directory.\<close>

definition node_select :: "db \<Rightarrow> tupid \<Rightarrow> string \<Rightarrow> tup_entry option option" where
  "node_select d dtent nm =
     (if dtent = 0 then if nm = [] \<or> nm = ''.'' then Some (map_of (node_tbl d) DOT_DT) else None
      else Some (find_child d dtent nm))"

definition parent_of :: "db \<Rightarrow> tup_entry \<Rightarrow> tup_entry option" where
  "parent_of d e = (if dt e = 0 then None else map_of (node_tbl d) (dt e))"

definition upd_row :: "tupid \<Rightarrow> (tup_entry \<Rightarrow> tup_entry) \<Rightarrow> db \<Rightarrow> db" where
  "upd_row t f d = (case map_of (node_tbl d) t of None \<Rightarrow> d | Some e \<Rightarrow> d\<lparr>node_tbl := om_put t (f e) (node_tbl d)\<rparr>)"

definition tup_db_set_type :: "db \<Rightarrow> tupid \<Rightarrow> tup_node_type \<Rightarrow> db option" where
  "tup_db_set_type d t ty = do { step d DB_SET_TYPE; Some (upd_row t (\<lambda>e. e\<lparr>ntype := ty\<rparr>) d) }"

definition tup_db_set_srcid :: "db \<Rightarrow> tupid \<Rightarrow> tupid \<Rightarrow> db option" where
  "tup_db_set_srcid d t s = do { step d DB_SET_SRCID; Some (upd_row t (\<lambda>e. e\<lparr>srcid := s\<rparr>) d) }"

definition tup_db_set_flags :: "db \<Rightarrow> tupid \<Rightarrow> string \<Rightarrow> db option" where
  "tup_db_set_flags d t flags = do { step d DB_SET_FLAGS; Some (upd_row t (\<lambda>e. e\<lparr>flags_s := flags\<rparr>) d) }"

text \<open>The statement violates the \<^verbatim>\<open>unique\<close> constraint if another row has the new directory and name.\<close>

definition tup_db_set_name :: "db \<Rightarrow> tupid \<Rightarrow> string \<Rightarrow> tupid \<Rightarrow> db option" where
  "tup_db_set_name d t new_name new_dt = do {
     tent \<leftarrow> tup_entry_find_row d t;
     if name_s tent = new_name \<and> dt tent = new_dt then Some d
     else do {
       step d DB_SET_NAME;
       if find_child d new_dt new_name \<noteq> None then None
       else Some (upd_row t (\<lambda>e. e\<lparr>name_s := new_name, dt := new_dt\<rparr>) d)}}"

definition tup_db_del_ghost_tree :: "db \<Rightarrow> tupid \<Rightarrow> db" where
  "tup_db_del_ghost_tree d t = d\<lparr>ghost_root := tupid_tree_remove (ghost_root d) t\<rparr>"

definition add_ghost :: "db \<Rightarrow> tup_entry \<Rightarrow> db" where
  "add_ghost d e = d\<lparr>ghost_root := tup_entry_add_ghost_tree (ghost_root d) e\<rparr>"

text \<open>A new entry of the cache has no sticky trees, no incoming link and no variant.\<close>

definition fresh_entry :: "tupid \<Rightarrow> db \<Rightarrow> db" where
  "fresh_entry t d = d\<lparr>tent_stickies := (tent_stickies d)(t := []), tent_group_stickies := (tent_group_stickies d)(t := []),
     retrieved_stickies := (retrieved_stickies d)(t := 0), tent_incoming := (tent_incoming d)(t := None),
     tent_variant := (tent_variant d)(t := None)\<rparr>"

definition tup_db_node_insert_tent_display :: "host \<Rightarrow> db \<Rightarrow> tupid \<Rightarrow> string \<Rightarrow> string option \<Rightarrow> string \<Rightarrow> tup_node_type
    \<Rightarrow> timespec \<Rightarrow> tupid \<Rightarrow> (db \<times> tup_entry) option" where
  "tup_db_node_insert_tent_display h d dtent nm display flags ty ms src = do {
     step d DB_NODE_INSERT;
     if find_child d dtent nm \<noteq> None then None
     else do {
       let t = new_rowid h d;
       let e = \<lparr>tnode_tupid = t, dt = dtent, ntype = ty, mtime = ms, srcid = src, name_s = nm, flags_s = flags, display_s = display\<rparr>;
       let d1 = d\<lparr>node_tbl := om_put t e (node_tbl d)\<rparr>;
       d2 \<leftarrow> (if ty = TUP_NODE_CMD then tup_db_add_modify_list d1 t else Some d1);
       if dtent = local_exclusion_dt d \<and> \<not> regex_ok h nm then None
       else if dtent \<noteq> 0 \<and> map_of (node_tbl d) dtent = None then None
       else Some ((fresh_entry t d2)\<lparr>expected_changes := expected_changes d2 + 1\<rparr>, e)}}"

definition tup_db_node_insert_tent :: "host \<Rightarrow> db \<Rightarrow> tupid \<Rightarrow> string \<Rightarrow> tup_node_type \<Rightarrow> timespec \<Rightarrow> tupid \<Rightarrow> (db \<times> tup_entry) option" where
  "tup_db_node_insert_tent h d dtent nm ty ms src = tup_db_node_insert_tent_display h d dtent nm None [] ty ms src"

definition node_insert :: "host \<Rightarrow> db \<Rightarrow> tupid \<Rightarrow> string \<Rightarrow> string option \<Rightarrow> string \<Rightarrow> tup_node_type
    \<Rightarrow> timespec \<Rightarrow> tupid \<Rightarrow> (db \<times> tup_entry) option" where
  "node_insert h d dtent nm display flags ty ms src = do {
     (d1, e) \<leftarrow> tup_db_node_insert_tent_display h d dtent nm display flags ty ms src;
     if ty = TUP_NODE_DIR \<and> \<not> is_virtual_tent e
     then do { d2 \<leftarrow> tup_db_add_create_list d1 (tnode_tupid e); Some (d2, e) }
     else Some (d1, e)}"

text \<open>The rows are pushed on the head of a list: the last one of the query comes first.\<close>

definition get_dir_entries :: "db \<Rightarrow> tupid \<Rightarrow> (tupid \<times> tup_node_type) list option" where
  "get_dir_entries d t = do {
     step d DB_GET_DIR_ENTRIES;
     Some (rev (map (\<lambda>(i, e). (i, ntype e)) (filter (\<lambda>(_, e). dt e = t) (node_tbl d))))}"

section \<open>Deleting a node\<close>

definition node_has_ghosts :: "db \<Rightarrow> tupid \<Rightarrow> bool option" where
  "node_has_ghosts d t = do {
     step d DB_NODE_HAS_GHOSTS;
     Some (\<exists>(_, e) \<in> set (node_tbl d). dt e = t \<or> srcid e = t)}"

definition rm_generated_dir :: "host \<Rightarrow> tup_entry \<Rightarrow> unit option" where
  "rm_generated_dir h tent =
     (if ntype tent = TUP_NODE_GENERATED_DIR \<and> \<not> rmdir_ok h (tnode_tupid tent) then None else Some ())"

text \<open>The entry leaves the cache and the ghosts to check; it is an error if the cache holds entries below it.\<close>

definition tup_entry_rm :: "db \<Rightarrow> tupid \<Rightarrow> db option" where
  "tup_entry_rm d t =
     (if \<exists>(_, e) \<in> set (node_tbl d). dt e = t then None
      else Some (fresh_entry t (tup_db_del_ghost_tree d t)))"

definition delete_node :: "db \<Rightarrow> tupid \<Rightarrow> db option" where
  "delete_node d t = do {
     d1 \<leftarrow> tup_entry_rm d t;
     step d1 DB_DELETE_NODE;
     Some (d1\<lparr>node_tbl := om_del t (node_tbl d1)\<rparr>)}"

text \<open>The directory that created the node may have to be removed too.\<close>

definition ghost_of_srcid :: "db \<Rightarrow> tup_entry \<Rightarrow> db option" where
  "ghost_of_srcid d tent =
     (if srcid tent \<ge> 0 then do { srctent \<leftarrow> tup_entry_find_row d (srcid tent); Some (add_ghost d srctent) } else Some d)"

definition make_ghost :: "db \<Rightarrow> tup_entry \<Rightarrow> tupid \<Rightarrow> db option" where
  "make_ghost d tent t = do {
     d1 \<leftarrow> (if ntype tent = TUP_NODE_DIR then tup_db_add_create_list d t else Some d);
     d2 \<leftarrow> tup_db_set_type d1 t TUP_NODE_GHOST;
     tup_db_set_srcid d2 t (-1)}"

text \<open>The parent of the root of the tree is NULL and is dereferenced.\<close>

definition drop_node :: "host \<Rightarrow> db \<Rightarrow> tup_entry \<Rightarrow> tupid \<Rightarrow> db option" where
  "drop_node h d tent t = do {
     rm_generated_dir h tent;
     d1 \<leftarrow> delete_node d t;
     parent \<leftarrow> parent_of d tent;
     Some (add_ghost d1 parent)}"

definition tup_db_delete_node :: "host \<Rightarrow> db \<Rightarrow> tupid \<Rightarrow> db option" where
  "tup_db_delete_node h d t = do {
     tent \<leftarrow> tup_entry_find_row d t;
     d1 \<leftarrow> ghost_of_srcid d tent;
     rc \<leftarrow> node_has_ghosts d1 t;
     if rc then make_ghost d1 tent t else drop_node h d1 tent t}"

definition delete_name_file :: "host \<Rightarrow> db \<Rightarrow> tupid \<Rightarrow> db option" where
  "delete_name_file h d t = do {
     d1 \<leftarrow> tup_db_unflag_config d t;
     d2 \<leftarrow> tup_db_unflag_create d1 t;
     d3 \<leftarrow> tup_db_unflag_modify d2 t;
     d4 \<leftarrow> tup_db_unflag_variant d3 t;
     d5 \<leftarrow> tup_db_unflag_transient d4 t;
     d6 \<leftarrow> tup_db_delete_links d5 t;
     tup_db_delete_node h d6 t}"

section \<open>Variants\<close>

definition variant_search :: "db \<Rightarrow> tupid \<Rightarrow> variant option" where
  "variant_search d t = find (\<lambda>v. v_dtnode v = t) (variants d)"

definition variant_rm :: "host \<Rightarrow> db \<Rightarrow> variant \<Rightarrow> db option" where
  "variant_rm h d v =
     (if unlink_ok h v
      then Some (d\<lparr>variants := remove1 v (variants d), disabled_variants := v\<lparr>v_enabled := False\<rparr> # disabled_variants d\<rparr>)
      else None)"

text \<open>The variant that a cached pointer leads to.\<close>

definition variant_at :: "db \<Rightarrow> tupid \<Rightarrow> variant option" where
  "variant_at d c = find (\<lambda>v. v_tnode v = c) (variants d @ disabled_variants d)"

text \<open>The walk to the parents ends after as many steps as there are rows.\<close>

fun variant_up :: "nat \<Rightarrow> db \<Rightarrow> tup_entry \<Rightarrow> tupid option \<times> db" where
  "variant_up 0 d tent = (None, d)"
| "variant_up (Suc k) d tent =
     (let t = tnode_tupid tent in
      if tent_variant d t \<noteq> None then (tent_variant d t, d)
      else (case variant_search d t of
          Some v \<Rightarrow> (Some (v_tnode v), d\<lparr>tent_variant := (tent_variant d)(t := Some (v_tnode v))\<rparr>)
        | None \<Rightarrow> (case parent_of d tent of
              None \<Rightarrow> (None, d)
            | Some p \<Rightarrow> (let (r, d1) = variant_up k d p in (r, d1\<lparr>tent_variant := (tent_variant d1)(t := r)\<rparr>)))))"

definition tup_entry_variant_null :: "db \<Rightarrow> tup_entry \<Rightarrow> variant option \<times> db" where
  "tup_entry_variant_null d tent =
     (let (r, d1) = variant_up (Suc (length (node_tbl d))) d tent in
      (case r of None \<Rightarrow> None | Some c \<Rightarrow> variant_at d c, d1))"

end
