(* ===== verification/Name_File.thy ===== *)
theory Name_File
  imports Db_Nodes
begin

text \<open>
  What a change of a file does to the database (\<^verbatim>\<open>src/src/tup/create_name_file.c\<close> and the functions of
  \<^verbatim>\<open>db.c\<close> that it calls and that call it): creation, modification and deletion of files and directories with the flags
  that follow, creation of a node over an old one, and the lookup of the directory of a path.  Messages are not
  modelled, nor the callback that removes the watch of a directory.
\<close>

section \<open>Deleting a file or a directory\<close>

definition TUP_CONFIG :: string where
  "TUP_CONFIG = ''tup.config''"

definition VARIANT_SRCDIR_REMOVED :: tupid where
  "VARIANT_SRCDIR_REMOVED = -2"

definition check_rm_tup_config :: "db \<Rightarrow> tup_entry \<Rightarrow> (db \<times> bool) option" where
  "check_rm_tup_config d tent =
     (if name_s tent = TUP_CONFIG then do {
        d1 \<leftarrow> tup_db_set_type d (tnode_tupid tent) TUP_NODE_GHOST;
        d2 \<leftarrow> tup_db_add_config_list d1 (tnode_tupid tent);
        Some (d2, True)}
      else Some (d, False))"

text \<open>The directory of a variant that stands for a directory of the source tree; the walk ends at the top.\<close>

fun get_variant_tent :: "nat \<Rightarrow> db \<Rightarrow> variant \<Rightarrow> tup_entry \<Rightarrow> tup_entry option" where
  "get_variant_tent 0 d v srctent = None"
| "get_variant_tent (Suc k) d v srctent =
     (if tnode_tupid srctent = DOT_DT then map_of (node_tbl d) (v_dtnode v)
      else (case parent_of d srctent of None \<Rightarrow> None | Some p \<Rightarrow>
        (case get_variant_tent k d v p of None \<Rightarrow> None | Some q \<Rightarrow>
          (case node_select d (tnode_tupid q) (name_s srctent) of None \<Rightarrow> None | Some r \<Rightarrow> r))))"

fun mark_variants :: "variant list \<Rightarrow> tup_entry \<Rightarrow> db \<Rightarrow> db option" where
  "mark_variants [] tent d = Some d"
| "mark_variants (v # vs) tent d =
     (if v_root v then mark_variants vs tent d
      else (case get_variant_tent (Suc (length (node_tbl d))) d v tent of
          None \<Rightarrow> mark_variants vs tent d
        | Some vt \<Rightarrow> do { d1 \<leftarrow> tup_db_set_srcid d (tnode_tupid vt) VARIANT_SRCDIR_REMOVED; mark_variants vs tent d1 }))"

text \<open>The part for a directory, after everything below it is deleted.  The parent of the top directory is NULL and is dereferenced.\<close>

definition src_dir_flags :: "db \<Rightarrow> tup_entry \<Rightarrow> db option" where
  "src_dir_flags d tent = do {
     tuptent \<leftarrow> node_select d (tnode_tupid tent) ''Tupfile'';
     d1 \<leftarrow> (case tuptent of None \<Rightarrow> Some d | Some e \<Rightarrow> tup_db_set_dependent_dir_flags d (tnode_tupid e));
     d2 \<leftarrow> mark_variants (variants d1) tent d1;
     parent \<leftarrow> parent_of d2 tent;
     if ntype parent = TUP_NODE_DIR then tup_db_add_create_list d2 (dt tent) else Some d2}"

definition del_dir_flags :: "db \<Rightarrow> tupid \<Rightarrow> bool \<Rightarrow> db option" where
  "del_dir_flags d t force = do {
     tent \<leftarrow> tup_entry_find_row d t;
     let (variant, d1) = tup_entry_variant_null d tent;
     case variant of
       Some v \<Rightarrow>
         if \<not> v_root v
         then (if v_enabled v \<and> \<not> force then tup_db_maybe_add_create_list d1 (srcid tent) else Some d1)
         else src_dir_flags d1 tent
     | None \<Rightarrow> src_dir_flags d1 tent}"

text \<open>A generated file that is missing stays; the result says whether the caller is told of a modification.\<close>

definition del_generated :: "db \<Rightarrow> tup_entry \<Rightarrow> (db \<times> bool) option" where
  "del_generated d tent =
     (if name_s tent = ''.gitignore'' then do { d1 \<leftarrow> tup_db_add_create_list d (dt tent); Some (d1, False) }
      else do {
        (d1, changed) \<leftarrow> tup_db_modify_cmds_by_output d (tnode_tupid tent);
        d2 \<leftarrow> tup_db_unflag_modify d1 (tnode_tupid tent);
        Some (d2, \<not> is_transient_tent tent \<and> changed = 1)})"

definition del_finish :: "host \<Rightarrow> db \<Rightarrow> tup_entry \<Rightarrow> tup_node_type \<Rightarrow> bool \<Rightarrow> (db \<times> bool) option" where
  "del_finish h d tent ty force = do {
     let t = tnode_tupid tent;
     d1 \<leftarrow> (if ty = TUP_NODE_FILE \<or> ty = TUP_NODE_DIR then tup_db_set_dependent_flags d t else Some d);
     d2 \<leftarrow> (if ty = TUP_NODE_FILE \<or> ty = TUP_NODE_GENERATED then do {
            d3 \<leftarrow> tup_db_modify_cmds_by_input d1 t;
            if \<not> force then tup_db_add_create_list d3 (dt tent) else Some d3}
          else Some d1);
     d4 \<leftarrow> delete_name_file h d2 t;
     Some (d4, True)}"

fun run_each :: "('a \<Rightarrow> 's \<Rightarrow> 's run) \<Rightarrow> 'a list \<Rightarrow> 's \<Rightarrow> 's run" where
  "run_each f [] s = ret s"
| "run_each f (x # xs) s = seq (f x s) (run_each f xs)"

type_synonym deleter = "db \<Rightarrow> tupid \<Rightarrow> tup_node_type \<Rightarrow> bool \<Rightarrow> (db \<times> bool) run"

definition quiet_del :: "deleter \<Rightarrow> tupid \<Rightarrow> tup_node_type \<Rightarrow> bool \<Rightarrow> db \<Rightarrow> db run" where
  "quiet_del del t ty force d = seq (del d t ty force) (\<lambda>(d1, _). ret d1)"

text \<open>\<open>del\<close> is \<^verbatim>\<open>tup_del_id_type\<close>, called for everything in the directory.\<close>

definition tup_db_delete_dir :: "deleter \<Rightarrow> db \<Rightarrow> tupid \<Rightarrow> bool \<Rightarrow> db run" where
  "tup_db_delete_dir del d t force =
     seq (Some (tup_db_set_srcid_dir_flags d t)) (\<lambda>d1.
     seq (Some (get_dir_entries d1 t)) (\<lambda>subdirs.
     run_each (\<lambda>(i, ty). quiet_del del i ty (if ty = TUP_NODE_DIR then force else True)) subdirs d1))"

definition flag_forced_dir :: "db \<Rightarrow> tupid \<Rightarrow> db option" where
  "flag_forced_dir d t = do {
     tent \<leftarrow> tup_entry_find_row d t;
     d1 \<leftarrow> tup_db_set_srcid_dir_flags d (tnode_tupid tent);
     d2 \<leftarrow> tup_db_set_type d1 t TUP_NODE_GHOST;
     Some (add_ghost d2 (tent\<lparr>ntype := TUP_NODE_GHOST\<rparr>))}"

definition tup_db_flag_generated_dir :: "deleter \<Rightarrow> db \<Rightarrow> tupid \<Rightarrow> bool \<Rightarrow> db run" where
  "tup_db_flag_generated_dir del d t force =
     seq (Some (if force then flag_forced_dir d t else Some d)) (\<lambda>d1.
     seq (Some (get_dir_entries d1 t)) (\<lambda>subdirs.
     run_each (\<lambda>(i, ty). quiet_del del i ty force) subdirs d1))"

primrec tup_del_id_type :: "nat \<Rightarrow> host \<Rightarrow> deleter" where
  "tup_del_id_type 0 h = (\<lambda>d t ty force. None)"
| "tup_del_id_type (Suc n) h = (\<lambda>d t ty force.
     seq (Some (tup_entry_find_row d t)) (\<lambda>tent.
     seq (Some (check_rm_tup_config d tent)) (\<lambda>(d1, dont_delete).
     if dont_delete then ret (d1, False)
     else if ty = TUP_NODE_GHOST then ret (d1, False)
     else if ty = TUP_NODE_GROUP then ret (d1, False)
     else if ty = TUP_NODE_GENERATED_DIR
     then seq (tup_db_flag_generated_dir (tup_del_id_type n h) d1 t force) (\<lambda>d2. ret (d2, False))
     else if ty = TUP_NODE_DIR
     then seq (tup_db_delete_dir (tup_del_id_type n h) d1 t force) (\<lambda>d2.
          seq (Some (del_dir_flags d2 t force)) (\<lambda>d3. Some (del_finish h d3 tent ty force)))
     else if ty = TUP_NODE_GENERATED \<and> \<not> force then Some (del_generated d1 tent)
     else Some (del_finish h d1 tent ty force))))"

text \<open>Directories are nested at most as deeply as there are rows.\<close>

definition tup_del_id :: "host \<Rightarrow> deleter" where
  "tup_del_id h d t ty force = tup_del_id_type (Suc (length (node_tbl d))) h d t ty force"

definition tup_del_id_force :: "host \<Rightarrow> db \<Rightarrow> tupid \<Rightarrow> tup_node_type \<Rightarrow> db run" where
  "tup_del_id_force h d t ty = quiet_del (tup_del_id h) t ty True d"

section \<open>Creating a node\<close>

text \<open>
  The name is passed with its length, \<open>None\<close> for \<^verbatim>\<open>-1\<close>; the text may go on after it.  The result holds the id of
  the node and whether the caller is told that it changed.
\<close>

definition ghost_to_node :: "host \<Rightarrow> db \<Rightarrow> tup_entry \<Rightarrow> tup_node_type \<Rightarrow> tupid \<Rightarrow> (db \<times> tupid \<times> bool) option" where
  "ghost_to_node h d tent ty src = do {
     let t = tnode_tupid tent;
     d1 \<leftarrow> (if ty = TUP_NODE_VAR then tup_db_add_create_list d t
           else if ty = TUP_NODE_GENERATED then do {
             d2 \<leftarrow> tup_db_set_dependent_dir_flags d t;
             d3 \<leftarrow> tup_db_modify_cmds_by_input d2 t;
             tup_db_delete_links d3 t}
           else Some d);
     d4 \<leftarrow> (if ty \<noteq> TUP_NODE_GHOST then do {
             d5 \<leftarrow> tup_db_add_modify_list d1 t;
             d6 \<leftarrow> tup_db_set_type d5 t ty;
             tup_db_set_srcid d6 t src}
           else Some d1);
     d7 \<leftarrow> (case variant_search d4 t of None \<Rightarrow> Some d4 | Some v \<Rightarrow> variant_rm h d4 v);
     Some (d7, t, ty \<noteq> TUP_NODE_GHOST)}"

definition same_node :: "db \<Rightarrow> tup_entry \<Rightarrow> string \<Rightarrow> string option \<Rightarrow> string \<Rightarrow> tupid \<Rightarrow> (db \<times> tupid \<times> bool) option" where
  "same_node d tent nm display flags src = do {
     let t = tnode_tupid tent;
     d1 \<leftarrow> (if src \<noteq> -1 \<and> srcid tent \<noteq> src then tup_db_set_srcid d t src else Some d);
     d2 \<leftarrow> (if nm \<noteq> name_s tent then tup_db_set_name d1 t nm (dt tent) else Some d1);
     if case_option [] id (display_s tent) \<noteq> case_option [] id display then None
     else do {
       d3 \<leftarrow> (if flags_s tent \<noteq> flags then tup_db_set_flags d2 t flags else Some d2);
       Some (d3, t, nm \<noteq> name_s tent)}}"

primrec create_node_part_display :: "nat \<Rightarrow> host \<Rightarrow> db \<Rightarrow> tupid \<Rightarrow> string \<Rightarrow> nat option \<Rightarrow> string option \<Rightarrow> string
    \<Rightarrow> tup_node_type \<Rightarrow> tupid \<Rightarrow> (db \<times> tupid \<times> bool) run" where
  "create_node_part_display 0 h = (\<lambda>d dtent nm namelen display flags ty src. None)"
| "create_node_part_display (Suc n) h = (\<lambda>d dtent nm namelen display flags ty src.
     let key = (case namelen of None \<Rightarrow> nm | Some k \<Rightarrow> take k nm) in
     seq (Some (node_select d dtent key)) (\<lambda>r. case r of
       Some tent \<Rightarrow>
         if ntype tent = TUP_NODE_GHOST then Some (ghost_to_node h d tent ty src)
         else if ntype tent \<noteq> ty \<and> \<not> (ntype tent = TUP_NODE_GENERATED_DIR \<and> ty = TUP_NODE_DIR)
         then seq (tup_del_id_force h d (tnode_tupid tent) (ntype tent)) (\<lambda>d1.
              create_node_part_display n h d1 dtent nm namelen display flags ty src)
         else Some (same_node d tent nm display flags src)
     | None \<Rightarrow> Some (do {
         (d1, e) \<leftarrow> node_insert h d dtent key display flags ty INVALID_MTIME src;
         Some (d1, tnode_tupid e, True)})))"

text \<open>After one deletion the node is gone or a ghost, so two calls are enough, except for a group.\<close>

definition tup_db_create_node_part_display where
  "tup_db_create_node_part_display h = create_node_part_display 2 h"

definition tup_db_create_node_part where
  "tup_db_create_node_part h d dtent nm len ty src = tup_db_create_node_part_display h d dtent nm len None [] ty src"

definition tup_db_create_node where
  "tup_db_create_node h d dtent nm ty = tup_db_create_node_part h d dtent nm None ty (-1)"

definition tup_db_create_node_srcid where
  "tup_db_create_node_srcid h d dtent nm ty src = tup_db_create_node_part h d dtent nm None ty src"

text \<open>A new command; the result is the id.\<close>

definition create_command_file :: "host \<Rightarrow> db \<Rightarrow> tupid \<Rightarrow> string \<Rightarrow> string option \<Rightarrow> string \<Rightarrow> (db \<times> tupid) run" where
  "create_command_file h d t cmd display flags =
     seq (Some (tup_entry_find_row d t)) (\<lambda>dtent.
     seq (tup_db_create_node_part_display h d (tnode_tupid dtent) cmd None display flags TUP_NODE_CMD (-1)) (\<lambda>(d1, i, _). ret (d1, i)))"

section \<open>Created and modified files\<close>

text \<open>Generated directories above a new file become normal ones; the walk to the top ends.\<close>

fun make_dirs_normal :: "nat \<Rightarrow> db \<Rightarrow> tup_entry option \<Rightarrow> db option" where
  "make_dirs_normal k d None = Some d"
| "make_dirs_normal 0 d (Some dtent) = None"
| "make_dirs_normal (Suc k) d (Some dtent) =
     (if ntype dtent = TUP_NODE_GENERATED_DIR then do {
        d1 \<leftarrow> tup_db_set_type d (tnode_tupid dtent) TUP_NODE_DIR;
        let d2 = tup_db_del_ghost_tree d1 (tnode_tupid dtent);
        make_dirs_normal k d2 (parent_of d2 dtent)}
      else do {
        gitignore_tent \<leftarrow> node_select d (tnode_tupid dtent) ''.gitignore'';
        Some (case gitignore_tent of None \<Rightarrow> d | Some g \<Rightarrow>
          if ntype g = TUP_NODE_GENERATED then (case tup_db_add_create_list d (dt g) of None \<Rightarrow> d | Some d1 \<Rightarrow> d1) else d)})"

definition create_name_file :: "host \<Rightarrow> db \<Rightarrow> tupid \<Rightarrow> string \<Rightarrow> timespec \<Rightarrow> (db \<times> tupid) option" where
  "create_name_file h d t file ms = do {
     dtent \<leftarrow> tup_entry_find_row d t;
     (d1, e) \<leftarrow> tup_db_node_insert_tent h d t file TUP_NODE_FILE ms (-1);
     d2 \<leftarrow> tup_db_add_create_list d1 t;
     d3 \<leftarrow> make_dirs_normal (Suc (length (node_tbl d2))) d2 (Some dtent);
     Some (d3, tnode_tupid e)}"

definition ghost_to_file :: "db \<Rightarrow> tup_entry \<Rightarrow> db option" where
  "ghost_to_file d tent = do {
     let d1 = tup_db_del_ghost_tree d (tnode_tupid tent);
     d2 \<leftarrow> tup_db_set_type d1 (tnode_tupid tent) TUP_NODE_FILE;
     parent \<leftarrow> parent_of d2 tent;
     d3 \<leftarrow> (if ntype parent = TUP_NODE_DIR then tup_db_add_create_list d2 (dt tent) else Some d2);
     tup_db_add_modify_list d3 (tnode_tupid tent)}"

text \<open>The node is made a file; the result says whether it is new.\<close>

definition overwrite_node :: "host \<Rightarrow> db \<Rightarrow> tupid \<Rightarrow> string \<Rightarrow> timespec \<Rightarrow> tup_entry \<Rightarrow> (db \<times> tupid \<times> bool) run" where
  "overwrite_node h d dtid file ms tent =
     (if ntype tent = TUP_NODE_GHOST
      then Some (do { d1 \<leftarrow> ghost_to_file d tent; Some (d1, tnode_tupid tent, False) })
      else if ntype tent \<noteq> TUP_NODE_FILE \<and> ntype tent \<noteq> TUP_NODE_GENERATED
      then seq (tup_del_id_force h d (tnode_tupid tent) (ntype tent)) (\<lambda>d1.
           seq (Some (node_select d1 dtid file)) (\<lambda>r. case r of
             None \<Rightarrow> Some (do { (d2, t) \<leftarrow> create_name_file h d1 dtid file ms; Some (d2, t, True) })
           | Some e \<Rightarrow>
               if ntype e = TUP_NODE_GHOST
               then Some (do { d2 \<leftarrow> ghost_to_file d1 e; Some (d2, tnode_tupid e, False) })
               else Some None))
      else ret (d, tnode_tupid tent, False))"

definition flag_changed :: "db \<Rightarrow> tupid \<Rightarrow> timespec \<Rightarrow> db option" where
  "flag_changed d t ms = do {
     tent \<leftarrow> tup_entry_find_row d t;
     d1 \<leftarrow> (if ntype tent = TUP_NODE_GENERATED then map_option fst (tup_db_modify_cmds_by_output d t) else Some d);
     d2 \<leftarrow> tup_db_add_modify_list d1 t;
     d3 \<leftarrow> tup_db_set_dependent_flags d2 t;
     if mtime tent \<noteq> ms then tup_db_set_mtime d3 t ms else Some d3}"

definition note_file :: "db \<Rightarrow> tupid \<Rightarrow> tupid \<Rightarrow> string \<Rightarrow> db option" where
  "note_file d dtid t file = do {
     d1 \<leftarrow> (if file = TUP_CONFIG then tup_db_add_config_list d t else Some d);
     if file = ''.tupignore'' then tup_db_add_create_list d1 dtid else Some d1}"

text \<open>The result holds the id of the file and whether \<^verbatim>\<open>*modified\<close> was set.\<close>

definition tup_file_mod_mtime :: "host \<Rightarrow> db \<Rightarrow> tupid \<Rightarrow> string \<Rightarrow> timespec \<Rightarrow> bool \<Rightarrow> bool \<Rightarrow> (db \<times> tupid \<times> bool) run" where
  "tup_file_mod_mtime h d dtid file ms force ignore_generated =
     seq (Some (tup_entry_find_row d dtid)) (\<lambda>dtent.
     seq (Some (node_select d dtid file)) (\<lambda>r. case r of
       None \<Rightarrow> Some (do {
         (d1, t) \<leftarrow> create_name_file h d dtid file ms;
         d2 \<leftarrow> note_file d1 dtid t file;
         Some (d2, t, True)})
     | Some tent \<Rightarrow>
         let force1 = (if ignore_generated \<and> ntype tent = TUP_NODE_GENERATED then False else force);
             changed = (mtime tent \<noteq> ms \<or> force1) in
         seq (overwrite_node h d dtid file ms tent) (\<lambda>(d1, t, new).
         seq (Some (if changed then flag_changed d1 t ms else Some d1)) (\<lambda>d2.
         seq (Some (if new \<or> changed then note_file d2 dtid t file else Some d2)) (\<lambda>d3.
         ret (d3, t, new \<or> changed))))))"

section \<open>Missing files\<close>

definition tup_file_del :: "host \<Rightarrow> db \<Rightarrow> tupid \<Rightarrow> string \<Rightarrow> nat option \<Rightarrow> (db \<times> bool) run" where
  "tup_file_del h d dtid file len =
     (let nm = (case len of None \<Rightarrow> file | Some k \<Rightarrow> take k file) in
      seq (Some (tup_entry_find_row d dtid)) (\<lambda>dtent.
      seq (Some (node_select d dtid nm)) (\<lambda>r. case r of
        None \<Rightarrow> ret (d, False)
      | Some tent \<Rightarrow>
          seq (Some (if nm = ''.gitignore'' \<or> nm = ''.tupignore'' then tup_db_add_create_list d dtid else Some d)) (\<lambda>d1.
          tup_del_id h d1 (tnode_tupid tent) (ntype tent) False))))"

definition tup_file_missing :: "host \<Rightarrow> db \<Rightarrow> tup_entry \<Rightarrow> db run" where
  "tup_file_missing h d tent =
     (let (variant, d1) = tup_entry_variant_null d tent;
          force = (case variant of None \<Rightarrow> False | Some v \<Rightarrow> \<not> v_root v \<and> v_dtnode v = tnode_tupid tent) in
      quiet_del (tup_del_id h) (tnode_tupid tent) (ntype tent) force d1)"

section \<open>The directory of a path\<close>

datatype sotgv = SOTGV_NO_GHOST | SOTGV_CREATE_GHOSTS | SOTGV_CREATE_DIRS | SOTGV_IGNORE_DIRS

definition EXTERNAL_DIRECTORY_MTIME :: timespec where
  "EXTERNAL_DIRECTORY_MTIME = \<lparr>tv_sec = 0, tv_nsec = 0\<rparr>"

definition get_outside_tup_mtime :: "host \<Rightarrow> tupid \<Rightarrow> string \<Rightarrow> timespec option" where
  "get_outside_tup_mtime h parent pel = (case open_dir h parent of
     Open_Missing \<Rightarrow> Some INVALID_MTIME
   | Open_Error \<Rightarrow> None
   | Opened \<Rightarrow> (case stat_at h parent pel of
       Stat_Missing \<Rightarrow> Some INVALID_MTIME
     | Stat_Error \<Rightarrow> None
     | Stat_Dir \<Rightarrow> Some EXTERNAL_DIRECTORY_MTIME
     | Stat_Other ms \<Rightarrow> Some ms))"

text \<open>The directory reached, or \<open>None\<close> when the path leaves the hierarchy at its top.\<close>

fun walk_dirs :: "host \<Rightarrow> sotgv \<Rightarrow> bool \<Rightarrow> bool \<Rightarrow> string list \<Rightarrow> db \<Rightarrow> tup_entry \<Rightarrow> (db \<times> tup_entry option) option" where
  "walk_dirs h sotgv full_deps outside [] d tent = Some (d, Some tent)"
| "walk_dirs h sotgv full_deps outside (pel # pels) d tent =
     (if pel = ''..'' then
        (case parent_of d tent of
           None \<Rightarrow> Some (d, None)
         | Some p \<Rightarrow> walk_dirs h sotgv full_deps outside pels d p)
      else do {
        r \<leftarrow> node_select d (tnode_tupid tent) pel;
        case r of
          Some e \<Rightarrow>
            if sotgv = SOTGV_CREATE_DIRS then
              (if ntype e = TUP_NODE_GHOST then do {
                 d1 \<leftarrow> tup_db_set_type d (tnode_tupid e) TUP_NODE_GENERATED_DIR;
                 d2 \<leftarrow> tup_db_add_modify_list d1 (tnode_tupid e);
                 walk_dirs h sotgv full_deps outside pels d2 (e\<lparr>ntype := TUP_NODE_GENERATED_DIR\<rparr>)}
               else if ntype e \<noteq> TUP_NODE_DIR \<and> ntype e \<noteq> TUP_NODE_GENERATED_DIR then None
               else walk_dirs h sotgv full_deps outside pels d e)
            else walk_dirs h sotgv full_deps outside pels d e
        | None \<Rightarrow>
            if sotgv = SOTGV_NO_GHOST then None
            else do {
              let ty = (if sotgv = SOTGV_CREATE_DIRS then TUP_NODE_GENERATED_DIR
                        else if sotgv = SOTGV_IGNORE_DIRS \<and> \<not> outside then TUP_NODE_DIR else TUP_NODE_GHOST);
              ms \<leftarrow> (if full_deps \<and> outside then get_outside_tup_mtime h (tnode_tupid tent) pel
                     else Some \<lparr>tv_sec = -1, tv_nsec = 0\<rparr>);
              (d1, e) \<leftarrow> tup_db_node_insert_tent h d (tnode_tupid tent) pel ty ms (-1);
              walk_dirs h sotgv full_deps outside pels d1 e}})"

text \<open>
  The id of the directory, 0 for a path that is not tracked, and the last element if the caller wants it (\<open>want_last\<close>) and
  the path is not empty.
\<close>

definition find_dir_tupid_dt_pg :: "host \<Rightarrow> db \<Rightarrow> tupid \<Rightarrow> pel_group \<Rightarrow> bool \<Rightarrow> sotgv \<Rightarrow> bool \<Rightarrow> (db \<times> tupid \<times> string option) option" where
  "find_dir_tupid_dt_pg h d start pg want_last sotgv full_deps =
     (let outside = has_pg PG_OUTSIDE_TUP pg in
      if has_pg PG_HIDDEN pg then Some (d, 0, None)
      else if \<not> full_deps \<and> outside then Some (d, 0, None)
      else if path_list pg = [] then do { tup_entry_find_row d start; Some (d, start, None) }
      else do {
        let start1 = (if outside then local_slash_dt d else if has_pg PG_ROOT pg then 1 else start);
        tent \<leftarrow> tup_entry_find_row d start1;
        (d1, r) \<leftarrow> walk_dirs h sotgv full_deps outside (if want_last then butlast (path_list pg) else path_list pg) d tent;
        Some (case r of
          None \<Rightarrow> (d1, 0, None)
        | Some e \<Rightarrow> (d1, tnode_tupid e, if want_last then Some (last (path_list pg)) else None))})"

definition find_dir_tupid_dt :: "host \<Rightarrow> db \<Rightarrow> tupid \<Rightarrow> string \<Rightarrow> bool \<Rightarrow> sotgv \<Rightarrow> bool \<Rightarrow> (db \<times> tupid \<times> string option) option" where
  "find_dir_tupid_dt h d start dir want_last sotgv full_deps = do {
     pg \<leftarrow> get_path_elements (tup_top h) (Some dir);
     find_dir_tupid_dt_pg h d start pg want_last sotgv full_deps}"

text \<open>With \<^verbatim>\<open>SOTGV_NO_GHOST\<close> the database does not change.\<close>

definition get_tent_dt :: "host \<Rightarrow> db \<Rightarrow> tupid \<Rightarrow> string \<Rightarrow> tup_entry option" where
  "get_tent_dt h d start path = (case find_dir_tupid_dt h d start path True SOTGV_NO_GHOST True of
     None \<Rightarrow> None
   | Some (d1, t, pel) \<Rightarrow>
       if t \<le> 0 then None
       else (case tup_entry_find_row d1 t of None \<Rightarrow> None | Some dtent \<Rightarrow>
         (case pel of None \<Rightarrow> Some dtent
          | Some p \<Rightarrow> (case node_select d1 t p of None \<Rightarrow> None | Some r \<Rightarrow> r))))"

definition find_dir_tupid :: "host \<Rightarrow> db \<Rightarrow> string \<Rightarrow> tupid" where
  "find_dir_tupid h d dir =
     (if dir = ''0'' then 0 else if dir = ''/'' then local_slash_dt d
      else (case get_tent_dt h d DOT_DT dir of None \<Rightarrow> -1 | Some tent \<Rightarrow> tnode_tupid tent))"

definition gimme_tent :: "host \<Rightarrow> db \<Rightarrow> string \<Rightarrow> tup_entry option option" where
  "gimme_tent h d nm = do {
     (d1, t, pel) \<leftarrow> find_dir_tupid_dt h d DOT_DT nm True SOTGV_NO_GHOST True;
     if t = 0 then Some None
     else (case pel of
        None \<Rightarrow> Some (map_of (node_tbl d1) t)
      | Some p \<Rightarrow> do { tup_entry_find_row d1 t; node_select d1 t p })}"

end
