(* ===== verification/Nodes_Inv.thy ===== *)
theory Nodes_Inv
  imports Name_File
begin

text \<open>
  What every operation on the node table keeps (\<open>refs_ok\<close>): the rows form a tree with unique names, and the links and flags
  refer to existing rows.  \<open>del_rel\<close> says what a deletion may change.
\<close>

section \<open>The invariant\<close>

definition parent_rel :: "db \<Rightarrow> (tupid \<times> tupid) set" where
  "parent_rel d = {(p, t). \<exists>e. row d t = Some e \<and> dt e = p}"

definition tree_ok :: "db \<Rightarrow> bool" where
  "tree_ok d \<longleftrightarrow> acyclic (parent_rel d)
     \<and> (\<forall>t e t' e'. row d t = Some e \<longrightarrow> row d t' = Some e' \<longrightarrow> dt e = dt e' \<longrightarrow> name_s e = name_s e' \<longrightarrow> t = t')
     \<and> (\<forall>t e. row d t = Some e \<longrightarrow> (dt e = 0 \<or> row d (dt e) \<noteq> None) \<and> (srcid e < 0 \<or> row d (srcid e) \<noteq> None)
          \<and> (ntype e = TUP_NODE_GROUP \<longrightarrow> name_s e \<noteq> TUP_CONFIG))"

definition known :: "db \<Rightarrow> tupid set" where
  "known d = insert 0 {t. row d t \<noteq> None}"

definition group_cmds :: "db \<Rightarrow> tupid set" where
  "group_cmds d = (\<lambda>(_, _, c). c) ` set (group_link d)"

definition flags_known :: "db \<Rightarrow> bool" where
  "flags_known d \<longleftrightarrow> set (config_list d) \<union> set (create_list d) \<union> set (modify_list d) \<union> set (variant_list d)
     \<union> set (transient_list d) \<union> group_cmds d \<subseteq> known d"

definition refs_ok :: "db \<Rightarrow> bool" where
  "refs_ok d \<longleftrightarrow> db_ok d \<and> tree_ok d \<and> flags_known d"

lemma refs_okD:
  assumes "refs_ok d"
  shows "db_ok d" "tree_ok d" "flags_known d" "nodes_ok d" "links_ok d (normal_link d)" "links_ok d (sticky_link d)"
  using assms db_okD [of d] by (simp_all add: refs_ok_def)

lemma tree_okD:
  assumes "tree_ok d"
  shows "acyclic (parent_rel d)"
    and "row d t = Some e \<Longrightarrow> dt e = 0 \<or> row d (dt e) \<noteq> None"
    and "row d t = Some e \<Longrightarrow> srcid e < 0 \<or> row d (srcid e) \<noteq> None"
    and "row d t = Some e \<Longrightarrow> ntype e = TUP_NODE_GROUP \<Longrightarrow> name_s e \<noteq> TUP_CONFIG"
    and "row d t = Some e \<Longrightarrow> row d t' = Some e' \<Longrightarrow> dt e = dt e' \<Longrightarrow> name_s e = name_s e' \<Longrightarrow> t = t'"
  using assms unfolding tree_ok_def by blast+

lemma dt_known: "tree_ok d \<Longrightarrow> row d t = Some e \<Longrightarrow> dt e \<in> known d"
  using tree_okD(2) [of d t e] by (auto simp: known_def)

section \<open>What a deletion may change\<close>

definition is_cmd :: "db \<Rightarrow> tupid \<Rightarrow> bool" where
  "is_cmd d c \<longleftrightarrow> (\<exists>e. row d c = Some e \<and> ntype e = TUP_NODE_CMD)"

definition fileish :: "db \<Rightarrow> tupid \<Rightarrow> bool" where
  "fileish d f \<longleftrightarrow> (\<exists>e. row d f = Some e \<and> ntype e \<in> {TUP_NODE_FILE, TUP_NODE_GENERATED, TUP_NODE_GHOST})"

text \<open>
  Outside \<open>S\<close> every row keeps its place and type, inside it can disappear or become a ghost; a command that is left keeps its
  flag, and it keeps its links from files or is flagged.
\<close>

definition del_rel :: "tupid set \<Rightarrow> db \<Rightarrow> db \<Rightarrow> bool" where
  "del_rel S d d' \<longleftrightarrow>
     (\<forall>t e. t \<notin> S \<longrightarrow> row d t = Some e \<longrightarrow> row d' t \<noteq> None)
     \<and> (\<forall>t e'. row d' t = Some e' \<longrightarrow> (\<exists>e. row d t = Some e \<and> dt e' = dt e \<and> name_s e' = name_s e
          \<and> (ntype e' = ntype e \<or> t \<in> S \<and> ntype e' = TUP_NODE_GHOST)))
     \<and> (\<forall>c. is_cmd d' c \<longrightarrow> c \<in> set (modify_list d) \<longrightarrow> c \<in> set (modify_list d'))
     \<and> (\<forall>f c. (f, c) \<in> set (normal_link d) \<longrightarrow> fileish d f \<longrightarrow> is_cmd d' c
          \<longrightarrow> (f, c) \<in> set (normal_link d') \<or> c \<in> set (modify_list d'))"

lemma del_relI:
  assumes "\<And>t e. t \<notin> S \<Longrightarrow> row d t = Some e \<Longrightarrow> row d' t \<noteq> None"
    and "\<And>t e'. row d' t = Some e' \<Longrightarrow> \<exists>e. row d t = Some e \<and> dt e' = dt e \<and> name_s e' = name_s e
          \<and> (ntype e' = ntype e \<or> t \<in> S \<and> ntype e' = TUP_NODE_GHOST)"
    and "\<And>c. is_cmd d' c \<Longrightarrow> c \<in> set (modify_list d) \<Longrightarrow> c \<in> set (modify_list d')"
    and "\<And>f c. (f, c) \<in> set (normal_link d) \<Longrightarrow> fileish d f \<Longrightarrow> is_cmd d' c
          \<Longrightarrow> (f, c) \<in> set (normal_link d') \<or> c \<in> set (modify_list d')"
  shows "del_rel S d d'"
  unfolding del_rel_def using assms by blast

lemma del_relD:
  assumes "del_rel S d d'"
  shows "t \<notin> S \<Longrightarrow> row d t = Some e \<Longrightarrow> row d' t \<noteq> None"
    and "row d' t = Some e' \<Longrightarrow> \<exists>e. row d t = Some e \<and> dt e' = dt e \<and> name_s e' = name_s e
          \<and> (ntype e' = ntype e \<or> t \<in> S \<and> ntype e' = TUP_NODE_GHOST)"
    and "is_cmd d' c \<Longrightarrow> c \<in> set (modify_list d) \<Longrightarrow> c \<in> set (modify_list d')"
    and "(f, c) \<in> set (normal_link d) \<Longrightarrow> fileish d f \<Longrightarrow> is_cmd d' c
          \<Longrightarrow> (f, c) \<in> set (normal_link d') \<or> c \<in> set (modify_list d')"
  using assms unfolding del_rel_def by blast+

lemma del_rel_refl [simp]: "del_rel S d d"
  by (rule del_relI) auto

lemma del_rel_mono: "del_rel S d d' \<Longrightarrow> S \<subseteq> S' \<Longrightarrow> del_rel S' d d'"
  unfolding del_rel_def by (elim conjE, intro conjI) (blast | assumption)+

lemma del_rel_cmd: "del_rel S d d' \<Longrightarrow> is_cmd d' c \<Longrightarrow> is_cmd d c"
  using del_relD(2) [of S d d' c] by (fastforce simp: is_cmd_def)

lemma del_rel_fileish: "del_rel S d d' \<Longrightarrow> row d' f \<noteq> None \<Longrightarrow> fileish d f \<Longrightarrow> fileish d' f"
  using del_relD(2) [of S d d' f] by (fastforce simp: fileish_def)

lemma del_rel_trans:
  assumes 1: "del_rel S d d'" and 2: "del_rel S' d' d''" and ok: "refs_ok d'"
  shows "del_rel (S \<union> S') d d''"
proof (rule del_relI)
  fix t e assume "t \<notin> S \<union> S'" "row d t = Some e"
  then show "row d'' t \<noteq> None" using del_relD(1) [OF 1] del_relD(1) [OF 2] by blast
next
  fix t e'' assume "row d'' t = Some e''"
  then obtain e' where e': "row d' t = Some e'" "dt e'' = dt e'" "name_s e'' = name_s e'"
      "ntype e'' = ntype e' \<or> t \<in> S' \<and> ntype e'' = TUP_NODE_GHOST"
    using del_relD(2) [OF 2] by blast
  then obtain e where "row d t = Some e" "dt e' = dt e" "name_s e' = name_s e" "ntype e' = ntype e \<or> t \<in> S \<and> ntype e' = TUP_NODE_GHOST"
    using del_relD(2) [OF 1] by blast
  then show "\<exists>e. row d t = Some e \<and> dt e'' = dt e \<and> name_s e'' = name_s e
      \<and> (ntype e'' = ntype e \<or> t \<in> S \<union> S' \<and> ntype e'' = TUP_NODE_GHOST)" using e' by auto
next
  fix c assume "is_cmd d'' c" "c \<in> set (modify_list d)"
  then show "c \<in> set (modify_list d'')" using del_relD(3) [OF 1] del_relD(3) [OF 2] del_rel_cmd [OF 2] by blast
next
  fix f c assume fc: "(f, c) \<in> set (normal_link d)" "fileish d f" and c: "is_cmd d'' c"
  then have "(f, c) \<in> set (normal_link d') \<or> c \<in> set (modify_list d')"
    using del_relD(4) [OF 1] del_rel_cmd [OF 2] by blast
  then show "(f, c) \<in> set (normal_link d'') \<or> c \<in> set (modify_list d'')"
  proof
    assume l: "(f, c) \<in> set (normal_link d')"
    then have "row d' f \<noteq> None" using links_ok_ends refs_okD(5) [OF ok] by blast
    then show ?thesis using del_rel_fileish [OF 1 _ fc(2)] del_relD(4) [OF 2 l] c by blast
  next
    assume "c \<in> set (modify_list d')"
    then show ?thesis using del_relD(3) [OF 2 c] by blast
  qed
qed

lemma del_rel_parents: "del_rel S d d' \<Longrightarrow> parent_rel d' \<subseteq> parent_rel d"
  using del_relD(2) by (fastforce simp: parent_rel_def)

section \<open>Setting flags\<close>

text \<open>Everything that the invariant reads but the flags.\<close>

definition same_core :: "db \<Rightarrow> db \<Rightarrow> bool" where
  "same_core d d' \<longleftrightarrow> node_tbl d' = node_tbl d \<and> normal_link d' = normal_link d \<and> sticky_link d' = sticky_link d
     \<and> group_link d' = group_link d \<and> sticky_count d' = sticky_count d \<and> tent_stickies d' = tent_stickies d
     \<and> tent_group_stickies d' = tent_group_stickies d \<and> retrieved_stickies d' = retrieved_stickies d"

definition all_flags :: "db \<Rightarrow> tupid set" where
  "all_flags d = set (config_list d) \<union> set (create_list d) \<union> set (modify_list d) \<union> set (variant_list d) \<union> set (transient_list d)"

text \<open>A step that sets flags of known nodes.\<close>

definition flag_step :: "db \<Rightarrow> db \<Rightarrow> bool" where
  "flag_step d d' \<longleftrightarrow> same_core d d' \<and> all_flags d' \<subseteq> all_flags d \<union> known d \<and> set (modify_list d) \<subseteq> set (modify_list d')"

lemma flags_known_alt: "flags_known d \<longleftrightarrow> all_flags d \<subseteq> known d \<and> group_cmds d \<subseteq> known d"
  by (auto simp: flags_known_def all_flags_def)

lemma same_core_db_ok: "same_core d d' \<Longrightarrow> db_ok d \<Longrightarrow> db_ok d'"
  by (simp add: same_core_def db_ok_def nodes_ok_def links_ok_def cache_ok_def is_group_def)

lemma same_core_tree: "same_core d d' \<Longrightarrow> tree_ok d' = tree_ok d" "same_core d d' \<Longrightarrow> known d' = known d"
  "same_core d d' \<Longrightarrow> is_cmd d' c = is_cmd d c"
  by (simp_all add: same_core_def tree_ok_def parent_rel_def known_def is_cmd_def)

lemma same_core_refl [simp]: "same_core d d"
  by (simp add: same_core_def)

lemma same_core_trans: "same_core d d' \<Longrightarrow> same_core d' d'' \<Longrightarrow> same_core d d''"
  by (simp add: same_core_def)

lemma flag_step_refl [simp]: "flag_step d d"
  by (simp add: flag_step_def)

lemma flag_step_trans: "flag_step d d' \<Longrightarrow> flag_step d' d'' \<Longrightarrow> flag_step d d''"
  unfolding flag_step_def using same_core_trans same_core_tree(2) by blast

lemma flag_step_ok:
  assumes "flag_step d d'" and "refs_ok d"
  shows "refs_ok d'" and "del_rel {} d d'"
proof -
  have c: "same_core d d'" and f: "all_flags d' \<subseteq> all_flags d \<union> known d" and m: "set (modify_list d) \<subseteq> set (modify_list d')"
    using assms(1) by (auto simp: flag_step_def)
  show "refs_ok d'"
    using same_core_db_ok [OF c] same_core_tree [OF c] f c assms(2) by (auto simp: refs_ok_def flags_known_alt same_core_def group_cmds_def)
  show "del_rel {} d d'"
    using c m by (intro del_relI) (auto simp: same_core_def)
qed

lemma flag_step_lists:
  assumes "set l \<subseteq> known d"
  shows "flag_step d (d\<lparr>config_list := insert_or_ignore (config_list d) l\<rparr>)"
    and "flag_step d (d\<lparr>create_list := insert_or_ignore (create_list d) l\<rparr>)"
    and "flag_step d (d\<lparr>modify_list := insert_or_ignore (modify_list d) l\<rparr>)"
  using assms by (auto simp: flag_step_def same_core_def all_flags_def)

lemma flag_step_misc:
  "flag_step d (d\<lparr>ghost_root := g\<rparr>)" "flag_step d (d\<lparr>expected_changes := n\<rparr>)" "flag_step d (d\<lparr>tent_incoming := i\<rparr>)"
  "flag_step d (d\<lparr>tent_variant := v\<rparr>)" "flag_step d (d\<lparr>variants := vs, disabled_variants := ws\<rparr>)"
  by (auto simp: flag_step_def same_core_def all_flags_def)

lemma typed_known: "set (typed_targets d t tys) \<subseteq> known d"
  by (auto simp: typed_targets_def known_def split: option.splits)

lemma row_in: "refs_ok d \<Longrightarrow> (t, e) \<in> set (node_tbl d) \<longleftrightarrow> row d t = Some e"
  using refs_okD(4) [of d] by (auto simp: nodes_ok_def om_ok_map_of_iff)

lemma row_dirs_known: "refs_ok d \<Longrightarrow> set (row_dirs d ids) \<subseteq> known d"
  using dt_known [OF refs_okD(2)] by (auto simp: row_dirs_def row_in)

lemma known_row: "row d t \<noteq> None \<Longrightarrow> t \<in> known d"
  by (simp add: known_def)

text \<open>The functions that set flags.\<close>

lemma add_flag_steps:
  "t \<in> known d \<Longrightarrow> tup_db_add_create_list d t = Some d' \<Longrightarrow> flag_step d d'"
  "t \<in> known d \<Longrightarrow> tup_db_add_config_list d t = Some d' \<Longrightarrow> flag_step d d'"
  "t \<in> known d \<Longrightarrow> tup_db_add_modify_list d t = Some d' \<Longrightarrow> flag_step d d'"
  "tup_db_set_dependent_dir_flags d t = Some d' \<Longrightarrow> flag_step d d'"
  "tup_db_set_dependent_config_flags d t = Some d' \<Longrightarrow> flag_step d d'"
  "tup_db_modify_cmds_by_input d t = Some d' \<Longrightarrow> flag_step d d'"
  using flag_step_lists [of "[t]" d] flag_step_lists [OF typed_known, of d t]
  by (auto simp: tup_db_add_create_list_def tup_db_add_config_list_def tup_db_add_modify_list_def tup_db_set_dependent_dir_flags_def
      tup_db_set_dependent_config_flags_def tup_db_modify_cmds_by_input_def split: Option.bind_splits)

lemma row_self: "nodes_ok d \<Longrightarrow> row d t = Some e \<Longrightarrow> tnode_tupid e = t \<and> 0 < t"
  using map_of_SomeD [of "node_tbl d" t e] by (fastforce simp: nodes_ok_def)

lemma maybe_create_step:
  assumes "refs_ok d" and "tup_db_maybe_add_create_list d t = Some d'"
  shows "flag_step d d'"
proof -
  have "set (map fst (filter (\<lambda>(i, e). i = t \<and> ntype e = TUP_NODE_DIR) (node_tbl d))) \<subseteq> known d"
    using row_in [OF assms(1)] by (auto simp: known_def)
  then show ?thesis using flag_step_lists(2) assms(2)
    by (auto simp: tup_db_maybe_add_create_list_def split: Option.bind_splits)
qed

lemma dependent_step: "tup_db_set_dependent_flags d t = Some d' \<Longrightarrow> flag_step d d'"
  using add_flag_steps(4,5) flag_step_trans by (fastforce simp: tup_db_set_dependent_flags_def split: Option.bind_splits)

lemma by_output_step:
  assumes "refs_ok d" and "tup_db_modify_cmds_by_output d t = Some (d', n)"
  shows "flag_step d d'"
proof -
  have "set (map fst (filter (\<lambda>(_, to_id). to_id = t) (normal_link d))) \<subseteq> known d"
    using links_ok_ends [OF refs_okD(5) [OF assms(1)]] by (auto simp: known_def)
  then show ?thesis using flag_step_lists(3) assms(2)
    by (auto simp: tup_db_modify_cmds_by_output_def Let_def split: Option.bind_splits)
qed

lemma flag_dirs_step:
  "refs_ok d \<Longrightarrow> flag_dirs ts d = Some d' \<Longrightarrow> flag_step d d'"
proof (induction ts arbitrary: d)
  case (Cons t ts)
  then obtain tent d1 where t: "tup_entry_find_row d t = Some tent" "flag_dirs ts d1 = Some d'"
    and d1: "(if ntype tent = TUP_NODE_DIR then tup_db_add_create_list d (tnode_tupid tent) else Some d) = Some d1"
    by (auto split: Option.bind_splits)
  have "row d (tnode_tupid tent) \<noteq> None" using find_row_some [OF t(1)] row_self [OF refs_okD(4) [OF Cons.prems(1)]] by simp
  then have "flag_step d d1"
    using d1 add_flag_steps(1) [OF known_row [of d "tnode_tupid tent"]] by (cases "ntype tent = TUP_NODE_DIR") simp_all
  then show ?case using Cons.IH [OF flag_step_ok(1) t(2)] Cons.prems(1) flag_step_trans by blast
qed simp

lemma srcid_dirs_step: "refs_ok d \<Longrightarrow> tup_db_set_srcid_dir_flags d t = Some d' \<Longrightarrow> flag_step d d'"
  using flag_dirs_step by (auto simp: tup_db_set_srcid_dir_flags_def split: Option.bind_splits)

lemma group_users_step:
  assumes "refs_ok d" and "flag_group_users d t = Some d'"
  shows "flag_step d d'"
proof -
  have 1: "flag_step d x" if "flag_group_users1 d t = Some x" for x
    using that flag_step_lists(2) [OF row_dirs_known [OF assms(1)]] by (auto simp: flag_group_users1_def split: Option.bind_splits)
  have 2: "flag_step x y" if "flag_group_users2 x t = Some y" "refs_ok x" for x y
    using that flag_step_lists(2) [OF row_dirs_known [of x]] by (auto simp: flag_group_users2_def split: Option.bind_splits)
  show ?thesis using assms 1 2 flag_step_ok(1) [OF 1 assms(1)] flag_step_trans
    by (auto simp: flag_group_users_def split: Option.bind_splits if_splits)
qed

section \<open>Changing rows\<close>

lemma row_upd: "row (upd_row t f d) x = (if x = t then map_option f (row d t) else row d x)"
  by (auto simp: upd_row_def split: option.split)

lemma upd_row_same [simp]:
  "normal_link (upd_row t f d) = normal_link d" "sticky_link (upd_row t f d) = sticky_link d"
  "group_link (upd_row t f d) = group_link d" "modify_list (upd_row t f d) = modify_list d"
  "all_flags (upd_row t f d) = all_flags d" "sticky_count (upd_row t f d) = sticky_count d"
  "retrieved_stickies (upd_row t f d) = retrieved_stickies d" "tent_stickies (upd_row t f d) = tent_stickies d"
  "tent_group_stickies (upd_row t f d) = tent_group_stickies d" "ghost_root (upd_row t f d) = ghost_root d"
  by (simp_all add: upd_row_def all_flags_def split: option.split)

lemma nodes_ok_upd:
  assumes "nodes_ok d" and "\<And>e. row d t = Some e \<Longrightarrow> tnode_tupid (f e) = tnode_tupid e"
  shows "nodes_ok (upd_row t f d)"
proof (cases "row d t")
  case (Some e)
  have m: "om_ok (om_put t (f e) (node_tbl d))" using assms(1) by (simp add: nodes_ok_def)
  have "tnode_tupid x = i \<and> small_tupid i \<and> 0 < i" if "(i, x) \<in> set (om_put t (f e) (node_tbl d))" for i x
  proof (cases "i = t")
    case True
    then have "x = f e" using that m by (simp add: om_ok_map_of_iff [symmetric])
    then show ?thesis using assms Some True row_self [of d t e] row_small [of d t] by simp
  next
    case False
    then have "row d i = Some x" using that m by (simp add: om_ok_map_of_iff [symmetric])
    then show ?thesis using row_self [OF assms(1)] row_small [OF assms(1), of i] by simp
  qed
  then show ?thesis using m Some by (auto simp: upd_row_def nodes_ok_def)
qed (simp add: upd_row_def assms)

text \<open>A change of a row that keeps its place; either it keeps which rows are groups, or no cache of stickies is current.\<close>

lemma upd_row_ok:
  assumes ok: "refs_ok d"
    and f: "\<And>e. row d t = Some e \<Longrightarrow> tnode_tupid (f e) = tnode_tupid e \<and> dt (f e) = dt e \<and> name_s (f e) = name_s e
      \<and> (srcid (f e) < 0 \<or> row d (srcid (f e)) \<noteq> None) \<and> (ntype (f e) = TUP_NODE_GROUP \<longrightarrow> ntype e = TUP_NODE_GROUP)"
    and g: "(\<forall>e. row d t = Some e \<longrightarrow> ntype e = TUP_NODE_GROUP \<longrightarrow> ntype (f e) = TUP_NODE_GROUP) \<or> (\<forall>x. retrieved_stickies d x \<noteq> sticky_count d)"
  shows "refs_ok (upd_row t f d)"
proof -
  let ?d = "upd_row t f d"
  have n: "nodes_ok ?d" using nodes_ok_upd [OF refs_okD(4) [OF ok]] f by blast
  have dom: "row ?d x \<noteq> None \<longleftrightarrow> row d x \<noteq> None" for x by (simp add: row_upd)
  have links: "links_ok ?d l \<longleftrightarrow> links_ok d l" for l unfolding links_ok_def dom ..
  have gr: "is_group ?d x = is_group d x" if "\<forall>e. row d t = Some e \<longrightarrow> ntype e = TUP_NODE_GROUP \<longrightarrow> ntype (f e) = TUP_NODE_GROUP" for x
  proof (cases "x = t")
    case True
    have "is_group ?d t \<longleftrightarrow> (\<exists>e. row d t = Some e \<and> ntype (f e) = TUP_NODE_GROUP)" by (auto simp: is_group_def row_upd)
    then show ?thesis unfolding True is_group_def [of d] using that f by blast
  qed (simp add: is_group_def row_upd)
  have cache: "cache_ok ?d x" for x
    using g
  proof
    assume "\<forall>e. row d t = Some e \<longrightarrow> ntype e = TUP_NODE_GROUP \<longrightarrow> ntype (f e) = TUP_NODE_GROUP"
    then have "cache_ok ?d x = cache_ok d x" by (simp add: cache_ok_def gr)
    then show ?thesis using db_okD(6) [OF refs_okD(1) [OF ok]] by simp
  qed (simp add: cache_ok_def)
  have "db_ok ?d" using n links cache refs_okD(1) [OF ok] by (simp add: db_ok_def)
  moreover have old: "\<exists>e. row d x = Some e \<and> dt e' = dt e \<and> name_s e' = name_s e" if "row ?d x = Some e'" for x e'
    using that f by (cases "x = t") (auto simp: row_upd)
  have "tree_ok ?d"
  proof -
    have "parent_rel ?d \<subseteq> parent_rel d" using old by (fastforce simp: parent_rel_def)
    then have "acyclic (parent_rel ?d)" using tree_okD(1) [OF refs_okD(2) [OF ok]] by (rule acyclic_subset [rotated])
    moreover have "t1 = t2" if r: "row ?d t1 = Some e1" "row ?d t2 = Some e2" and n: "dt e1 = dt e2" "name_s e1 = name_s e2" for t1 t2 e1 e2
    proof -
      obtain x1 x2 where "row d t1 = Some x1" "dt e1 = dt x1" "name_s e1 = name_s x1" "row d t2 = Some x2" "dt e2 = dt x2" "name_s e2 = name_s x2"
        using old r by blast
      then show ?thesis using tree_okD(5) [OF refs_okD(2) [OF ok]] n by simp
    qed
    moreover have "(dt e = 0 \<or> row ?d (dt e) \<noteq> None) \<and> (srcid e < 0 \<or> row ?d (srcid e) \<noteq> None)
        \<and> (ntype e = TUP_NODE_GROUP \<longrightarrow> name_s e \<noteq> TUP_CONFIG)" if e: "row ?d x = Some e" for x e
    proof (cases "x = t")
      case True
      then obtain e0 where "row d t = Some e0" "e = f e0" using e by (auto simp: row_upd)
      then show ?thesis unfolding dom using f [of e0] tree_okD(2,4) [OF refs_okD(2) [OF ok], of t e0] by auto
    next
      case False
      then have "row d x = Some e" using e by (simp add: row_upd)
      then show ?thesis unfolding dom using tree_okD(2,3,4) [OF refs_okD(2) [OF ok]] by blast
    qed
    ultimately show ?thesis unfolding tree_ok_def by blast
  qed
  moreover have "known ?d = known d" using dom by (simp add: known_def)
  then have "flags_known ?d" using refs_okD(3) [OF ok] by (simp add: flags_known_alt group_cmds_def)
  ultimately show ?thesis by (simp add: refs_ok_def)
qed

lemma upd_row_rel:
  assumes "\<And>e. row d t = Some e \<Longrightarrow> dt (f e) = dt e \<and> name_s (f e) = name_s e \<and> (ntype (f e) = ntype e \<or> ntype (f e) = TUP_NODE_GHOST \<and> t \<in> S)"
  shows "del_rel S d (upd_row t f d)"
proof (rule del_relI)
  fix x e' assume "row (upd_row t f d) x = Some e'"
  then show "\<exists>e. row d x = Some e \<and> dt e' = dt e \<and> name_s e' = name_s e \<and> (ntype e' = ntype e \<or> x \<in> S \<and> ntype e' = TUP_NODE_GHOST)"
    using assms by (cases "x = t") (auto simp: row_upd)
qed (auto simp: row_upd)

lemma set_srcid_step:
  assumes "refs_ok d" and "tup_db_set_srcid d t s = Some d'" and "s < 0"
  shows "refs_ok d'" and "del_rel {} d d'"
proof -
  have d': "d' = upd_row t (\<lambda>e. e\<lparr>srcid := s\<rparr>) d" using assms(2) by (auto simp: tup_db_set_srcid_def split: Option.bind_splits)
  show "refs_ok d'" unfolding d' using assms(1,3) by (intro upd_row_ok) auto
  show "del_rel {} d d'" unfolding d' by (intro upd_row_rel) auto
qed

lemma set_ghost_step:
  assumes "refs_ok d" and "tup_db_set_type d t TUP_NODE_GHOST = Some d'"
    and "(\<forall>e. row d t = Some e \<longrightarrow> ntype e \<noteq> TUP_NODE_GROUP) \<or> (\<forall>x. retrieved_stickies d x \<noteq> sticky_count d)"
  shows "refs_ok d'" and "del_rel {t} d d'"
proof -
  have d': "d' = upd_row t (\<lambda>e. e\<lparr>ntype := TUP_NODE_GHOST\<rparr>) d" using assms(2) by (auto simp: tup_db_set_type_def split: Option.bind_splits)
  show "refs_ok d'" unfolding d'
  proof (rule upd_row_ok [OF assms(1)])
    fix e assume "row d t = Some e"
    then show "tnode_tupid (e\<lparr>ntype := TUP_NODE_GHOST\<rparr>) = tnode_tupid e \<and> dt (e\<lparr>ntype := TUP_NODE_GHOST\<rparr>) = dt e
      \<and> name_s (e\<lparr>ntype := TUP_NODE_GHOST\<rparr>) = name_s e
      \<and> (srcid (e\<lparr>ntype := TUP_NODE_GHOST\<rparr>) < 0 \<or> row d (srcid (e\<lparr>ntype := TUP_NODE_GHOST\<rparr>)) \<noteq> None)
      \<and> (ntype (e\<lparr>ntype := TUP_NODE_GHOST\<rparr>) = TUP_NODE_GROUP \<longrightarrow> ntype e = TUP_NODE_GROUP)"
      using tree_okD(3) [OF refs_okD(2) [OF assms(1)]] by simp
  qed (use assms(3) in auto)
  show "del_rel {t} d d'" unfolding d' by (intro upd_row_rel) auto
qed

section \<open>Deleting a node\<close>

text \<open>Nothing but rows below it (and then possibly the create list) refers to the node, and no cache of stickies is current.\<close>

definition isolated :: "db \<Rightarrow> tupid \<Rightarrow> bool" where
  "isolated d t \<longleftrightarrow> (\<forall>x. (t, x) \<notin> set (normal_link d) \<and> (x, t) \<notin> set (normal_link d) \<and> (t, x) \<notin> set (sticky_link d) \<and> (x, t) \<notin> set (sticky_link d))
     \<and> t \<notin> group_cmds d
     \<and> t \<notin> set (config_list d) \<union> set (modify_list d) \<union> set (variant_list d) \<union> set (transient_list d)
     \<and> (t \<in> set (create_list d) \<longrightarrow> (\<exists>x e. row d x = Some e \<and> dt e = t))
     \<and> (\<forall>x. retrieved_stickies d x \<noteq> sticky_count d)"

lemma remove_row_ok:
  assumes ok: "refs_ok d" and iso: "isolated d t" and alone: "\<And>x e. row d x = Some e \<Longrightarrow> dt e \<noteq> t \<and> srcid e \<noteq> t"
  shows "refs_ok ((fresh_entry t (tup_db_del_ghost_tree d t))\<lparr>node_tbl := om_del t (node_tbl d)\<rparr>)" (is "refs_ok ?d")
proof -
  have r: "row ?d x = (if x = t then None else row d x)" for x by simp
  have links: "links_ok ?d l" if "links_ok d l" "\<And>x. (t, x) \<notin> set l \<and> (x, t) \<notin> set l" for l
    unfolding links_ok_def
  proof (intro conjI ballI)
    fix p assume p: "p \<in> set l"
    then have "fst p \<noteq> t" "snd p \<noteq> t" using that(2) by (metis prod.collapse)+
    then show "case p of (a, b) \<Rightarrow> a \<noteq> b \<and> a > 0 \<and> b > 0 \<and> row ?d a \<noteq> None \<and> row ?d b \<noteq> None"
      using that(1) p by (auto simp: links_ok_def)
  qed (use that(1) in \<open>simp add: links_ok_def\<close>)
  have "db_ok ?d"
    unfolding db_ok_def
  proof (intro conjI allI)
    show "nodes_ok ?d" using refs_okD(4) [OF ok] by (auto simp: nodes_ok_def)
    show "links_ok ?d (normal_link ?d)" using links [OF refs_okD(5) [OF ok]] iso by (simp add: isolated_def fresh_entry_def tup_db_del_ghost_tree_def)
    show "links_ok ?d (sticky_link ?d)" using links [OF refs_okD(6) [OF ok]] iso by (simp add: isolated_def fresh_entry_def tup_db_del_ghost_tree_def)
    show "distinct (group_link ?d)" "0 < sticky_count ?d"
      using db_okD(4,5) [OF refs_okD(1) [OF ok]] by (simp_all add: fresh_entry_def tup_db_del_ghost_tree_def)
    fix x
    show "retrieved_stickies ?d x \<le> sticky_count ?d" "0 \<le> retrieved_stickies ?d x"
      using db_okD(5,7,8) [OF refs_okD(1) [OF ok]] by (simp_all add: fresh_entry_def tup_db_del_ghost_tree_def less_imp_le)
    show "cache_ok ?d x"
      using iso db_okD(5) [OF refs_okD(1) [OF ok]] by (simp add: cache_ok_def isolated_def fresh_entry_def tup_db_del_ghost_tree_def)
  qed
  moreover have "tree_ok ?d"
  proof -
    have "parent_rel ?d \<subseteq> parent_rel d" unfolding parent_rel_def r by auto
    then have "acyclic (parent_rel ?d)" using tree_okD(1) [OF refs_okD(2) [OF ok]] by (rule acyclic_subset [rotated])
    moreover have "t1 = t2" if "row ?d t1 = Some e1" "row ?d t2 = Some e2" "dt e1 = dt e2" "name_s e1 = name_s e2" for t1 t2 e1 e2
      using that tree_okD(5) [OF refs_okD(2) [OF ok]] by (auto simp: r split: if_splits)
    moreover have "(dt e = 0 \<or> row ?d (dt e) \<noteq> None) \<and> (srcid e < 0 \<or> row ?d (srcid e) \<noteq> None)
        \<and> (ntype e = TUP_NODE_GROUP \<longrightarrow> name_s e \<noteq> TUP_CONFIG)" if "row ?d x = Some e" for x e
    proof -
      have e: "row d x = Some e" using that by (simp add: r split: if_splits)
      show ?thesis unfolding r using alone [OF e] tree_okD(2,3,4) [OF refs_okD(2) [OF ok] e] by simp
    qed
    ultimately show ?thesis unfolding tree_ok_def by blast
  qed
  moreover have "flags_known ?d"
  proof -
    have "t \<notin> all_flags d" using iso alone by (auto simp: isolated_def all_flags_def)
    then have "all_flags ?d \<subseteq> known ?d" using refs_okD(3) [OF ok]
      by (auto simp: flags_known_alt known_def all_flags_def fresh_entry_def tup_db_del_ghost_tree_def)
    moreover have "group_cmds ?d \<subseteq> known ?d"
    proof -
      have "group_cmds ?d = group_cmds d" by (simp add: group_cmds_def fresh_entry_def tup_db_del_ghost_tree_def)
      moreover have "group_cmds d \<subseteq> known d" "t \<notin> group_cmds d" using refs_okD(3) [OF ok] iso by (simp_all add: flags_known_alt isolated_def)
      ultimately show ?thesis by (auto simp: known_def)
    qed
    ultimately show ?thesis by (simp add: flags_known_alt)
  qed
  ultimately show ?thesis by (simp add: refs_ok_def)
qed

lemma isolated_ghost [simp]: "isolated (add_ghost d e) t = isolated d t"
  by (simp add: isolated_def group_cmds_def add_ghost_def)

lemma add_ghost_step: "flag_step d (add_ghost d e)"
  unfolding add_ghost_def by (rule flag_step_misc)

lemma ghosts_iff: "refs_ok d \<Longrightarrow> node_has_ghosts d t = Some b \<Longrightarrow> b \<longleftrightarrow> (\<exists>x e. row d x = Some e \<and> (dt e = t \<or> srcid e = t))"
  using row_in [of d] by (fastforce simp: node_has_ghosts_def split: Option.bind_splits)

text \<open>What is left: the row is gone, or it is a ghost; other rows, the links and the modify list stay.\<close>

definition removed :: "tupid \<Rightarrow> db \<Rightarrow> db \<Rightarrow> bool" where
  "removed t d d' \<longleftrightarrow> normal_link d' = normal_link d \<and> modify_list d' = modify_list d
     \<and> (\<forall>x. x \<noteq> t \<longrightarrow> row d' x = row d x)
     \<and> (row d' t = None \<or> (\<exists>e e'. row d t = Some e \<and> row d' t = Some e' \<and> dt e' = dt e \<and> name_s e' = name_s e \<and> ntype e' = TUP_NODE_GHOST
          \<and> srcid e' = -1))"

lemma make_ghost_step:
  assumes ok: "refs_ok d" and iso: "isolated d t" and tent: "row d t = Some tent" and r: "make_ghost d tent t = Some d'"
  shows "refs_ok d' \<and> removed t d d'"
proof -
  obtain d2 d3 where d2: "(if ntype tent = TUP_NODE_DIR then tup_db_add_create_list d t else Some d) = Some d2"
    and d3: "tup_db_set_type d2 t TUP_NODE_GHOST = Some d3" and d': "tup_db_set_srcid d3 t (-1) = Some d'"
    using r by (auto simp: make_ghost_def bind_eq_Some_conv)
  have f: "flag_step d d2" using d2 add_flag_steps(1) [of t d] tent
    by (cases "ntype tent = TUP_NODE_DIR") (auto simp: known_def)
  have same: "node_tbl d2 = node_tbl d \<and> normal_link d2 = normal_link d \<and> modify_list d2 = modify_list d
      \<and> retrieved_stickies d2 = retrieved_stickies d \<and> sticky_count d2 = sticky_count d"
    using d2 by (auto simp: tup_db_add_create_list_def split: if_splits Option.bind_splits)
  have "refs_ok d3" using set_ghost_step(1) [OF flag_step_ok(1) [OF f ok] d3] iso same by (simp add: isolated_def)
  then have "refs_ok d'" using set_srcid_step(1) [OF _ d'] by simp
  moreover have "d' = upd_row t (\<lambda>e. e\<lparr>srcid := -1\<rparr>) (upd_row t (\<lambda>e. e\<lparr>ntype := TUP_NODE_GHOST\<rparr>) d2)"
    using d3 d' by (auto simp: tup_db_set_type_def tup_db_set_srcid_def bind_eq_Some_conv)
  ultimately show ?thesis using tent same by (auto simp: removed_def row_upd)
qed

lemma drop_node_step:
  assumes ok: "refs_ok d" and iso: "isolated d t" and r: "drop_node h d tent t = Some d'"
    and alone: "\<And>x e. row d x = Some e \<Longrightarrow> dt e \<noteq> t \<and> srcid e \<noteq> t"
  shows "refs_ok d' \<and> removed t d d' \<and> row d' t = None"
proof -
  obtain d2 parent where d2: "delete_node d t = Some d2" and d': "d' = add_ghost d2 parent"
    using r by (auto simp: drop_node_def bind_eq_Some_conv)
  have d2': "d2 = (fresh_entry t (tup_db_del_ghost_tree d t))\<lparr>node_tbl := om_del t (node_tbl d)\<rparr>"
    using d2 by (auto simp: delete_node_def tup_entry_rm_def fresh_entry_def tup_db_del_ghost_tree_def bind_eq_Some_conv split: if_splits)
  have "refs_ok d2" unfolding d2' by (rule remove_row_ok [OF ok iso alone])
  then have "refs_ok d'" unfolding d' by (rule flag_step_ok(1) [OF add_ghost_step])
  then show ?thesis unfolding d' d2' by (simp add: removed_def add_ghost_def fresh_entry_def tup_db_del_ghost_tree_def)
qed

lemma ghost_srcid_step:
  "ghost_of_srcid d tent = Some d1 \<Longrightarrow> flag_step d d1 \<and> modify_list d1 = modify_list d \<and> isolated d1 t = isolated d t"
  using add_ghost_step [of d] isolated_ghost [of d _ t]
  by (auto simp: ghost_of_srcid_def bind_eq_Some_conv add_ghost_def split: if_splits)

lemma delete_node_step:
  assumes ok: "refs_ok d" and iso: "isolated d t" and del: "tup_db_delete_node h d t = Some d'"
  shows "refs_ok d' \<and> removed t d d'"
proof -
  obtain tent d1 rc where f: "tup_entry_find_row d t = Some tent" and g: "ghost_of_srcid d tent = Some d1"
    and rc: "node_has_ghosts d1 t = Some rc" and rest: "(if rc then make_ghost d1 tent t else drop_node h d1 tent t) = Some d'"
    using del unfolding tup_db_delete_node_def bind_eq_Some_conv by blast
  note s = ghost_srcid_step [OF g, of t]
  have ok1: "refs_ok d1" using flag_step_ok(1) s ok by blast
  have core: "node_tbl d1 = node_tbl d" "normal_link d1 = normal_link d" using s by (simp_all add: flag_step_def same_core_def)
  have "refs_ok d' \<and> removed t d1 d'"
  proof (cases rc)
    case True
    then show ?thesis using make_ghost_step [OF ok1, of t tent d'] find_row_some [OF f] core s iso rest by simp
  next
    case False
    have "dt e \<noteq> t \<and> srcid e \<noteq> t" if "row d1 x = Some e" for x e using ghosts_iff [OF ok1 rc] False that by blast
    then show ?thesis using drop_node_step [OF ok1, of t h tent d'] s iso rest False by simp
  qed
  then show ?thesis using core s by (simp add: removed_def)
qed

text \<open>Removing flags.\<close>

lemma fewer_flags_ok:
  assumes "refs_ok d" and "same_core d d'" and "all_flags d' \<subseteq> all_flags d"
  shows "refs_ok d'"
proof -
  have "group_cmds d' = group_cmds d" using assms(2) by (simp add: same_core_def group_cmds_def)
  then show ?thesis
    using assms same_core_db_ok [OF assms(2)] same_core_tree [OF assms(2)] by (auto simp: refs_ok_def flags_known_alt)
qed

definition unflagged :: "tupid \<Rightarrow> db \<Rightarrow> db" where
  "unflagged t d = d\<lparr>config_list := removeAll t (config_list d), create_list := removeAll t (create_list d),
     expected_changes := expected_changes d + int (count_list (create_list d) t),
     modify_list := removeAll t (modify_list d), variant_list := removeAll t (variant_list d),
     transient_list := removeAll t (transient_list d)\<rparr>"

lemma unflagged_ok: "refs_ok d \<Longrightarrow> refs_ok (unflagged t d)"
  by (rule fewer_flags_ok) (auto simp: unflagged_def same_core_def all_flags_def)

lemma delete_name_file_links:
  "delete_name_file h d t = Some d' \<Longrightarrow> \<exists>d1. tup_db_delete_links (unflagged t d) t = Some d1 \<and> tup_db_delete_node h d1 t = Some d'"
  by (auto simp: delete_name_file_def tup_db_unflag_config_def tup_db_unflag_create_def tup_db_unflag_modify_def
      tup_db_unflag_variant_def tup_db_unflag_transient_def unflagged_def bind_eq_Some_conv)

lemma ghost_checks_shape:
  "add_ghost_checks d t = Some d' \<Longrightarrow> \<exists>g. d' = d\<lparr>ghost_root := g\<rparr>"
  "add_group_and_exclusion_checks d t = Some d' \<Longrightarrow> \<exists>g. d' = d\<lparr>ghost_root := g\<rparr>"
  by (auto simp: add_ghost_checks_def add_group_and_exclusion_checks_def bind_eq_Some_conv)

lemma group_users_shape:
  assumes "flag_group_users d t = Some d'"
  shows "\<exists>l. d' = d\<lparr>create_list := l\<rparr> \<and> set l \<subseteq> set (create_list d) \<union> (dt \<circ> snd) ` set (node_tbl d)"
proof -
  have rd: "set (row_dirs x ids) \<subseteq> (dt \<circ> snd) ` set (node_tbl x)" for x ids by (auto simp: row_dirs_def)
  have 1: "\<exists>l. x = d\<lparr>create_list := l\<rparr> \<and> set l \<subseteq> set (create_list d) \<union> (dt \<circ> snd) ` set (node_tbl d)" if "flag_group_users1 d t = Some x" for x
    using that rd [of d] by (fastforce simp: flag_group_users1_def bind_eq_Some_conv)
  have 2: "\<exists>l. y = x\<lparr>create_list := l\<rparr> \<and> set l \<subseteq> set (create_list x) \<union> (dt \<circ> snd) ` set (node_tbl x)" if "flag_group_users2 x t = Some y" for x y
    using that rd [of x] by (fastforce simp: flag_group_users2_def bind_eq_Some_conv)
  obtain tent :: tup_entry where r: "(if ntype tent = TUP_NODE_GROUP then do { d1 \<leftarrow> flag_group_users1 d t; flag_group_users2 d1 t } else Some d) = Some d'"
    using assms unfolding flag_group_users_def bind_eq_Some_conv by blast
  show ?thesis
  proof (cases "ntype tent = TUP_NODE_GROUP")
    case True
    then obtain x where x: "flag_group_users1 d t = Some x" "flag_group_users2 x t = Some d'" using r by (auto simp: bind_eq_Some_conv)
    from 1 [OF x(1)] obtain l where l: "x = d\<lparr>create_list := l\<rparr>" "set l \<subseteq> set (create_list d) \<union> (dt \<circ> snd) ` set (node_tbl d)" by blast
    from 2 [OF x(2)] obtain l' where "d' = x\<lparr>create_list := l'\<rparr>" "set l' \<subseteq> set (create_list x) \<union> (dt \<circ> snd) ` set (node_tbl x)" by blast
    then have "d' = d\<lparr>create_list := l'\<rparr> \<and> set l' \<subseteq> set (create_list d) \<union> (dt \<circ> snd) ` set (node_tbl d)" using l by auto
    then show ?thesis by blast
  next
    case False
    then have "d' = d\<lparr>create_list := create_list d\<rparr>" using r by simp
    then show ?thesis by blast
  qed
qed

lemma delete_links_shape:
  assumes "tup_db_delete_links d t = Some d'"
  shows "\<exists>g l. d' = d\<lparr>ghost_root := g, create_list := l,
      normal_link := filter (\<lambda>(f, c). \<not> (f = t \<or> c = t)) (normal_link d),
      sticky_count := sticky_count d + 1, sticky_link := filter (\<lambda>(f, c). \<not> (f = t \<or> c = t)) (sticky_link d),
      group_link := filter (\<lambda>(_, _, c). c \<noteq> t) (group_link d)\<rparr> \<and> set l \<subseteq> set (create_list d) \<union> (dt \<circ> snd) ` set (node_tbl d)"
proof -
  obtain d1 d2 d3 d4 d5 where d: "add_ghost_checks d t = Some d1" "add_group_and_exclusion_checks d1 t = Some d2"
      "flag_group_users d2 t = Some d3" "delete_normal_links d3 t = Some d4" "delete_sticky_links d4 t = Some d5" "delete_group_links d5 t = Some d'"
    using assms unfolding tup_db_delete_links_def bind_eq_Some_conv by blast
  obtain g1 where d1: "d1 = d\<lparr>ghost_root := g1\<rparr>" using ghost_checks_shape(1) [OF d(1)] by blast
  obtain g2 where d2: "d2 = d1\<lparr>ghost_root := g2\<rparr>" using ghost_checks_shape(2) [OF d(2)] by blast
  obtain l where l: "d3 = d2\<lparr>create_list := l\<rparr>" "set l \<subseteq> set (create_list d2) \<union> (dt \<circ> snd) ` set (node_tbl d2)"
    using group_users_shape [OF d(3)] by blast
  have "d' = d\<lparr>ghost_root := g2, create_list := l,
      normal_link := filter (\<lambda>(f, c). \<not> (f = t \<or> c = t)) (normal_link d),
      sticky_count := sticky_count d + 1, sticky_link := filter (\<lambda>(f, c). \<not> (f = t \<or> c = t)) (sticky_link d),
      group_link := filter (\<lambda>(_, _, c). c \<noteq> t) (group_link d)\<rparr>"
    using d(4,5,6) by (auto simp: delete_normal_links_def delete_sticky_links_def delete_group_links_def bind_eq_Some_conv Let_def d1 d2 l(1))
  then show ?thesis using l(2) d1 d2 by auto
qed

lemma delete_links_ok:
  assumes ok: "refs_ok d" and r: "tup_db_delete_links d t = Some d'"
  shows "refs_ok d'" and "t \<notin> set (config_list d) \<union> set (create_list d) \<union> set (modify_list d) \<union> set (variant_list d) \<union> set (transient_list d)
      \<Longrightarrow> isolated d' t"
    and "node_tbl d' = node_tbl d" and "modify_list d' = modify_list d"
    and "(f, c) \<in> set (normal_link d') \<longleftrightarrow> (f, c) \<in> set (normal_link d) \<and> f \<noteq> t \<and> c \<noteq> t"
proof -
  obtain g l where d': "d' = d\<lparr>ghost_root := g, create_list := l,
      normal_link := filter (\<lambda>(f, c). \<not> (f = t \<or> c = t)) (normal_link d),
      sticky_count := sticky_count d + 1, sticky_link := filter (\<lambda>(f, c). \<not> (f = t \<or> c = t)) (sticky_link d),
      group_link := filter (\<lambda>(_, _, c). c \<noteq> t) (group_link d)\<rparr>" (is "_ = ?d")
    and l: "set l \<subseteq> set (create_list d) \<union> (dt \<circ> snd) ` set (node_tbl d)"
    using delete_links_shape [OF r] by blast
  note db = db_okD [OF refs_okD(1) [OF ok]]
  have rows: "(dt \<circ> snd) ` set (node_tbl d) \<subseteq> known d"
    using dt_known [OF refs_okD(2) [OF ok]] row_in [OF ok] by auto
  have lk: "links_ok ?d x" if "links_ok d x" for x using that by (simp add: links_ok_def)
  have stale: "retrieved_stickies d x < sticky_count d + 1" for x using db(7) [of x] by simp
  have "nodes_ok ?d" using refs_okD(4) [OF ok] by (simp add: nodes_ok_def)
  moreover have "links_ok ?d (normal_link ?d)" "links_ok ?d (sticky_link ?d)"
    using lk [OF links_ok_filter [OF refs_okD(5) [OF ok]]] lk [OF links_ok_filter [OF refs_okD(6) [OF ok]]] by simp_all
  moreover have "cache_ok ?d x" for x using stale [of x] by (simp add: cache_ok_def)
  ultimately have "db_ok ?d" using db(4,5,8) stale by (simp add: db_ok_def distinct_filter less_imp_le)
  moreover have "tree_ok ?d" using refs_okD(2) [OF ok] by (simp add: tree_ok_def parent_rel_def)
  moreover have "flags_known ?d"
  proof -
    have k: "known ?d = known d" by (simp add: known_def)
    have "all_flags ?d \<subseteq> all_flags d \<union> set l" by (auto simp: all_flags_def)
    moreover have "all_flags d \<subseteq> known d" "group_cmds d \<subseteq> known d" using refs_okD(3) [OF ok] by (simp_all add: flags_known_alt)
    moreover have "set (create_list d) \<subseteq> all_flags d" by (auto simp: all_flags_def)
    moreover have "group_cmds ?d \<subseteq> group_cmds d" by (force simp: group_cmds_def)
    ultimately show ?thesis unfolding flags_known_alt k using l rows by blast
  qed
  ultimately show "refs_ok d'" unfolding d' by (simp add: refs_ok_def)
  show "node_tbl d' = node_tbl d" "modify_list d' = modify_list d"
    "(f, c) \<in> set (normal_link d') \<longleftrightarrow> (f, c) \<in> set (normal_link d) \<and> f \<noteq> t \<and> c \<noteq> t"
    unfolding d' by auto
  assume n: "t \<notin> set (config_list d) \<union> set (create_list d) \<union> set (modify_list d) \<union> set (variant_list d) \<union> set (transient_list d)"
  have "t \<in> set l \<Longrightarrow> \<exists>x e. row d x = Some e \<and> dt e = t" using l n row_in [OF ok] by force
  moreover have "t \<notin> group_cmds ?d" by (auto simp: group_cmds_def)
  ultimately show "isolated d' t" unfolding isolated_def d' using n stale by (auto simp: less_le)
qed

text \<open>
  Deleting a node whose links to commands are covered by flags keeps the invariant; the node is removed or becomes a
  ghost, and nothing else changes but flags and links.
\<close>

lemma delete_name_file_step:
  assumes ok: "refs_ok d" and r: "delete_name_file h d t = Some d'"
    and flagged: "\<And>c. (t, c) \<in> set (normal_link d) \<Longrightarrow> fileish d t \<Longrightarrow> is_cmd d c \<Longrightarrow> c \<in> set (modify_list d)"
  shows "refs_ok d'" and "del_rel {t} d d'" and "\<And>e. row d' t = Some e \<Longrightarrow> ntype e = TUP_NODE_GHOST"
    and "\<And>x. (t, x) \<notin> set (normal_link d') \<and> (x, t) \<notin> set (normal_link d')"
proof -
  obtain d1 where d1: "tup_db_delete_links (unflagged t d) t = Some d1" and d': "tup_db_delete_node h d1 t = Some d'"
    using delete_name_file_links [OF r] by blast
  let ?u = "unflagged t d"
  note u = unflagged_ok [OF ok, of t] and l = delete_links_ok [OF unflagged_ok [OF ok] d1]
  have iso: "isolated d1 t" by (rule l(2)) (auto simp: unflagged_def)
  from delete_node_step [OF l(1) iso d'] have ok': "refs_ok d'" and rm: "removed t d1 d'" by auto
  show "refs_ok d'" by (rule ok')
  have rows: "row d1 x = row d x" for x using l(3) by (simp add: unflagged_def)
  have ghost: "ntype e = TUP_NODE_GHOST" if "row d' t = Some e" for e using rm that by (auto simp: removed_def)
  then show "\<And>e. row d' t = Some e \<Longrightarrow> ntype e = TUP_NODE_GHOST" .
  have nl: "(f, c) \<in> set (normal_link d') \<longleftrightarrow> (f, c) \<in> set (normal_link d) \<and> f \<noteq> t \<and> c \<noteq> t" for f c
    using l(5) [of f c] rm by (simp add: removed_def unflagged_def)
  then show "\<And>x. (t, x) \<notin> set (normal_link d') \<and> (x, t) \<notin> set (normal_link d')" by blast
  have ml: "set (modify_list d') = set (modify_list d) - {t}" using l(4) rm by (auto simp: removed_def unflagged_def)
  have cmd: "c \<noteq> t" if "is_cmd d' c" for c using that ghost by (auto simp: is_cmd_def)
  have old: "\<exists>e. row d x = Some e \<and> dt e' = dt e \<and> name_s e' = name_s e \<and> (ntype e' = ntype e \<or> x \<in> {t} \<and> ntype e' = TUP_NODE_GHOST)"
    if "row d' x = Some e'" for x e'
    using that rm rows by (cases "x = t") (auto simp: removed_def)
  show "del_rel {t} d d'"
  proof (rule del_relI)
    fix x e assume "x \<notin> {t}" "row d x = Some e"
    then show "row d' x \<noteq> None" using rm rows by (simp add: removed_def)
  next
    fix c assume "is_cmd d' c" "c \<in> set (modify_list d)"
    then show "c \<in> set (modify_list d')" using cmd ml by blast
  next
    fix f c assume a: "(f, c) \<in> set (normal_link d)" "fileish d f" "is_cmd d' c"
    have "is_cmd d c" using a(3) old cmd [OF a(3)] by (fastforce simp: is_cmd_def)
    then show "(f, c) \<in> set (normal_link d') \<or> c \<in> set (modify_list d')"
      using a cmd [OF a(3)] nl ml flagged by blast
  qed (rule old)
qed

end
