(* ===== verification/Deletion.thy ===== *)
theory Deletion
  imports Nodes_Inv Samples
begin

text \<open>
  Deleting a node with everything below it (\<^verbatim>\<open>tup_del_id_type\<close>): it comes to an end, keeps the invariant of the
  node table, changes nothing outside the deleted tree, leaves nothing below a directory but ghosts and groups, and does
  not lose a dependency of a command.
\<close>

section \<open>The tree of rows\<close>

definition desc :: "db \<Rightarrow> tupid \<Rightarrow> tupid set" where
  "desc d t = (parent_rel d)\<^sup>+ `` {t}"

text \<open>The steps down that a deletion takes: from directories; one that is called \<^verbatim>\<open>tup.config\<close> is not entered.\<close>

definition dir_rel :: "db \<Rightarrow> (tupid \<times> tupid) set" where
  "dir_rel d = {(p, c) \<in> parent_rel d. \<exists>e. row d p = Some e \<and> ntype e \<in> {TUP_NODE_DIR, TUP_NODE_GENERATED_DIR} \<and> name_s e \<noteq> TUP_CONFIG}"

definition below :: "db \<Rightarrow> tupid \<Rightarrow> tupid set" where
  "below d t = (dir_rel d)\<^sup>+ `` {t}"

lemma finite_parents: "finite (parent_rel d)"
proof -
  have "parent_rel d \<subseteq> (\<lambda>(t, e). (dt e, t)) ` set (node_tbl d)" by (force simp: parent_rel_def dest: map_of_SomeD)
  then show ?thesis by (rule finite_subset) simp
qed

lemma finite_desc: "finite (desc d t)"
proof -
  have "finite ((parent_rel d)\<^sup>+)" using finite_parents by simp
  then show ?thesis unfolding desc_def by (rule finite_Image)
qed

lemma desc_child: "row d c = Some e \<Longrightarrow> dt e = t \<Longrightarrow> c \<in> desc d t \<and> desc d c \<subseteq> desc d t"
  by (auto simp: desc_def parent_rel_def intro: trancl_into_trancl2)

lemma desc_irrefl: "refs_ok d \<Longrightarrow> t \<notin> desc d t"
  using tree_okD(1) [OF refs_okD(2)] by (auto simp: desc_def acyclic_def)

lemma desc_child_less:
  assumes "refs_ok d" and "row d c = Some e" and "dt e = t"
  shows "card (desc d c) < card (desc d t)"
  using desc_child [OF assms(2,3)] desc_irrefl [OF assms(1), of c] by (intro psubset_card_mono finite_desc) auto

lemma desc_mono: "parent_rel d' \<subseteq> parent_rel d \<Longrightarrow> desc d' t \<subseteq> desc d t"
  by (auto simp: desc_def intro: trancl_mono)

lemma desc_rel: "del_rel S d d' \<Longrightarrow> desc d' t \<subseteq> desc d t"
  by (intro desc_mono del_rel_parents)

lemma parent_unique: "single_valued ((parent_rel d)\<inverse>)"
  by (auto simp: single_valued_def parent_rel_def)

text \<open>The trees below two rows of a directory are disjoint.\<close>

lemma siblings_apart:
  assumes ok: "refs_ok d" and i: "row d i = Some a" "dt a = t" and j: "row d j = Some b" "dt b = t" and "i \<noteq> j"
  shows "insert i (desc d i) \<inter> insert j (desc d j) = {}"
proof -
  have no: False if xy: "row d x = Some a" "dt a = t" "row d y = Some b" "dt b = t" and r: "(x, y) \<in> (parent_rel d)\<^sup>+" for x y a b
  proof -
    obtain p where p: "(x, p) \<in> (parent_rel d)\<^sup>*" "(p, y) \<in> parent_rel d" using r by (meson tranclD2)
    then have "p = t" using xy(3,4) by (simp add: parent_rel_def)
    moreover have "(t, x) \<in> parent_rel d" using xy(1,2) by (simp add: parent_rel_def)
    ultimately have "(t, t) \<in> (parent_rel d)\<^sup>+" using p(1) by (meson rtrancl_into_trancl2)
    then show False using desc_irrefl [OF ok, of t] by (simp add: desc_def)
  qed
  have "x \<notin> insert j (desc d j)" if x: "x \<in> insert i (desc d i)" for x
  proof
    assume "x \<in> insert j (desc d j)"
    then have "(j, x) \<in> (parent_rel d)\<^sup>*" by (auto simp: desc_def)
    moreover have "(i, x) \<in> (parent_rel d)\<^sup>*" using x by (auto simp: desc_def)
    ultimately have "(i, j) \<in> ((parent_rel d)\<inverse>)\<^sup>* \<or> (j, i) \<in> ((parent_rel d)\<inverse>)\<^sup>*"
      by (intro single_valued_confluent [OF parent_unique]) (simp_all add: rtrancl_converse)
    then have "(i, j) \<in> (parent_rel d)\<^sup>+ \<or> (j, i) \<in> (parent_rel d)\<^sup>+"
      using assms(6) by (auto simp: rtrancl_converse rtrancl_eq_or_trancl)
    then show False using no [OF i j] no [OF j i] by blast
  qed
  then show ?thesis by blast
qed

section \<open>What is left\<close>

definition gone :: "db \<Rightarrow> tupid \<Rightarrow> bool" where
  "gone d x \<longleftrightarrow> (\<forall>e. row d x = Some e \<longrightarrow> ntype e \<in> {TUP_NODE_GHOST, TUP_NODE_GROUP})"

lemma gone_rel: "gone d x \<Longrightarrow> del_rel S d d' \<Longrightarrow> gone d' x"
  using del_relD(2) [of S d d' x] by (fastforce simp: gone_def)

lemma dir_rel_sub: "dir_rel d \<subseteq> parent_rel d"
  by (auto simp: dir_rel_def)

lemma dir_rel_desc: "(t, x) \<in> (dir_rel d)\<^sup>+ \<Longrightarrow> x \<in> desc d t"
  using trancl_mono [OF _ dir_rel_sub] by (simp add: desc_def)

lemma below_desc: "below d t \<subseteq> desc d t"
  using dir_rel_desc by (auto simp: below_def)

lemma below_dir:
  assumes "x \<in> below d t"
  shows "\<exists>c e. row d c = Some e \<and> dt e = t \<and> x \<in> insert c (below d c)"
    and "\<exists>e. row d t = Some e \<and> ntype e \<in> {TUP_NODE_DIR, TUP_NODE_GENERATED_DIR} \<and> name_s e \<noteq> TUP_CONFIG"
proof -
  obtain c where "(t, c) \<in> dir_rel d" "(c, x) \<in> (dir_rel d)\<^sup>*" using assms by (auto simp: below_def dest: tranclD)
  then show "\<exists>c e. row d c = Some e \<and> dt e = t \<and> x \<in> insert c (below d c)"
    and "\<exists>e. row d t = Some e \<and> ntype e \<in> {TUP_NODE_DIR, TUP_NODE_GENERATED_DIR} \<and> name_s e \<noteq> TUP_CONFIG"
    by (auto simp: dir_rel_def parent_rel_def below_def rtrancl_eq_or_trancl)
qed

lemma row_kept:
  assumes "del_rel S d d'" and "x \<notin> S" and "row d x = Some e"
  shows "\<exists>e'. row d' x = Some e' \<and> dt e' = dt e \<and> name_s e' = name_s e \<and> ntype e' = ntype e"
proof -
  obtain e' where e': "row d' x = Some e'" using del_relD(1) [OF assms] by blast
  then show ?thesis using del_relD(2) [OF assms(1) e'] assms by auto
qed

lemma dir_rel_kept:
  assumes "del_rel S d d'" and "(p, c) \<in> dir_rel d" and "p \<notin> S" and "c \<notin> S"
  shows "(p, c) \<in> dir_rel d'"
proof -
  obtain a b where "row d p = Some a" "ntype a \<in> {TUP_NODE_DIR, TUP_NODE_GENERATED_DIR}" "name_s a \<noteq> TUP_CONFIG" "row d c = Some b" "dt b = p"
    using assms(2) by (auto simp: dir_rel_def parent_rel_def)
  then show ?thesis using row_kept [OF assms(1,3), of a] row_kept [OF assms(1,4), of b] by (auto simp: dir_rel_def parent_rel_def)
qed

text \<open>A deletion elsewhere does not change what is below a row.\<close>

lemma below_kept:
  assumes rel: "del_rel S d d'" and apart: "S \<inter> insert j (desc d j) = {}"
  shows "below d j \<subseteq> below d' j"
proof
  fix x assume "x \<in> below d j"
  then have "(j, x) \<in> (dir_rel d)\<^sup>+" by (simp add: below_def)
  then have "(j, x) \<in> (dir_rel d')\<^sup>+"
  proof (induction rule: trancl_induct)
    case (base y)
    have "y \<in> desc d j" using dir_rel_desc [of j y d] base by blast
    then have "(j, y) \<in> dir_rel d'" using dir_rel_kept [OF rel base] apart by blast
    then show ?case by blast
  next
    case (step y z)
    have "(j, z) \<in> (dir_rel d)\<^sup>+" using step(1,2) by (rule trancl_into_trancl)
    then have "y \<in> desc d j" "z \<in> desc d j" using step(1) dir_rel_desc by blast+
    then have "(y, z) \<in> dir_rel d'" using dir_rel_kept [OF rel step(2)] apart by blast
    with step(3) show ?case by (rule trancl_into_trancl)
  qed
  then show "x \<in> below d' j" by (simp add: below_def)
qed


section \<open>The steps of a deletion\<close>

text \<open>A step that keeps the invariant and changes rows in \<open>S\<close> only.\<close>

definition safe :: "tupid set \<Rightarrow> db \<Rightarrow> db \<Rightarrow> bool" where
  "safe S d d' \<longleftrightarrow> refs_ok d' \<and> del_rel S d d'"

lemma safe_refl: "refs_ok d \<Longrightarrow> safe S d d"
  by (simp add: safe_def)

lemma safe_trans: "safe S d d' \<Longrightarrow> safe S' d' d'' \<Longrightarrow> S \<union> S' \<subseteq> T \<Longrightarrow> safe T d d''"
  unfolding safe_def using del_rel_trans del_rel_mono by blast

lemma safe_flag: "flag_step d d' \<Longrightarrow> refs_ok d \<Longrightarrow> safe {} d d'"
  using flag_step_ok by (simp add: safe_def)

lemma safe_after: "safe {} d d' \<Longrightarrow> (refs_ok d' \<Longrightarrow> safe {} d' d'') \<Longrightarrow> safe {} d d''"
  using safe_trans [of "{}" d d' "{}" d'' "{}"] by (simp add: safe_def)

lemma safe_row: "safe {} d d' \<Longrightarrow> row d t \<noteq> None \<Longrightarrow> row d' t \<noteq> None"
  unfolding safe_def using del_relD(1) [of "{}" d d' t] by fastforce

lemma variant_up_shape: "\<exists>v. snd (variant_up k d tent) = d\<lparr>tent_variant := v\<rparr>"
proof (induction k arbitrary: tent)
  case (Suc k)
  have same: "\<exists>v. d = d\<lparr>tent_variant := v\<rparr>" by (rule exI [of _ "tent_variant d"]) simp
  show ?case
  proof (cases "parent_of d tent")
    case (Some p)
    obtain r v where "variant_up k d p = (r, d\<lparr>tent_variant := v\<rparr>)" using Suc [of p] by (metis prod.collapse)
    then show ?thesis using Some same by (auto simp: Let_def split: option.split)
  qed (use same in \<open>auto simp: Let_def split: option.split\<close>)
qed (auto intro: exI [of _ "tent_variant d"])

lemma variant_null_step: "tup_entry_variant_null d tent = (v, d') \<Longrightarrow> flag_step d d'"
  using variant_up_shape [of "Suc (length (node_tbl d))" d tent] flag_step_misc(4) [of d]
  by (auto simp: tup_entry_variant_null_def split: prod.splits)

lemma mark_variants_safe: "refs_ok d \<Longrightarrow> mark_variants vs tent d = Some d' \<Longrightarrow> safe {} d d'"
proof (induction vs tent d rule: mark_variants.induct)
  case (2 v vs tent d)
  have srcid: "safe {} d d1" if "tup_db_set_srcid d x VARIANT_SRCDIR_REMOVED = Some d1" for x d1
    using set_srcid_step [OF 2(4) that] by (simp add: safe_def VARIANT_SRCDIR_REMOVED_def)
  show ?case
  proof (cases "v_root v")
    case True
    then show ?thesis using 2 by simp
  next
    case nr: False
    show ?thesis
    proof (cases "get_variant_tent (Suc (length (node_tbl d))) d v tent")
      case None
      then show ?thesis using 2 nr by (simp del: get_variant_tent.simps)
    next
      case (Some vt)
      then obtain d1 where d1: "tup_db_set_srcid d (tnode_tupid vt) VARIANT_SRCDIR_REMOVED = Some d1" and m: "mark_variants vs tent d1 = Some d'"
        using 2(5) nr by (auto simp: bind_eq_Some_conv simp del: get_variant_tent.simps)
      show ?thesis using safe_after [OF srcid [OF d1]] 2(3) [OF nr Some d1 _ m] by blast
    qed
  qed
qed (simp add: safe_refl)

lemma src_dir_safe:
  assumes ok: "refs_ok d" and r: "src_dir_flags d tent = Some d'"
  shows "safe {} d d'"
proof -
  obtain d1 d2 and tuptent :: "tup_entry option" and parent :: tup_entry where d1: "(case tuptent of None \<Rightarrow> Some d | Some e \<Rightarrow> tup_db_set_dependent_dir_flags d (tnode_tupid e)) = Some d1"
    and d2: "mark_variants (variants d1) tent d1 = Some d2" and p: "parent_of d2 tent = Some parent"
    and d': "(if ntype parent = TUP_NODE_DIR then tup_db_add_create_list d2 (dt tent) else Some d2) = Some d'"
    using r unfolding src_dir_flags_def bind_eq_Some_conv by blast
  have "flag_step d d1" using d1 add_flag_steps(4) by (cases tuptent) auto
  then have s1: "safe {} d d1" using ok by (rule safe_flag)
  have s2: "safe {} d1 d2" using mark_variants_safe [OF _ d2] s1 by (simp add: safe_def)
  have "dt tent \<in> known d2" using p by (auto simp: parent_of_def known_def split: if_splits)
  then have "flag_step d2 d'" using d' add_flag_steps(1) by (cases "ntype parent = TUP_NODE_DIR") auto
  then have "safe {} d2 d'" using s2 safe_flag by (simp add: safe_def)
  then show ?thesis using safe_after [OF s1] safe_after [OF s2] by blast
qed

lemma del_dir_safe:
  assumes ok: "refs_ok d" and r: "del_dir_flags d t force = Some d'"
  shows "safe {} d d'"
proof -
  obtain tent v d1 where v: "tup_entry_variant_null d tent = (v, d1)"
    and d': "(case v of Some v \<Rightarrow>
         if \<not> v_root v
         then (if v_enabled v \<and> \<not> force then tup_db_maybe_add_create_list d1 (srcid tent) else Some d1)
         else src_dir_flags d1 tent
     | None \<Rightarrow> src_dir_flags d1 tent) = Some d'"
    using r unfolding del_dir_flags_def bind_eq_Some_conv Let_def by (metis (no_types, lifting) old.prod.case surj_pair)
  have s1: "safe {} d d1" using safe_flag [OF variant_null_step [OF v] ok] .
  then have ok1: "refs_ok d1" by (simp add: safe_def)
  have "safe {} d1 d'"
    using d' src_dir_safe [OF ok1] safe_flag [OF maybe_create_step [OF ok1] ok1] safe_refl [OF ok1]
    by (auto split: option.splits if_splits)
  then show ?thesis by (rule safe_after [OF s1])
qed


text \<open>A node called \<^verbatim>\<open>tup.config\<close> becomes a ghost at once.\<close>

lemma rm_config_safe:
  assumes ok: "refs_ok d" and tent: "row d t = Some tent" and r: "check_rm_tup_config d tent = Some (d', b)"
  shows "safe {t} d d'" and "b \<Longrightarrow> gone d' t \<and> name_s tent = TUP_CONFIG" and "\<not> b \<Longrightarrow> d' = d"
proof -
  have id: "tnode_tupid tent = t" using row_self [OF refs_okD(4) [OF ok] tent] by simp
  have "safe {t} d d' \<and> gone d' t" if n: "name_s tent = TUP_CONFIG"
  proof -
    obtain d1 where d1: "tup_db_set_type d t TUP_NODE_GHOST = Some d1" and d': "tup_db_add_config_list d1 t = Some d'"
      using r n id by (auto simp: check_rm_tup_config_def bind_eq_Some_conv)
    have "ntype tent \<noteq> TUP_NODE_GROUP" using tree_okD(4) [OF refs_okD(2) [OF ok] tent] n by blast
    then have s1: "safe {t} d d1" using set_ghost_step [OF ok d1] tent by (simp add: safe_def)
    have row: "row d1 t = Some (tent\<lparr>ntype := TUP_NODE_GHOST\<rparr>)" using d1 tent by (auto simp: tup_db_set_type_def bind_eq_Some_conv row_upd)
    then have f: "flag_step d1 d'" using add_flag_steps(2) [OF known_row d'] by simp
    then have "safe {} d1 d'" using s1 safe_flag by (simp add: safe_def)
    moreover have "gone d1 t" using row by (simp add: gone_def)
    ultimately show ?thesis using safe_trans [OF s1, of "{}" d' "{t}"] gone_rel by (auto simp: safe_def)
  qed
  then show "safe {t} d d'" and "b \<Longrightarrow> gone d' t \<and> name_s tent = TUP_CONFIG" and "\<not> b \<Longrightarrow> d' = d"
    using r safe_refl [OF ok] by (auto simp: check_rm_tup_config_def bind_eq_Some_conv split: if_splits)
qed

lemma forced_dir_safe:
  assumes ok: "refs_ok d" and dir: "row d t = Some e" "ntype e \<noteq> TUP_NODE_GROUP" and r: "flag_forced_dir d t = Some d'"
  shows "safe {t} d d'" and "gone d' t"
proof -
  obtain d1 d2 and tent :: tup_entry where d1: "tup_db_set_srcid_dir_flags d (tnode_tupid tent) = Some d1"
    and d2: "tup_db_set_type d1 t TUP_NODE_GHOST = Some d2" and d': "d' = add_ghost d2 (tent\<lparr>ntype := TUP_NODE_GHOST\<rparr>)"
    using r unfolding flag_forced_dir_def bind_eq_Some_conv by blast
  have f1: "flag_step d d1" by (rule srcid_dirs_step [OF ok d1])
  then have row1: "row d1 t = Some e" using dir by (simp add: flag_step_def same_core_def)
  have s1: "safe {} d d1" by (rule safe_flag [OF f1 ok])
  then have s2: "safe {t} d1 d2" using set_ghost_step [OF _ d2] dir(2) row1 by (simp add: safe_def)
  then have s3: "safe {} d2 d'" unfolding d' by (intro safe_flag add_ghost_step) (simp add: safe_def)
  have "row d2 t = Some (e\<lparr>ntype := TUP_NODE_GHOST\<rparr>)" using d2 row1 by (auto simp: tup_db_set_type_def bind_eq_Some_conv row_upd)
  then show "gone d' t" unfolding d' by (simp add: gone_def add_ghost_def)
  show "safe {t} d d'" using safe_trans [OF safe_trans [OF s1 s2] s3] by blast
qed

lemma del_generated_safe:
  assumes ok: "refs_ok d" and tent: "row d t = Some tent" "ntype tent \<noteq> TUP_NODE_CMD" and r: "del_generated d tent = Some (d', m)"
  shows "safe {} d d'"
proof (cases "name_s tent = ''.gitignore''")
  case True
  then have c: "tup_db_add_create_list d (dt tent) = Some d'" using r by (auto simp: del_generated_def bind_eq_Some_conv)
  show ?thesis by (rule safe_flag [OF add_flag_steps(1) [OF dt_known [OF refs_okD(2) [OF ok] tent(1)] c] ok])
next
  case False
  have id: "tnode_tupid tent = t" using row_self [OF refs_okD(4) [OF ok] tent(1)] by simp
  obtain d1 n where d1: "tup_db_modify_cmds_by_output d t = Some (d1, n)" and d': "tup_db_unflag_modify d1 t = Some d'"
    using r False id by (auto simp: del_generated_def bind_eq_Some_conv)
  have f: "flag_step d d1" by (rule by_output_step [OF ok d1])
  have s1: "safe {} d d1" by (rule safe_flag [OF f ok])
  have e: "d' = d1\<lparr>modify_list := removeAll t (modify_list d1)\<rparr>" using d' by (auto simp: tup_db_unflag_modify_def bind_eq_Some_conv)
  have "refs_ok d1" using s1 by (simp add: safe_def)
  moreover have "same_core d1 d'" unfolding e by (simp add: same_core_def)
  moreover have "all_flags d' \<subseteq> all_flags d1" unfolding e by (auto simp: all_flags_def)
  ultimately have "refs_ok d'" by (rule fewer_flags_ok)
  moreover have "c \<noteq> t" if "is_cmd d1 c" for c using that f tent by (auto simp: is_cmd_def flag_step_def same_core_def)
  then have "del_rel {} d1 d'" unfolding e by (intro del_relI) (auto simp: is_cmd_def)
  ultimately show ?thesis using safe_after [OF s1] by (simp add: safe_def)
qed

lemma by_input_flags:
  assumes r: "tup_db_modify_cmds_by_input d t = Some d'" and c: "(t, c) \<in> set (normal_link d)" "is_cmd d c"
  shows "c \<in> set (modify_list d')"
proof -
  have "c \<in> snd ` set (filter (\<lambda>(f, _). f = t) (normal_link d))" using c(1) by (force intro: rev_image_eqI)
  then have "c \<in> set (typed_targets d t [TUP_NODE_CMD, TUP_NODE_GROUP])" using c(2) by (auto simp: typed_targets_def is_cmd_def)
  then show ?thesis using r by (auto simp: tup_db_modify_cmds_by_input_def bind_eq_Some_conv)
qed

lemma del_finish_safe:
  assumes ok: "refs_ok d" and e: "row d t = Some e" "ntype e = ty" and ng: "ty \<noteq> TUP_NODE_GHOST"
    and tent: "tnode_tupid tent = t" "dt tent = dt e" and r: "del_finish h d tent ty force = Some (d', m)"
  shows "safe {t} d d'" and "gone d' t"
proof -
  obtain d1 d2 where d1: "(if ty = TUP_NODE_FILE \<or> ty = TUP_NODE_DIR then tup_db_set_dependent_flags d t else Some d) = Some d1"
    and d2: "(if ty = TUP_NODE_FILE \<or> ty = TUP_NODE_GENERATED then do {
            d3 \<leftarrow> tup_db_modify_cmds_by_input d1 t;
            if \<not> force then tup_db_add_create_list d3 (dt tent) else Some d3}
          else Some d1) = Some d2" and d4: "delete_name_file h d2 t = Some d'"
    using r tent(1) unfolding del_finish_def bind_eq_Some_conv Let_def by blast
  have f1: "flag_step d d1" using d1 dependent_step by (auto split: if_splits)
  have f2: "flag_step d1 d2 \<and> (\<forall>c. (t, c) \<in> set (normal_link d1) \<longrightarrow> is_cmd d1 c \<longrightarrow> c \<in> set (modify_list d2))"
    if rd: "ty = TUP_NODE_FILE \<or> ty = TUP_NODE_GENERATED"
  proof -
    obtain d3 where d3: "tup_db_modify_cmds_by_input d1 t = Some d3"
      and c: "(if \<not> force then tup_db_add_create_list d3 (dt tent) else Some d3) = Some d2" using d2 rd by (auto simp: bind_eq_Some_conv)
    have f3: "flag_step d1 d3" by (rule add_flag_steps(6) [OF d3])
    have "dt tent \<in> known d3" using flag_step_trans [OF f1 f3] dt_known [OF refs_okD(2) [OF ok] e(1)] tent(2) same_core_tree(2) [of d d3]
      by (simp add: flag_step_def)
    then have "flag_step d3 d2" using c add_flag_steps(1) by (cases force) auto
    then show ?thesis using flag_step_trans [OF f3] by_input_flags [OF d3] unfolding flag_step_def by blast
  qed
  have f: "flag_step d1 d2" using f2 d2 by (cases "ty = TUP_NODE_FILE \<or> ty = TUP_NODE_GENERATED") auto
  have f12: "flag_step d d2" by (rule flag_step_trans [OF f1 f])
  have ok2: "refs_ok d2" using flag_step_ok(1) f12 ok by blast
  have c1: "same_core d d2" "same_core d1 d2" using f f12 by (simp_all add: flag_step_def)
  have fl: "c \<in> set (modify_list d2)" if c: "(t, c) \<in> set (normal_link d2)" "fileish d2 t" "is_cmd d2 c" for c
  proof -
    have "ty = TUP_NODE_FILE \<or> ty = TUP_NODE_GENERATED" using c(2) e ng c1(1) by (auto simp: fileish_def same_core_def)
    then show ?thesis using f2 c(1,3) c1(2) same_core_tree(3) [OF c1(2)] by (simp add: same_core_def)
  qed
  note s = delete_name_file_step [OF ok2 d4 fl]
  show "safe {t} d d'" using safe_trans [OF safe_flag [OF f12 ok], of "{t}" d' "{t}"] s(1,2) by (simp add: safe_def)
  show "gone d' t" using s(3) by (simp add: gone_def)
qed


section \<open>The recursion\<close>

text \<open>What a deletion with \<open>n\<close> nested calls guarantees.\<close>

definition deletes :: "deleter \<Rightarrow> db \<Rightarrow> tupid \<Rightarrow> tup_node_type \<Rightarrow> bool \<Rightarrow> bool" where
  "deletes del d t ty force \<longleftrightarrow> del d t ty force \<noteq> None
     \<and> (\<forall>d' m. del d t ty force = ret (d', m) \<longrightarrow> safe (insert t (desc d t)) d d'
          \<and> (ty = TUP_NODE_DIR \<or> force \<longrightarrow> (\<forall>x \<in> insert t (below d t). gone d' x)))"

definition good :: "nat \<Rightarrow> host \<Rightarrow> bool" where
  "good n h \<longleftrightarrow> (\<forall>d t e force. refs_ok d \<longrightarrow> row d t = Some e \<longrightarrow> card (desc d t) < n
     \<longrightarrow> deletes (tup_del_id_type n h) d t (ntype e) force)"

lemma quiet_del_None: "quiet_del del t ty force d = None \<longleftrightarrow> del d t ty force = None"
  by (auto simp: quiet_del_def seq_None)

lemma quiet_del_ret: "quiet_del del t ty force d = ret d' \<longleftrightarrow> (\<exists>m. del d t ty force = ret (d', m))"
  by (auto simp: quiet_del_def seq_ret)

text \<open>The rows of a list of the children of a directory, as \<^verbatim>\<open>get_dir_entries\<close> returns it.\<close>

definition kids_ok :: "db \<Rightarrow> tupid \<Rightarrow> (tupid \<times> tup_node_type) list \<Rightarrow> bool" where
  "kids_ok d t l \<longleftrightarrow> distinct (map fst l) \<and> (\<forall>(i, ty) \<in> set l. \<exists>e. row d i = Some e \<and> dt e = t \<and> ntype e = ty)"

lemma kids_okD: "kids_ok d t l \<Longrightarrow> (i, ty) \<in> set l \<Longrightarrow> \<exists>e. row d i = Some e \<and> dt e = t \<and> ntype e = ty"
  by (auto simp: kids_ok_def)

lemma delete_child:
  assumes "refs_ok d" and "good n h" and "card (desc d t) \<le> n" and i: "row d i = Some e" "dt e = t"
  shows "quiet_del (tup_del_id_type n h) i (ntype e) force d \<noteq> None"
    and "quiet_del (tup_del_id_type n h) i (ntype e) force d = ret d' \<Longrightarrow> safe (insert i (desc d i)) d d'
      \<and> (ntype e = TUP_NODE_DIR \<or> force \<longrightarrow> (\<forall>x \<in> insert i (below d i). gone d' x))"
proof -
  have "card (desc d i) < n" using desc_child_less [OF assms(1) i] assms(3) by simp
  then have "deletes (tup_del_id_type n h) d i (ntype e) force" using assms by (simp add: good_def)
  then show "quiet_del (tup_del_id_type n h) i (ntype e) force d \<noteq> None"
    and "quiet_del (tup_del_id_type n h) i (ntype e) force d = ret d' \<Longrightarrow> safe (insert i (desc d i)) d d'
      \<and> (ntype e = TUP_NODE_DIR \<or> force \<longrightarrow> (\<forall>x \<in> insert i (below d i). gone d' x))"
    unfolding deletes_def quiet_del_None quiet_del_ret by blast+
qed

text \<open>The deletion of a child does not touch the others.\<close>

lemma other_children:
  assumes ok: "refs_ok d" and kids: "kids_ok d t ((i, ty) # l)" and rel: "del_rel (insert i (desc d i)) d d'"
  shows "kids_ok d' t l" and "\<And>j tj. (j, tj) \<in> set l \<Longrightarrow> below d j \<subseteq> below d' j" and "desc d' t \<subseteq> desc d t"
proof -
  obtain a where a: "row d i = Some a" "dt a = t" using kids by (auto simp: kids_ok_def)
  have apart: "insert i (desc d i) \<inter> insert j (desc d j) = {}" if j: "(j, tj) \<in> set l" for j tj
  proof -
    have "i \<noteq> j" using j kids by (force simp: kids_ok_def)
    moreover obtain b where "row d j = Some b" "dt b = t" using kids_okD [OF kids, of j tj] j by auto
    ultimately show ?thesis using siblings_apart [OF ok a] by blast
  qed
  have "\<exists>e. row d' j = Some e \<and> dt e = t \<and> ntype e = tj" if j: "(j, tj) \<in> set l" for j tj
  proof -
    obtain b where "row d j = Some b" "dt b = t" "ntype b = tj" using kids_okD [OF kids, of j tj] j by auto
    then show ?thesis using row_kept [OF rel, of j b] apart [OF j] by auto
  qed
  then show "kids_ok d' t l" using kids by (auto simp: kids_ok_def)
  show "\<And>j tj. (j, tj) \<in> set l \<Longrightarrow> below d j \<subseteq> below d' j" using below_kept [OF rel] apart by blast
  show "desc d' t \<subseteq> desc d t" by (rule desc_rel [OF rel])
qed

text \<open>The deletion of the children one after the other; \<open>g\<close> says which are forced.\<close>

abbreviation del_kids where
  "del_kids n h g l d \<equiv> run_each (\<lambda>(i, ty). quiet_del (tup_del_id_type n h) i ty (g ty)) l d"

lemma run_children:
  assumes "refs_ok d" and "good n h" and "card (desc d t) \<le> n" and "kids_ok d t l"
  shows "del_kids n h g l d \<noteq> None"
    and "del_kids n h g l d = ret d' \<Longrightarrow> safe (desc d t) d d'"
    and "del_kids n h g l d = ret d' \<Longrightarrow> \<forall>(i, ty) \<in> set l. ty = TUP_NODE_DIR \<or> g ty \<Longrightarrow>
      (i, ty) \<in> set l \<Longrightarrow> x \<in> insert i (below d i) \<Longrightarrow> gone d' x"
proof -
  have "del_kids n h g l d \<noteq> None \<and> (\<forall>d'. del_kids n h g l d = ret d' \<longrightarrow> safe (desc d t) d d'
      \<and> ((\<forall>(i, ty) \<in> set l. ty = TUP_NODE_DIR \<or> g ty) \<longrightarrow> (\<forall>(i, ty) \<in> set l. \<forall>x \<in> insert i (below d i). gone d' x)))"
    using assms(1,3,4)
  proof (induction l arbitrary: d)
    case Nil
    then show ?case by (simp add: safe_refl)
  next
    case (Cons p l)
    obtain i ty where p: "p = (i, ty)" by (cases p)
    obtain e where e: "row d i = Some e" "dt e = t" "ntype e = ty" using kids_okD [OF Cons.prems(3)] p by auto
    note del = delete_child [OF Cons.prems(1) assms(2) Cons.prems(2) e(1,2), unfolded e(3)]
    have sub: "insert i (desc d i) \<subseteq> desc d t" using desc_child [OF e(1,2)] by blast
    have rest: "del_kids n h g l d1 \<noteq> None \<and> (\<forall>d'. del_kids n h g l d1 = ret d' \<longrightarrow> safe (desc d t) d d'
        \<and> ((\<forall>(i, ty) \<in> set (p # l). ty = TUP_NODE_DIR \<or> g ty) \<longrightarrow> (\<forall>(i, ty) \<in> set (p # l). \<forall>x \<in> insert i (below d i). gone d' x)))"
      if d1: "quiet_del (tup_del_id_type n h) i ty (g ty) d = ret d1" for d1
    proof -
      have s: "safe (insert i (desc d i)) d d1" "ty = TUP_NODE_DIR \<or> g ty \<longrightarrow> (\<forall>x \<in> insert i (below d i). gone d1 x)"
        using del(2) [OF d1] by blast+
      then have ok1: "refs_ok d1" and rel: "del_rel (insert i (desc d i)) d d1" by (simp_all add: safe_def)
      note o = other_children [OF Cons.prems(1) _ rel, of t ty l]
      have k: "kids_ok d t ((i, ty) # l)" using Cons.prems(3) p by simp
      have "card (desc d1 t) \<le> n" using card_mono [OF finite_desc o(3) [OF k]] Cons.prems(2) by simp
      note ih = Cons.IH [OF ok1 this o(1) [OF k]]
      have "safe (desc d t) d d' \<and> ((\<forall>(i, ty) \<in> set (p # l). ty = TUP_NODE_DIR \<or> g ty) \<longrightarrow> (\<forall>(i, ty) \<in> set (p # l). \<forall>x \<in> insert i (below d i). gone d' x))"
        if r: "del_kids n h g l d1 = ret d'" for d'
      proof (intro conjI impI)
        have sd: "safe (desc d1 t) d1 d'" using ih r by blast
        then show "safe (desc d t) d d'" using safe_trans [OF s(1)] sub o(3) [OF k] by blast
        assume all: "\<forall>(i, ty) \<in> set (p # l). ty = TUP_NODE_DIR \<or> g ty"
        then have "\<forall>(i, ty) \<in> set l. \<forall>x \<in> insert i (below d1 i). gone d' x" using ih r by simp
        then have "\<forall>(i, ty) \<in> set l. \<forall>x \<in> insert i (below d i). gone d' x" using o(2) [OF k] by fast
        moreover have "\<forall>x \<in> insert i (below d i). gone d' x" using s(2) all p sd gone_rel unfolding safe_def by fastforce
        ultimately show "\<forall>(i, ty) \<in> set (p # l). \<forall>x \<in> insert i (below d i). gone d' x" using p by simp
      qed
      then show ?thesis using ih by blast
    qed
    have e: "del_kids n h g (p # l) d = seq (quiet_del (tup_del_id_type n h) i ty (g ty) d) (del_kids n h g l)" using p by simp
    show ?case unfolding e seq_None seq_ret using del(1) [of "g ty"] rest by blast
  qed
  then show "del_kids n h g l d \<noteq> None"
    and "del_kids n h g l d = ret d' \<Longrightarrow> safe (desc d t) d d'"
    and "del_kids n h g l d = ret d' \<Longrightarrow> \<forall>(i, ty) \<in> set l. ty = TUP_NODE_DIR \<or> g ty \<Longrightarrow>
      (i, ty) \<in> set l \<Longrightarrow> x \<in> insert i (below d i) \<Longrightarrow> gone d' x"
    by fast+
qed


lemma dir_entries:
  assumes "refs_ok d" and "get_dir_entries d t = Some l"
  shows "kids_ok d t l" and "row d c = Some e \<Longrightarrow> dt e = t \<Longrightarrow> (c, ntype e) \<in> set l"
proof -
  have l: "l = rev (map (\<lambda>(i, e). (i, ntype e)) (filter (\<lambda>(_, e). dt e = t) (node_tbl d)))"
    using assms(2) by (auto simp: get_dir_entries_def bind_eq_Some_conv)
  have "distinct (map fst (node_tbl d))" using refs_okD(4) [OF assms(1)] by (simp add: nodes_ok_def om_ok_def)
  then have "distinct (map fst (filter P (node_tbl d)))" for P by (rule distinct_map_filter)
  moreover have "map fst l = rev (map fst (filter (\<lambda>(_, e). dt e = t) (node_tbl d)))"
    unfolding l by (simp add: rev_map [symmetric] comp_def case_prod_beta)
  ultimately have "distinct (map fst l)" by simp
  then show "kids_ok d t l" unfolding kids_ok_def using row_in [OF assms(1)] by (auto simp: l)
  show "row d c = Some e \<Longrightarrow> dt e = t \<Longrightarrow> (c, ntype e) \<in> set l" using row_in [OF assms(1), of c e] by (force simp: l)
qed

lemma delete_entries:
  assumes "refs_ok d" and "good n h" and "card (desc d t) \<le> n" and l: "get_dir_entries d t = Some l"
  shows "del_kids n h g l d \<noteq> None"
    and "del_kids n h g l d = ret d' \<Longrightarrow> safe (desc d t) d d'"
    and "del_kids n h g l d = ret d' \<Longrightarrow> \<forall>ty. ty = TUP_NODE_DIR \<or> g ty \<Longrightarrow> row d c = Some e \<Longrightarrow> dt e = t
      \<Longrightarrow> x \<in> insert c (below d c) \<Longrightarrow> gone d' x"
    and "del_kids n h g l d = ret d' \<Longrightarrow> \<forall>ty. ty = TUP_NODE_DIR \<or> g ty \<Longrightarrow> x \<in> below d t \<Longrightarrow> gone d' x"
proof -
  note r = run_children [OF assms(1-3) dir_entries(1) [OF assms(1) l], of g]
  show "del_kids n h g l d \<noteq> None" and "del_kids n h g l d = ret d' \<Longrightarrow> safe (desc d t) d d'" using r(1,2) by blast+
  assume d': "del_kids n h g l d = ret d'" and all: "\<forall>ty. ty = TUP_NODE_DIR \<or> g ty"
  have child: "gone d' x" if c: "row d c = Some e" "dt e = t" "x \<in> insert c (below d c)" for c e
    using r(3) [OF d' _ dir_entries(2) [OF assms(1) l c(1,2)] c(3)] all by blast
  then show "row d c = Some e \<Longrightarrow> dt e = t \<Longrightarrow> x \<in> insert c (below d c) \<Longrightarrow> gone d' x" .
  assume "x \<in> below d t"
  then show "gone d' x" using below_dir(1) child by blast
qed

lemma delete_dir:
  assumes ok: "refs_ok d" and n: "good n h" "card (desc d t) \<le> n"
  shows "tup_db_delete_dir (tup_del_id_type n h) d t force \<noteq> None"
    and "tup_db_delete_dir (tup_del_id_type n h) d t force = ret d' \<Longrightarrow> safe (desc d t) d d' \<and> (\<forall>x \<in> below d t. gone d' x)"
proof -
  let ?g = "\<lambda>ty. if ty = TUP_NODE_DIR then force else True"
  have 1: "safe {} d d1 \<and> refs_ok d1 \<and> desc d1 t = desc d t \<and> below d1 t = below d t" if "tup_db_set_srcid_dir_flags d t = Some d1" for d1
  proof -
    have f: "flag_step d d1" by (rule srcid_dirs_step [OF ok that])
    then have "parent_rel d1 = parent_rel d" "dir_rel d1 = dir_rel d" by (simp_all add: flag_step_def same_core_def parent_rel_def dir_rel_def)
    then show ?thesis using safe_flag [OF f ok] by (simp add: safe_def desc_def below_def)
  qed
  have 2: "del_kids n h ?g l d1 \<noteq> None \<and> (\<forall>d'. del_kids n h ?g l d1 = ret d' \<longrightarrow> safe (desc d t) d d' \<and> (\<forall>x \<in> below d t. gone d' x))"
    if d1: "tup_db_set_srcid_dir_flags d t = Some d1" and l: "get_dir_entries d1 t = Some l" for d1 l
  proof -
    have s: "safe {} d d1" "refs_ok d1" "desc d1 t = desc d t" "below d1 t = below d t" using 1 [OF d1] by simp_all
    note e = delete_entries [OF s(2) n(1) _ l, of ?g, unfolded s(3,4), OF n(2)]
    show ?thesis using e(1,2,4) safe_trans [OF s(1), of "desc d t"] by auto
  qed
  show "tup_db_delete_dir (tup_del_id_type n h) d t force \<noteq> None"
    and "tup_db_delete_dir (tup_del_id_type n h) d t force = ret d' \<Longrightarrow> safe (desc d t) d d' \<and> (\<forall>x \<in> below d t. gone d' x)"
    using 2 unfolding tup_db_delete_dir_def seq_None seq_ret some_ret by blast+
qed


lemma forced_below:
  assumes ok: "refs_ok d" and s: "safe {t} d d1" and x: "x \<in> below d t"
  shows "\<exists>c e. row d1 c = Some e \<and> dt e = t \<and> x \<in> insert c (below d1 c)"
proof -
  have rel: "del_rel {t} d d1" using s by (simp add: safe_def)
  obtain c e where c: "row d c = Some e" "dt e = t" "x \<in> insert c (below d c)" using below_dir(1) [OF x] by blast
  have t: "t \<notin> insert c (desc d c)" using desc_child [OF c(1,2)] desc_irrefl [OF ok] by blast
  then have "below d c \<subseteq> below d1 c" by (intro below_kept [OF rel]) simp
  moreover obtain e1 where "row d1 c = Some e1" "dt e1 = t" using row_kept [OF rel _ c(1)] t c(2) by auto
  ultimately show ?thesis using c(3) by blast
qed

lemma flag_dir:
  assumes ok: "refs_ok d" and n: "good n h" "card (desc d t) \<le> n" and e: "row d t = Some e" "ntype e = TUP_NODE_GENERATED_DIR"
  shows "tup_db_flag_generated_dir (tup_del_id_type n h) d t force \<noteq> None"
    and "tup_db_flag_generated_dir (tup_del_id_type n h) d t force = ret d' \<Longrightarrow> safe (insert t (desc d t)) d d'
      \<and> (force \<longrightarrow> (\<forall>x \<in> insert t (below d t). gone d' x))"
proof -
  have 1: "safe {t} d d1 \<and> refs_ok d1 \<and> desc d1 t \<subseteq> desc d t \<and> (force \<longrightarrow> gone d1 t)"
    if "(if force then flag_forced_dir d t else Some d) = Some d1" for d1
    using that forced_dir_safe [OF ok e(1), of d1] e(2) safe_refl [OF ok, of "{t}"] desc_rel [of "{t}" d d1 t]
    by (cases force) (auto simp: safe_def)
  have 2: "del_kids n h (\<lambda>_. force) l d1 \<noteq> None \<and> (\<forall>d'. del_kids n h (\<lambda>_. force) l d1 = ret d'
      \<longrightarrow> safe (insert t (desc d t)) d d' \<and> (force \<longrightarrow> (\<forall>x \<in> insert t (below d t). gone d' x)))"
    if d1: "(if force then flag_forced_dir d t else Some d) = Some d1" and l: "get_dir_entries d1 t = Some l" for d1 l
  proof -
    have s: "safe {t} d d1" "refs_ok d1" "desc d1 t \<subseteq> desc d t" "force \<Longrightarrow> gone d1 t" using 1 [OF d1] by simp_all
    have c: "card (desc d1 t) \<le> n" using card_mono [OF finite_desc s(3)] n(2) by simp
    note r = delete_entries [OF s(2) n(1) c l, of "\<lambda>_. force"]
    have "safe (insert t (desc d t)) d d' \<and> (force \<longrightarrow> (\<forall>x \<in> insert t (below d t). gone d' x))"
      if d': "del_kids n h (\<lambda>_. force) l d1 = ret d'" for d'
    proof (intro conjI impI ballI)
      have s2: "safe (desc d1 t) d1 d'" using r(2) [OF d'] .
      then show "safe (insert t (desc d t)) d d'" using safe_trans [OF s(1)] s(3) by blast
      fix x assume f: force and x: "x \<in> insert t (below d t)"
      show "gone d' x"
      proof (cases "x = t")
        case True
        then show ?thesis using gone_rel [OF s(4) [OF f]] s2 unfolding safe_def by blast
      next
        case False
        then obtain c e where "row d1 c = Some e" "dt e = t" "x \<in> insert c (below d1 c)" using forced_below [OF ok s(1)] x by blast
        then show ?thesis using r(3) [OF d'] f by blast
      qed
    qed
    then show ?thesis using r(1) by blast
  qed
  show "tup_db_flag_generated_dir (tup_del_id_type n h) d t force \<noteq> None"
    and "tup_db_flag_generated_dir (tup_del_id_type n h) d t force = ret d' \<Longrightarrow> safe (insert t (desc d t)) d d'
      \<and> (force \<longrightarrow> (\<forall>x \<in> insert t (below d t). gone d' x))"
    using 2 unfolding tup_db_flag_generated_dir_def seq_None seq_ret some_ret by blast+
qed


text \<open>What follows in the deletion of a directory when the children are done.\<close>

lemma delete_dir_end:
  assumes ok: "refs_ok d" and tent: "row d t = Some tent" "ntype tent = TUP_NODE_DIR" and s2: "safe (desc d t) d d2"
    and d3: "del_dir_flags d2 t force = Some d3" and d': "del_finish h d3 tent TUP_NODE_DIR force = Some (d', m)"
  shows "safe (insert t (desc d t)) d d'" and "gone d' t" and "gone d2 x \<Longrightarrow> gone d' x"
proof -
  have s3: "safe {} d2 d3" using del_dir_safe [OF _ d3] s2 by (simp add: safe_def)
  then have s13: "safe (desc d t) d d3" using safe_trans [OF s2] by blast
  then have rel: "del_rel (desc d t) d d3" and ok3: "refs_ok d3" by (simp_all add: safe_def)
  obtain e where e: "row d3 t = Some e" "dt e = dt tent" "ntype e = TUP_NODE_DIR"
    using row_kept [OF rel desc_irrefl [OF ok] tent(1)] tent(2) by auto
  have id: "tnode_tupid tent = t" using row_self [OF refs_okD(4) [OF ok] tent(1)] by simp
  note f = del_finish_safe [OF ok3 e(1,3) _ id e(2) [symmetric] d']
  have s4: "safe {t} d3 d'" using f(1) by simp
  show "safe (insert t (desc d t)) d d'" using safe_trans [OF s13 s4] by blast
  show "gone d' t" using f(2) by simp
  show "gone d2 x \<Longrightarrow> gone d' x" using s3 s4 gone_rel unfolding safe_def by blast
qed

text \<open>The call after the check for \<^verbatim>\<open>tup.config\<close>.\<close>

lemma delete_rest:
  assumes ok: "refs_ok d" and good: "good n h" and small: "card (desc d t) < Suc n" and tent: "row d t = Some tent" "name_s tent \<noteq> TUP_CONFIG"
  shows "deletes (tup_del_id_type (Suc n) h) d t (ntype tent) force"
proof -
  have find: "tup_entry_find_row d t = Some tent" by (rule find_row [OF refs_okD(4) [OF ok] tent(1)])
  have cfg: "check_rm_tup_config d tent = Some (d, False)" using tent(2) by (simp add: check_rm_tup_config_def)
  have n: "card (desc d t) \<le> n" using small by simp
  have leaf: "below d t = {}" if "ntype tent \<notin> {TUP_NODE_DIR, TUP_NODE_GENERATED_DIR}" using below_dir(2) [of _ d t] tent that by auto
  have fin: "safe {t} d d' \<and> gone d' t" if "ntype tent \<noteq> TUP_NODE_GHOST" "del_finish h d tent (ntype tent) force = Some (d', m)" for d' m
    using del_finish_safe [OF ok tent(1) refl that(1) _ refl that(2)] row_self [OF refs_okD(4) [OF ok] tent(1)] by blast
  have up: "safe (insert t (desc d t)) d d'" if "safe S d d'" "S \<subseteq> {t}" for S d'
    using that del_rel_mono unfolding safe_def by blast
  consider (kept) "ntype tent \<in> {TUP_NODE_GHOST, TUP_NODE_GROUP}" | (gdir) "ntype tent = TUP_NODE_GENERATED_DIR" | (dir) "ntype tent = TUP_NODE_DIR"
    | (gen) "ntype tent = TUP_NODE_GENERATED" "\<not> force"
    | (rest) "ntype tent \<notin> {TUP_NODE_GHOST, TUP_NODE_GROUP, TUP_NODE_GENERATED_DIR, TUP_NODE_DIR}" "ntype tent = TUP_NODE_GENERATED \<longrightarrow> force" by blast
  then show ?thesis
  proof cases
    case kept
    then have "tup_del_id_type (Suc n) h d t (ntype tent) force = ret (d, False)" using find cfg by (auto simp: ret_def)
    then show ?thesis using up [OF safe_refl [OF ok, of "{}"]] leaf kept tent(1) by (auto simp: deletes_def gone_def)
  next
    case gdir
    then have "tup_del_id_type (Suc n) h d t (ntype tent) force = seq (tup_db_flag_generated_dir (tup_del_id_type n h) d t force) (\<lambda>d2. ret (d2, False))"
      using find cfg by simp
    then show ?thesis using flag_dir [OF ok good n tent(1) gdir] gdir by (auto simp: deletes_def seq_None seq_ret)
  next
    case dir
    let ?dd = "tup_db_delete_dir (tup_del_id_type n h) d t force"
    have eq: "tup_del_id_type (Suc n) h d t (ntype tent) force
        = seq ?dd (\<lambda>d2. seq (Some (del_dir_flags d2 t force)) (\<lambda>d3. Some (del_finish h d3 tent TUP_NODE_DIR force)))"
      using find cfg dir by simp
    have "safe (insert t (desc d t)) d d' \<and> (\<forall>x \<in> insert t (below d t). gone d' x)"
      if d2: "?dd = ret d2" and d3: "del_dir_flags d2 t force = Some d3" and d': "del_finish h d3 tent TUP_NODE_DIR force = Some (d', m)" for d2 d3 d' m
      using delete_dir_end [OF ok tent(1) dir delete_dir(2) [OF ok good n d2, THEN conjunct1] d3 d'] delete_dir(2) [OF ok good n d2] by blast
    then show ?thesis unfolding deletes_def eq seq_None seq_ret some_ret using delete_dir(1) [OF ok good n] by blast
  next
    case gen
    then have "tup_del_id_type (Suc n) h d t (ntype tent) force = Some (del_generated d tent)" using find cfg by simp
    then show ?thesis using del_generated_safe [OF ok tent(1)] up gen by (fastforce simp: deletes_def some_ret)
  next
    case rest
    then have "tup_del_id_type (Suc n) h d t (ntype tent) force = Some (del_finish h d tent (ntype tent) force)" using find cfg by auto
    then show ?thesis using fin up leaf rest by (fastforce simp: deletes_def some_ret)
  qed
qed


lemma good_all: "good n h"
proof (induction n)
  case 0
  show ?case by (simp add: good_def)
next
  case (Suc n)
  have "deletes (tup_del_id_type (Suc n) h) d t (ntype e) force"
    if ok: "refs_ok d" and e: "row d t = Some e" and small: "card (desc d t) < Suc n" for d t e force
  proof (cases "name_s e = TUP_CONFIG")
    case True
    have find: "tup_entry_find_row d t = Some e" by (rule find_row [OF refs_okD(4) [OF ok] e])
    have cfg: "snd p \<and> safe {t} d (fst p) \<and> gone (fst p) t" if "check_rm_tup_config d e = Some p" for p
    proof -
      obtain d1 b where p: "p = (d1, b)" by (cases p)
      have b using that True p by (auto simp: check_rm_tup_config_def bind_eq_Some_conv)
      then show ?thesis using rm_config_safe [OF ok e, of d1 b] that p by simp
    qed
    have "below d t = {}" using below_dir(2) [of _ d t] e True by auto
    then show ?thesis
      using cfg find by (cases "check_rm_tup_config d e") (auto simp: deletes_def ret_def safe_def intro: del_rel_mono)
  qed (use delete_rest [OF ok Suc.IH small e] in simp)
  then show ?case by (simp add: good_def)
qed

text \<open>The number of nested calls that the model allows is enough.\<close>

lemma enough_calls: "card (desc d t) < Suc (length (node_tbl d))"
proof -
  have "desc d t \<subseteq> fst ` set (node_tbl d)"
    unfolding desc_def by (auto simp: parent_rel_def dest!: tranclD2 map_of_SomeD intro: rev_image_eqI)
  then have "card (desc d t) \<le> card (fst ` set (node_tbl d))" by (intro card_mono) simp_all
  also have "\<dots> \<le> length (node_tbl d)" by (metis card_length length_map set_map)
  finally show ?thesis by simp
qed

lemma del_id_deletes: "refs_ok d \<Longrightarrow> row d t = Some e \<Longrightarrow> deletes (tup_del_id h) d t (ntype e) force"
  using good_all [of "Suc (length (node_tbl d))" h] enough_calls [of d t] unfolding good_def deletes_def tup_del_id_def by blast

lemma del_id_safe:
  "refs_ok d \<Longrightarrow> row d t = Some e \<Longrightarrow> tup_del_id h d t (ntype e) force = ret (d', m) \<Longrightarrow> safe (insert t (desc d t)) d d'"
  using del_id_deletes [of d t e h force] unfolding deletes_def by blast

section \<open>A small database\<close>

definition tree_entry :: "tupid \<Rightarrow> tupid \<Rightarrow> tup_node_type \<Rightarrow> string \<Rightarrow> tup_entry" where
  "tree_entry t p ty nm = (sample_entry t ty [])\<lparr>dt := p, name_s := nm\<rparr>"

text \<open>The directory \<^verbatim>\<open>d\<close> holds a file, which a command reads, and a directory with a generated file.\<close>

definition tree_db :: db where
  "tree_db = (sample_db [] [(3, 4), (4, 6)] [] [] [])\<lparr>node_tbl :=
     [(1, tree_entry 1 0 TUP_NODE_DIR ''.''), (2, tree_entry 2 1 TUP_NODE_DIR ''d''), (3, tree_entry 3 2 TUP_NODE_FILE ''f''),
      (4, tree_entry 4 1 TUP_NODE_CMD ''c''), (5, tree_entry 5 2 TUP_NODE_GENERATED_DIR ''g''),
      (6, (tree_entry 6 5 TUP_NODE_GENERATED ''o'')\<lparr>srcid := 1\<rparr>)]\<rparr>"

definition sample_host :: host where
  "sample_host = \<lparr>new_rowid = (\<lambda>d. 7), open_dir = (\<lambda>_. Opened), stat_at = (\<lambda>_ _. Stat_Missing), rmdir_ok = (\<lambda>_. True),
     unlink_ok = (\<lambda>_. True), regex_ok = (\<lambda>_. True), tup_top = ''/top''\<rparr>"

lemma increasing_acyclic:
  assumes "\<And>t e. row d t = Some e \<Longrightarrow> dt e < t"
  shows "acyclic (parent_rel d)"
proof -
  have "parent_rel d \<subseteq> {(a, b). a < b}" using assms by (auto simp: parent_rel_def)
  moreover have "acyclic {(a :: tupid, b). a < b}" by (auto intro!: acyclicI simp: trancl_id trans_def)
  ultimately show ?thesis using acyclic_subset by blast
qed

lemma tree_db_rows: "row tree_db t = Some e \<longleftrightarrow> (t, e) \<in> set (node_tbl tree_db)"
  by (rule om_ok_map_of_iff) (simp add: tree_db_def om_ok_def)

lemma tree_db_ok: "refs_ok tree_db"
proof -
  have "db_ok tree_db"
    by (simp add: db_ok_def nodes_ok_def links_ok_def cache_ok_def tree_db_def sample_db_def tree_entry_def sample_entry_def om_ok_def small_tupid_def)
  moreover have "tree_ok tree_db"
    unfolding tree_ok_def
  proof (intro conjI)
    show "acyclic (parent_rel tree_db)"
      by (rule increasing_acyclic) (auto simp: tree_db_rows, auto simp: tree_db_def tree_entry_def sample_entry_def)
    show "\<forall>t e t' e'. row tree_db t = Some e \<longrightarrow> row tree_db t' = Some e' \<longrightarrow> dt e = dt e' \<longrightarrow> name_s e = name_s e' \<longrightarrow> t = t'"
      unfolding tree_db_rows by (auto simp: tree_db_def tree_entry_def sample_entry_def)
    show "\<forall>t e. row tree_db t = Some e \<longrightarrow> (dt e = 0 \<or> row tree_db (dt e) \<noteq> None) \<and> (srcid e < 0 \<or> row tree_db (srcid e) \<noteq> None)
        \<and> (ntype e = TUP_NODE_GROUP \<longrightarrow> name_s e \<noteq> TUP_CONFIG)"
      unfolding tree_db_rows by (auto simp: tree_db_def tree_entry_def sample_entry_def)
  qed
  moreover have "flags_known tree_db" by (simp add: flags_known_def group_cmds_def tree_db_def sample_db_def)
  ultimately show ?thesis by (simp add: refs_ok_def)
qed


lemma desc_up: "x \<in> desc d t \<Longrightarrow> \<exists>e. row d x = Some e \<and> (dt e = t \<or> dt e \<in> desc d t)"
  by (auto simp: desc_def parent_rel_def dest!: tranclD2 simp: rtrancl_eq_or_trancl)

text \<open>Deleting the directory \<^verbatim>\<open>d\<close> leaves two ghosts, no link, and the command marked.\<close>

lemma tree_run:
  "\<exists>d' m. tup_del_id sample_host tree_db 2 TUP_NODE_DIR False = ret (d', m)
     \<and> map (\<lambda>(t, e). (t, ntype e)) (node_tbl d') = [(1, TUP_NODE_DIR), (2, TUP_NODE_GHOST), (4, TUP_NODE_CMD), (5, TUP_NODE_GHOST)]
     \<and> modify_list d' = [4] \<and> normal_link d' = []"
proof -
  have "case tup_del_id sample_host tree_db 2 TUP_NODE_DIR False of Some (Some (d', m)) \<Rightarrow>
     map (\<lambda>(t, e). (t, ntype e)) (node_tbl d') = [(1, TUP_NODE_DIR), (2, TUP_NODE_GHOST), (4, TUP_NODE_CMD), (5, TUP_NODE_GHOST)]
     \<and> modify_list d' = [4] \<and> normal_link d' = [] | _ \<Rightarrow> False"
    by code_simp
  then show ?thesis by (auto simp: ret_def split: option.splits)
qed

lemma tree_two: "\<exists>e. row tree_db 2 = Some e \<and> ntype e = TUP_NODE_DIR"
  by (simp add: tree_db_def tree_entry_def sample_entry_def)

lemma tree_cmd: "map (\<lambda>(t, e). (t, ntype e)) (node_tbl d) = [(1, a), (2, b), (4, TUP_NODE_CMD), (5, c)] \<Longrightarrow> is_cmd d 4"
  by (auto simp: is_cmd_def)

text \<open>The top directory holds a group.\<close>

definition group_db :: db where
  "group_db = (sample_db [] [] [] [] [])\<lparr>node_tbl := [(1, tree_entry 1 0 TUP_NODE_DIR ''.''), (2, tree_entry 2 1 TUP_NODE_GROUP ''<g>'')]\<rparr>"

lemma group_db_ok: "refs_ok group_db"
proof -
  have rows: "row group_db t = Some e \<longleftrightarrow> (t, e) \<in> set (node_tbl group_db)" for t e
    by (rule om_ok_map_of_iff) (simp add: group_db_def om_ok_def)
  have "db_ok group_db"
    by (simp add: db_ok_def nodes_ok_def links_ok_def cache_ok_def group_db_def sample_db_def tree_entry_def sample_entry_def om_ok_def small_tupid_def)
  moreover have "acyclic (parent_rel group_db)"
    by (rule increasing_acyclic) (auto simp: rows, auto simp: group_db_def tree_entry_def sample_entry_def)
  then have "tree_ok group_db"
    unfolding tree_ok_def rows by (auto simp: group_db_def tree_entry_def sample_entry_def TUP_CONFIG_def)
  moreover have "flags_known group_db" by (simp add: flags_known_def group_cmds_def group_db_def sample_db_def)
  ultimately show ?thesis by (simp add: refs_ok_def)
qed

section \<open>Properties\<close>

text \<open>
  C15: \<^verbatim>\<open>tup_del_id_type\<close> comes to an end for every node of a database that satisfies the invariant, however the directories
  are nested: the nested calls that \<open>tup_del_id\<close> allows, one more than there are rows, are never used up.
\<close>

theorem del_id_ends: "refs_ok d \<Longrightarrow> row d t = Some e \<Longrightarrow> tup_del_id h d t (ntype e) force \<noteq> None"
  using del_id_deletes [of d t e h force] unfolding deletes_def by blast

lemma del_id_ends_witness: "tup_del_id sample_host tree_db 2 TUP_NODE_DIR False \<noteq> None"
  using del_id_ends [OF tree_db_ok, of 2 "tree_entry 2 1 TUP_NODE_DIR ''d''" sample_host False]
  by (simp add: tree_db_def tree_entry_def sample_entry_def)

text \<open>
  C8: A deletion keeps the invariant of the node table: the rows are still a tree with unique names, every link and every
  flag refers to a row, the sticky caches agree with their table.  Rows outside the deleted tree all stay, with their
  directory, name and type, and no row is new.
\<close>

theorem del_id_keeps:
  assumes "refs_ok d" and "row d t = Some e" and "tup_del_id h d t (ntype e) force = ret (d', m)"
  shows "refs_ok d' \<and> (\<forall>x. x \<notin> insert t (desc d t) \<longrightarrow>
    map_option (\<lambda>e. (dt e, name_s e, ntype e)) (row d' x) = map_option (\<lambda>e. (dt e, name_s e, ntype e)) (row d x))"
proof (intro conjI allI impI)
  have s: "safe (insert t (desc d t)) d d'" by (rule del_id_safe [OF assms])
  then show "refs_ok d'" by (simp add: safe_def)
  have rel: "del_rel (insert t (desc d t)) d d'" using s by (simp add: safe_def)
  fix x assume x: "x \<notin> insert t (desc d t)"
  show "map_option (\<lambda>e. (dt e, name_s e, ntype e)) (row d' x) = map_option (\<lambda>e. (dt e, name_s e, ntype e)) (row d x)"
  proof (cases "row d x")
    case None
    then show ?thesis using del_relD(2) [OF rel, of x] by (cases "row d' x") auto
  qed (use row_kept [OF rel x] in auto)
qed

lemma del_id_keeps_witness:
  "\<exists>d' m. tup_del_id sample_host tree_db 2 TUP_NODE_DIR False = ret (d', m) \<and> refs_ok d'
     \<and> map_option (\<lambda>e. (dt e, name_s e, ntype e)) (row d' 4) = Some (1, ''c'', TUP_NODE_CMD)"
proof -
  obtain e where e: "row tree_db 2 = Some e" "ntype e = TUP_NODE_DIR" using tree_two by blast
  then obtain d' m where r: "tup_del_id sample_host tree_db 2 (ntype e) False = ret (d', m)" using tree_run by metis
  have "4 \<notin> insert 2 (desc tree_db 2)" using desc_up [of 4 tree_db 2] desc_up [of 1 tree_db 2] desc_up [of 0 tree_db 2]
    by (auto simp: tree_db_def tree_entry_def sample_entry_def)
  then have "refs_ok d' \<and> map_option (\<lambda>e. (dt e, name_s e, ntype e)) (row d' 4) = map_option (\<lambda>e. (dt e, name_s e, ntype e)) (row tree_db 4)"
    using del_id_keeps [OF tree_db_ok e(1) r] by blast
  then show ?thesis using r e(2) by (auto simp: tree_db_def tree_entry_def sample_entry_def)
qed

text \<open>
  C14: Deleting a directory, or any node with force, leaves nothing of it: every row that was reachable from the node through
  directories and generated directories is removed or is a ghost, groups excepted.  (A directory called
  \<^verbatim>\<open>tup.config\<close> is not entered.)
\<close>

theorem del_id_clears:
  assumes "refs_ok d" and "row d t = Some e" and "tup_del_id h d t (ntype e) force = ret (d', m)"
    and "ntype e = TUP_NODE_DIR \<or> force" and "x \<in> insert t (below d t)"
  shows "pred_option (\<lambda>e. ntype e \<in> {TUP_NODE_GHOST, TUP_NODE_GROUP}) (row d' x)"
  using del_id_deletes [OF assms(1,2), of h force] assms(3-5) unfolding deletes_def gone_def
  by (cases "row d' x") auto

lemma del_id_clears_witness:
  "\<exists>d' m. tup_del_id sample_host tree_db 2 TUP_NODE_DIR False = ret (d', m)
     \<and> pred_option (\<lambda>e. ntype e \<in> {TUP_NODE_GHOST, TUP_NODE_GROUP}) (row d' 5)"
proof -
  obtain e where e: "row tree_db 2 = Some e" "ntype e = TUP_NODE_DIR" using tree_two by blast
  then obtain d' m where r: "tup_del_id sample_host tree_db 2 (ntype e) False = ret (d', m)" using tree_run by metis
  have "(2, 5) \<in> dir_rel tree_db"
    by (auto simp: dir_rel_def parent_rel_def TUP_CONFIG_def tree_db_def tree_entry_def sample_entry_def)
  then have "5 \<in> insert 2 (below tree_db 2)" by (auto simp: below_def)
  then show ?thesis using del_id_clears [OF tree_db_ok e(1) r] r e(2) by auto
qed

text \<open>
  C7: No dependency is lost by a deletion: a command that read a file, a generated file or a ghost before it, and is still a
  command after it, still has the link or is marked to run again; and commands that were marked stay marked.
\<close>

theorem del_id_dependencies:
  assumes "refs_ok d" and "row d t = Some e" and "tup_del_id h d t (ntype e) force = ret (d', m)" and "is_cmd d' c"
    and "(f, c) \<in> set (normal_link d) \<and> fileish d f \<or> c \<in> set (modify_list d)"
  shows "(f, c) \<in> set (normal_link d') \<or> c \<in> set (modify_list d')"
proof -
  have rel: "del_rel (insert t (desc d t)) d d'" using del_id_safe [OF assms(1-3)] by (simp add: safe_def)
  show ?thesis using del_relD(3,4) [OF rel] assms(4,5) by blast
qed

lemma del_id_dependencies_witness:
  "\<exists>d' m. tup_del_id sample_host tree_db 2 TUP_NODE_DIR False = ret (d', m) \<and> row d' 3 = None \<and> is_cmd d' 4
     \<and> ((3, 4) \<in> set (normal_link d') \<or> 4 \<in> set (modify_list d'))"
proof -
  obtain e where e: "row tree_db 2 = Some e" "ntype e = TUP_NODE_DIR" using tree_two by blast
  then obtain d' m where r: "tup_del_id sample_host tree_db 2 (ntype e) False = ret (d', m)"
    and n: "map (\<lambda>(t, e). (t, ntype e)) (node_tbl d') = [(1, TUP_NODE_DIR), (2, TUP_NODE_GHOST), (4, TUP_NODE_CMD), (5, TUP_NODE_GHOST)]"
    using tree_run by metis
  have "(3, 4) \<in> set (normal_link tree_db) \<and> fileish tree_db 3"
    by (auto simp: fileish_def tree_db_def tree_entry_def sample_entry_def sample_db_def)
  moreover have "row d' 3 = None" using n by auto
  ultimately show ?thesis using del_id_dependencies [OF tree_db_ok e(1) r tree_cmd [OF n], of 3] tree_cmd [OF n] r e(2) by auto
qed

section \<open>Creating a node over another one\<close>

lemma select_row:
  assumes "refs_ok d" and "node_select d dtent nm = Some (Some e)"
  shows "row d (tnode_tupid e) = Some e"
    and "if dtent = 0 then tnode_tupid e = DOT_DT else dt e = dtent \<and> name_s e = nm"
proof -
  have self: "tnode_tupid x = t" if "row d t = Some x" for t x using row_self [OF refs_okD(4) [OF assms(1)] that] by simp
  have child: "row d (tnode_tupid e) = Some e \<and> dt e = dtent \<and> name_s e = nm" if f: "find_child d dtent nm = Some e"
  proof -
    obtain t r where "filter (\<lambda>(_, e). dt e = dtent \<and> name_s e = nm) (node_tbl d) = (t, e) # r"
      using f by (auto simp: find_child_def split: list.splits)
    then have "(t, e) \<in> set (filter (\<lambda>(_, e). dt e = dtent \<and> name_s e = nm) (node_tbl d))" by (metis list.set_intros(1))
    then show ?thesis using row_in [OF assms(1)] self [of t e] by auto
  qed
  have r: "dtent = 0 \<Longrightarrow> row d DOT_DT = Some e" "dtent \<noteq> 0 \<Longrightarrow> find_child d dtent nm = Some e"
    using assms(2) by (auto simp: node_select_def split: if_splits)
  show "row d (tnode_tupid e) = Some e" using r child self [of DOT_DT e] by (cases "dtent = 0") auto
  show "if dtent = 0 then tnode_tupid e = DOT_DT else dt e = dtent \<and> name_s e = nm"
    using r child self [of DOT_DT e] by (cases "dtent = 0") auto
qed

text \<open>After the deletion the place is free or holds a ghost.\<close>

lemma place_freed:
  assumes ok: "refs_ok d" and tent: "node_select d dtent nm = Some (Some tent)" "ntype tent \<noteq> TUP_NODE_GROUP"
    and del: "tup_del_id_force h d (tnode_tupid tent) (ntype tent) = ret d'" and e: "node_select d' dtent nm = Some (Some e)"
  shows "ntype e = TUP_NODE_GHOST"
proof -
  let ?t = "tnode_tupid tent"
  note r = select_row [OF ok tent(1)]
  obtain m where m: "tup_del_id h d ?t (ntype tent) True = ret (d', m)" using del by (auto simp: tup_del_id_force_def quiet_del_ret)
  have s: "refs_ok d'" "del_rel (insert ?t (desc d ?t)) d d'" "gone d' ?t"
    using del_id_deletes [OF ok r(1), of h True] m unfolding deletes_def safe_def by auto
  note r' = select_row [OF s(1) e]
  obtain e0 where e0: "row d (tnode_tupid e) = Some e0" "dt e = dt e0" "name_s e = name_s e0" "ntype e = ntype e0 \<or> ntype e = TUP_NODE_GHOST"
    using del_relD(2) [OF s(2) r'(1)] by blast
  have same: "tnode_tupid e = ?t"
  proof (cases "dtent = 0")
    case True
    then show ?thesis using r(2) r'(2) by simp
  next
    case False
    then show ?thesis using tree_okD(5) [OF refs_okD(2) [OF ok] e0(1) r(1)] r(2) r'(2) e0 by simp
  qed
  then have "e0 = tent" using e0(1) r(1) by simp
  then show ?thesis using s(3) r'(1) same e0(4) tent(2) by (auto simp: gone_def)
qed

text \<open>
  C36: Creating a node makes at most two calls: when a node of another type has the name, it is deleted with force, and then the
  name is free or belongs to a ghost.  This needs that the node is not a group.
\<close>

theorem create_node_ends:
  assumes "refs_ok d" and "\<And>tent. node_select d dtent (case len of None \<Rightarrow> nm | Some k \<Rightarrow> take k nm) = Some (Some tent) \<Longrightarrow> ntype tent \<noteq> TUP_NODE_GROUP"
  shows "tup_db_create_node_part_display h d dtent nm len display flags ty src \<noteq> None"
proof -
  let ?key = "case len of None \<Rightarrow> nm | Some k \<Rightarrow> take k nm"
  have second: "create_node_part_display (Suc 0) h d' dtent nm len display flags ty src \<noteq> None"
    if g: "\<And>e. node_select d' dtent ?key = Some (Some e) \<Longrightarrow> ntype e = TUP_NODE_GHOST" for d'
  proof (cases "node_select d' dtent ?key")
    case (Some r)
    then show ?thesis using g by (cases r) (simp_all add: Let_def)
  qed (simp add: Let_def)
  show ?thesis
  proof (cases "\<exists>tent. node_select d dtent ?key = Some (Some tent) \<and> ntype tent \<noteq> TUP_NODE_GHOST")
    case True
    then obtain tent where tent: "node_select d dtent ?key = Some (Some tent)" by blast
    have "tup_del_id_force h d (tnode_tupid tent) (ntype tent) \<noteq> None"
      using del_id_deletes [OF assms(1) select_row(1) [OF assms(1) tent], of h True]
      unfolding tup_del_id_force_def quiet_del_None deletes_def by blast
    moreover have "create_node_part_display (Suc 0) h d' dtent nm len display flags ty src \<noteq> None"
      if "tup_del_id_force h d (tnode_tupid tent) (ntype tent) = ret d'" for d'
      using second place_freed [OF assms(1) tent assms(2) [OF tent] that] by blast
    ultimately have "seq (tup_del_id_force h d (tnode_tupid tent) (ntype tent)) (\<lambda>d1. create_node_part_display (Suc 0) h d1 dtent nm len display flags ty src) \<noteq> None"
      unfolding seq_None by blast
    then show ?thesis using tent unfolding tup_db_create_node_part_display_def numeral_2_eq_2 create_node_part_display.simps(2) Let_def by simp
  next
    case False
    then show ?thesis
      unfolding tup_db_create_node_part_display_def numeral_2_eq_2 create_node_part_display.simps(2) Let_def
      by (cases "node_select d dtent ?key"; cases "the (node_select d dtent ?key)") auto
  qed
qed

lemma create_node_ends_witness: "tup_db_create_node_part_display sample_host tree_db 1 ''d'' None None [] TUP_NODE_FILE (-1) \<noteq> None"
  by (rule create_node_ends [OF tree_db_ok]) (auto simp: node_select_def find_child_def tree_db_def tree_entry_def sample_entry_def)

text \<open>
  C37: If the name belongs to a group and a node of another type is asked for, such as a directory called \<^verbatim>\<open><g>\<close>, the calls never
  end, whatever number of them is allowed: the deletion leaves groups alone and the function calls itself on the same database.
\<close>

theorem create_over_group_diverges:
  assumes "refs_ok d" and "node_select d dtent nm = Some (Some tent)" and "ntype tent = TUP_NODE_GROUP" and "ty \<noteq> TUP_NODE_GROUP"
  shows "create_node_part_display n h d dtent nm None display flags ty src = None"
proof (induction n)
  case (Suc n)
  have row: "row d (tnode_tupid tent) = Some tent" by (rule select_row(1) [OF assms(1,2)])
  have "name_s tent \<noteq> TUP_CONFIG" by (rule tree_okD(4) [OF refs_okD(2) [OF assms(1)] row assms(3)])
  then have "tup_del_id_force h d (tnode_tupid tent) (ntype tent) = ret d"
    using find_row [OF refs_okD(4) [OF assms(1)] row] assms(3)
    by (simp add: tup_del_id_force_def quiet_del_def tup_del_id_def check_rm_tup_config_def ret_def)
  then show ?case using Suc assms(2-4) by (simp add: ret_def)
qed simp


lemma create_over_group_diverges_witness:
  "create_node_part_display 1000 sample_host group_db 1 ''<g>'' None None [] TUP_NODE_DIR (-1) = None"
  by (rule create_over_group_diverges [OF group_db_ok, of _ _ "tree_entry 2 1 TUP_NODE_GROUP ''<g>''"])
    (simp_all add: node_select_def find_child_def group_db_def tree_entry_def sample_entry_def)

end
