(* ===== verification/Reclaim.thy ===== *)
theory Reclaim
  imports Deletion Db_Write
begin

text \<open>
  Removing the ghosts, groups and generated directories that nothing needs any more
  (\<^verbatim>\<open>reclaim_ghosts\<close> of \<^verbatim>\<open>src/src/tup/db.c\<close>, at every commit).  The loop comes to an end, removes nothing else, and forgets none.
\<close>

section \<open>The code\<close>

definition exclusion_reclaimable :: "db \<Rightarrow> tupid \<Rightarrow> bool option" where
  "exclusion_reclaimable d t = do {
     step d DB_EXCLUSION_RECLAIMABLE; Some (\<not> (\<exists>(_, to_id) \<in> set (normal_link d). to_id = t))}"

definition group_reclaimable1 :: "db \<Rightarrow> tupid \<Rightarrow> bool option" where
  "group_reclaimable1 d t = do {
     step d DB_GROUP_RECLAIMABLE1; Some (\<not> (\<exists>(from_id, to_id) \<in> set (normal_link d). from_id = t \<or> to_id = t))}"

definition group_reclaimable2 :: "db \<Rightarrow> tupid \<Rightarrow> bool option" where
  "group_reclaimable2 d t = do {
     step d DB_GROUP_RECLAIMABLE2; Some (\<not> (\<exists>(from_id, _) \<in> set (sticky_link d). from_id = t))}"

definition ghost_reclaimable1 :: "db \<Rightarrow> tupid \<Rightarrow> bool option" where
  "ghost_reclaimable1 d t = do {
     step d DB_GHOST_RECLAIMABLE1; Some (\<not> (\<exists>(_, e) \<in> set (node_tbl d). dt e = t \<or> srcid e = t))}"

definition ghost_reclaimable2 :: "db \<Rightarrow> tupid \<Rightarrow> bool option" where
  "ghost_reclaimable2 d t = do {
     step d DB_GHOST_RECLAIMABLE2; Some (\<not> (\<exists>(from_id, _) \<in> set (normal_link d). from_id = t))}"

definition ghost_reclaimable :: "db \<Rightarrow> tup_entry \<Rightarrow> bool option" where
  "ghost_reclaimable d tent =
     (if dt tent = local_exclusion_dt d then exclusion_reclaimable d (tnode_tupid tent)
      else if ntype tent = TUP_NODE_GHOST \<or> ntype tent = TUP_NODE_GENERATED_DIR then do {
        rc1 \<leftarrow> ghost_reclaimable1 d (tnode_tupid tent);
        if \<not> rc1 then Some False else ghost_reclaimable2 d (tnode_tupid tent)}
      else do {
        rc1 \<leftarrow> group_reclaimable1 d (tnode_tupid tent);
        if \<not> rc1 then Some False else group_reclaimable2 d (tnode_tupid tent)})"

text \<open>
  The first entry of the tree, with the parents to check in the next round.  An id without a row would be a dangling
  pointer, and the parent of the root of the hierarchy is NULL.
\<close>

definition reclaim_one :: "host \<Rightarrow> tupid \<Rightarrow> tent_entries \<Rightarrow> db \<Rightarrow> (tent_entries \<times> db) option" where
  "reclaim_one h t tmp_root d0 = do {
     let d = tup_db_del_ghost_tree d0 t;
     tent \<leftarrow> map_of (node_tbl d) t;
     if \<not> ghost_type tent then None
     else do {
       rc \<leftarrow> ghost_reclaimable d tent;
       if rc \<and> name_s tent \<noteq> TUP_CONFIG then do {
         parent \<leftarrow> parent_of d tent;
         let d1 = tup_db_del_ghost_tree d (tnode_tupid parent);
         let tmp1 = tup_entry_add_ghost_tree (tupid_tree_remove tmp_root t) parent;
         rm_generated_dir h tent;
         d2 \<leftarrow> delete_name_file h d1 t;
         Some (tmp1, d2)}
       else Some (tmp_root, d)}}"

definition swap_roots :: "tent_entries \<times> db \<Rightarrow> tent_entries \<times> db" where
  "swap_roots p = (case p of (tmp_root, d) \<Rightarrow> if ghost_root d = [] then ([], d\<lparr>ghost_root := tmp_root\<rparr>) else (tmp_root, d))"

text \<open>The outer option is whether the loop ends, the inner one the result.\<close>

partial_function (option) reclaim_loop :: "host \<Rightarrow> tent_entries \<Rightarrow> db \<Rightarrow> db option option" where
  "reclaim_loop h tmp_root d =
     (case ghost_root d of
        [] \<Rightarrow> Some (Some d)
      | t # _ \<Rightarrow> (case reclaim_one h t tmp_root d of
          None \<Rightarrow> Some None
        | Some p \<Rightarrow> reclaim_loop h (fst (swap_roots p)) (snd (swap_roots p))))"

declare reclaim_loop.simps [code]

definition reclaim_ghosts :: "host \<Rightarrow> db \<Rightarrow> db option option" where
  "reclaim_ghosts h d = reclaim_loop h [] d"

section \<open>What a step needs\<close>

text \<open>
  Nothing is below an exclusion pattern, and no link leads from one; sticky links do not lead to ghosts or groups; no node
  is its own source.  The trees hold rows.
\<close>

definition exclusions_ok :: "db \<Rightarrow> bool" where
  "exclusions_ok d \<longleftrightarrow> (\<forall>t e. row d t = Some e \<longrightarrow> dt e = local_exclusion_dt d \<longrightarrow>
     (\<forall>x e'. row d x = Some e' \<longrightarrow> dt e' \<noteq> t \<and> srcid e' \<noteq> t) \<and> (\<forall>c. (t, c) \<notin> set (normal_link d)))"

definition stickies_ok :: "db \<Rightarrow> bool" where
  "stickies_ok d \<longleftrightarrow> (\<forall>(a, b) \<in> set (sticky_link d). pred_option (\<lambda>e. \<not> ghost_type e) (row d b))"

definition srcids_ok :: "db \<Rightarrow> bool" where
  "srcids_ok d \<longleftrightarrow> (\<forall>t e. row d t = Some e \<longrightarrow> srcid e \<noteq> t)"

definition awaiting :: "tent_entries \<Rightarrow> db \<Rightarrow> tupid set" where
  "awaiting tmp_root d = set (ghost_root d) \<union> set tmp_root"

definition reclaim_inv :: "tent_entries \<Rightarrow> db \<Rightarrow> bool" where
  "reclaim_inv tmp_root d \<longleftrightarrow> refs_ok d \<and> exclusions_ok d \<and> stickies_ok d \<and> srcids_ok d \<and> tupid_set.valid (ghost_root d) \<and> tupid_set.valid tmp_root
     \<and> awaiting tmp_root d \<subseteq> {t. row d t \<noteq> None}"

lemma reclaim_invD:
  assumes "reclaim_inv tmp_root d"
  shows "refs_ok d" "exclusions_ok d" "stickies_ok d" "srcids_ok d" "tupid_set.valid (ghost_root d)" "tupid_set.valid tmp_root"
    "t \<in> set (ghost_root d) \<Longrightarrow> row d t \<noteq> None" "t \<in> set tmp_root \<Longrightarrow> row d t \<noteq> None"
  using assms by (auto simp: reclaim_inv_def awaiting_def)

text \<open>What makes a row worth removing.\<close>

definition unneeded :: "db \<Rightarrow> tupid \<Rightarrow> bool" where
  "unneeded d t \<longleftrightarrow> (\<exists>e. row d t = Some e \<and> ghost_type e \<and> name_s e \<noteq> TUP_CONFIG \<and>
     (if dt e = local_exclusion_dt d then \<forall>x. (x, t) \<notin> set (normal_link d)
      else if ntype e = TUP_NODE_GROUP then \<forall>x. (x, t) \<notin> set (normal_link d) \<and> (t, x) \<notin> set (normal_link d) \<and> (t, x) \<notin> set (sticky_link d)
      else (\<forall>x e'. row d x = Some e' \<longrightarrow> dt e' \<noteq> t \<and> srcid e' \<noteq> t) \<and> (\<forall>x. (t, x) \<notin> set (normal_link d))))"

text \<open>
  What is in use, by the meaning of the rows: everything that is not a ghost, group or generated directory, and the
  \<^verbatim>\<open>tup.config\<close> file; an exclusion pattern or a group that a command writes to; a group that is a sticky
  input; what something in use depends on; and the directory, or the source directory, of something in use.  The set is the
  largest one, so nodes that only use each other are in it.
\<close>

coinductive_set in_use :: "db \<Rightarrow> tupid set" for d where
  proper: "row d t = Some e \<Longrightarrow> \<not> ghost_type e \<or> name_s e = TUP_CONFIG \<Longrightarrow> t \<in> in_use d"
| written: "row d t = Some e \<Longrightarrow> dt e = local_exclusion_dt d \<or> ntype e = TUP_NODE_GROUP \<Longrightarrow> (c, t) \<in> set (normal_link d) \<Longrightarrow> t \<in> in_use d"
| stuck_to: "row d t = Some e \<Longrightarrow> dt e \<noteq> local_exclusion_dt d \<Longrightarrow> ntype e = TUP_NODE_GROUP \<Longrightarrow> (t, c) \<in> set (sticky_link d)
    \<Longrightarrow> t \<in> in_use d"
| read: "row d t = Some e \<Longrightarrow> dt e \<noteq> local_exclusion_dt d \<Longrightarrow> (t, c) \<in> set (normal_link d) \<Longrightarrow> c \<in> in_use d \<Longrightarrow> t \<in> in_use d"
| holds: "row d t = Some e \<Longrightarrow> dt e \<noteq> local_exclusion_dt d \<Longrightarrow> ntype e \<noteq> TUP_NODE_GROUP \<Longrightarrow> row d c = Some e'
    \<Longrightarrow> dt e' = t \<or> srcid e' = t \<Longrightarrow> c \<in> in_use d \<Longrightarrow> t \<in> in_use d"

text \<open>Groups hold no other nodes.\<close>

definition groups_ok :: "db \<Rightarrow> bool" where
  "groups_ok d \<longleftrightarrow> (\<forall>x e. row d x = Some e \<longrightarrow> \<not> is_group d (dt e) \<and> \<not> is_group d (srcid e))"

lemma in_use_row: "t \<in> in_use d \<Longrightarrow> row d t \<noteq> None"
  by (erule in_use.cases) auto

lemma in_use_transfer:
  assumes "x \<in> in_use d" and ex: "local_exclusion_dt d' = local_exclusion_dt d"
    and rows: "\<And>y e. y \<in> in_use d \<Longrightarrow> row d y = Some e \<Longrightarrow> row d' y = Some e"
    and normal: "\<And>y z. z \<in> in_use d \<Longrightarrow> (y, z) \<in> set (normal_link d) \<Longrightarrow> (y, z) \<in> set (normal_link d')"
    and sticky: "\<And>y z. y \<in> in_use d \<Longrightarrow> (y, z) \<in> set (sticky_link d) \<Longrightarrow> (y, z) \<in> set (sticky_link d')"
  shows "x \<in> in_use d'"
  using assms(1)
proof (coinduction arbitrary: x)
  case in_use
  from in_use show ?case
  proof (cases rule: in_use.cases)
    case (holds e c e')
    then show ?thesis using rows [OF in_use] rows [of c e'] ex by metis
  qed (use rows [OF in_use] normal sticky in_use ex in metis)+
qed

lemma in_use_same:
  assumes "node_tbl d' = node_tbl d" and "normal_link d' = normal_link d" and "sticky_link d' = sticky_link d"
    and "local_exclusion_dt d' = local_exclusion_dt d"
  shows "in_use d' = in_use d" and "groups_ok d' = groups_ok d"
proof -
  show "in_use d' = in_use d"
    by (intro set_eqI iffI; erule in_use_transfer) (simp_all add: assms)
  show "groups_ok d' = groups_ok d" using assms by (simp add: groups_ok_def is_group_def)
qed

lemma unneeded_unused: "unneeded d t \<Longrightarrow> t \<notin> in_use d"
proof
  assume u: "unneeded d t" and "t \<in> in_use d"
  then obtain e where e: "row d t = Some e" "ghost_type e" "name_s e \<noteq> TUP_CONFIG" by (auto simp: unneeded_def)
  note un = u [unfolded unneeded_def e(1)]
  from \<open>t \<in> in_use d\<close> show False
  proof cases
    case (holds e2 c e')
    then show False using un e by auto
  qed (use un e in \<open>auto split: if_splits\<close>)
qed

text \<open>When no unneeded node is left, all rows are in use.\<close>

lemma all_in_use:
  assumes ok: "refs_ok d" and none: "\<And>x. \<not> unneeded d x" and "row d x \<noteq> None"
  shows "x \<in> in_use d"
  using assms(3)
proof (coinduction arbitrary: x)
  case (in_use x)
  then obtain e where e: "row d x = Some e" by auto
  have ends: "row d c \<noteq> None" if "(x, c) \<in> set (normal_link d)" for c
    using links_ok_ends [OF refs_okD(5) [OF ok]] that by blast
  have "\<not> ghost_type e \<or> name_s e = TUP_CONFIG \<or>
     (if dt e = local_exclusion_dt d then \<exists>y. (y, x) \<in> set (normal_link d)
      else if ntype e = TUP_NODE_GROUP then \<exists>y. (y, x) \<in> set (normal_link d) \<or> (x, y) \<in> set (normal_link d) \<or> (x, y) \<in> set (sticky_link d)
      else (\<exists>y e'. row d y = Some e' \<and> (dt e' = x \<or> srcid e' = x)) \<or> (\<exists>y. (x, y) \<in> set (normal_link d)))"
    using none [of x] e unfolding unneeded_def by (auto split: if_splits)
  then consider "\<not> ghost_type e \<or> name_s e = TUP_CONFIG"
    | c where "dt e = local_exclusion_dt d \<or> ntype e = TUP_NODE_GROUP" "(c, x) \<in> set (normal_link d)"
    | c where "dt e \<noteq> local_exclusion_dt d" "ntype e = TUP_NODE_GROUP" "(x, c) \<in> set (sticky_link d)"
    | c where "dt e \<noteq> local_exclusion_dt d" "(x, c) \<in> set (normal_link d)"
    | c e' where "dt e \<noteq> local_exclusion_dt d" "ntype e \<noteq> TUP_NODE_GROUP" "row d c = Some e'" "dt e' = x \<or> srcid e' = x"
    by (auto split: if_splits)
  then show ?case
  proof cases
    case (4 c)
    then show ?thesis using e ends [of c] by blast
  next
    case (5 c e')
    then have "row d c \<noteq> None" by simp
    then show ?thesis using e 5 by blast
  qed (use e in blast)+
qed

lemma reclaimable_iff:
  assumes ok: "refs_ok d" and e: "row d t = Some e" "ghost_type e" and rc: "ghost_reclaimable d e = Some rc"
  shows "rc \<and> name_s e \<noteq> TUP_CONFIG \<longleftrightarrow> unneeded d t"
proof -
  have id: "tnode_tupid e = t" using row_self [OF refs_okD(4) [OF ok] e(1)] by simp
  have rows: "(\<exists>(_, e) \<in> set (node_tbl d). dt e = t \<or> srcid e = t) \<longleftrightarrow> \<not> (\<forall>x e'. row d x = Some e' \<longrightarrow> dt e' \<noteq> t \<and> srcid e' \<noteq> t)"
    using row_in [OF ok] by fastforce
  have gh: "ntype e = TUP_NODE_GHOST \<or> ntype e = TUP_NODE_GENERATED_DIR \<longleftrightarrow> ntype e \<noteq> TUP_NODE_GROUP" using e(2) by (auto simp: ghost_type_def)
  have ln: "(\<exists>(_, b) \<in> set l. b = t) \<longleftrightarrow> \<not> (\<forall>x. (x, t) \<notin> set l)" "(\<exists>(a, _) \<in> set l. a = t) \<longleftrightarrow> \<not> (\<forall>x. (t, x) \<notin> set l)"
    "(\<exists>(a, b) \<in> set l. a = t \<or> b = t) \<longleftrightarrow> \<not> (\<forall>x. (x, t) \<notin> set l \<and> (t, x) \<notin> set l)" for l :: "(tupid \<times> tupid) list"
    by force+
  show ?thesis
    using rc e unfolding unneeded_def ghost_reclaimable_def gh id
    by (auto simp: exclusion_reclaimable_def ghost_reclaimable1_def ghost_reclaimable2_def group_reclaimable1_def group_reclaimable2_def
        rows ln bind_eq_Some_conv split: if_splits)
qed


section \<open>The ghosts that a deletion adds\<close>

lemma ghosts_add:
  assumes "nodes_ok d" and "list_all (\<lambda>e. row d (tnode_tupid e) = Some e) es" and "tupid_set.valid g"
  shows "tupid_set.valid (foldl tup_entry_add_ghost_tree g es)
    \<and> set (foldl tup_entry_add_ghost_tree g es) = set g \<union> {tnode_tupid e | e. e \<in> set es \<and> ghost_type e}"
  using assms(2,3)
proof (induction es arbitrary: g)
  case (Cons e es)
  have "row d (tnode_tupid e) = Some e" using Cons.prems(1) by simp
  note g = ghost_add [OF Cons.prems(2) assms(1) this]
  show ?case using Cons.IH [OF _ g(1)] g(2) Cons.prems(1) by auto
qed simp

lemma add_inputs_ghosts: "add_inputs True es g = Some (foldl tup_entry_add_ghost_tree g es)"
  by (induction es arbitrary: g) auto

lemma found_ghosts:
  assumes "nodes_ok d" and "find_rows d ts = Some es" and "tupid_set.valid g"
  shows "tupid_set.valid (foldl tup_entry_add_ghost_tree g es)"
    and "set (foldl tup_entry_add_ghost_tree g es) = set g \<union> {y \<in> set ts. \<exists>e. row d y = Some e \<and> ghost_type e}"
proof -
  have r: "list_all2 (\<lambda>t e. row d t = Some e) ts es" by (rule find_rows_ids [OF assms(2)])
  have self: "row d t = Some e \<Longrightarrow> tnode_tupid e = t" for t e using row_self [OF assms(1)] by blast
  have es: "list_all (\<lambda>e. row d (tnode_tupid e) = Some e) es"
    using r self by (force simp: list_all_length list_all2_conv_all_nth)
  have "e \<in> set es \<longleftrightarrow> (\<exists>t \<in> set ts. row d t = Some e)" for e
    using r by (fastforce simp: list_all2_conv_all_nth in_set_conv_nth)
  then have "{tnode_tupid e | e. e \<in> set es \<and> ghost_type e} = {y \<in> set ts. \<exists>e. row d y = Some e \<and> ghost_type e}"
    using self by auto
  then show "tupid_set.valid (foldl tup_entry_add_ghost_tree g es)"
    and "set (foldl tup_entry_add_ghost_tree g es) = set g \<union> {y \<in> set ts. \<exists>e. row d y = Some e \<and> ghost_type e}"
    using ghosts_add [OF assms(1) es assms(3)] by simp_all
qed

definition ghost_row :: "db \<Rightarrow> tupid \<Rightarrow> bool" where
  "ghost_row d y \<longleftrightarrow> (\<exists>e. row d y = Some e \<and> ghost_type e)"

lemma links_ghosts:
  assumes ok: "refs_ok d" and v: "tupid_set.valid (ghost_root d)" and r: "tup_db_delete_links d t = Some d'"
  shows "tupid_set.valid (ghost_root d')"
    and "set (ghost_root d') = set (ghost_root d) \<union> {y. ghost_row d y \<and> ((y, t) \<in> set (normal_link d) \<or> (t, y) \<in> set (normal_link d))}"
    and "local_exclusion_dt d' = local_exclusion_dt d"
proof -
  obtain d1 d2 d3 d4 d5 where d: "add_ghost_checks d t = Some d1" "add_group_and_exclusion_checks d1 t = Some d2"
      "flag_group_users d2 t = Some d3" "delete_normal_links d3 t = Some d4" "delete_sticky_links d4 t = Some d5" "delete_group_links d5 t = Some d'"
    using r unfolding tup_db_delete_links_def bind_eq_Some_conv by blast
  obtain es where es: "find_rows d (map fst (filter (\<lambda>(_, to_id). to_id = t) (normal_link d))) = Some es"
    and d1: "d1 = d\<lparr>ghost_root := foldl tup_entry_add_ghost_tree (ghost_root d) es\<rparr>"
    using d(1) by (auto simp: add_ghost_checks_def get_normal_inputs_def add_inputs_ghosts bind_eq_Some_conv)
  obtain fs where fs: "find_rows d1 (map snd (filter (\<lambda>(f, _). f = t) (normal_link d1))) = Some fs"
    and d2: "d2 = d1\<lparr>ghost_root := foldl tup_entry_add_ghost_tree (ghost_root d1) fs\<rparr>"
    using d(2) by (auto simp: add_group_and_exclusion_checks_def get_outputs_def bind_eq_Some_conv)
  note n = refs_okD(4) [OF ok]
  note g1 = found_ghosts [OF n es v]
  have n1: "nodes_ok d1" using n by (simp add: d1 nodes_ok_def)
  have "tupid_set.valid (ghost_root d1)" using g1(1) by (simp add: d1)
  note g2 = found_ghosts [OF n1 fs this]
  obtain l where l: "d3 = d2\<lparr>create_list := l\<rparr>" using group_users_shape [OF d(3)] by blast
  have same: "ghost_root d' = ghost_root d2 \<and> local_exclusion_dt d' = local_exclusion_dt d"
    using d(4,5,6) by (auto simp: delete_normal_links_def delete_sticky_links_def delete_group_links_def bind_eq_Some_conv Let_def l d2 d1)
  then show "tupid_set.valid (ghost_root d')" "local_exclusion_dt d' = local_exclusion_dt d" using g2(1) by (simp_all add: d2)
  have gr: "ghost_root d2 = foldl tup_entry_add_ghost_tree (ghost_root d1) fs" "ghost_root d1 = foldl tup_entry_add_ghost_tree (ghost_root d) es"
      "node_tbl d1 = node_tbl d" "normal_link d1 = normal_link d" by (simp_all add: d2, simp_all add: d1)
  show "set (ghost_root d') = set (ghost_root d) \<union> {y. ghost_row d y \<and> ((y, t) \<in> set (normal_link d) \<or> (t, y) \<in> set (normal_link d))}"
    unfolding same [THEN conjunct1] gr(1) g2(2) unfolding gr(2) g1(2) gr(3,4) by (force simp: ghost_row_def)
qed


definition refers :: "db \<Rightarrow> tupid \<Rightarrow> bool" where
  "refers d t \<longleftrightarrow> (\<exists>x e. row d x = Some e \<and> (dt e = t \<or> srcid e = t))"

lemma om_put_length: "map_of m k \<noteq> None \<Longrightarrow> om_ok m \<Longrightarrow> length (om_put k v m) = length m"
proof (induction k v m rule: om_put.induct)
  case (2 k v k' v' m)
  have "k' < k" if "map_of m k = Some y" for y using map_of_SomeD [OF that] 2(3) by (force simp: om_ok_Cons)
  then show ?case using 2 by (auto simp: om_ok_Cons split: if_splits)
qed simp

lemma upd_row_length: "nodes_ok d \<Longrightarrow> length (node_tbl (upd_row t f d)) = length (node_tbl d)"
  by (auto simp: upd_row_def nodes_ok_def om_put_length split: option.split)

lemma om_del_shorter: "map_of m k \<noteq> None \<Longrightarrow> length (om_del k m) < length m"
  by (induction m) (auto simp: om_del_def intro: le_imp_less_Suc)

text \<open>Nothing else of the state changes.\<close>

definition frame :: "db \<Rightarrow> db \<Rightarrow> bool" where
  "frame d d' \<longleftrightarrow> normal_link d' = normal_link d \<and> sticky_link d' = sticky_link d \<and> local_exclusion_dt d' = local_exclusion_dt d"

lemma frame_upd [simp]: "frame d (upd_row t f d')  = frame d d'"
  by (simp add: frame_def upd_row_def split: option.split)

lemma srcid_ghosts:
  assumes ok: "refs_ok d" and v: "tupid_set.valid (ghost_root d)" and r: "ghost_of_srcid d e = Some d'"
  shows "tupid_set.valid (ghost_root d')" and "frame d d'" and "node_tbl d' = node_tbl d"
    and "set (ghost_root d') = set (ghost_root d) \<union> {y. 0 \<le> y \<and> y = srcid e \<and> ghost_row d y}"
proof -
  have "tupid_set.valid (ghost_root d') \<and> frame d d' \<and> node_tbl d' = node_tbl d
      \<and> set (ghost_root d') = set (ghost_root d) \<union> {y. 0 \<le> y \<and> y = srcid e \<and> ghost_row d y}"
  proof (cases "srcid e \<ge> 0")
    case True
    then obtain s where s: "tup_entry_find_row d (srcid e) = Some s" and d': "d' = add_ghost d s"
      using r by (auto simp: ghost_of_srcid_def bind_eq_Some_conv)
    note row = find_row_some [OF s]
    show ?thesis using ghost_add [OF v refs_okD(4) [OF ok] row] row True by (auto simp: d' add_ghost_def frame_def ghost_row_def)
  next
    case False
    then show ?thesis using r v by (auto simp: ghost_of_srcid_def frame_def)
  qed
  then show "tupid_set.valid (ghost_root d')" "frame d d'" "node_tbl d' = node_tbl d"
    "set (ghost_root d') = set (ghost_root d) \<union> {y. 0 \<le> y \<and> y = srcid e \<and> ghost_row d y}" by auto
qed

lemma make_ghost_frame:
  assumes "nodes_ok d" and "make_ghost d e t = Some d'"
  shows "frame d d'" and "ghost_root d' = ghost_root d" and "length (node_tbl d') = length (node_tbl d)"
    and "row d' t = None \<longleftrightarrow> row d t = None"
proof -
  obtain d2 d3 where d2: "(if ntype e = TUP_NODE_DIR then tup_db_add_create_list d t else Some d) = Some d2"
    and d3: "tup_db_set_type d2 t TUP_NODE_GHOST = Some d3" and d': "tup_db_set_srcid d3 t (-1) = Some d'"
    using assms(2) by (auto simp: make_ghost_def bind_eq_Some_conv)
  have 2: "frame d d2 \<and> ghost_root d2 = ghost_root d \<and> node_tbl d2 = node_tbl d"
    using d2 by (auto simp: tup_db_add_create_list_def frame_def bind_eq_Some_conv split: if_splits)
  have 3: "d3 = upd_row t (\<lambda>e. e\<lparr>ntype := TUP_NODE_GHOST\<rparr>) d2" using d3 by (auto simp: tup_db_set_type_def bind_eq_Some_conv)
  have 4: "d' = upd_row t (\<lambda>e. e\<lparr>srcid := -1\<rparr>) d3" using d' by (auto simp: tup_db_set_srcid_def bind_eq_Some_conv)
  have n2: "nodes_ok d2" using 2 assms(1) by (simp add: nodes_ok_def)
  have n3: "nodes_ok d3" unfolding 3 by (rule nodes_ok_upd [OF n2]) simp
  show "frame d d'" "ghost_root d' = ghost_root d" unfolding 4 3 using 2 by simp_all
  show "row d' t = None \<longleftrightarrow> row d t = None" unfolding 4 3 row_upd using 2 by simp
  show "length (node_tbl d') = length (node_tbl d)" using upd_row_length [OF n3] upd_row_length [OF n2] 2 unfolding 4 3 by simp
qed

lemma drop_node_ghosts:
  assumes n: "nodes_ok d" and v: "tupid_set.valid (ghost_root d)" and e: "row d t = Some e" and r: "drop_node h d e t = Some d'"
  shows "frame d d'" and "tupid_set.valid (ghost_root d')" and "length (node_tbl d') < length (node_tbl d)"
    and "set (ghost_root d') = set (ghost_root d) - {t} \<union> {y. y = dt e \<and> ghost_row d y}" and "row d' t = None"
proof -
  obtain d2 parent where d2: "delete_node d t = Some d2" and p: "parent_of d e = Some parent" and d': "d' = add_ghost d2 parent"
    using r by (auto simp: drop_node_def bind_eq_Some_conv)
  have d2': "d2 = (fresh_entry t (tup_db_del_ghost_tree d t))\<lparr>node_tbl := om_del t (node_tbl d)\<rparr>"
    using d2 by (auto simp: delete_node_def tup_entry_rm_def fresh_entry_def tup_db_del_ghost_tree_def bind_eq_Some_conv split: if_splits)
  have small: "small_tupid t" using row_small [OF n, of t] e by simp
  have g2: "tupid_set.valid (ghost_root d2)" "set (ghost_root d2) = set (ghost_root d) - {t}"
    using tupid_set.del_valid [OF v small] by (simp_all add: d2' fresh_entry_def tup_db_del_ghost_tree_def)
  have row: "row d (dt e) = Some parent" using p by (auto simp: parent_of_def split: if_splits)
  note g = ghost_add [OF g2(1) n row]
  show "frame d d'" unfolding d' d2' by (simp add: frame_def add_ghost_def fresh_entry_def tup_db_del_ghost_tree_def)
  show "tupid_set.valid (ghost_root d')" "set (ghost_root d') = set (ghost_root d) - {t} \<union> {y. y = dt e \<and> ghost_row d y}"
    using g g2(2) row by (auto simp: d' add_ghost_def ghost_row_def)
  show "row d' t = None" unfolding d' d2' by (simp add: add_ghost_def)
  show "length (node_tbl d') < length (node_tbl d)" unfolding d' d2' using om_del_shorter [of "node_tbl d" t] e by (simp add: add_ghost_def)
qed


text \<open>What the deletion of a node does to the rows, the links and the trees.\<close>

definition reclaimed :: "tupid \<Rightarrow> tup_entry \<Rightarrow> db \<Rightarrow> db \<Rightarrow> bool" where
  "reclaimed t e d d' \<longleftrightarrow> refs_ok d' \<and> tupid_set.valid (ghost_root d') \<and> local_exclusion_dt d' = local_exclusion_dt d
     \<and> (\<forall>a b. (a, b) \<in> set (normal_link d') \<longleftrightarrow> (a, b) \<in> set (normal_link d) \<and> a \<noteq> t \<and> b \<noteq> t)
     \<and> (\<forall>a b. (a, b) \<in> set (sticky_link d') \<longleftrightarrow> (a, b) \<in> set (sticky_link d) \<and> a \<noteq> t \<and> b \<noteq> t)
     \<and> (\<forall>x. x \<noteq> t \<longrightarrow> row d' x = row d x)
     \<and> (if refers d t
        then (\<exists>e'. row d' t = Some e' \<and> dt e' = dt e \<and> name_s e' = name_s e \<and> ntype e' = TUP_NODE_GHOST \<and> srcid e' = -1)
          \<and> length (node_tbl d') = length (node_tbl d)
        else row d' t = None \<and> length (node_tbl d') < length (node_tbl d) \<and> (ghost_row d (dt e) \<longrightarrow> dt e \<in> set (ghost_root d')))
     \<and> set (ghost_root d) - {t} \<subseteq> set (ghost_root d')
     \<and> (\<forall>y. y \<noteq> t \<longrightarrow> ghost_row d y \<longrightarrow> (y, t) \<in> set (normal_link d) \<or> (t, y) \<in> set (normal_link d) \<or> 0 \<le> y \<and> y = srcid e
          \<longrightarrow> y \<in> set (ghost_root d'))
     \<and> set (ghost_root d') \<subseteq> set (ghost_root d) \<union> {y. row d' y \<noteq> None} \<and> (row d' t = None \<longrightarrow> t \<notin> set (ghost_root d'))"

lemma refers_row: "refs_ok d \<Longrightarrow> node_has_ghosts d t = Some rc \<Longrightarrow> rc \<longleftrightarrow> refers d t"
  using ghosts_iff [of d t rc] by (simp add: refers_def)

text \<open>The last part, for a node without links and flags.\<close>

lemma delete_node_reclaimed:
  assumes ok: "refs_ok d" and v: "tupid_set.valid (ghost_root d)" and iso: "isolated d t" and e: "row d t = Some e"
    and r: "tup_db_delete_node h d t = Some d'"
  shows "reclaimed t e d d'"
proof -
  obtain tent d1 rc where f: "tup_entry_find_row d t = Some tent" and g: "ghost_of_srcid d tent = Some d1"
    and rc: "node_has_ghosts d1 t = Some rc" and rest: "(if rc then make_ghost d1 tent t else drop_node h d1 tent t) = Some d'"
    using r unfolding tup_db_delete_node_def bind_eq_Some_conv by blast
  have te: "tent = e" using find_row_some [OF f] e by simp
  note s = srcid_ghosts [OF ok v g, unfolded te]
  have ok1: "refs_ok d1" using flag_step_ok(1) ghost_srcid_step [OF g] ok by blast
  have n1: "nodes_ok d1" by (rule refs_okD(4) [OF ok1])
  have e1: "row d1 t = Some e" using s(3) e by simp
  have rf: "rc \<longleftrightarrow> refers d t" using refers_row [OF ok1 rc] s(3) by (simp add: refers_def)
  from delete_node_step [OF ok iso r] have ok': "refs_ok d'" and rm: "removed t d d'" by auto
  have rest2: "frame d d' \<and> tupid_set.valid (ghost_root d') \<and> (if refers d t
        then ghost_root d' = ghost_root d1 \<and> length (node_tbl d') = length (node_tbl d) \<and> row d' t \<noteq> None
        else length (node_tbl d') < length (node_tbl d) \<and> set (ghost_root d') = set (ghost_root d1) - {t} \<union> {y. y = dt e \<and> ghost_row d1 y}
          \<and> row d' t = None)"
  proof (cases rc)
    case True
    then have "make_ghost d1 e t = Some d'" using rest te by simp
    note m = make_ghost_frame [OF n1 this]
    show ?thesis using m s e1 rf True by (simp add: frame_def)
  next
    case False
    then have "drop_node h d1 e t = Some d'" using rest te by simp
    note m = drop_node_ghosts [OF n1 s(1) e1 this]
    show ?thesis using m s rf False by (simp add: frame_def)
  qed
  have gr: "ghost_row d1 y = ghost_row d y" for y using s(3) by (simp add: ghost_row_def)
  have iso2: "(t, x) \<notin> set (normal_link d)" "(x, t) \<notin> set (normal_link d)" "(t, x) \<notin> set (sticky_link d)" "(x, t) \<notin> set (sticky_link d)" for x
    using iso by (auto simp: isolated_def)
  have old: "row d' t = None \<or> (\<exists>e'. row d' t = Some e' \<and> dt e' = dt e \<and> name_s e' = name_s e \<and> ntype e' = TUP_NODE_GHOST \<and> srcid e' = -1)"
    and others: "\<And>x. x \<noteq> t \<Longrightarrow> row d' x = row d x" using rm e by (auto simp: removed_def)
  have links: "(a, b) \<in> set (normal_link d') \<longleftrightarrow> (a, b) \<in> set (normal_link d) \<and> a \<noteq> t \<and> b \<noteq> t"
    "(a, b) \<in> set (sticky_link d') \<longleftrightarrow> (a, b) \<in> set (sticky_link d) \<and> a \<noteq> t \<and> b \<noteq> t" for a b
    using rest2 iso2 by (auto simp: frame_def)
  have new: "row d' y \<noteq> None" if "ghost_row d y" "y \<noteq> t" for y using that others by (auto simp: ghost_row_def)
  have same: "local_exclusion_dt d' = local_exclusion_dt d" "tupid_set.valid (ghost_root d')" using rest2 by (auto simp: frame_def)
  have sub: "set (ghost_root d1) - {t} \<subseteq> set (ghost_root d')" using rest2 by (auto split: if_splits)
  have par: "dt e \<noteq> t" if "\<not> refers d t" using that e by (auto simp: refers_def)
  have kept: "set (ghost_root d) - {t} \<subseteq> set (ghost_root d')" using s(4) sub by blast
  have added: "\<forall>y. y \<noteq> t \<longrightarrow> ghost_row d y \<longrightarrow> (y, t) \<in> set (normal_link d) \<or> (t, y) \<in> set (normal_link d) \<or> 0 \<le> y \<and> y = srcid e
          \<longrightarrow> y \<in> set (ghost_root d')" using s(4) sub iso2 by blast
  have gone: "row d' t = None \<longrightarrow> t \<notin> set (ghost_root d')"
    using rest2 par by (cases "refers d t") auto
  have old_new: "set (ghost_root d') \<subseteq> set (ghost_root d) \<union> {y. row d' y \<noteq> None}"
  proof
    fix y assume y: "y \<in> set (ghost_root d')"
    then have "y \<in> set (ghost_root d) \<or> ghost_row d y" using rest2 s(4) gr by (cases "refers d t") auto
    moreover have "y \<noteq> t \<or> row d' t \<noteq> None" using y gone by blast
    ultimately show "y \<in> set (ghost_root d) \<union> {y. row d' y \<noteq> None}" using new by blast
  qed
  have cases: "if refers d t
        then (\<exists>e'. row d' t = Some e' \<and> dt e' = dt e \<and> name_s e' = name_s e \<and> ntype e' = TUP_NODE_GHOST \<and> srcid e' = -1)
          \<and> length (node_tbl d') = length (node_tbl d)
        else row d' t = None \<and> length (node_tbl d') < length (node_tbl d) \<and> (ghost_row d (dt e) \<longrightarrow> dt e \<in> set (ghost_root d'))"
    using rest2 old gr by (cases "refers d t") auto
  show ?thesis unfolding reclaimed_def using links others by (intro conjI ok' same kept added old_new gone cases) blast+
qed

lemma reclaimedD:
  assumes "reclaimed t e d d'"
  shows "refs_ok d'" "tupid_set.valid (ghost_root d')" "local_exclusion_dt d' = local_exclusion_dt d"
    "(a, b) \<in> set (normal_link d') \<longleftrightarrow> (a, b) \<in> set (normal_link d) \<and> a \<noteq> t \<and> b \<noteq> t"
    "(a, b) \<in> set (sticky_link d') \<longleftrightarrow> (a, b) \<in> set (sticky_link d) \<and> a \<noteq> t \<and> b \<noteq> t"
    "x \<noteq> t \<Longrightarrow> row d' x = row d x"
    "refers d t \<Longrightarrow> \<exists>e'. row d' t = Some e' \<and> dt e' = dt e \<and> name_s e' = name_s e \<and> ntype e' = TUP_NODE_GHOST \<and> srcid e' = -1"
    "refers d t \<Longrightarrow> length (node_tbl d') = length (node_tbl d)"
    "\<not> refers d t \<Longrightarrow> row d' t = None" "\<not> refers d t \<Longrightarrow> length (node_tbl d') < length (node_tbl d)"
    "\<not> refers d t \<Longrightarrow> ghost_row d (dt e) \<Longrightarrow> dt e \<in> set (ghost_root d')"
    "y \<in> set (ghost_root d) \<Longrightarrow> y \<noteq> t \<Longrightarrow> y \<in> set (ghost_root d')"
    "y \<noteq> t \<Longrightarrow> ghost_row d y \<Longrightarrow> (y, t) \<in> set (normal_link d) \<or> (t, y) \<in> set (normal_link d) \<or> 0 \<le> y \<and> y = srcid e
      \<Longrightarrow> y \<in> set (ghost_root d')"
    "y \<in> set (ghost_root d') \<Longrightarrow> y \<in> set (ghost_root d) \<or> row d' y \<noteq> None" "row d' t = None \<Longrightarrow> t \<notin> set (ghost_root d')"
proof -
  note a = assms [unfolded reclaimed_def]
  show "refs_ok d'" "tupid_set.valid (ghost_root d')" "local_exclusion_dt d' = local_exclusion_dt d"
    "(a, b) \<in> set (normal_link d') \<longleftrightarrow> (a, b) \<in> set (normal_link d) \<and> a \<noteq> t \<and> b \<noteq> t"
    "(a, b) \<in> set (sticky_link d') \<longleftrightarrow> (a, b) \<in> set (sticky_link d) \<and> a \<noteq> t \<and> b \<noteq> t"
    "x \<noteq> t \<Longrightarrow> row d' x = row d x" using a by simp_all
  show "refers d t \<Longrightarrow> \<exists>e'. row d' t = Some e' \<and> dt e' = dt e \<and> name_s e' = name_s e \<and> ntype e' = TUP_NODE_GHOST \<and> srcid e' = -1"
    "refers d t \<Longrightarrow> length (node_tbl d') = length (node_tbl d)"
    "\<not> refers d t \<Longrightarrow> row d' t = None" "\<not> refers d t \<Longrightarrow> length (node_tbl d') < length (node_tbl d)"
    "\<not> refers d t \<Longrightarrow> ghost_row d (dt e) \<Longrightarrow> dt e \<in> set (ghost_root d')" using a by simp_all
  show "y \<in> set (ghost_root d) \<Longrightarrow> y \<noteq> t \<Longrightarrow> y \<in> set (ghost_root d')" using a by blast
  show "y \<noteq> t \<Longrightarrow> ghost_row d y \<Longrightarrow> (y, t) \<in> set (normal_link d) \<or> (t, y) \<in> set (normal_link d) \<or> 0 \<le> y \<and> y = srcid e
      \<Longrightarrow> y \<in> set (ghost_root d')" using a by blast
  show "y \<in> set (ghost_root d') \<Longrightarrow> y \<in> set (ghost_root d) \<or> row d' y \<noteq> None" "row d' t = None \<Longrightarrow> t \<notin> set (ghost_root d')" using a by blast+
qed

lemma delete_reclaimed:
  assumes ok: "refs_ok d" and v: "tupid_set.valid (ghost_root d)" and e: "row d t = Some e" and r: "delete_name_file h d t = Some d'"
  shows "reclaimed t e d d'"
proof -
  obtain d1 where d1: "tup_db_delete_links (unflagged t d) t = Some d1" and d': "tup_db_delete_node h d1 t = Some d'"
    using delete_name_file_links [OF r] by blast
  have u: "tupid_set.valid (ghost_root (unflagged t d))" "normal_link (unflagged t d) = normal_link d" "ghost_root (unflagged t d) = ghost_root d"
      "node_tbl (unflagged t d) = node_tbl d" "sticky_link (unflagged t d) = sticky_link d" "local_exclusion_dt (unflagged t d) = local_exclusion_dt d"
    using v by (simp_all add: unflagged_def)
  note l = delete_links_ok [OF unflagged_ok [OF ok] d1] and g = links_ghosts [OF unflagged_ok [OF ok] u(1) d1, unfolded u]
  have iso: "isolated d1 t" by (rule l(2)) (auto simp: unflagged_def)
  have tbl: "node_tbl d1 = node_tbl d" using l(3) u(4) by simp
  have sl: "(a, b) \<in> set (sticky_link d1) \<longleftrightarrow> (a, b) \<in> set (sticky_link d) \<and> a \<noteq> t \<and> b \<noteq> t" for a b
    using delete_links_shape [OF d1] by (auto simp: u(5))
  have e1: "row d1 t = Some e" using e tbl by simp
  note n = reclaimedD [OF delete_node_reclaimed [OF l(1) g(1) iso e1 d']]
  have same: "refers d1 x = refers d x" "ghost_row d1 x = ghost_row d x" for x by (simp_all add: refers_def ghost_row_def tbl)
  have irr: "(t, t) \<notin> set (normal_link d)" using links_ok_ends [OF refs_okD(5) [OF ok]] by blast
  have links: "(a, b) \<in> set (normal_link d') \<longleftrightarrow> (a, b) \<in> set (normal_link d) \<and> a \<noteq> t \<and> b \<noteq> t"
    "(a, b) \<in> set (sticky_link d') \<longleftrightarrow> (a, b) \<in> set (sticky_link d) \<and> a \<noteq> t \<and> b \<noteq> t" for a b
    using n(4,5) [of a b] l(5) [of a b] sl [of a b] by (auto simp: u)
  have excl: "local_exclusion_dt d' = local_exclusion_dt d" using n(3) g(3) by simp
  have others: "x \<noteq> t \<Longrightarrow> row d' x = row d x" for x using n(6) tbl by simp
  have cases: "if refers d t
        then (\<exists>e'. row d' t = Some e' \<and> dt e' = dt e \<and> name_s e' = name_s e \<and> ntype e' = TUP_NODE_GHOST \<and> srcid e' = -1)
          \<and> length (node_tbl d') = length (node_tbl d)
        else row d' t = None \<and> length (node_tbl d') < length (node_tbl d) \<and> (ghost_row d (dt e) \<longrightarrow> dt e \<in> set (ghost_root d'))"
    using n(7,8,9,10,11) unfolding same tbl by (cases "refers d t") simp_all
  have kept: "set (ghost_root d) - {t} \<subseteq> set (ghost_root d')" using n(12) g(2) by blast
  have added: "\<forall>y. y \<noteq> t \<longrightarrow> ghost_row d y \<longrightarrow> (y, t) \<in> set (normal_link d) \<or> (t, y) \<in> set (normal_link d) \<or> 0 \<le> y \<and> y = srcid e
          \<longrightarrow> y \<in> set (ghost_root d')"
  proof (intro allI impI)
    fix y assume y: "y \<noteq> t" "ghost_row d y" "(y, t) \<in> set (normal_link d) \<or> (t, y) \<in> set (normal_link d) \<or> 0 \<le> y \<and> y = srcid e"
    then have "y \<in> set (ghost_root d1) \<or> 0 \<le> y \<and> y = srcid e" using g(2) by (auto simp: ghost_row_def u)
    then show "y \<in> set (ghost_root d')" using n(12,13) [of y] y(1,2) same by blast
  qed
  have old_new: "set (ghost_root d') \<subseteq> set (ghost_root d) \<union> {y. row d' y \<noteq> None}"
  proof
    fix y assume "y \<in> set (ghost_root d')"
    then consider "row d' y \<noteq> None" | "y \<in> set (ghost_root d1)" using n(14) by blast
    then show "y \<in> set (ghost_root d) \<union> {y. row d' y \<noteq> None}"
    proof cases
      case 2
      then have "y \<in> set (ghost_root d) \<or> y \<noteq> t \<and> row d y \<noteq> None" using g(2) irr by (auto simp: ghost_row_def u)
      then show ?thesis using others [of y] by auto
    qed simp
  qed
  show ?thesis unfolding reclaimed_def
    using links others n(15) by (intro conjI n(1,2) excl kept added old_new cases) blast+
qed


section \<open>One round\<close>

text \<open>What the loop may change: ghosts, groups and generated directories, and links that no other node depends on.\<close>

definition reclaim_rel :: "db \<Rightarrow> db \<Rightarrow> bool" where
  "reclaim_rel d d' \<longleftrightarrow>
     (\<forall>x e. row d x = Some e \<longrightarrow> \<not> ghost_type e \<longrightarrow> row d' x = Some e)
     \<and> (\<forall>x e'. row d' x = Some e' \<longrightarrow> (\<exists>e. row d x = Some e \<and> dt e' = dt e \<and> name_s e' = name_s e \<and> (e' = e \<or> ghost_type e \<and> ghost_type e')))
     \<and> set (normal_link d') \<subseteq> set (normal_link d)
     \<and> (\<forall>f c. (f, c) \<in> set (normal_link d) \<longrightarrow> \<not> ghost_row d c \<longrightarrow> (f, c) \<in> set (normal_link d'))"

lemma reclaim_relD:
  assumes "reclaim_rel d d'"
  shows "row d x = Some e \<Longrightarrow> \<not> ghost_type e \<Longrightarrow> row d' x = Some e"
    and "row d' x = Some e' \<Longrightarrow> \<exists>e. row d x = Some e \<and> dt e' = dt e \<and> name_s e' = name_s e \<and> (e' = e \<or> ghost_type e \<and> ghost_type e')"
    and "(f, c) \<in> set (normal_link d') \<Longrightarrow> (f, c) \<in> set (normal_link d)"
    and "(f, c) \<in> set (normal_link d) \<Longrightarrow> \<not> ghost_row d c \<Longrightarrow> (f, c) \<in> set (normal_link d')"
  using assms unfolding reclaim_rel_def by blast+

lemma reclaim_relI:
  assumes "\<And>x e. row d x = Some e \<Longrightarrow> \<not> ghost_type e \<Longrightarrow> row d' x = Some e"
    and "\<And>x e'. row d' x = Some e' \<Longrightarrow> \<exists>e. row d x = Some e \<and> dt e' = dt e \<and> name_s e' = name_s e \<and> (e' = e \<or> ghost_type e \<and> ghost_type e')"
    and "\<And>f c. (f, c) \<in> set (normal_link d') \<Longrightarrow> (f, c) \<in> set (normal_link d)"
    and "\<And>f c. (f, c) \<in> set (normal_link d) \<Longrightarrow> \<not> ghost_row d c \<Longrightarrow> (f, c) \<in> set (normal_link d')"
  shows "reclaim_rel d d'"
  unfolding reclaim_rel_def using assms by (intro conjI allI impI subrelI) blast+

lemma reclaim_rel_same: "node_tbl d' = node_tbl d \<Longrightarrow> normal_link d' = normal_link d \<Longrightarrow> reclaim_rel d d'"
  by (rule reclaim_relI) simp_all

lemma reclaim_rel_trans:
  assumes 1: "reclaim_rel d d'" and 2: "reclaim_rel d' d''"
  shows "reclaim_rel d d''"
proof (rule reclaim_relI)
  fix x e assume "row d x = Some e" "\<not> ghost_type e"
  then show "row d'' x = Some e" using reclaim_relD(1) [OF 1] reclaim_relD(1) [OF 2] by blast
next
  fix x e'' assume "row d'' x = Some e''"
  then obtain e' where e': "row d' x = Some e'" "dt e'' = dt e'" "name_s e'' = name_s e'" "e'' = e' \<or> ghost_type e' \<and> ghost_type e''"
    using reclaim_relD(2) [OF 2] by blast
  obtain e where "row d x = Some e" "dt e' = dt e" "name_s e' = name_s e" "e' = e \<or> ghost_type e \<and> ghost_type e'"
    using reclaim_relD(2) [OF 1 e'(1)] by blast
  then show "\<exists>e. row d x = Some e \<and> dt e'' = dt e \<and> name_s e'' = name_s e \<and> (e'' = e \<or> ghost_type e \<and> ghost_type e'')"
    using e'(2,3,4) by auto
next
  fix f c assume "(f, c) \<in> set (normal_link d'')"
  then show "(f, c) \<in> set (normal_link d)" using reclaim_relD(3) [OF 1] reclaim_relD(3) [OF 2] by blast
next
  fix f c assume l: "(f, c) \<in> set (normal_link d)" "\<not> ghost_row d c"
  have "\<not> ghost_row d' c"
  proof
    assume "ghost_row d' c"
    then obtain e' where "row d' c = Some e'" "ghost_type e'" by (auto simp: ghost_row_def)
    then show False using reclaim_relD(2) [OF 1, of c e'] l(2) by (auto simp: ghost_row_def)
  qed
  then show "(f, c) \<in> set (normal_link d'')" using reclaim_relD(4) [OF 1 l] reclaim_relD(4) [OF 2] by blast
qed

text \<open>An unneeded node has no links to other nodes; only a group can have rows that refer to it.\<close>

lemma unneeded_links: "exclusions_ok d \<Longrightarrow> unneeded d t \<Longrightarrow> (t, c) \<notin> set (normal_link d)"
  by (auto simp: unneeded_def exclusions_ok_def split: if_splits)

lemma unneeded_refers:
  assumes "exclusions_ok d" and "unneeded d t" and "refers d t" and "row d t = Some e"
  shows "ntype e = TUP_NODE_GROUP" and "dt e \<noteq> local_exclusion_dt d"
proof -
  show d: "dt e \<noteq> local_exclusion_dt d"
  proof
    assume "dt e = local_exclusion_dt d"
    then show False using assms unfolding exclusions_ok_def refers_def by blast
  qed
  then show "ntype e = TUP_NODE_GROUP" using assms(2,3,4) by (auto simp: unneeded_def refers_def split: if_splits)
qed

lemma unneeded_ghost: "unneeded d t \<Longrightarrow> ghost_row d t"
  by (auto simp: unneeded_def ghost_row_def)

lemma reclaimed_rel:
  assumes ex: "exclusions_ok d" and un: "unneeded d t" and e: "row d t = Some e" and r: "reclaimed t e d d'"
  shows "reclaim_rel d d'"
proof (rule reclaim_relI)
  note rD = reclaimedD [OF r]
  have gt: "ghost_type e" using un e by (simp add: unneeded_def)
  { fix x a assume "row d x = Some a" "\<not> ghost_type a"
    then show "row d' x = Some a" using rD(6) [of x] gt e by (cases "x = t") auto }
  { fix x e' assume x: "row d' x = Some e'"
    show "\<exists>e. row d x = Some e \<and> dt e' = dt e \<and> name_s e' = name_s e \<and> (e' = e \<or> ghost_type e \<and> ghost_type e')"
    proof (cases "x = t")
      case True
      then have "refers d t" using rD(9) x by (cases "refers d t") auto
      then show ?thesis using rD(7) x True e gt by (auto simp: ghost_type_def)
    qed (use rD(6) x in auto) }
  show "(f, c) \<in> set (normal_link d') \<Longrightarrow> (f, c) \<in> set (normal_link d)" for f c using rD(4) by blast
  fix f c assume l: "(f, c) \<in> set (normal_link d)" "\<not> ghost_row d c"
  moreover have "f \<noteq> t" using unneeded_links [OF ex un] l(1) by blast
  moreover have "c \<noteq> t" using l(2) gt e by (auto simp: ghost_row_def)
  ultimately show "(f, c) \<in> set (normal_link d')" using rD(4) by blast
qed

text \<open>
  A removal does not change what is in use: the row is removed (only a group could be kept as a ghost), and nothing in use
  was connected to it.
\<close>

lemma reclaimed_in_use:
  assumes ex: "exclusions_ok d" and st: "stickies_ok d" and gr: "groups_ok d" and un: "unneeded d t" and e: "row d t = Some e"
    and r: "reclaimed t e d d'"
  shows "in_use d' = in_use d" and "groups_ok d'"
proof -
  note rD = reclaimedD [OF r]
  have gt: "ghost_type e" using un e by (simp add: unneeded_def)
  have "\<not> refers d t"
  proof
    assume ref: "refers d t"
    then have "is_group d t" using unneeded_refers(1) [OF ex un ref e] e by (simp add: is_group_def)
    then show False using ref gr unfolding refers_def groups_ok_def by blast
  qed
  then have none: "row d' t = None" by (rule rD(9))
  have row: "row d' x = Some a \<longleftrightarrow> x \<noteq> t \<and> row d x = Some a" for x a using rD(6) none by (cases "x = t") auto
  have nt: "t \<notin> in_use d" by (rule unneeded_unused [OF un])
  show "in_use d' = in_use d"
  proof (intro set_eqI iffI)
    fix x assume "x \<in> in_use d'"
    then show "x \<in> in_use d" by (rule in_use_transfer) (use rD(3,4,5) row in auto)
  next
    fix x assume "x \<in> in_use d"
    then show "x \<in> in_use d'"
    proof (rule in_use_transfer)
      fix y z assume l: "z \<in> in_use d" "(y, z) \<in> set (normal_link d)"
      then have "y \<noteq> t" "z \<noteq> t" using unneeded_links [OF ex un] nt by blast+
      then show "(y, z) \<in> set (normal_link d')" using rD(4) l(2) by blast
    next
      fix y z assume l: "y \<in> in_use d" "(y, z) \<in> set (sticky_link d)"
      then have "pred_option (\<lambda>e. \<not> ghost_type e) (row d z)" using st by (auto simp: stickies_ok_def)
      then have "z \<noteq> t" "y \<noteq> t" using e gt nt l(1) by auto
      then show "(y, z) \<in> set (sticky_link d')" using rD(5) l(2) by blast
    qed (use rD(3) row nt in auto)
  qed
  show "groups_ok d'" using gr row unfolding groups_ok_def is_group_def by blast
qed

definition in_use_kept :: "db \<Rightarrow> db \<Rightarrow> bool" where
  "in_use_kept d d' \<longleftrightarrow> (groups_ok d \<longrightarrow> groups_ok d' \<and> in_use d' = in_use d)"

lemma in_use_kept_trans: "in_use_kept d d' \<Longrightarrow> in_use_kept d' d'' \<Longrightarrow> in_use_kept d d''"
  by (simp add: in_use_kept_def)

lemma in_use_kept_same:
  assumes "node_tbl d' = node_tbl d" and "normal_link d' = normal_link d" and "sticky_link d' = sticky_link d"
    and "local_exclusion_dt d' = local_exclusion_dt d"
  shows "in_use_kept d d'"
  using in_use_same [OF assms] by (simp add: in_use_kept_def)

text \<open>The side conditions stay.\<close>

lemma rel_conditions:
  assumes ok': "refs_ok d'" and e: "row d t = Some e" and r: "reclaimed t e d d'"
    and c: "exclusions_ok d" "stickies_ok d" "srcids_ok d" and gt: "ghost_type e"
  shows "exclusions_ok d'" "stickies_ok d'" "srcids_ok d'"
proof -
  note rD = reclaimedD [OF r]
  have old: "\<exists>a. row d x = Some a \<and> dt e' = dt a \<and> (srcid e' = srcid a \<or> srcid e' = -1)" if x: "row d' x = Some e'" for x e'
  proof (cases "x = t")
    case True
    then have "refers d t" using rD(9) x by (cases "refers d t") auto
    then show ?thesis using rD(7) x True e by auto
  qed (use rD(6) x in auto)
  have pos: "row d' x \<noteq> None \<Longrightarrow> x \<noteq> -1" for x using row_small [OF refs_okD(4) [OF ok'], of x] by auto
  show "srcids_ok d'" unfolding srcids_ok_def
  proof (intro allI impI)
    fix x e' assume x: "row d' x = Some e'"
    obtain a where a: "row d x = Some a" "srcid e' = srcid a \<or> srcid e' = -1" using old [OF x] by blast
    have "srcid a \<noteq> x" "x \<noteq> -1" using c(3) a(1) pos x unfolding srcids_ok_def by blast+
    then show "srcid e' \<noteq> x" using a(2) by auto
  qed
  show "exclusions_ok d'" unfolding exclusions_ok_def
  proof (intro allI impI)
    fix x e' assume x: "row d' x = Some e'" and "dt e' = local_exclusion_dt d'"
    then obtain a where a: "row d x = Some a" "dt a = local_exclusion_dt d" using old [OF x] rD(3) by auto
    have xp: "x \<noteq> -1" using pos x by simp
    have "dt b' \<noteq> x \<and> srcid b' \<noteq> x" if y: "row d' y = Some b'" for y b'
    proof -
      obtain b where "row d y = Some b" "dt b' = dt b" "srcid b' = srcid b \<or> srcid b' = -1" using old [OF y] by blast
      moreover have "dt b \<noteq> x \<and> srcid b \<noteq> x" using c(1) a calculation(1) unfolding exclusions_ok_def by blast
      ultimately show ?thesis using xp by auto
    qed
    moreover have "(x, cc) \<notin> set (normal_link d')" for cc using c(1) a rD(4) unfolding exclusions_ok_def by blast
    ultimately show "(\<forall>y b'. row d' y = Some b' \<longrightarrow> dt b' \<noteq> x \<and> srcid b' \<noteq> x) \<and> (\<forall>cc. (x, cc) \<notin> set (normal_link d'))" by blast
  qed
  show "stickies_ok d'" unfolding stickies_ok_def
  proof (intro ballI)
    fix p assume "p \<in> set (sticky_link d')"
    moreover obtain a b where p: "p = (a, b)" by (cases p)
    ultimately have "(a, b) \<in> set (sticky_link d)" "b \<noteq> t" using rD(5) by auto
    then have "pred_option (\<lambda>e. \<not> ghost_type e) (row d' b)" using c(2) rD(6) [of b] by (auto simp: stickies_ok_def)
    then show "case p of (a, b) \<Rightarrow> pred_option (\<lambda>e. \<not> ghost_type e) (row d' b)" using p by simp
  qed
qed


text \<open>The removed node, if it is left as a ghost, is needed.\<close>

lemma reclaimed_self:
  assumes ok: "refs_ok d" and c: "exclusions_ok d" "stickies_ok d" "srcids_ok d" and un: "unneeded d t" and e: "row d t = Some e"
    and r: "reclaimed t e d d'"
  shows "\<not> unneeded d' t"
proof
  assume x: "unneeded d' t"
  note rD = reclaimedD [OF r]
  have ref: "refers d t" using unneeded_ghost [OF x] rD(9) by (cases "refers d t") (auto simp: ghost_row_def)
  obtain e' where e': "row d' t = Some e'" "dt e' = dt e" "ntype e' = TUP_NODE_GHOST" using rD(7) [OF ref] by blast
  have "dt e' \<noteq> local_exclusion_dt d'" using unneeded_refers(2) [OF c(1) un ref e] e'(2) rD(3) by simp
  then have no: "row d' y = Some b \<Longrightarrow> dt b \<noteq> t \<and> srcid b \<noteq> t" for y b using x e' by (auto simp: unneeded_def)
  obtain y b where y: "row d y = Some b" "dt b = t \<or> srcid b = t" using ref by (auto simp: refers_def)
  have "y \<noteq> t"
  proof
    assume "y = t"
    then have "dt b = t" using y c(3) unfolding srcids_ok_def by blast
    then show False using y(1) \<open>y = t\<close> desc_child [of d t b t] desc_irrefl [OF ok] by blast
  qed
  then show False using no [of y b] rD(6) y by auto
qed

text \<open>A node to which and from which nothing was removed was unneeded before.\<close>

lemma reclaimed_other:
  assumes ok: "refs_ok d" and st: "stickies_ok d" and un: "unneeded d t" and e: "row d t = Some e"
    and r: "reclaimed t e d d'" and x: "unneeded d' x" and xt: "x \<noteq> t"
    and nl: "(x, t) \<notin> set (normal_link d)" "(t, x) \<notin> set (normal_link d)" and ns: "\<not> (0 \<le> x \<and> x = srcid e)" and np: "x \<noteq> dt e"
  shows "unneeded d x"
proof -
  note rD = reclaimedD [OF r]
  have row: "row d' x = row d x" using rD(6) [OF xt] .
  obtain a where a: "row d x = Some a" "ghost_type a" "name_s a \<noteq> TUP_CONFIG" using x row by (auto simp: unneeded_def)
  have nt: "y = t" if "(y, x) \<in> set (normal_link d)" "(y, x) \<notin> set (normal_link d')" for y using that rD(4) xt by blast
  have nf: "y = t" if "(x, y) \<in> set (normal_link d)" "(x, y) \<notin> set (normal_link d')" for y using that rD(4) xt by blast
  have into: "(y, x) \<notin> set (normal_link d') \<Longrightarrow> (y, x) \<notin> set (normal_link d)" for y using nt nl by blast
  have outof: "(x, y) \<notin> set (normal_link d') \<Longrightarrow> (x, y) \<notin> set (normal_link d)" for y using nf nl by blast
  have "0 \<le> x" using row_small [OF refs_okD(4) [OF ok], of x] a(1) by simp
  then have refs: "dt b \<noteq> x \<and> srcid b \<noteq> x" if "row d y = Some b" "\<And>y b. row d' y = Some b \<Longrightarrow> dt b \<noteq> x \<and> srcid b \<noteq> x" for y b
    using that rD(6) [of y] e ns np by (cases "y = t") auto
  have sticky: "(x, y) \<notin> set (sticky_link d)" if "(x, y) \<notin> set (sticky_link d')" for y
  proof -
    have "(x, t) \<notin> set (sticky_link d)" using st e un unfolding stickies_ok_def unneeded_def by fastforce
    then show ?thesis using that rD(5) xt by blast
  qed
  show "unneeded d x"
  proof (cases "dt a = local_exclusion_dt d")
    case True
    then show ?thesis using x a row rD(3) into by (auto simp: unneeded_def)
  next
    case ne: False
    show ?thesis
    proof (cases "ntype a = TUP_NODE_GROUP")
      case True
      then show ?thesis using x a row rD(3) ne into outof sticky by (auto simp: unneeded_def)
    next
      case False
      then have "(\<forall>y b. row d' y = Some b \<longrightarrow> dt b \<noteq> x \<and> srcid b \<noteq> x) \<and> (\<forall>y. (x, y) \<notin> set (normal_link d'))"
        using x a row rD(3) ne by (auto simp: unneeded_def)
      then have "(\<forall>y b. row d y = Some b \<longrightarrow> dt b \<noteq> x \<and> srcid b \<noteq> x) \<and> (\<forall>y. (x, y) \<notin> set (normal_link d))"
        using refs outof by blast
      then show ?thesis using a ne False unfolding unneeded_def by simp
    qed
  qed
qed

text \<open>A node that became unneeded is in the tree or is the parent.\<close>

lemma reclaimed_finds:
  assumes ok: "refs_ok d" and c: "exclusions_ok d" "stickies_ok d" "srcids_ok d" and un: "unneeded d t" and e: "row d t = Some e"
    and r: "reclaimed t e d d'" and x: "unneeded d' x"
  shows "x \<noteq> t \<and> unneeded d x \<or> x \<in> set (ghost_root d') \<or> x \<noteq> t \<and> x = dt e \<and> ghost_row d x"
proof -
  note rD = reclaimedD [OF r]
  have xt: "x \<noteq> t" using reclaimed_self [OF ok c un e r] x by blast
  have gx: "ghost_row d x" using unneeded_ghost [OF x] rD(6) [OF xt] by (simp add: ghost_row_def)
  have found: "x \<in> set (ghost_root d')" if "(x, t) \<in> set (normal_link d) \<or> (t, x) \<in> set (normal_link d) \<or> 0 \<le> x \<and> x = srcid e"
    by (rule rD(13) [OF xt gx that])
  show ?thesis using reclaimed_other [OF ok c(2) un e r x xt] found xt gx by blast
qed

definition groups :: "db \<Rightarrow> nat" where
  "groups d = card {t. is_group d t}"

definition load :: "tent_entries \<Rightarrow> db \<Rightarrow> nat" where
  "load tmp_root d = card (set (ghost_root d)) + card (set tmp_root)"

text \<open>Every round removes a row, or turns a group into a ghost, or makes the trees smaller.\<close>

definition reclaim_order :: "((tent_entries \<times> db) \<times> (tent_entries \<times> db)) set" where
  "reclaim_order = measures [\<lambda>(_, d). length (node_tbl d), \<lambda>(_, d). groups d, \<lambda>(r, d). load r d]"

lemma reclaim_order_iff:
  "((r', d'), (r, d)) \<in> reclaim_order \<longleftrightarrow> length (node_tbl d') < length (node_tbl d) \<or> length (node_tbl d') = length (node_tbl d)
     \<and> (groups d' < groups d \<or> groups d' = groups d \<and> load r' d' < load r d)"
  by (simp add: reclaim_order_def)

lemma finite_groups: "finite {t. is_group d t}"
proof -
  have "{t. is_group d t} \<subseteq> fst ` set (node_tbl d)" by (force simp: is_group_def dest: map_of_SomeD)
  then show ?thesis by (rule finite_subset) simp
qed

text \<open>An id taken off the tree.\<close>

lemma del_ghost:
  assumes inv: "reclaim_inv tmp_root d" and t: "row d t \<noteq> None"
  shows "refs_ok (tup_db_del_ghost_tree d t)" "tupid_set.valid (ghost_root (tup_db_del_ghost_tree d t))"
    "set (ghost_root (tup_db_del_ghost_tree d t)) = set (ghost_root d) - {t}"
    "reclaim_inv tmp_root (tup_db_del_ghost_tree d t)" "unneeded (tup_db_del_ghost_tree d t) x = unneeded d x"
proof -
  note i = reclaim_invD [OF inv]
  have small: "small_tupid t" using row_small [OF refs_okD(4) [OF i(1)] t] by simp
  show g: "refs_ok (tup_db_del_ghost_tree d t)"
    unfolding tup_db_del_ghost_tree_def by (rule flag_step_ok(1) [OF flag_step_misc(1) i(1)])
  show v: "tupid_set.valid (ghost_root (tup_db_del_ghost_tree d t))"
    and s: "set (ghost_root (tup_db_del_ghost_tree d t)) = set (ghost_root d) - {t}"
    using tupid_set.del_valid [OF i(5) small] by (simp_all add: tup_db_del_ghost_tree_def)
  show "unneeded (tup_db_del_ghost_tree d t) x = unneeded d x" by (simp add: unneeded_def tup_db_del_ghost_tree_def)
  have "exclusions_ok (tup_db_del_ghost_tree d t)" "stickies_ok (tup_db_del_ghost_tree d t)" "srcids_ok (tup_db_del_ghost_tree d t)"
    using i(2,3,4) by (simp_all add: exclusions_ok_def stickies_ok_def srcids_ok_def tup_db_del_ghost_tree_def)
  moreover have "awaiting tmp_root (tup_db_del_ghost_tree d t) \<subseteq> {x. row (tup_db_del_ghost_tree d t) x \<noteq> None}"
    using i(7,8) s by (auto simp: awaiting_def tup_db_del_ghost_tree_def)
  ultimately show "reclaim_inv tmp_root (tup_db_del_ghost_tree d t)" using g v i(6) by (simp add: reclaim_inv_def)
qed

text \<open>The case that the node is kept.\<close>

lemma kept_step:
  assumes inv: "reclaim_inv tmp_root d" and t: "t \<in> set (ghost_root d)" "\<not> unneeded d t"
  shows "reclaim_inv tmp_root (tup_db_del_ghost_tree d t)" and "reclaim_rel d (tup_db_del_ghost_tree d t)"
    and "((tmp_root, tup_db_del_ghost_tree d t), (tmp_root, d)) \<in> reclaim_order"
    and "(\<And>x. unneeded d x \<Longrightarrow> x \<in> awaiting tmp_root d) \<Longrightarrow> unneeded (tup_db_del_ghost_tree d t) x \<Longrightarrow> x \<in> awaiting tmp_root (tup_db_del_ghost_tree d t)"
    and "in_use_kept d (tup_db_del_ghost_tree d t)"
proof -
  show "in_use_kept d (tup_db_del_ghost_tree d t)" by (rule in_use_kept_same) (simp_all add: tup_db_del_ghost_tree_def)
  have row: "row d t \<noteq> None" using reclaim_invD(7) [OF inv] t(1) by blast
  note g = del_ghost [OF inv row]
  show "reclaim_inv tmp_root (tup_db_del_ghost_tree d t)" by (rule g(4))
  show "reclaim_rel d (tup_db_del_ghost_tree d t)" by (rule reclaim_rel_same) (simp_all add: tup_db_del_ghost_tree_def)
  have "card (set (ghost_root d) - {t}) < card (set (ghost_root d))" using t(1) by (intro psubset_card_mono) auto
  then have "load tmp_root (tup_db_del_ghost_tree d t) < load tmp_root d" by (simp add: load_def g(3))
  then show "((tmp_root, tup_db_del_ghost_tree d t), (tmp_root, d)) \<in> reclaim_order"
    unfolding reclaim_order_iff by (simp add: tup_db_del_ghost_tree_def groups_def is_group_def)
  assume all: "\<And>x. unneeded d x \<Longrightarrow> x \<in> awaiting tmp_root d" and x: "unneeded (tup_db_del_ghost_tree d t) x"
  have "unneeded d x" using x g(5) by simp
  then show "x \<in> awaiting tmp_root (tup_db_del_ghost_tree d t)" using all [of x] t(2) g(3) by (auto simp: awaiting_def)
qed


text \<open>The case that the node is removed; the parent is not in the tree while the links are deleted.\<close>

lemma removed_step:
  assumes inv: "reclaim_inv tmp_root d" and un: "unneeded d t" and e: "row d t = Some e" and p: "row d (dt e) = Some parent"
    and d1: "d1 = tup_db_del_ghost_tree (tup_db_del_ghost_tree d t) (dt e)"
    and tmp1: "tmp1 = tup_entry_add_ghost_tree (tupid_tree_remove tmp_root t) parent"
    and del: "delete_name_file h d1 t = Some d'"
  shows "reclaim_inv tmp1 d'" and "reclaim_rel d d'" and "in_use_kept d d'" and "((tmp1, d'), (tmp_root, d)) \<in> reclaim_order"
    and "(\<And>x. unneeded d x \<Longrightarrow> x \<in> awaiting tmp_root d) \<Longrightarrow> unneeded d' x \<Longrightarrow> x \<in> awaiting tmp1 d'"
proof -
  note i = reclaim_invD [OF inv]
  have row: "row d t \<noteq> None" using e by simp
  note g1 = del_ghost [OF inv row]
  have "row (tup_db_del_ghost_tree d t) (dt e) \<noteq> None" using p by (simp add: tup_db_del_ghost_tree_def)
  note g2 = del_ghost [OF g1(4) this, folded d1]
  have same: "node_tbl d1 = node_tbl d" "normal_link d1 = normal_link d" by (simp_all add: d1 tup_db_del_ghost_tree_def)
  note i1 = reclaim_invD [OF g2(4)]
  have un1: "unneeded d1 x = unneeded d x" for x using g2(5) g1(5) by simp
  have e1: "row d1 t = Some e" using e same by simp
  have r: "reclaimed t e d1 d'" by (rule delete_reclaimed [OF g2(1,2) e1 del])
  note rD = reclaimedD [OF r]
  have gt: "ghost_type e" using un e by (simp add: unneeded_def)
  have pt: "dt e \<noteq> t" using desc_child [OF e refl] desc_irrefl [OF i(1)] by auto
  have small: "small_tupid t" using row_small [OF refs_okD(4) [OF i(1)] row] by simp
  note rm = tupid_set.del_valid [OF i(6) small]
  note tv = ghost_add [OF rm [THEN conjunct1] refs_okD(4) [OF i(1)] p, folded tmp1]
  have ts: "set tmp1 = set tmp_root - {t} \<union> (if ghost_type parent then {dt e} else {})" using tv(2) rm by auto
  have gr1: "set (ghost_root d1) = set (ghost_root d) - {t} - {dt e}" using g2(3) g1(3) by simp
  have rows: "x \<noteq> t \<Longrightarrow> row d' x = row d x" for x using rD(6) same by simp
  have await: "awaiting tmp1 d' \<subseteq> {x. row d' x \<noteq> None}"
  proof
    fix x assume "x \<in> awaiting tmp1 d'"
    then consider "row d' x \<noteq> None" | "x \<noteq> t" "x \<in> set (ghost_root d)" | "x \<noteq> t" "x \<in> set tmp_root" | "x = dt e"
      using rD(14) [of x] gr1 ts by (auto simp: awaiting_def split: if_splits)
    then show "x \<in> {x. row d' x \<noteq> None}" using rows [of x] i(7,8) [of x] p pt by cases auto
  qed
  then show "reclaim_inv tmp1 d'"
    using rD(1,2) rel_conditions [OF rD(1) e1 r i1(2,3,4) gt] tv(1) by (simp add: reclaim_inv_def)
  have un1t: "unneeded d1 t" using un1 un by simp
  have "in_use_kept d1 d'" using reclaimed_in_use [OF i1(2,3) _ un1t e1 r] by (simp add: in_use_kept_def)
  moreover have "in_use_kept d d1" by (rule in_use_kept_same) (simp_all add: d1 tup_db_del_ghost_tree_def)
  ultimately show "in_use_kept d d'" using in_use_kept_trans by blast
  show "reclaim_rel d d'" using reclaim_rel_trans [OF reclaim_rel_same reclaimed_rel [OF i1(2) un1t e1 r]] same by blast
  show "((tmp1, d'), (tmp_root, d)) \<in> reclaim_order"
  proof (cases "refers d1 t")
    case True
    have nt: "\<not> is_group d' t" using rD(7) [OF True] by (auto simp: is_group_def)
    then have "is_group d' x \<Longrightarrow> is_group d x \<and> x \<noteq> t" for x using rows [of x] by (cases "x = t") (auto simp: is_group_def)
    moreover have "is_group d t" using unneeded_refers(1) [OF i1(2) un1t True e1] e by (simp add: is_group_def)
    ultimately have "{x. is_group d' x} \<subset> {x. is_group d x}" by blast
    then have "groups d' < groups d" unfolding groups_def by (rule psubset_card_mono [OF finite_groups])
    then show ?thesis using rD(8) [OF True] same by (simp add: reclaim_order_iff)
  qed (use rD(10) same in \<open>simp add: reclaim_order_iff\<close>)
  assume all: "\<And>x. unneeded d x \<Longrightarrow> x \<in> awaiting tmp_root d" and x: "unneeded d' x"
  have "x \<noteq> t \<and> unneeded d x \<or> x \<in> set (ghost_root d') \<or> x \<noteq> t \<and> x = dt e \<and> ghost_row d1 x"
    using reclaimed_finds [OF g2(1) i1(2,3,4) un1t e1 r x] un1 by simp
  then consider "x \<noteq> t" "unneeded d x" "x \<noteq> dt e" | "x \<in> set (ghost_root d')" | "x = dt e" "ghost_row d x"
    using same unneeded_ghost [of d x] by (auto simp: ghost_row_def)
  then show "x \<in> awaiting tmp1 d'"
  proof cases
    case 1
    then have "x \<in> set (ghost_root d1) \<or> x \<in> set tmp1" using all [of x] gr1 ts by (auto simp: awaiting_def)
    then show ?thesis using rD(12) [of x] 1(1) by (auto simp: awaiting_def)
  next
    case 3
    then show ?thesis using ts p by (auto simp: awaiting_def ghost_row_def)
  qed (simp add: awaiting_def)
qed


text \<open>One round of the loop.\<close>

lemma reclaim_one_step:
  assumes inv: "reclaim_inv tmp_root d" and t: "t \<in> set (ghost_root d)" and one: "reclaim_one h t tmp_root d = Some (tmp1, d')"
  shows "reclaim_inv tmp1 d'" and "reclaim_rel d d'" and "((tmp1, d'), (tmp_root, d)) \<in> reclaim_order"
    and "(\<And>x. unneeded d x \<Longrightarrow> x \<in> awaiting tmp_root d) \<Longrightarrow> unneeded d' x \<Longrightarrow> x \<in> awaiting tmp1 d'"
    and "in_use_kept d d'"
proof -
  let ?d = "tup_db_del_ghost_tree d t"
  note i = reclaim_invD [OF inv]
  have rt: "row d t \<noteq> None" using i(7) t by blast
  note g = del_ghost [OF inv rt]
  have rows: "row ?d x = row d x" for x by (simp add: tup_db_del_ghost_tree_def)
  obtain e rc where e: "row d t = Some e" "ghost_type e" and rc: "ghost_reclaimable ?d e = Some rc"
    and rest: "(if rc \<and> name_s e \<noteq> TUP_CONFIG then do {
         parent \<leftarrow> parent_of ?d e;
         let d1 = tup_db_del_ghost_tree ?d (tnode_tupid parent);
         let tmp1 = tup_entry_add_ghost_tree (tupid_tree_remove tmp_root t) parent;
         rm_generated_dir h e;
         d2 \<leftarrow> delete_name_file h d1 t;
         Some (tmp1, d2)}
       else Some (tmp_root, ?d)) = Some (tmp1, d')"
    using one by (auto simp: reclaim_one_def Let_def rows bind_eq_Some_conv split: if_splits)
  have un: "rc \<and> name_s e \<noteq> TUP_CONFIG \<longleftrightarrow> unneeded d t"
    using reclaimable_iff [OF g(1) _ e(2) rc] e(1) rows g(5) by simp
  have "reclaim_inv tmp1 d' \<and> reclaim_rel d d' \<and> in_use_kept d d' \<and> ((tmp1, d'), (tmp_root, d)) \<in> reclaim_order
        \<and> ((\<forall>x. unneeded d x \<longrightarrow> x \<in> awaiting tmp_root d) \<longrightarrow> (\<forall>x. unneeded d' x \<longrightarrow> x \<in> awaiting tmp1 d'))"
  proof (cases "unneeded d t")
    case True
    then obtain parent where p: "parent_of ?d e = Some parent"
      and tmp1: "tmp1 = tup_entry_add_ghost_tree (tupid_tree_remove tmp_root t) parent"
      and del: "delete_name_file h (tup_db_del_ghost_tree ?d (tnode_tupid parent)) t = Some d'"
      using rest un by (auto simp: Let_def bind_eq_Some_conv)
    have pr: "row d (dt e) = Some parent" using p rows by (auto simp: parent_of_def split: if_splits)
    have pid: "tnode_tupid parent = dt e" using row_self [OF refs_okD(4) [OF i(1)] pr] by simp
    note s = removed_step [OF inv True e(1) pr refl tmp1 del [unfolded pid]]
    show ?thesis using s by blast
  next
    case False
    then have "tmp1 = tmp_root" "d' = ?d" using rest un by (auto split: if_splits)
    then show ?thesis using kept_step [OF inv t False] by blast
  qed
  then show "reclaim_inv tmp1 d'" and "reclaim_rel d d'" and "((tmp1, d'), (tmp_root, d)) \<in> reclaim_order"
    and "(\<And>x. unneeded d x \<Longrightarrow> x \<in> awaiting tmp_root d) \<Longrightarrow> unneeded d' x \<Longrightarrow> x \<in> awaiting tmp1 d'" and "in_use_kept d d'" by blast+
qed

lemma conditions_root [simp]:
  "exclusions_ok (d\<lparr>ghost_root := g\<rparr>) = exclusions_ok d" "stickies_ok (d\<lparr>ghost_root := g\<rparr>) = stickies_ok d"
  "srcids_ok (d\<lparr>ghost_root := g\<rparr>) = srcids_ok d"
  by (simp_all add: exclusions_ok_def stickies_ok_def srcids_ok_def)

lemma swap_step:
  assumes inv: "reclaim_inv tmp_root d" and s: "swap_roots (tmp_root, d) = (tmp1, d')"
  shows "reclaim_inv tmp1 d'" and "reclaim_rel d d'" and "awaiting tmp1 d' = awaiting tmp_root d" and "unneeded d' x = unneeded d x"
    and "ghost_root d' = [] \<longrightarrow> tmp1 = []" and "((tmp1, d'), q) \<in> reclaim_order \<longleftrightarrow> ((tmp_root, d), q) \<in> reclaim_order"
    and "in_use_kept d d'"
proof -
  have d': "d' = d \<and> tmp1 = tmp_root \<and> ghost_root d \<noteq> [] \<or> d' = d\<lparr>ghost_root := tmp_root\<rparr> \<and> tmp1 = [] \<and> ghost_root d = []"
    using s by (auto simp: swap_roots_def split: if_splits)
  note i = reclaim_invD [OF inv]
  have ok: "refs_ok (d\<lparr>ghost_root := g\<rparr>)" for g by (rule flag_step_ok(1) [OF flag_step_misc(1) i(1)])
  show a: "awaiting tmp1 d' = awaiting tmp_root d" using d' by (auto simp: awaiting_def)
  show "reclaim_inv tmp1 d'"
    using d' inv ok a i(6) by (auto simp: reclaim_inv_def)
  show "reclaim_rel d d'" using d' by (intro reclaim_rel_same) auto
  show "in_use_kept d d'" using d' by (intro in_use_kept_same) auto
  show "unneeded d' x = unneeded d x" using d' by (auto simp: unneeded_def)
  show "ghost_root d' = [] \<longrightarrow> tmp1 = []" using d' by auto
  show "((tmp1, d'), q) \<in> reclaim_order \<longleftrightarrow> ((tmp_root, d), q) \<in> reclaim_order"
  proof -
    obtain qr qd where q: "q = (qr, qd)" by (cases q)
    have "length (node_tbl d') = length (node_tbl d)" "groups d' = groups d" "load tmp1 d' = load tmp_root d"
      using d' by (auto simp: groups_def is_group_def load_def)
    then show ?thesis unfolding q reclaim_order_iff by simp
  qed
qed

section \<open>The loop\<close>

lemma reclaim_loop_result:
  assumes "reclaim_inv tmp_root d" and "ghost_root d = [] \<longrightarrow> tmp_root = []"
  shows "\<exists>r. reclaim_loop h tmp_root d = Some r \<and> (\<forall>d'. r = Some d' \<longrightarrow> reclaim_inv [] d' \<and> ghost_root d' = [] \<and> reclaim_rel d d' \<and> in_use_kept d d'
      \<and> ((\<forall>x. unneeded d x \<longrightarrow> x \<in> awaiting tmp_root d) \<longrightarrow> (\<forall>x. \<not> unneeded d' x)))"
proof -
  have wf: "wf reclaim_order" by (simp add: reclaim_order_def)
  show ?thesis using assms
  proof (induction "(tmp_root, d)" arbitrary: tmp_root d rule: wf_induct_rule [OF wf])
  case 1
  note IH = 1(1) and inv = 1(2) and e = 1(3)
  show ?case
  proof (cases "ghost_root d")
    case Nil
    then have "reclaim_loop h tmp_root d = Some (Some d)" by (simp add: reclaim_loop.simps)
    moreover have "tmp_root = []" using e Nil by simp
    ultimately show ?thesis using inv Nil reclaim_rel_same [of d d] by (auto simp: awaiting_def in_use_kept_def)
  next
    case (Cons t r)
    show ?thesis
    proof (cases "reclaim_one h t tmp_root d")
      case None
      then show ?thesis using Cons by (simp add: reclaim_loop.simps)
    next
      case (Some p)
      obtain tmp1 d1 where p: "p = (tmp1, d1)" by (cases p)
      obtain tmp2 d2 where sw: "swap_roots (tmp1, d1) = (tmp2, d2)" by (cases "swap_roots (tmp1, d1)")
      have t: "t \<in> set (ghost_root d)" using Cons by simp
      note s1 = reclaim_one_step [OF inv t Some [unfolded p]]
      note s2 = swap_step [OF s1(1) sw]
      have less: "((tmp2, d2), (tmp_root, d)) \<in> reclaim_order" using s2(6) s1(3) by blast
      have loop: "reclaim_loop h tmp_root d = reclaim_loop h tmp2 d2" using Cons Some p sw by (subst reclaim_loop.simps) simp
      obtain res where res: "reclaim_loop h tmp2 d2 = Some res" "\<forall>d'. res = Some d' \<longrightarrow> reclaim_inv [] d' \<and> ghost_root d' = [] \<and> reclaim_rel d2 d' \<and> in_use_kept d2 d'
          \<and> ((\<forall>x. unneeded d2 x \<longrightarrow> x \<in> awaiting tmp2 d2) \<longrightarrow> (\<forall>x. \<not> unneeded d' x))"
        using IH [OF less s2(1,5)] by blast
      have rel: "reclaim_rel d d2" by (rule reclaim_rel_trans [OF s1(2) s2(2)])
      have find: "\<forall>x. unneeded d2 x \<longrightarrow> x \<in> awaiting tmp2 d2" if "\<forall>x. unneeded d x \<longrightarrow> x \<in> awaiting tmp_root d"
        using s1(4) that s2(3,4) by blast
      have use: "in_use_kept d d2" by (rule in_use_kept_trans [OF s1(5) s2(7)])
      show ?thesis unfolding loop using res find reclaim_rel_trans [OF rel] in_use_kept_trans [OF use] by blast
    qed
  qed
  qed
qed


section \<open>Properties\<close>

text \<open>
  The ghost directory \<^verbatim>\<open>a\<close> holds a ghost that nothing uses any more; the command still depends on the ghost
  \<^verbatim>\<open>b\<close>.
\<close>

definition ghost_db :: db where
  "ghost_db = (sample_db [] [(4, 5)] [] [] [])\<lparr>ghost_root := [3, 4], node_tbl :=
     [(1, tree_entry 1 0 TUP_NODE_DIR ''.''), (2, tree_entry 2 1 TUP_NODE_GHOST ''a''), (3, tree_entry 3 2 TUP_NODE_GHOST ''f''),
      (4, tree_entry 4 1 TUP_NODE_GHOST ''b''), (5, tree_entry 5 1 TUP_NODE_CMD ''c'')]\<rparr>"

lemma ghost_db_rows: "row ghost_db t = Some e \<longleftrightarrow> (t, e) \<in> set (node_tbl ghost_db)"
  by (rule om_ok_map_of_iff) (simp add: ghost_db_def om_ok_def)

lemma ghost_db_inv: "reclaim_inv [] ghost_db"
proof -
  have "db_ok ghost_db"
    by (simp add: db_ok_def nodes_ok_def links_ok_def cache_ok_def ghost_db_def sample_db_def tree_entry_def sample_entry_def om_ok_def small_tupid_def)
  moreover have "acyclic (parent_rel ghost_db)"
    by (rule increasing_acyclic) (auto simp: ghost_db_rows, auto simp: ghost_db_def tree_entry_def sample_entry_def)
  then have "tree_ok ghost_db"
    unfolding tree_ok_def ghost_db_rows by (auto simp: ghost_db_def tree_entry_def sample_entry_def TUP_CONFIG_def)
  moreover have "flags_known ghost_db" by (simp add: flags_known_def group_cmds_def ghost_db_def sample_db_def)
  ultimately have "refs_ok ghost_db" by (simp add: refs_ok_def)
  moreover have "exclusions_ok ghost_db" "srcids_ok ghost_db"
    unfolding exclusions_ok_def srcids_ok_def ghost_db_rows by (auto simp: ghost_db_def sample_db_def tree_entry_def sample_entry_def)
  moreover have "stickies_ok ghost_db" by (simp add: stickies_ok_def ghost_db_def sample_db_def)
  moreover have "tupid_set.valid (ghost_root ghost_db)" by (simp add: tupid_set.valid_def ghost_db_def small_tupid_def)
  moreover have "awaiting [] ghost_db \<subseteq> {t. row ghost_db t \<noteq> None}" by (auto simp: awaiting_def ghost_db_def)
  ultimately show ?thesis by (simp add: reclaim_inv_def)
qed

text \<open>
  C18: \<^verbatim>\<open>reclaim_ghosts\<close>, run at every commit, comes to an end: each round removes a row, turns a group into a ghost, or makes
  the trees of nodes to check smaller, although a removal adds the parent and the nodes that were linked.
\<close>

theorem reclaim_ends: "reclaim_inv [] d \<Longrightarrow> reclaim_ghosts h d \<noteq> None"
  using reclaim_loop_result [of "[]" d h] by (auto simp: reclaim_ghosts_def)

lemma reclaim_ends_witness: "reclaim_ghosts sample_host ghost_db \<noteq> None"
  by (rule reclaim_ends [OF ghost_db_inv])

text \<open>
  C17: When \<^verbatim>\<open>reclaim_ghosts\<close> succeeds it has removed only what was not in use: nodes other than ghosts,
  groups and generated directories are as they were, with every link into them; nothing refers to a removed row; and every
  node that is in use is still there (a group that is a sticky input, say, or a ghost on which a command depends).  In use is
  the largest set of nodes that are no ghosts, groups or generated directories, are written by a command (exclusions and
  groups), are a sticky input (groups), or are needed by another node in use: nodes that only need each other count.  If all
  the nodes that nothing needs at the start are known in the tree of ghosts, also those that are no longer needed after other
  removals are removed: what is left is exactly what is in use.  Assumed are the invariants of \<open>reclaim_inv\<close> and that
  groups hold no other nodes.
\<close>

theorem reclaim_exact:
  assumes "reclaim_inv [] d" and "groups_ok d" and "reclaim_ghosts h d = Some (Some d')"
  shows "refs_ok d'
     \<and> (\<forall>x. pred_option (\<lambda>e. ghost_type e \<or> row d' x = Some e) (row d x))
     \<and> (\<forall>(f, c) \<in> set (normal_link d). ghost_row d c \<or> (f, c) \<in> set (normal_link d'))
     \<and> in_use d \<subseteq> {x. row d' x \<noteq> None} \<and> {x. row d' x \<noteq> None} \<subseteq> {x. row d x \<noteq> None}
     \<and> ({x. unneeded d x} \<subseteq> set (ghost_root d) \<longrightarrow> {x. unneeded d' x} = {} \<and> {x. row d' x \<noteq> None} = in_use d)"
proof -
  have "reclaim_inv [] d' \<and> reclaim_rel d d' \<and> in_use_kept d d' \<and> ((\<forall>x. unneeded d x \<longrightarrow> x \<in> awaiting [] d) \<longrightarrow> (\<forall>x. \<not> unneeded d' x))"
    using reclaim_loop_result [OF assms(1), of h] assms(3) by (auto simp: reclaim_ghosts_def)
  then have "reclaim_inv [] d'" and r: "reclaim_rel d d'" and k: "in_use_kept d d'"
    and u: "(\<forall>x. unneeded d x \<longrightarrow> x \<in> awaiting [] d) \<longrightarrow> (\<forall>x. \<not> unneeded d' x)" by blast+
  then have ok: "refs_ok d'" by (simp add: reclaim_inv_def)
  have use: "in_use d' = in_use d" using k assms(2) by (simp add: in_use_kept_def)
  have "pred_option (\<lambda>e. ghost_type e \<or> row d' x = Some e) (row d x)" for x
    using reclaim_relD(1) [OF r, of x] by (cases "row d x") auto
  moreover have "\<forall>(f, c) \<in> set (normal_link d). ghost_row d c \<or> (f, c) \<in> set (normal_link d')"
    using reclaim_relD(4) [OF r] by blast
  moreover have sub: "in_use d \<subseteq> {x. row d' x \<noteq> None}" using in_use_row [of _ d'] use by blast
  moreover have "{x. row d' x \<noteq> None} \<subseteq> {x. row d x \<noteq> None}" using reclaim_relD(2) [OF r] by fastforce
  moreover have "{x. unneeded d' x} = {} \<and> {x. row d' x \<noteq> None} = in_use d" if known: "{x. unneeded d x} \<subseteq> set (ghost_root d)"
  proof -
    have none: "\<not> unneeded d' x" for x using u known by (auto simp: awaiting_def)
    then have "{x. row d' x \<noteq> None} \<subseteq> in_use d" using all_in_use [OF ok none] use by blast
    then show ?thesis using none sub by blast
  qed
  ultimately show ?thesis using ok by blast
qed

lemma ghost_run:
  "\<exists>d'. reclaim_ghosts sample_host ghost_db = Some (Some d') \<and> map fst (node_tbl d') = [1, 4, 5] \<and> normal_link d' = [(4, 5)]"
proof -
  have "case reclaim_ghosts sample_host ghost_db of Some (Some d') \<Rightarrow> map fst (node_tbl d') = [1, 4, 5] \<and> normal_link d' = [(4, 5)] | _ \<Rightarrow> False"
    by code_simp
  then show ?thesis by (auto split: option.splits)
qed

lemma ghost_db_known: "{x. unneeded ghost_db x} \<subseteq> set (ghost_root ghost_db)"
proof
  fix x assume "x \<in> {x. unneeded ghost_db x}"
  then obtain e where e: "row ghost_db x = Some e" "ghost_type e" and u: "unneeded ghost_db x" by (auto simp: unneeded_def)
  have "(3, tree_entry 3 2 TUP_NODE_GHOST ''f'') \<in> set (node_tbl ghost_db)" by (simp add: ghost_db_def)
  then have f: "row ghost_db 3 = Some (tree_entry 3 2 TUP_NODE_GHOST ''f'')" by (simp add: ghost_db_rows)
  have "row ghost_db 2 = Some (tree_entry 2 1 TUP_NODE_GHOST ''a'')" "local_exclusion_dt ghost_db = 99"
    by (simp_all add: ghost_db_def sample_db_def)
  then have "\<not> unneeded ghost_db 2"
    unfolding unneeded_def using f by (auto simp: tree_entry_def sample_entry_def intro!: exI [of _ 3])
  then have "x \<noteq> 2" using u by blast
  then show "x \<in> set (ghost_root ghost_db)" using e unfolding ghost_db_rows
    by (auto simp: ghost_db_def tree_entry_def sample_entry_def ghost_type_def)
qed

lemma ghost_db_groups: "groups_ok ghost_db"
  unfolding groups_ok_def is_group_def ghost_db_rows by (auto simp: ghost_db_def tree_entry_def sample_entry_def)

lemma reclaim_exact_witness:
  "\<exists>d'. reclaim_ghosts sample_host ghost_db = Some (Some d') \<and> map fst (node_tbl d') = [1, 4, 5] \<and> refs_ok d' \<and> {x. unneeded d' x} = {}
     \<and> {x. row d' x \<noteq> None} = in_use ghost_db"
proof -
  from ghost_run obtain d' where run: "reclaim_ghosts sample_host ghost_db = Some (Some d') \<and> map fst (node_tbl d') = [1, 4, 5] \<and> normal_link d' = [(4, 5)]"
    by (rule exE)
  note d' = run [THEN conjunct1] run [THEN conjunct2, THEN conjunct1]
  note r = reclaim_exact [OF ghost_db_inv ghost_db_groups d'(1)]
  note u = r [THEN conjunct2, THEN conjunct2, THEN conjunct2, THEN conjunct2, THEN conjunct2, rule_format, OF ghost_db_known]
  show ?thesis by (intro exI [of _ d'] conjI d' r [THEN conjunct1] u [THEN conjunct1] u [THEN conjunct2])
qed

end
