(* ===== verification/File_Info.thy ===== *)
theory File_Info
  imports Name_File Deletion
begin

text \<open>
  What is done with the file accesses of a command or a parser (\<^verbatim>\<open>src/src/tup/file.c\<close>): the servers report events, the
  events leave lists of files that were read and written, and the lists become links in the database or errors.  Locks,
  warnings and messages are not modelled.  After an error that ends the processing of a list early (\<open>None\<close>: a failing lookup or
  system call, or an exclusion pattern that matches a generated file) the state is not described; that the command wrote a
  wrong file or missed an output is a result of its own.
\<close>

section \<open>State\<close>

datatype access_type = ACCESS_READ | ACCESS_WRITE | ACCESS_RENAME | ACCESS_UNLINK | ACCESS_VAR

datatype check_type = CHECK_SUCCESS | CHECK_CMDFAIL | CHECK_SIGNALLED

text \<open>The lists of file names, the temporary files, the directories that were made, and the trees that the updater fills in.\<close>

record file_info =
  read_list :: "string list"
  write_list :: "string list"
  unlink_list :: "string list"
  var_list :: "string list"
  f_mappings :: "file_mapping list"
  tmpdir_list :: "string list"
  f_sticky :: tent_entries
  f_normal :: tent_entries
  f_group_sticky :: tent_entries
  f_used_groups :: tent_entries
  f_output :: tent_entries
  f_exclusion :: tent_entries
  f_do_unlink :: bool

definition init_file_info :: "bool \<Rightarrow> file_info" where
  "init_file_info u = \<lparr>read_list = [], write_list = [], unlink_list = [], var_list = [], f_mappings = [], tmpdir_list = [],
     f_sticky = [], f_normal = [], f_group_sticky = [], f_used_groups = [], f_output = [], f_exclusion = [], f_do_unlink = u\<rparr>"

text \<open>
  The contents of symbolic links (\<open>None\<close> for other files), the match of a regular expression, named by its text, with a path
  (\<open>None\<close> if it fails to run), the outcome of making a directory and of a renaming, and whether a file is a FIFO, with its
  time (\<open>None\<close> if it is missing).
\<close>

record file_system =
  link_text :: "string \<Rightarrow> string option"
  re_match :: "string \<Rightarrow> string \<Rightarrow> bool option"
  mkdir_ok :: "string \<Rightarrow> bool"
  rename_ok :: "string \<Rightarrow> string \<Rightarrow> bool"
  lstat :: "string \<Rightarrow> (bool \<times> timespec) option"

section \<open>Events\<close>

definition check_unlink_list :: "string \<Rightarrow> file_info \<Rightarrow> file_info" where
  "check_unlink_list f info = info\<lparr>unlink_list := filter (\<lambda>u. u \<noteq> f) (unlink_list info)\<rparr>"

definition handle_open_file :: "access_type \<Rightarrow> string \<Rightarrow> file_info \<Rightarrow> file_info option" where
  "handle_open_file acc f info = (case acc of
     ACCESS_READ \<Rightarrow> Some (info\<lparr>read_list := read_list info @ [f]\<rparr>)
   | ACCESS_WRITE \<Rightarrow> (let info1 = check_unlink_list f info in Some (info1\<lparr>write_list := write_list info1 @ [f]\<rparr>))
   | ACCESS_UNLINK \<Rightarrow> Some (info\<lparr>unlink_list := unlink_list info @ [f]\<rparr>)
   | ACCESS_VAR \<Rightarrow> Some (info\<lparr>var_list := var_list info @ [f]\<rparr>)
   | ACCESS_RENAME \<Rightarrow> None)"

definition handle_rename :: "string \<Rightarrow> string \<Rightarrow> file_info \<Rightarrow> file_info" where
  "handle_rename from to info =
     (let r = (\<lambda>f. if f = from then to else f) in
      check_unlink_list to (info\<lparr>write_list := map r (write_list info), read_list := map r (read_list info)\<rparr>))"

text \<open>The target of a link is relative to the directory of the link.\<close>

definition get_symlink :: "file_system \<Rightarrow> string \<Rightarrow> string option" where
  "get_symlink fs f = (case link_text fs f of
     None \<Rightarrow> None
   | Some [] \<Rightarrow> None
   | Some (c # cs) \<Rightarrow>
       if c = CHR ''/'' then Some (c # cs)
       else Some (rev (dropWhile (\<lambda>c. c \<noteq> CHR ''/'') (rev f)) @ c # cs))"

definition add_symlinks :: "file_system \<Rightarrow> string \<Rightarrow> file_info \<Rightarrow> file_info option" where
  "add_symlinks fs f info = (case get_symlink fs f of None \<Rightarrow> Some info | Some l \<Rightarrow> handle_open_file ACCESS_READ l info)"

definition handle_file :: "file_system \<Rightarrow> access_type \<Rightarrow> string \<Rightarrow> string \<Rightarrow> file_info \<Rightarrow> file_info option" where
  "handle_file fs acc f f2 info =
     (if acc = ACCESS_RENAME then Some (handle_rename f f2 info)
      else do {
        info1 \<leftarrow> handle_open_file acc f info;
        if acc = ACCESS_READ then add_symlinks fs f info1 else Some info1})"

text \<open>The path of an entry from the top; the walk ends there.\<close>

fun snprint_tup_entry :: "nat \<Rightarrow> db \<Rightarrow> tup_entry \<Rightarrow> string" where
  "snprint_tup_entry 0 d e = []"
| "snprint_tup_entry (Suc k) d e = (case parent_of d e of None \<Rightarrow> [] | Some p \<Rightarrow> snprint_tup_entry k d p @ CHR ''/'' # name_s e)"

definition PATH_MAX :: nat where
  "PATH_MAX = 4096"

text \<open>
  The lengths of the two parts are compared with the size of the buffer one by one, so a path whose parts fit is cut off.
\<close>

definition handle_file_dtent :: "file_system \<Rightarrow> access_type \<Rightarrow> db \<Rightarrow> tup_entry \<Rightarrow> string \<Rightarrow> file_info \<Rightarrow> file_info option" where
  "handle_file_dtent fs acc d dtent f info =
     (if is_full_path f \<or> tnode_tupid dtent = DOT_DT then handle_file fs acc f [] info
      else (let p = snprint_tup_entry (Suc (length (node_tbl d))) d dtent in
        if length p \<ge> PATH_MAX \<or> length f + 1 \<ge> PATH_MAX then None
        else handle_file fs acc (take (PATH_MAX - 1) (CHR ''.'' # p @ CHR ''/'' # f)) [] info))"

definition handle_unlink :: "file_info \<Rightarrow> file_info" where
  "handle_unlink info = info\<lparr>write_list := filter (\<lambda>f. f \<notin> set (unlink_list info)) (write_list info),
     read_list := filter (\<lambda>f. f \<notin> set (unlink_list info)) (read_list info), unlink_list := []\<rparr>"

section \<open>Nodes of the files that were read\<close>


definition add_node_to_tree :: "host \<Rightarrow> db \<Rightarrow> tupid \<Rightarrow> string \<Rightarrow> tent_entries \<Rightarrow> bool \<Rightarrow> (db \<times> tent_entries) option" where
  "add_node_to_tree h d start f tree full_deps = do {
     pg \<leftarrow> get_path_elements (tup_top h) (Some f);
     (d1, t, pel) \<leftarrow> find_dir_tupid_dt_pg h d start pg True SOTGV_CREATE_GHOSTS full_deps;
     case pel of
       None \<Rightarrow> Some (d1, tree)
     | Some p \<Rightarrow>
         if t = 0 then Some (d1, tree)
         else do {
           tup_entry_find_row d1 t;
           r \<leftarrow> node_select d1 t p;
           (d2, e) \<leftarrow> (case r of
               Some e \<Rightarrow> Some (d1, e)
             | None \<Rightarrow> do {
                 ms \<leftarrow> (if full_deps \<and> has_pg PG_OUTSIDE_TUP pg then get_outside_tup_mtime h t p else Some INVALID_MTIME);
                 tup_db_node_insert_tent h d1 t p TUP_NODE_GHOST ms (-1)});
           Some (d2, if ntype e = TUP_NODE_DIR \<or> ntype e = TUP_NODE_GENERATED_DIR \<or> tv_sec (mtime e) = 0 then tree
                     else tent_tree_add_dup tree (tnode_tupid e))}}"

fun add_nodes :: "host \<Rightarrow> tupid \<Rightarrow> bool \<Rightarrow> string list \<Rightarrow> db \<times> tent_entries \<Rightarrow> (db \<times> tent_entries) option" where
  "add_nodes h start full_deps [] s = Some s"
| "add_nodes h start full_deps (f # fs) s = do {
     s1 \<leftarrow> add_node_to_tree h (fst s) start f (snd s) full_deps; add_nodes h start full_deps fs s1}"

definition add_config_files :: "host \<Rightarrow> db \<Rightarrow> file_info \<Rightarrow> tup_entry \<Rightarrow> bool \<Rightarrow> (db \<times> file_info) option" where
  "add_config_files h d info tent full_deps = do {
     (d1, tree) \<leftarrow> add_nodes h DOT_DT full_deps (read_list info) (d, []);
     d2 \<leftarrow> tup_db_check_config_inputs tent (tupid_tree_remove tree (tnode_tupid tent)) d1;
     Some (d2, info\<lparr>read_list := []\<rparr>)}"

fun check_mappings :: "host \<Rightarrow> db \<Rightarrow> file_mapping list \<Rightarrow> bool option" where
  "check_mappings h d [] = Some True"
| "check_mappings h d (m # ms) = do {
     r \<leftarrow> gimme_tent h d (realname m); ok \<leftarrow> check_mappings h d ms; Some (r \<noteq> None \<and> ok)}"

text \<open>The tree of the parser gets what was read, less the generated \<^verbatim>\<open>.gitignore\<close> files; writing is only allowed to known files.\<close>

definition add_parser_files :: "host \<Rightarrow> db \<Rightarrow> file_info \<Rightarrow> tent_entries \<Rightarrow> tupid \<Rightarrow> bool \<Rightarrow> (db \<times> file_info \<times> tent_entries) option" where
  "add_parser_files h d info tree vardt full_deps = do {
     s1 \<leftarrow> add_nodes h DOT_DT full_deps (read_list info) (d, []);
     (d2, tmp) \<leftarrow> add_nodes h vardt False (var_list info) s1;
     let tree1 = foldl (\<lambda>r t. if map_option name_s (map_of (node_tbl d2) t) \<noteq> Some ''.gitignore'' then tent_tree_add_dup r t else r) tree tmp;
     ok \<leftarrow> check_mappings h d2 (f_mappings info);
     if ok then Some (d2, info\<lparr>read_list := [], var_list := [], write_list := [], f_mappings := []\<rparr>, tree1) else None}"




section \<open>Nodes of the files that were written\<close>















section \<open>What the events mean\<close>

text \<open>An event is its kind and one or two paths.\<close>

type_synonym event = "access_type \<times> string \<times> string"

fun run_events :: "file_system \<Rightarrow> event list \<Rightarrow> file_info \<Rightarrow> file_info option" where
  "run_events fs [] info = Some info"
| "run_events fs ((acc, f, f2) # es) info = do { info1 \<leftarrow> handle_file fs acc f f2 info; run_events fs es info1 }"

text \<open>The files that the command has written and that are still there, as each event changes them.\<close>

fun files_after :: "event \<Rightarrow> string set \<Rightarrow> string set" where
  "files_after (acc, f, f2) W = (case acc of
     ACCESS_WRITE \<Rightarrow> insert f W
   | ACCESS_UNLINK \<Rightarrow> W - {f}
   | ACCESS_RENAME \<Rightarrow> insert f2 (W - {f})
   | ACCESS_READ \<Rightarrow> W
   | ACCESS_VAR \<Rightarrow> W)"

fun all_files_after :: "event list \<Rightarrow> string set \<Rightarrow> string set" where
  "all_files_after [] W = W"
| "all_files_after (e # es) W = all_files_after es (files_after e W)"

text \<open>A command renames only files that it wrote itself.\<close>

fun own_renames :: "event list \<Rightarrow> string set \<Rightarrow> bool" where
  "own_renames [] W = True"
| "own_renames ((acc, f, f2) # es) W = ((acc = ACCESS_RENAME \<longrightarrow> f \<in> W) \<and> own_renames es (files_after (acc, f, f2) W))"

definition still_written :: "file_info \<Rightarrow> string set" where
  "still_written info = set (write_list info) - set (unlink_list info)"

lemma unlink_written: "set (write_list (handle_unlink info)) = still_written info"
  by (auto simp: handle_unlink_def still_written_def)

lemma symlinks_total: "\<exists>info1. add_symlinks fs f info = Some info1 \<and> write_list info1 = write_list info \<and> unlink_list info1 = unlink_list info
    \<and> set (read_list info) \<subseteq> set (read_list info1)"
  by (cases "get_symlink fs f") (auto simp: add_symlinks_def handle_open_file_def)

lemma event_written:
  assumes "acc = ACCESS_RENAME \<longrightarrow> f \<in> still_written info"
  shows "\<exists>info1. handle_file fs acc f f2 info = Some info1 \<and> still_written info1 = files_after (acc, f, f2) (still_written info)"
proof (cases acc)
  case ACCESS_READ
  then show ?thesis using symlinks_total [of fs f "info\<lparr>read_list := read_list info @ [f]\<rparr>"]
    by (auto simp: handle_file_def handle_open_file_def still_written_def)
next
  case ACCESS_RENAME
  then have "f \<in> set (write_list info)" "f \<notin> set (unlink_list info)" using assms by (auto simp: still_written_def)
  then show ?thesis using ACCESS_RENAME
    by (auto simp: handle_file_def handle_rename_def check_unlink_list_def still_written_def Let_def)
qed (auto simp: handle_file_def handle_open_file_def check_unlink_list_def still_written_def Let_def)

lemma events_written:
  "own_renames es (still_written info) \<Longrightarrow>
    \<exists>info1. run_events fs es info = Some info1 \<and> still_written info1 = all_files_after es (still_written info)"
proof (induction es arbitrary: info)
  case (Cons e es)
  obtain acc f f2 where e: "e = (acc, f, f2)" by (cases e)
  have r: "acc = ACCESS_RENAME \<longrightarrow> f \<in> still_written info" using Cons.prems e by simp
  obtain info1 where i: "handle_file fs acc f f2 info = Some info1" "still_written info1 = files_after (acc, f, f2) (still_written info)"
    using event_written [OF r] by blast
  have "own_renames es (still_written info1)" using Cons.prems i(2) e by simp
  then show ?case using Cons.IH [of info1] i e by auto
qed simp

text \<open>A read is kept unless the file is removed or renamed.\<close>

definition moved :: "string \<Rightarrow> event \<Rightarrow> bool" where
  "moved f = (\<lambda>(acc, a, _). a = f \<and> (acc = ACCESS_UNLINK \<or> acc = ACCESS_RENAME))"

lemma event_read:
  assumes "handle_file fs acc a b info = Some info1" and "\<not> moved f (acc, a, b)"
  shows "f \<notin> set (unlink_list info) \<Longrightarrow> f \<notin> set (unlink_list info1)"
    and "f \<in> set (read_list info) \<Longrightarrow> f \<in> set (read_list info1)"
    and "acc = ACCESS_READ \<Longrightarrow> a = f \<Longrightarrow> f \<in> set (read_list info1)"
  using assms symlinks_total [of fs a "info\<lparr>read_list := read_list info @ [a]\<rparr>"]
  by (cases acc; fastforce simp: handle_file_def handle_open_file_def handle_rename_def check_unlink_list_def moved_def Let_def)+

lemma events_read:
  assumes "run_events fs es info = Some info1" and "\<forall>e \<in> set es. \<not> moved f e" and "f \<notin> set (unlink_list info)"
    and "f \<in> set (read_list info) \<or> (\<exists>b. (ACCESS_READ, f, b) \<in> set es)"
  shows "f \<in> set (read_list info1) \<and> f \<notin> set (unlink_list info1)"
  using assms
proof (induction es arbitrary: info)
  case (Cons e es)
  obtain acc a b where e: "e = (acc, a, b)" by (cases e)
  obtain info2 where h: "handle_file fs acc a b info = Some info2" and r: "run_events fs es info2 = Some info1"
    using Cons.prems(1) e by (auto simp: bind_eq_Some_conv)
  have m: "\<not> moved f (acc, a, b)" using Cons.prems(2) e by simp
  note er = event_read [OF h m]
  have "f \<in> set (read_list info2) \<or> (\<exists>b. (ACCESS_READ, f, b) \<in> set es)" using Cons.prems(4) er(2,3) e by auto
  then show ?case using Cons.IH [OF r] Cons.prems(2) er(1) [OF Cons.prems(3)] by simp
qed auto


section \<open>Accepted outputs\<close>














section \<open>Properties\<close>

text \<open>
  C21: the lists that the events of a command leave stand for what it did.  The files to write are exactly those that it wrote
  and that are still there under the name they have at the end, however writing, renaming and removing follow each other,
  as long as it renames only files of its own; and a file that was read and neither removed nor renamed is among the files read.
\<close>

theorem events_meaning:
  assumes "own_renames es {}"
  shows "\<exists>info. run_events fs es (init_file_info u) = Some info
    \<and> set (write_list (handle_unlink info)) = all_files_after es {}
    \<and> {f. (\<exists>b. (ACCESS_READ, f, b) \<in> set es) \<and> (\<forall>e \<in> set es. \<not> moved f e)} \<subseteq> set (read_list (handle_unlink info))"
proof -
  have i: "still_written (init_file_info u) = {}" "unlink_list (init_file_info u) = []" by (simp_all add: still_written_def init_file_info_def)
  obtain info where r: "run_events fs es (init_file_info u) = Some info" and w: "still_written info = all_files_after es {}"
    using events_written [of es "init_file_info u" fs] assms i by auto
  have "f \<in> set (read_list (handle_unlink info))" if "(ACCESS_READ, f, b) \<in> set es" "\<forall>e \<in> set es. \<not> moved f e" for f b
  proof -
    have "f \<in> set (read_list info) \<and> f \<notin> set (unlink_list info)" using events_read [OF r that(2)] that(1) i(2) by auto
    then show ?thesis by (simp add: handle_unlink_def)
  qed
  then show ?thesis using r w unlink_written by blast
qed




definition io_fs :: file_system where
  "io_fs = \<lparr>link_text = (\<lambda>_. None), re_match = (\<lambda>_ _. Some False), mkdir_ok = (\<lambda>_. True), rename_ok = (\<lambda>_ _. True),
     lstat = (\<lambda>_. Some (False, INVALID_MTIME))\<rparr>"


lemma events_meaning_witness:
  "\<exists>info. run_events io_fs [(ACCESS_READ, ''i'', []), (ACCESS_WRITE, ''t'', []), (ACCESS_UNLINK, ''o'', []), (ACCESS_RENAME, ''t'', ''o'')]
       (init_file_info True) = Some info
     \<and> set (write_list (handle_unlink info)) = {''o''} \<and> ''i'' \<in> set (read_list (handle_unlink info))"
proof -
  let ?es = "[(ACCESS_READ, ''i'', []), (ACCESS_WRITE, ''t'', []), (ACCESS_UNLINK, ''o'', []), (ACCESS_RENAME, ''t'', ''o'')] :: event list"
  have o: "own_renames ?es {}" by simp
  have a: "all_files_after ?es {} = {''o''}" by auto
  have m: "''i'' \<in> {f. (\<exists>b. (ACCESS_READ, f, b) \<in> set ?es) \<and> (\<forall>e \<in> set ?es. \<not> moved f e)}" by (auto simp: moved_def)
  show ?thesis using events_meaning [OF o, of io_fs True] unfolding a using m by blast
qed





end
