(* ===== verification/Tupignore.thy ===== *)
theory Tupignore
  imports File_Info Paths
begin

text \<open>
  The directories and files that \<^verbatim>\<open>.tupignore\<close> excludes (\<^verbatim>\<open>src/src/tup/tupignore.c\<close>), with the source entry of a
  node of a variant (\<^verbatim>\<open>variant.c\<close>).  \<^verbatim>\<open>fnmatch\<close> is the parameter \<open>fm\<close>; a failing \<^verbatim>\<open>fclose\<close> is not modelled.
\<close>

section \<open>Reading the patterns\<close>

record ignore_state =
  patterns :: "string list"
  loaded :: bool

text \<open>What opening \<^verbatim>\<open>.tupignore\<close> gives.\<close>

datatype ignore_file = Absent | Unreadable | Contents string

text \<open>The lines as \<^verbatim>\<open>getline\<close> returns them, each with its newline if it has one.\<close>

function getlines :: "string \<Rightarrow> string list" where
  "getlines s =
     (case dropWhile (\<lambda>c. c \<noteq> CHR 0x0A) s of
        [] \<Rightarrow> if s = [] then [] else [s]
      | nl # r \<Rightarrow> (takeWhile (\<lambda>c. c \<noteq> CHR 0x0A) s @ [nl]) # getlines r)"
  by auto
termination
proof (relation "measure length", goal_cases)
  case (2 s nl r)
  then show ?case using length_dropWhile_le [of "\<lambda>c. c \<noteq> CHR 0x0A" s] by simp
qed simp

declare getlines.simps [simp del]

definition leading_blank :: "char \<Rightarrow> bool" where
  "leading_blank c \<longleftrightarrow> c = CHR '' '' \<or> c = CHR 0x09"

definition trailing_blank :: "char \<Rightarrow> bool" where
  "trailing_blank c \<longleftrightarrow> c = CHR 0x0A \<or> c = CHR 0x0D \<or> c = CHR '' '' \<or> c = CHR 0x09"

text \<open>The line is a C string, which ends at a NUL.\<close>

definition trim_line :: "string \<Rightarrow> string" where
  "trim_line line = rev (dropWhile trailing_blank (rev (dropWhile leading_blank (takeWhile (\<lambda>c. c \<noteq> CHR 0x00) line))))"

definition pattern_line :: "string \<Rightarrow> bool" where
  "pattern_line l \<longleftrightarrow> l \<noteq> [] \<and> hd l \<noteq> CHR ''#''"

definition file_patterns :: "string \<Rightarrow> string list" where
  "file_patterns s = filter pattern_line (map trim_line (getlines s))"

text \<open>The file counts as loaded even if it could not be read, so that only the first call fails.\<close>

definition load_patterns :: "string \<Rightarrow> ignore_file \<Rightarrow> ignore_state \<Rightarrow> ignore_state \<times> bool" where
  "load_patterns tdir f ig =
     (if loaded ig then (ig, True)
      else (let ig1 = ig\<lparr>loaded := True\<rparr> in
        if length tdir + length ''/.tupignore'' \<ge> PATH_MAX then (ig1, False)
        else (case f of
            Absent \<Rightarrow> (ig1, True)
          | Unreadable \<Rightarrow> (ig1, False)
          | Contents s \<Rightarrow> (ig1\<lparr>patterns := patterns ig1 @ file_patterns s\<rparr>, True))))"

section \<open>Matching\<close>

fun drop_dots :: "string \<Rightarrow> string" where
  "drop_dots (a # b # p) = (if a = CHR ''.'' \<and> b = CHR ''/'' then drop_dots p else a # b # p)"
| "drop_dots p = p"

definition normalize_path :: "string \<Rightarrow> string" where
  "normalize_path p = dropWhile (\<lambda>c. c = CHR ''/'') (drop_dots p)"

text \<open>The part before the last slash.\<close>

definition before_slash :: "string \<Rightarrow> string" where
  "before_slash p = rev (tl (dropWhile (\<lambda>c. c \<noteq> CHR ''/'') (rev p)))"

lemma before_slash_append: "CHR ''/'' \<notin> set r \<Longrightarrow> before_slash (p @ CHR ''/'' # r) = p"
proof -
  assume "CHR ''/'' \<notin> set r"
  then have "dropWhile (\<lambda>c. c \<noteq> CHR ''/'') (rev r @ CHR ''/'' # rev p) = CHR ''/'' # rev p" by (intro dropWhile_append_stop) auto
  then show ?thesis by (simp add: before_slash_def)
qed

function match_above :: "(string \<Rightarrow> string \<Rightarrow> bool) \<Rightarrow> string \<Rightarrow> string \<Rightarrow> bool" where
  "match_above fm pat p =
     (if CHR ''/'' \<notin> set p then False else fm pat (before_slash p) \<or> match_above fm pat (before_slash p))"
  by auto
termination
proof (relation "measure (\<lambda>(_, _, p). length p)", goal_cases)
  case (2 fm pat p)
  then obtain q r where "p = q @ CHR ''/'' # r" "CHR ''/'' \<notin> set r" by (meson split_list_last)
  then show ?case by (simp add: before_slash_append)
qed simp

declare match_above.simps [simp del]

definition pattern_matches_any_ancestor :: "(string \<Rightarrow> string \<Rightarrow> bool) \<Rightarrow> string \<Rightarrow> string \<Rightarrow> bool" where
  "pattern_matches_any_ancestor fm pat path \<longleftrightarrow> fm pat path \<or> match_above fm pat path"

definition tupignore_matches_path :: "(string \<Rightarrow> string \<Rightarrow> bool) \<Rightarrow> string \<Rightarrow> ignore_file \<Rightarrow> string \<Rightarrow> ignore_state
    \<Rightarrow> ignore_state \<times> bool option" where
  "tupignore_matches_path fm tdir f path ig =
     (let n = normalize_path path in
      if n = [] \<or> n = ''.'' then (ig, Some False)
      else (let (ig1, ok) = load_patterns tdir f ig in
        (ig1, if ok then Some (list_ex (\<lambda>pat. pattern_matches_any_ancestor fm pat n) (patterns ig1)) else None)))"

section \<open>Entries\<close>

text \<open>An outer \<open>None\<close> is an entry without a variant, at which the program exits.  A source entry that is not found counts as the entry itself.\<close>

definition tup_entry_variant :: "db \<Rightarrow> tup_entry \<Rightarrow> (variant \<times> db) option" where
  "tup_entry_variant d tent = (case tup_entry_variant_null d tent of (None, _) \<Rightarrow> None | (Some v, d1) \<Rightarrow> Some (v, d1))"

definition variant_get_srctent :: "db \<Rightarrow> variant \<Rightarrow> tup_entry \<Rightarrow> tup_entry option option" where
  "variant_get_srctent d v tent =
     (if v_root v \<or> srcid tent = -1 then Some None else do { e \<leftarrow> tup_entry_find_row d (srcid tent); Some (Some e) })"

definition variant_tent_to_srctent :: "db \<Rightarrow> tup_entry \<Rightarrow> (tup_entry \<times> db) option" where
  "variant_tent_to_srctent d tent = do {
     (v, d1) \<leftarrow> tup_entry_variant d tent;
     Some (case variant_get_srctent d1 v tent of Some (Some s) \<Rightarrow> s | _ \<Rightarrow> tent, d1)}"

definition tupignore_matches_tent :: "(string \<Rightarrow> string \<Rightarrow> bool) \<Rightarrow> string \<Rightarrow> ignore_file \<Rightarrow> tup_entry \<Rightarrow> db \<times> ignore_state
    \<Rightarrow> ((db \<times> ignore_state) \<times> bool option) option" where
  "tupignore_matches_tent fm tdir f tent = (\<lambda>(d, ig). do {
     (src, d1) \<leftarrow> variant_tent_to_srctent d tent;
     let path = snprint_tup_entry (Suc (length (node_tbl d1))) d1 src;
     if length path \<ge> PATH_MAX then Some ((d1, ig), None)
     else (let (ig1, r) = tupignore_matches_path fm tdir f path ig in Some ((d1, ig1), r))})"

text \<open>The path of a name in a directory; a base that is too long fails, and so does the whole.\<close>

definition tupignore_matches_part :: "(string \<Rightarrow> string \<Rightarrow> bool) \<Rightarrow> string \<Rightarrow> ignore_file \<Rightarrow> tup_entry \<Rightarrow> string \<Rightarrow> db \<times> ignore_state
    \<Rightarrow> ((db \<times> ignore_state) \<times> bool option) option" where
  "tupignore_matches_part fm tdir f dtent nm = (\<lambda>(d, ig). do {
     (src, d1) \<leftarrow> variant_tent_to_srctent d dtent;
     let base = snprint_tup_entry (Suc (length (node_tbl d1))) d1 src;
     let path = (if base = ''.'' then nm else base @ CHR ''/'' # nm);
     if length base \<ge> PATH_MAX \<or> length path \<ge> PATH_MAX then Some ((d1, ig), None)
     else (let (ig1, r) = tupignore_matches_path fm tdir f path ig in Some ((d1, ig1), r))})"


section \<open>The directories above an entry\<close>

text \<open>The names on the way from the top to an entry.\<close>

inductive entry_path :: "db \<Rightarrow> tup_entry \<Rightarrow> string list \<Rightarrow> bool" for d where
  Top: "parent_of d e = None \<Longrightarrow> entry_path d e []"
| Below: "parent_of d e = Some p \<Longrightarrow> entry_path d p ns \<Longrightarrow> entry_path d e (ns @ [name_s e])"

inductive_cases entry_path_cases: "entry_path d e ns"

lemma entry_path_unique: "entry_path d e ns \<Longrightarrow> entry_path d e ms \<Longrightarrow> ms = ns"
proof (induction arbitrary: ms rule: entry_path.induct)
  case (Top e)
  from Top(2) show ?case by (rule entry_path_cases) (use Top(1) in auto)
next
  case (Below e p ns)
  from Below(4) show ?case by (rule entry_path_cases) (use Below(1,3) in auto)
qed

text \<open>Every directory on the way has its own length, so there are no more of them than rows.\<close>

lemma rows_above: "entry_path d e ns \<Longrightarrow> j < length ns \<Longrightarrow> \<exists>t p. (t, p) \<in> set (node_tbl d) \<and> entry_path d p (take j ns)"
proof (induction rule: entry_path.induct)
  case (Below e p ns)
  show ?case
  proof (cases "j < length ns")
    case True
    then show ?thesis using Below.IH by simp
  next
    case False
    then have "take j (ns @ [name_s e]) = ns" using Below.prems by simp
    moreover have "\<exists>t. (t, p) \<in> set (node_tbl d)" using Below.hyps(1) by (auto simp: parent_of_def split: if_splits dest: map_of_SomeD)
    ultimately show ?thesis using Below.hyps(2) by metis
  qed
qed simp

lemma path_length:
  assumes "entry_path d e ns"
  shows "length ns \<le> length (node_tbl d)"
proof -
  let ?len = "\<lambda>(t :: tupid, p). length (THE ms. entry_path d p ms)"
  have "j \<in> ?len ` set (node_tbl d)" if j: "j < length ns" for j
  proof -
    obtain t p where p: "(t, p) \<in> set (node_tbl d)" "entry_path d p (take j ns)" using rows_above [OF assms j] by blast
    have "(THE ms. entry_path d p ms) = take j ns" using p(2) entry_path_unique by blast
    then have "?len (t, p) = j" using j by simp
    then show ?thesis using p(1) by force
  qed
  then have "{..<length ns} \<subseteq> ?len ` set (node_tbl d)" by auto
  then have "card {..<length ns} \<le> card (?len ` set (node_tbl d))" by (intro card_mono) auto
  also have "\<dots> \<le> length (node_tbl d)" using card_image_le [OF finite_set, of ?len "node_tbl d"] card_length [of "node_tbl d"] by linarith
  finally show ?thesis by simp
qed

lemma snprint_path: "entry_path d e ns \<Longrightarrow> length ns < k \<Longrightarrow> snprint_tup_entry k d e = concat (map (\<lambda>n. CHR ''/'' # n) ns)"
proof (induction arbitrary: k rule: entry_path.induct)
  case (Top e)
  then show ?case by (cases k) auto
next
  case (Below e p ns)
  then show ?case by (cases k) auto
qed

lemma parent_cong: "node_tbl d1 = node_tbl d \<Longrightarrow> parent_of d1 e = parent_of d e"
  by (simp add: parent_of_def)

lemma path_cong: "entry_path d e ns \<Longrightarrow> node_tbl d1 = node_tbl d \<Longrightarrow> entry_path d1 e ns"
proof (induction rule: entry_path.induct)
  case (Top e)
  then show ?case using parent_cong [of d1 d e] by (auto intro: entry_path.Top)
next
  case (Below e p ns)
  then show ?case using parent_cong [of d1 d e] by (auto intro: entry_path.Below)
qed

lemma variant_up_rows: "node_tbl (snd (variant_up k d e)) = node_tbl d"
  using variant_up_shape [of k d e] by auto

lemma srctent_rows: "variant_tent_to_srctent d e = Some (src, d1) \<Longrightarrow> node_tbl d1 = node_tbl d"
proof -
  assume s: "variant_tent_to_srctent d e = Some (src, d1)"
  then obtain v where v: "tup_entry_variant d e = Some (v, d1)" by (auto simp: variant_tent_to_srctent_def bind_eq_Some_conv)
  then have "d1 = snd (variant_up (Suc (length (node_tbl d))) d e)"
    by (auto simp: tup_entry_variant_def tup_entry_variant_null_def split_beta Let_def simp del: variant_up.simps split: prod.splits option.splits)
  then show ?thesis using variant_up_rows by metis
qed

section \<open>Matching a path and what is above it\<close>

lemma match_above_iff: "match_above fm pat p \<longleftrightarrow> (\<exists>q r. p = q @ CHR ''/'' # r \<and> fm pat q)"
proof (induction "length p" arbitrary: p rule: less_induct)
  case less
  show ?case
  proof (cases "CHR ''/'' \<in> set p")
    case False
    then show ?thesis by (subst match_above.simps) auto
  next
    case True
    then obtain q r where p: "p = q @ CHR ''/'' # r" and r: "CHR ''/'' \<notin> set r" by (meson split_list_last)
    have b: "before_slash p = q" using p r by (simp add: before_slash_append)
    have s: "(\<exists>q' r'. p = q' @ CHR ''/'' # r' \<and> fm pat q') \<longleftrightarrow> fm pat q \<or> (\<exists>q' r'. q = q' @ CHR ''/'' # r' \<and> fm pat q')"
    proof -
      have "q' = q \<or> (\<exists>r''. q = q' @ CHR ''/'' # r'')" if "p = q' @ CHR ''/'' # r'" for q' r'
        using that p r by (auto simp: append_eq_append_conv2 Cons_eq_append_conv append_eq_Cons_conv)
      then show ?thesis using p by (metis append.assoc append_Cons)
    qed
    have "match_above fm pat p \<longleftrightarrow> fm pat q \<or> match_above fm pat q" using True b by (subst match_above.simps) simp
    then show ?thesis using less [of q] p s by simp
  qed
qed

lemma first_slash:
  "CHR ''/'' \<notin> set n \<Longrightarrow> n @ CHR ''/'' # j = q @ CHR ''/'' # r
    \<longleftrightarrow> q = n \<and> r = j \<or> (\<exists>q'. q = n @ CHR ''/'' # q' \<and> j = q' @ CHR ''/'' # r)"
proof (induction n arbitrary: q)
  case Nil
  then show ?case by (cases q) auto
next
  case (Cons a n)
  then show ?case by (cases q) auto
qed

lemma join_splits:
  assumes "list_all plain ns"
  shows "join_slash ns = q @ CHR ''/'' # r
    \<longleftrightarrow> (\<exists>k. Suc k < length ns \<and> q = join_slash (take (Suc k) ns) \<and> r = join_slash (drop (Suc k) ns))"
  using assms
proof (induction ns arbitrary: q rule: join_slash.induct)
  case (2 n)
  then show ?case by (auto simp: plain_def)
next
  case (3 n m ns)
  have n: "CHR ''/'' \<notin> set n" using 3(2) by (simp add: plain_def)
  have ih: "join_slash (m # ns) = q' @ CHR ''/'' # r
      \<longleftrightarrow> (\<exists>k. Suc k < length (m # ns) \<and> q' = join_slash (take (Suc k) (m # ns)) \<and> r = join_slash (drop (Suc k) (m # ns)))" for q'
    using 3 by simp
  have ex: "(\<exists>k. P k) \<longleftrightarrow> P 0 \<or> (\<exists>k. P (Suc k))" for P :: "nat \<Rightarrow> bool" by (metis not0_implies_Suc)
  have "join_slash (n # m # ns) = n @ CHR ''/'' # join_slash (m # ns)" by simp
  then have "join_slash (n # m # ns) = q @ CHR ''/'' # r
      \<longleftrightarrow> q = n \<and> r = join_slash (m # ns) \<or> (\<exists>q'. q = n @ CHR ''/'' # q' \<and> join_slash (m # ns) = q' @ CHR ''/'' # r)"
    using first_slash [OF n, of "join_slash (m # ns)" q r] by metis
  also have "\<dots> \<longleftrightarrow> q = n \<and> r = join_slash (m # ns) \<or> (\<exists>k. Suc k < length (m # ns)
      \<and> q = n @ CHR ''/'' # join_slash (take (Suc k) (m # ns)) \<and> r = join_slash (drop (Suc k) (m # ns)))"
    unfolding ih by blast
  also have "\<dots> \<longleftrightarrow> (\<exists>k. Suc k < length (n # m # ns)
      \<and> q = join_slash (take (Suc k) (n # m # ns)) \<and> r = join_slash (drop (Suc k) (n # m # ns)))"
    by (subst ex [of "\<lambda>k. Suc k < length (n # m # ns) \<and> q = join_slash (take (Suc k) (n # m # ns)) \<and> r = join_slash (drop (Suc k) (n # m # ns))"]) simp
  finally show ?case .
qed simp


lemma path_join: "ns \<noteq> [] \<Longrightarrow> concat (map (\<lambda>n. CHR ''/'' # n) ns) = CHR ''/'' # join_slash ns"
  by (induction ns rule: join_slash.induct) simp_all

lemma normalize_join:
  assumes "list_all plain ns"
  shows "normalize_path (concat (map (\<lambda>n. CHR ''/'' # n) ns)) = join_slash ns"
proof (cases ns)
  case Nil
  then show ?thesis by (simp add: normalize_path_def)
next
  case (Cons n ms)
  obtain c u where n: "n = c # u" "c \<noteq> CHR ''/''" using assms Cons by (cases n) (auto simp: plain_def)
  have j: "\<exists>v. join_slash ns = c # v" using Cons n by (cases ms) auto
  then obtain v where v: "join_slash ns = c # v" by blast
  have "concat (map (\<lambda>n. CHR ''/'' # n) ns) = CHR ''/'' # c # v" using path_join [of ns] Cons v by simp
  then show ?thesis using v n(2) by (simp add: normalize_path_def)
qed

lemma ancestors_match:
  assumes "list_all plain ns" and "ns \<noteq> []"
  shows "pattern_matches_any_ancestor fm pat (join_slash ns) \<longleftrightarrow> (\<exists>ms. ms \<noteq> [] \<and> prefix ms ns \<and> fm pat (join_slash ms))"
proof -
  have "(\<exists>ms. ms \<noteq> [] \<and> prefix ms ns \<and> fm pat (join_slash ms)) \<longleftrightarrow> (\<exists>k < length ns. fm pat (join_slash (take (Suc k) ns)))"
  proof
    assume "\<exists>ms. ms \<noteq> [] \<and> prefix ms ns \<and> fm pat (join_slash ms)"
    then obtain ms where ms: "ms \<noteq> []" "prefix ms ns" "fm pat (join_slash ms)" by blast
    have k: "Suc (length ms - 1) = length ms" using ms(1) by (cases ms) simp_all
    have "take (length ms) ns = ms" using ms(2) by (auto simp: prefix_def)
    moreover have "length ms - 1 < length ns" using k prefix_length_le [OF ms(2)] by linarith
    ultimately show "\<exists>k < length ns. fm pat (join_slash (take (Suc k) ns))" using ms(3) k by metis
  next
    assume "\<exists>k < length ns. fm pat (join_slash (take (Suc k) ns))"
    then obtain k where k: "k < length ns" "fm pat (join_slash (take (Suc k) ns))" by blast
    then show "\<exists>ms. ms \<noteq> [] \<and> prefix ms ns \<and> fm pat (join_slash ms)"
      by (intro exI [of _ "take (Suc k) ns"]) (auto simp: take_is_prefix)
  qed
  also have "\<dots> \<longleftrightarrow> fm pat (join_slash ns) \<or> (\<exists>k. Suc k < length ns \<and> fm pat (join_slash (take (Suc k) ns)))"
  proof -
    have "k < length ns \<longleftrightarrow> Suc k = length ns \<or> Suc k < length ns" for k using assms(2) by auto
    moreover have "\<exists>k. Suc k = length ns" using assms(2) by (cases ns) auto
    ultimately show ?thesis by (metis order_refl take_all)
  qed
  also have "\<dots> \<longleftrightarrow> pattern_matches_any_ancestor fm pat (join_slash ns)"
    unfolding pattern_matches_any_ancestor_def match_above_iff join_splits [OF assms(1)] by metis
  finally show ?thesis by simp
qed

lemma matches_path:
  assumes "list_all plain ns" and "ns \<noteq> [''.'']" and "length tdir + 11 < PATH_MAX"
    and "patterns ig = (if loaded ig then file_patterns s else [])"
  obtains ig1 where "tupignore_matches_path fm tdir (Contents s) (concat (map (\<lambda>n. CHR ''/'' # n) ns)) ig
      = (ig1, Some (\<exists>ms pat. ms \<noteq> [] \<and> prefix ms ns \<and> pat \<in> set (file_patterns s) \<and> fm pat (join_slash ms)))"
    and "patterns ig1 = (if loaded ig1 then file_patterns s else [])"
proof (cases "ns = []")
  case True
  then show ?thesis using that [of ig] assms(4) by (simp add: tupignore_matches_path_def normalize_path_def)
next
  case False
  have nn: "join_slash ns \<noteq> [] \<and> join_slash ns \<noteq> ''.''"
    using assms(1,2) False by (cases ns rule: join_slash.cases) (auto simp: plain_def append_eq_Cons_conv)
  let ?ig1 = "ig\<lparr>loaded := True, patterns := file_patterns s\<rparr>"
  have l: "load_patterns tdir (Contents s) ig = (?ig1, True)"
    using assms(3,4) by (cases ig) (auto simp: load_patterns_def Let_def)
  have "tupignore_matches_path fm tdir (Contents s) (concat (map (\<lambda>n. CHR ''/'' # n) ns)) ig
      = (?ig1, Some (\<exists>ms pat. ms \<noteq> [] \<and> prefix ms ns \<and> pat \<in> set (file_patterns s) \<and> fm pat (join_slash ms)))"
    using nn l unfolding tupignore_matches_path_def normalize_join [OF assms(1)]
    by (simp add: list_ex_iff ancestors_match [OF assms(1) False]) blast
  then show ?thesis using that [of ?ig1] by simp
qed

text \<open>A failure to read the file is reported once; the calls after it find no patterns.\<close>

lemma unreadable_once:
  assumes "tupignore_matches_path fm tdir Unreadable p \<lparr>patterns = [], loaded = False\<rparr> = (ig, None)"
  shows "tupignore_matches_path fm tdir Unreadable p ig = (ig, Some False)"
  using assms by (auto simp: tupignore_matches_path_def load_patterns_def Let_def split: if_splits)

section \<open>Properties\<close>

text \<open>
  C27: a directory or file is ignored exactly if one of the patterns of \<^verbatim>\<open>.tupignore\<close> matches its path in the source tree or
  the path of a directory above it, so what is below an ignored directory is ignored.  The answer is the same for every call,
  the first of which reads the file.  A node of a variant counts as its source.
\<close>

theorem ignored_entries:
  assumes "variant_tent_to_srctent d tent = Some (src, d1)" and "entry_path d src ns"
    and "list_all plain ns" and "ns \<noteq> [''.'']" and "length (join_slash ns) + 1 < PATH_MAX" and "length tdir + 11 < PATH_MAX"
    and "patterns ig = (if loaded ig then file_patterns s else [])"
  shows "\<exists>ig1. tupignore_matches_tent fm tdir (Contents s) tent (d, ig)
       = Some ((d1, ig1), Some (\<exists>ms pat. ms \<noteq> [] \<and> prefix ms ns \<and> pat \<in> set (file_patterns s) \<and> fm pat (join_slash ms)))
     \<and> patterns ig1 = (if loaded ig1 then file_patterns s else [])"
proof -
  have rows: "node_tbl d1 = node_tbl d" by (rule srctent_rows [OF assms(1)])
  have p: "entry_path d1 src ns" by (rule path_cong [OF assms(2) rows])
  have path: "snprint_tup_entry (Suc (length (node_tbl d1))) d1 src = concat (map (\<lambda>n. CHR ''/'' # n) ns)"
    using path_length [OF p] by (intro snprint_path [OF p]) simp
  have "length (concat (map (\<lambda>n. CHR ''/'' # n) ns)) < PATH_MAX"
    using path_join [of ns] assms(5) by (cases "ns = []") simp_all
  moreover obtain ig1 where "tupignore_matches_path fm tdir (Contents s) (concat (map (\<lambda>n. CHR ''/'' # n) ns)) ig
      = (ig1, Some (\<exists>ms pat. ms \<noteq> [] \<and> prefix ms ns \<and> pat \<in> set (file_patterns s) \<and> fm pat (join_slash ms)))"
    and "patterns ig1 = (if loaded ig1 then file_patterns s else [])"
    by (rule matches_path [OF assms(3,4,6,7)])
  ultimately show ?thesis using assms(1)
    unfolding tupignore_matches_tent_def by (intro exI [of _ ig1]) (simp add: path Let_def del: snprint_tup_entry.simps)
qed


text \<open>The output \<^verbatim>\<open>d/g/o\<close> with \<^verbatim>\<open>d/g\<close> ignored, in a hierarchy without other variants.\<close>

definition ignore_db :: db where
  "ignore_db = tree_db\<lparr>variants := [\<lparr>v_dtnode = 1, v_tnode = 1, v_enabled = True, v_root = True\<rparr>]\<rparr>"

definition ignore_text :: string where
  "ignore_text = ''# generated'' @ [CHR 0x0A] @ ''  d/g '' @ [CHR 0x0A, CHR 0x0A] @ ''build''"

lemma ignore_src: "map_option fst (variant_tent_to_srctent ignore_db (tree_entry 6 5 TUP_NODE_GENERATED ''o'')) = Some (tree_entry 6 5 TUP_NODE_GENERATED ''o'')"
  by code_simp

lemma ignore_patterns: "file_patterns ignore_text = [''d/g'', ''build'']"
  by code_simp

lemma ignore_parents:
  "parent_of ignore_db (tree_entry 6 5 TUP_NODE_GENERATED ''o'') = Some (tree_entry 5 2 TUP_NODE_GENERATED_DIR ''g'')"
  "parent_of ignore_db (tree_entry 5 2 TUP_NODE_GENERATED_DIR ''g'') = Some (tree_entry 2 1 TUP_NODE_DIR ''d'')"
  "parent_of ignore_db (tree_entry 2 1 TUP_NODE_DIR ''d'') = Some (tree_entry 1 0 TUP_NODE_DIR ''.'')"
  "parent_of ignore_db (tree_entry 1 0 TUP_NODE_DIR ''.'') = None"
  by code_simp+

lemma ignored_entries_witness:
  "\<exists>d1 ig1. tupignore_matches_tent (=) ''/top'' (Contents ignore_text) (tree_entry 6 5 TUP_NODE_GENERATED ''o'')
      (ignore_db, \<lparr>patterns = [], loaded = False\<rparr>) = Some ((d1, ig1), Some True)"
proof -
  let ?o = "tree_entry 6 5 TUP_NODE_GENERATED ''o''" and ?ns = "[''d'', ''g'', ''o'']"
  obtain d1 where src: "variant_tent_to_srctent ignore_db ?o = Some (?o, d1)"
    using ignore_src by (auto simp: map_option_eq_Some)
  have nm: "name_s (tree_entry t q ty n) = n" for t q ty n by (simp add: tree_entry_def)
  have p: "entry_path ignore_db ?o ?ns"
    using entry_path.Below [OF ignore_parents(1) entry_path.Below [OF ignore_parents(2) entry_path.Below [OF ignore_parents(3) entry_path.Top [OF ignore_parents(4)]]]]
    unfolding nm by simp
  have ns: "list_all plain ?ns" "?ns \<noteq> [''.'']" "length (join_slash ?ns) + 1 < PATH_MAX" "length ''/top'' + 11 < PATH_MAX"
    by (simp_all add: plain_def PATH_MAX_def)
  have ig: "patterns \<lparr>patterns = [], loaded = False\<rparr> = (if loaded \<lparr>patterns = [], loaded = False\<rparr> then file_patterns ignore_text else [])" by simp
  have m: "\<exists>ms pat. ms \<noteq> [] \<and> prefix ms ?ns \<and> pat \<in> set (file_patterns ignore_text) \<and> pat = join_slash ms"
    by (intro exI [of _ "[''d'', ''g'']"] exI [of _ "''d/g''"]) (simp add: ignore_patterns)
  then have t: "(\<exists>ms pat. ms \<noteq> [] \<and> prefix ms ?ns \<and> pat \<in> set (file_patterns ignore_text) \<and> pat = join_slash ms) = True" by (rule eqTrueI)
  obtain ig1 where "tupignore_matches_tent (=) ''/top'' (Contents ignore_text) ?o (ignore_db, \<lparr>patterns = [], loaded = False\<rparr>)
      = Some ((d1, ig1), Some True)"
    using ignored_entries [OF src p ns ig, of "(=)"] unfolding t by (elim exE conjE)
  then show ?thesis by (intro exI)
qed

end
