(* ===== verification/Varsed.thy ===== *)
theory Varsed
  imports Vardict
begin

text \<open>
  The program \<^verbatim>\<open>varsed\<close> (\<^verbatim>\<open>src/src/tup/varsed.c\<close>), which commands use to put configuration variables
  into a file, with the reading of a file in \<^verbatim>\<open>fslurp.c\<close>.  Failing reads and writes are not modelled; a result \<open>None\<close> of
  \<^verbatim>\<open>tup_config_var\<close>, a read behind the mapped file, is one here.
\<close>

section \<open>The program\<close>

text \<open>The byte-order mark is dropped.\<close>

definition fslurp :: "string \<Rightarrow> string" where
  "fslurp s = (if take 3 s = [CHR 0xEF, CHR 0xBB, CHR 0xBF] then drop 3 s else s)"

text \<open>\<^verbatim>\<open>isalnum\<close> in the C locale, or an underscore.\<close>

definition name_char :: "char \<Rightarrow> bool" where
  "name_char c \<longleftrightarrow> c = CHR ''_''
     \<or> list_ex (\<lambda>(first, final). first \<le> c \<and> c \<le> final) [(CHR ''0'', CHR ''9''), (CHR ''A'', CHR ''Z''), (CHR ''a'', CHR ''z'')]"

definition written_value :: "bool \<Rightarrow> string option \<Rightarrow> string" where
  "written_value binmode v = (case v of
     None \<Rightarrow> []
   | Some t \<Rightarrow> if binmode \<and> t = ''y'' then ''1'' else if binmode \<and> t = ''n'' then ''0'' else t)"

text \<open>The text that is written, from the position of \<open>p\<close> on.\<close>

function var_replace :: "vardict \<Rightarrow> bool \<Rightarrow> string \<Rightarrow> string option" where
  "var_replace vd binmode p =
     (case dropWhile (\<lambda>c. c \<noteq> CHR ''@'') p of
        [] \<Rightarrow> Some p
      | at # rest \<Rightarrow>
          let pre = takeWhile (\<lambda>c. c \<noteq> CHR ''@'') p; w = takeWhile name_char rest in
          (case dropWhile name_char rest of
             [] \<Rightarrow> Some (pre @ at # w)
           | c # r \<Rightarrow>
               if c = CHR ''@'' then do {
                 v \<leftarrow> tup_config_var vd w;
                 t \<leftarrow> var_replace vd binmode r;
                 Some (pre @ written_value binmode v @ t)}
               else do {
                 t \<leftarrow> var_replace vd binmode (c # r);
                 Some (pre @ at # w @ t)}))"
  by auto
termination
proof (relation "measure (\<lambda>(_, _, p). length p)", goal_cases)
  case (2 vd binmode p at rest x xa c r v)
  have "length (at # rest) \<le> length p" using 2(1) length_dropWhile_le [of "\<lambda>c. c \<noteq> CHR ''@''" p] by simp
  moreover have "length (c # r) \<le> length rest" using 2(4) length_dropWhile_le [of name_char rest] by simp
  ultimately show ?case by simp
next
  case (3 vd binmode p at rest x xa c r)
  have "length (at # rest) \<le> length p" using 3(1) length_dropWhile_le [of "\<lambda>c. c \<noteq> CHR ''@''" p] by simp
  moreover have "length (c # r) \<le> length rest" using 3(4) length_dropWhile_le [of name_char rest] by simp
  ultimately show ?case by simp
qed simp

declare var_replace.simps [simp del]

text \<open>
  The arguments: the mode, whether an input was given, and the names of the input and the output (\<open>None\<close> for the standard
  streams).  Every argument after the input creates a file, and the last one counts.
\<close>

record varsed_opts =
  o_binmode :: bool
  o_input_found :: bool
  o_input :: "string option"
  o_output :: "string option"

fun varsed_args :: "(string \<Rightarrow> bool) \<Rightarrow> (string \<Rightarrow> bool) \<Rightarrow> string list \<Rightarrow> varsed_opts \<Rightarrow> varsed_opts option" where
  "varsed_args can_open can_create [] o0 = Some o0"
| "varsed_args can_open can_create (a # as) o0 =
     (if a = ''--binary'' then varsed_args can_open can_create as (o0\<lparr>o_binmode := True\<rparr>)
      else if \<not> o_input_found o0 then
        (if a = ''-'' then varsed_args can_open can_create as (o0\<lparr>o_input_found := True\<rparr>)
         else if can_open a then varsed_args can_open can_create as (o0\<lparr>o_input_found := True, o_input := Some a\<rparr>)
         else None)
      else
        (if a = ''-'' then varsed_args can_open can_create as o0
         else if can_create a then varsed_args can_open can_create as (o0\<lparr>o_output := Some a\<rparr>)
         else None))"

text \<open>The output and the text written to it; \<open>contents\<close> is what reading the input gives, \<open>vars\<close> the file of the variables.\<close>

definition varsed :: "(string \<Rightarrow> bool) \<Rightarrow> (string \<Rightarrow> bool) \<Rightarrow> (string option \<Rightarrow> string) \<Rightarrow> string option \<Rightarrow> string list
    \<Rightarrow> (string option \<times> string) option" where
  "varsed can_open can_create contents vars argv = do {
     os \<leftarrow> varsed_args can_open can_create argv \<lparr>o_binmode = False, o_input_found = False, o_input = None, o_output = None\<rparr>;
     vd \<leftarrow> tup_vardict_init vars;
     t \<leftarrow> var_replace vd (o_binmode os) (fslurp (contents (o_input os)));
     Some (o_output os, t)}"

section \<open>Templates\<close>

text \<open>
  A text is read as plain parts, references \<^verbatim>\<open>@NAME@\<close> and at signs that begin no reference, each with the
  name behind it.
\<close>

datatype piece = Plain string | Ref string | Stray string

fun piece_text :: "piece \<Rightarrow> string" where
  "piece_text (Plain t) = t"
| "piece_text (Ref n) = CHR ''@'' # n @ ''@''"
| "piece_text (Stray w) = CHR ''@'' # w"

text \<open>Plain parts are as long as possible, and so is the name of a stray sign.\<close>

fun template_ok :: "piece list \<Rightarrow> bool" where
  "template_ok [] = True"
| "template_ok (Plain t # ps) = (t \<noteq> [] \<and> CHR ''@'' \<notin> set t \<and> (\<forall>u qs. ps \<noteq> Plain u # qs) \<and> template_ok ps)"
| "template_ok (Ref n # ps) = (list_all name_char n \<and> template_ok ps)"
| "template_ok (Stray w # ps) = (list_all name_char w \<and> (ps = [] \<or> (\<exists>c u qs. ps = Plain (c # u) # qs \<and> \<not> name_char c)) \<and> template_ok ps)"

fun filled :: "bool \<Rightarrow> (string \<Rightarrow> string option) \<Rightarrow> piece \<Rightarrow> string" where
  "filled binmode vars (Plain t) = t"
| "filled binmode vars (Ref n) = written_value binmode (vars n)"
| "filled binmode vars (Stray w) = CHR ''@'' # w"


text \<open>The pieces of a text.\<close>

definition plain :: "string \<Rightarrow> piece list" where
  "plain t = (if t = [] then [] else [Plain t])"

function pieces :: "string \<Rightarrow> piece list" where
  "pieces p =
     (case dropWhile (\<lambda>c. c \<noteq> CHR ''@'') p of
        [] \<Rightarrow> plain p
      | at # rest \<Rightarrow>
          plain (takeWhile (\<lambda>c. c \<noteq> CHR ''@'') p) @
          (case dropWhile name_char rest of
             [] \<Rightarrow> [Stray (takeWhile name_char rest)]
           | c # r \<Rightarrow> if c = CHR ''@'' then Ref (takeWhile name_char rest) # pieces r
                      else Stray (takeWhile name_char rest) # pieces (c # r)))"
  by auto
termination
proof (relation "measure length", goal_cases)
  case (2 p at rest c r)
  have "length (at # rest) \<le> length p" using 2(1) length_dropWhile_le [of "\<lambda>c. c \<noteq> CHR ''@''" p] by simp
  moreover have "length (c # r) \<le> length rest" using 2(2) length_dropWhile_le [of name_char rest] by simp
  ultimately show ?case by simp
next
  case (3 p at rest c r)
  have "length (at # rest) \<le> length p" using 3(1) length_dropWhile_le [of "\<lambda>c. c \<noteq> CHR ''@''" p] by simp
  moreover have "length (c # r) \<le> length rest" using 3(2) length_dropWhile_le [of name_char rest] by simp
  ultimately show ?case by simp
qed simp

declare pieces.simps [simp del]

abbreviation template_text :: "piece list \<Rightarrow> string" where
  "template_text ps \<equiv> concat (map piece_text ps)"

text \<open>A text is empty of at signs, or splits at the first one and at the end of the name behind it.\<close>

lemma at_not_name [simp]: "\<not> name_char (CHR ''@'')"
  by (simp add: name_char_def)

lemma split_text:
  obtains (none) "CHR ''@'' \<notin> set p"
  | (last) pre w where "p = pre @ CHR ''@'' # w" "CHR ''@'' \<notin> set pre" "list_all name_char w"
  | (ref) pre w r where "p = pre @ CHR ''@'' # w @ CHR ''@'' # r" "CHR ''@'' \<notin> set pre" "list_all name_char w"
  | (stray) pre w c r where "p = pre @ CHR ''@'' # w @ c # r" "CHR ''@'' \<notin> set pre" "list_all name_char w" "c \<noteq> CHR ''@''" "\<not> name_char c"
proof (cases "CHR ''@'' \<in> set p")
  case True
  then obtain pre rest where p: "p = pre @ CHR ''@'' # rest" "CHR ''@'' \<notin> set pre" by (meson split_list_first)
  let ?w = "takeWhile name_char rest"
  have w: "list_all name_char ?w" by (auto simp: list_all_iff dest: set_takeWhileD)
  have r: "rest = ?w @ dropWhile name_char rest" by simp
  show ?thesis
  proof (cases "dropWhile name_char rest")
    case Nil
    then have "?w = rest" using r by simp
    then have "list_all name_char rest" using w by metis
    then show ?thesis using last [of pre rest] p by simp
  next
    case (Cons c r')
    have "\<not> name_char c" using Cons by (simp add: dropWhile_eq_Cons_conv)
    moreover have "p = pre @ CHR ''@'' # ?w @ c # r'" using p(1) r Cons by simp
    ultimately show ?thesis using ref [of pre ?w r'] stray [of pre ?w c r'] p(2) w by (cases "c = CHR ''@''") auto
  qed
qed (rule none)

lemma take_to_at: "CHR ''@'' \<notin> set pre \<Longrightarrow> takeWhile (\<lambda>c. c \<noteq> CHR ''@'') (pre @ CHR ''@'' # r) = pre"
  and drop_to_at: "CHR ''@'' \<notin> set pre \<Longrightarrow> dropWhile (\<lambda>c. c \<noteq> CHR ''@'') (pre @ CHR ''@'' # r) = CHR ''@'' # r"
  by (auto intro: takeWhile_append_stop dropWhile_append_stop)

lemma take_name: "list_all name_char w \<Longrightarrow> \<not> name_char c \<Longrightarrow> takeWhile name_char (w @ c # r) = w"
  and drop_name: "list_all name_char w \<Longrightarrow> \<not> name_char c \<Longrightarrow> dropWhile name_char (w @ c # r) = c # r"
  and take_names: "list_all name_char w \<Longrightarrow> takeWhile name_char w = w"
  and drop_names: "list_all name_char w \<Longrightarrow> dropWhile name_char w = []"
  by (simp_all add: list_all_iff takeWhile_append_stop dropWhile_append_stop)

lemma no_at: "CHR ''@'' \<notin> set p \<Longrightarrow> dropWhile (\<lambda>c. c \<noteq> CHR ''@'') p = []"
  by (induction p) auto

lemmas split_simps = take_to_at drop_to_at take_name drop_name take_names drop_names no_at

lemma pieces_split:
  "CHR ''@'' \<notin> set p \<Longrightarrow> pieces p = plain p"
  "CHR ''@'' \<notin> set pre \<Longrightarrow> list_all name_char w \<Longrightarrow> pieces (pre @ CHR ''@'' # w) = plain pre @ [Stray w]"
  "CHR ''@'' \<notin> set pre \<Longrightarrow> list_all name_char w \<Longrightarrow> pieces (pre @ CHR ''@'' # w @ CHR ''@'' # r) = plain pre @ Ref w # pieces r"
  "CHR ''@'' \<notin> set pre \<Longrightarrow> list_all name_char w \<Longrightarrow> c \<noteq> CHR ''@'' \<Longrightarrow> \<not> name_char c
    \<Longrightarrow> pieces (pre @ CHR ''@'' # w @ c # r) = plain pre @ Stray w # pieces (c # r)"
  by (subst pieces.simps, simp add: split_simps)+

lemma replace_split:
  "CHR ''@'' \<notin> set p \<Longrightarrow> var_replace vd b p = Some p"
  "CHR ''@'' \<notin> set pre \<Longrightarrow> list_all name_char w \<Longrightarrow> var_replace vd b (pre @ CHR ''@'' # w) = Some (pre @ CHR ''@'' # w)"
  "CHR ''@'' \<notin> set pre \<Longrightarrow> list_all name_char w \<Longrightarrow> var_replace vd b (pre @ CHR ''@'' # w @ CHR ''@'' # r) =
     do { v \<leftarrow> tup_config_var vd w; t \<leftarrow> var_replace vd b r; Some (pre @ written_value b v @ t) }"
  "CHR ''@'' \<notin> set pre \<Longrightarrow> list_all name_char w \<Longrightarrow> c \<noteq> CHR ''@'' \<Longrightarrow> \<not> name_char c
    \<Longrightarrow> var_replace vd b (pre @ CHR ''@'' # w @ c # r) = do { t \<leftarrow> var_replace vd b (c # r); Some (pre @ CHR ''@'' # w @ t) }"
  by (subst var_replace.simps, simp add: split_simps)+

lemma plain_text [simp]: "template_text (plain t) = t" and filled_plain [simp]: "concat (map (filled b vars) (plain t)) = t"
  by (simp_all add: plain_def)

lemma plain_ok: "CHR ''@'' \<notin> set t \<Longrightarrow> template_ok ps \<Longrightarrow> \<forall>u qs. ps \<noteq> Plain u # qs \<Longrightarrow> template_ok (plain t @ ps)"
  by (simp add: plain_def)

lemma starts_plain:
  assumes "c \<noteq> CHR ''@''"
  obtains u qs where "pieces (c # r) = Plain (c # u) # qs"
proof (cases rule: split_text [of "c # r"])
  case none
  then show ?thesis using that [of r "[]"] by (simp add: pieces_split plain_def)
next
  case (last pre w)
  have "pieces (c # r) = plain pre @ [Stray w]" unfolding last(1) by (rule pieces_split(2) [OF last(2,3)])
  then show ?thesis using last(1) assms that by (cases pre) (auto simp: plain_def)
next
  case (ref pre w r')
  have "pieces (c # r) = plain pre @ Ref w # pieces r'" unfolding ref(1) by (rule pieces_split(3) [OF ref(2,3)])
  then show ?thesis using ref(1) assms that by (cases pre) (auto simp: plain_def)
next
  case (stray pre w c' r')
  have "pieces (c # r) = plain pre @ Stray w # pieces (c' # r')" unfolding stray(1) by (rule pieces_split(4) [OF stray(2-5)])
  then show ?thesis using stray(1) assms that by (cases pre) (auto simp: plain_def)
qed

lemma pieces_ok: "template_ok (pieces p) \<and> template_text (pieces p) = p"
proof (induction "length p" arbitrary: p rule: less_induct)
  case less
  show ?case
  proof (cases rule: split_text [of p])
    case none
    then show ?thesis by (simp add: pieces_split plain_def)
  next
    case (last pre w)
    then show ?thesis by (simp add: pieces_split plain_ok)
  next
    case (ref pre w r)
    then show ?thesis using less [of r] by (simp add: pieces_split plain_ok)
  next
    case (stray pre w c r)
    obtain u qs where "pieces (c # r) = Plain (c # u) # qs" using starts_plain [OF stray(4)] .
    then show ?thesis using less [of "c # r"] stray by (simp add: pieces_split plain_ok)
  qed
qed


text \<open>A template is the pieces of its text, so a text has one template.\<close>

lemma pieces_template: "template_ok ps \<Longrightarrow> pieces (template_text ps) = ps"
proof (induction ps rule: template_ok.induct)
  case 1
  show ?case using pieces_split(1) [of "[]"] by (simp add: plain_def)
next
  case (2 t ps)
  have t: "CHR ''@'' \<notin> set t" "plain t = [Plain t]" and ih: "pieces (template_text ps) = ps" using 2 by (simp_all add: plain_def)
  show ?case
  proof (cases ps)
    case Nil
    then show ?thesis using t pieces_split(1) [of t] by simp
  next
    case (Cons q qs)
    show ?thesis
    proof (cases q)
      case (Plain u)
      then show ?thesis using 2(2) Cons by simp
    next
      case (Ref n)
      have n: "list_all name_char n" using 2(2) Cons Ref by simp
      have "Ref n # pieces (template_text qs) = ps"
        using ih Cons Ref pieces_split(3) [OF _ n, of "[]" "template_text qs"] by (simp add: plain_def)
      then show ?thesis using Cons Ref t pieces_split(3) [OF t(1) n, of "template_text qs"] by simp
    next
      case (Stray w)
      have w: "list_all name_char w" and q: "qs = [] \<or> (\<exists>c u qs'. qs = Plain (c # u) # qs' \<and> \<not> name_char c \<and> c \<noteq> CHR ''@'')"
        using 2(2) Cons Stray by auto
      from q show ?thesis
      proof
        assume "qs = []"
        then show ?thesis using Cons Stray t pieces_split(2) [OF t(1) w] by simp
      next
        assume "\<exists>c u qs'. qs = Plain (c # u) # qs' \<and> \<not> name_char c \<and> c \<noteq> CHR ''@''"
        then obtain c r where c: "template_text qs = c # r" "\<not> name_char c" "c \<noteq> CHR ''@''" by auto
        have "Stray w # pieces (c # r) = ps"
          using ih Cons Stray pieces_split(4) [OF _ w c(3,2), of "[]" r] c(1) by (simp add: plain_def)
        then show ?thesis using Cons Stray t c(1) pieces_split(4) [OF t(1) w c(3,2), of r] by simp
      qed
    qed
  qed
next
  case (3 n ps)
  then show ?case using pieces_split(3) [of "[]" n "template_text ps"] by (simp add: plain_def)
next
  case (4 w ps)
  show ?case
  proof (cases ps)
    case Nil
    then show ?thesis using 4 pieces_split(2) [of "[]" w] by (simp add: plain_def)
  next
    case (Cons q qs)
    then obtain c r where c: "template_text ps = c # r" "\<not> name_char c" "c \<noteq> CHR ''@''" using 4(2) by auto
    then show ?thesis using 4 pieces_split(4) [of "[]" w c r] by (simp add: plain_def)
  qed
qed

section \<open>What varsed writes\<close>

lemma name_char_ascii:
  assumes "name_char c"
  shows "of_char c < (128 :: nat)"
proof -
  have "CHR ''9'' \<le> CHR ''z''" "CHR ''Z'' \<le> CHR ''z''" "CHR ''_'' \<le> CHR ''z''" by simp_all
  moreover have "c = CHR ''_'' \<or> c \<le> CHR ''9'' \<or> c \<le> CHR ''Z'' \<or> c \<le> CHR ''z''" using assms unfolding name_char_def by force
  ultimately have "c \<le> CHR ''z''" by (metis order_trans)
  then have "of_char c \<le> (of_char (CHR ''z'') :: nat)" by (simp only: less_eq_char_def)
  then show ?thesis by simp
qed

lemma name_ascii: "list_all name_char w \<Longrightarrow> ascii w"
  using name_char_ascii by (simp add: ascii_def list_all_iff)

lemma config_var: "vardb_ok vs \<Longrightarrow> list_all name_char w \<Longrightarrow> tup_config_var (saved vs) w = Some (lookup_var vs w)"
  unfolding tup_config_var_def
  by (rule search_saved) (auto simp: saved_def intro: name_ascii)

lemma replace_pieces:
  assumes "vardb_ok vs"
  shows "var_replace (saved vs) b p = Some (concat (map (filled b (lookup_var vs)) (pieces p)))"
proof (induction "length p" arbitrary: p rule: less_induct)
  case less
  show ?case
  proof (cases rule: split_text [of p])
    case none
    then show ?thesis by (simp add: pieces_split replace_split)
  next
    case (last pre w)
    then show ?thesis by (simp add: pieces_split replace_split)
  next
    case (ref pre w r)
    then show ?thesis using less [of r] config_var [OF assms, of w] by (simp add: pieces_split replace_split)
  next
    case (stray pre w c r)
    then show ?thesis using less [of "c # r"] by (simp add: pieces_split replace_split)
  qed
qed


section \<open>Properties\<close>

text \<open>
  C28: \<^verbatim>\<open>varsed\<close> fills in a template.  Every input is the text of exactly one template, that is, it can be read in one way only as plain
  parts, references and stray at signs.  Suppose that the file given to \<^verbatim>\<open>varsed\<close> is the one that \<^verbatim>\<open>save_vardict_file\<close>
  wrote for variables that the lookup can find: names of ASCII characters (1 to 127), in strictly increasing order of \<^verbatim>\<open>strcmp\<close>
  and without an equals sign, values without a NUL, and a file of fewer than \<open>2 ^ 31\<close> bytes; that the input can be opened and the
  output created; and that neither is called \<^verbatim>\<open>-\<close> or \<^verbatim>\<open>--binary\<close>.  Then the output is this template with
  each reference replaced by the value of the variable, or by nothing if there is none (with \<^verbatim>\<open>--binary\<close>, y is 1 and n is 0),
  and all other characters as they are.
\<close>

theorem varsed_fills:
  assumes "vardb_ok vs" and "can_open i" and "can_create out" and "i \<notin> {''-'', ''--binary''}" and "out \<notin> {''-'', ''--binary''}"
  shows "\<exists>ps. template_ok ps \<and> template_text ps = fslurp (contents (Some i))
     \<and> (\<forall>qs. template_ok qs \<and> template_text qs = fslurp (contents (Some i)) \<longrightarrow> qs = ps)
     \<and> varsed can_open can_create contents (Some (save_vardict_file vs)) ((if binmode then [''--binary''] else []) @ [i, out])
         = Some (Some out, concat (map (filled binmode (lookup_var vs)) ps))"
proof -
  let ?ps = "pieces (fslurp (contents (Some i)))"
  have "size_ok vs" using assms(1) by (simp add: vardb_ok_def)
  then have "varsed can_open can_create contents (Some (save_vardict_file vs)) ((if binmode then [''--binary''] else []) @ [i, out])
      = Some (Some out, concat (map (filled binmode (lookup_var vs)) ?ps))"
    using assms(2-) by (auto simp: varsed_def init_saved replace_pieces [OF assms(1)])
  moreover have "\<forall>qs. template_ok qs \<and> template_text qs = fslurp (contents (Some i)) \<longrightarrow> qs = ?ps"
    using pieces_template by metis
  ultimately show ?thesis using pieces_ok by blast
qed

lemma varsed_fills_witness:
  "varsed (\<lambda>_. True) (\<lambda>_. True) (\<lambda>_. ''me@home: @CPU@@N@ 5@'')
     (Some (save_vardict_file [\<lparr>v_name = ''CPU'', v_value = ''arm''\<rparr>, \<lparr>v_name = ''N'', v_value = ''n''\<rparr>])) [''--binary'', ''i'', ''o'']
   = Some (Some ''o'', ''me@home: arm0 5@'')"
proof -
  let ?vs = "[\<lparr>v_name = ''CPU'', v_value = ''arm''\<rparr>, \<lparr>v_name = ''N'', v_value = ''n''\<rparr>]"
  let ?in = "''me@home: @CPU@@N@ 5@''"
  let ?ps = "[Plain ''me'', Stray ''home'', Plain '': '', Ref ''CPU'', Ref ''N'', Plain '' 5'', Stray []]"
  have vs: "vardb_ok ?vs" by (simp add: vardb_ok_def size_ok_def ascii_def entry_bytes_def)
  obtain ps where u: "\<forall>qs. template_ok qs \<and> template_text qs = ?in \<longrightarrow> qs = ps"
    and r: "varsed (\<lambda>_. True) (\<lambda>_. True) (\<lambda>_. ?in) (Some (save_vardict_file ?vs)) [''--binary'', ''i'', ''o'']
      = Some (Some ''o'', concat (map (filled True (lookup_var ?vs)) ps))"
    using varsed_fills [OF vs, of "\<lambda>_. True" "''i''" "\<lambda>_. True" "''o''" "\<lambda>_. ?in" True] by (auto simp: fslurp_def)
  have "template_ok ?ps \<and> template_text ?ps = ?in" by (simp add: name_char_def)
  then have "?ps = ps" using u by blast
  then show ?thesis using r by (auto simp: lookup_var_def written_value_def)
qed

end
