(* ===== verification/Spec2Isabelle.thy ===== *)
theory Spec2Isabelle
  imports If_Stmt Graph_Examples Graph_Prune Db_Read Dist Glob Vardict Exec_Props Tup_Printf Vardb Pel_Group Reclaim File_Info Tupignore Varsed
begin

text \<open>
  A model of the build system \<^verbatim>\<open>tup\<close> in \<^verbatim>\<open>src/src/tup/\<close>, the core of \<^verbatim>\<open>metatup\<close>.

  \<^bold>\<open>The program.\<close>  tup keeps a database of nodes (files, commands, directories, groups, ghosts) and links between them.  A change
  of a file is noted in flag lists of the database: directories to parse again, commands to run again.  An update then builds
  a partial graph from what is flagged, first of directories and then of commands, checks it for cycles, removes what the user
  did not ask for, and lets worker threads process it in the order of its edges.  Parsing a Tupfile writes the links that it
  declares (sticky links), and running a command writes the links that were observed (normal links).

  \<^bold>\<open>Theories and what they model.\<close>  Each operation of the code is one definition with the name it has in C, or a few definitions,
  one per block of a long function; \<^verbatim>\<open>-1\<close> is \<^term>\<open>None\<close>, and an out-parameter is part of the result.

  \<^item> Foundations: \<^verbatim>\<open>Prelude\<close> (ordered association lists, C integers), \<^verbatim>\<open>Trees\<close> (\<^verbatim>\<open>tupid_tree.c\<close>,
    \<^verbatim>\<open>tent_tree.c\<close>, \<^verbatim>\<open>string_tree.c\<close>: a red-black tree is the sorted list of its keys; the locale
    \<^verbatim>\<open>ordered_set\<close> is their interface), \<^verbatim>\<open>Db_Types\<close> (\<^verbatim>\<open>db_types.h\<close>, \<^verbatim>\<open>struct tup_entry\<close>).
  \<^item> The database (\<^verbatim>\<open>db.c\<close>): \<^verbatim>\<open>Db_Tables\<close> has its state (the record \<^verbatim>\<open>db\<close>: the tables as lists of rows,
    the caches of the entries, the list of ghosts to reclaim, and \<^verbatim>\<open>sql_ok\<close>, which says whether a statement runs) with the flag lists and
    the queries; \<^verbatim>\<open>Db_Links\<close> inserts and removes links and flags what depends on them; \<^verbatim>\<open>Db_Deps\<close> writes the
    dependencies of a command or directory with the parallel walk of two trees.  \<^verbatim>\<open>Db_Inv\<close> shows that each operation keeps
    the invariant \<^verbatim>\<open>db_ok\<close>; \<^verbatim>\<open>Db_Sync\<close> states once, in the locale \<^verbatim>\<open>link_sync\<close>, what the walk achieves with callbacks
    that insert and remove; \<^verbatim>\<open>Db_Write\<close> and \<^verbatim>\<open>Db_Read\<close> interpret it for declared inputs, directories and observed inputs.
  \<^item> Nodes: \<^verbatim>\<open>Pel_Group\<close> (\<^verbatim>\<open>pel_group.c\<close>: a path as a list of elements), \<^verbatim>\<open>Db_Nodes\<close> (rows of the node table,
    insertion, deletion into a ghost, variants), \<^verbatim>\<open>Name_File\<close> (\<^verbatim>\<open>create_name_file.c\<close>: files and
    directories that appear, change and disappear, the directory of a path).  \<^verbatim>\<open>Nodes_Inv\<close> has the invariant
    \<^verbatim>\<open>refs_ok\<close> (the rows are a tree, all references lead to rows) and the relation \<^verbatim>\<open>del_rel\<close> (what a deletion may
    change), and shows both for each step; \<^verbatim>\<open>Deletion\<close> does the recursion; \<^verbatim>\<open>Reclaim\<close> is the
    loop of \<^verbatim>\<open>reclaim_ghosts\<close>.
  \<^item> Accesses of a command: \<^verbatim>\<open>File_Info\<close> (\<^verbatim>\<open>file.c\<close>) takes the events that a server reports through the lists
    of \<^verbatim>\<open>struct file_info\<close> to the links of the database, with \<^verbatim>\<open>write_files\<close> as a whole;
    \<^verbatim>\<open>Tupignore\<close> (\<^verbatim>\<open>tupignore.c\<close>) decides which directories are ignored.
  \<^item> The graph (\<^verbatim>\<open>graph.c\<close>): \<^verbatim>\<open>Graph\<close> has the nodes, edges, queues and all operations; \<^verbatim>\<open>Graph_Inv\<close> the
    representation invariant; \<^verbatim>\<open>Graph_Build\<close> the callbacks (locale \<^verbatim>\<open>visit_cb\<close>) and \<^verbatim>\<open>Graph_Walk\<close> the
    depth-first loop (locale \<^verbatim>\<open>dep_walk\<close>, interpreted for links and for groups); \<^verbatim>\<open>Graph_Trim\<close> the decision of cycles;
    \<^verbatim>\<open>Graph_Prune\<close> partial updates; \<^verbatim>\<open>Graph_Examples\<close> concrete databases.
  \<^item> Execution (\<^verbatim>\<open>updater.c\<close>): \<^verbatim>\<open>Exec\<close> is \<^verbatim>\<open>execute_graph\<close> with its threads as a transition system whose
    steps are the critical sections; \<^verbatim>\<open>Exec_Pop\<close>, \<^verbatim>\<open>Exec_Steps\<close> and \<^verbatim>\<open>Exec_Shape\<close> describe the graph in
    the middle of a run by the events so far; \<^verbatim>\<open>Exec_Runs\<close> has the invariant of every schedule for any worker
    function (locale \<^verbatim>\<open>worker_function\<close>); \<^verbatim>\<open>Update\<close> has the worker functions themselves and
    interprets the locale; \<^verbatim>\<open>Update_Run\<close>, \<^verbatim>\<open>Exec_Ready\<close> and \<^verbatim>\<open>Exec_Props\<close> join them with the graphs that
    \<^verbatim>\<open>build_graph\<close> returns.
  \<^item> Parts of the parser (\<^verbatim>\<open>parser.c\<close>) and its helpers: \<^verbatim>\<open>If_Stmt\<close> (\<^verbatim>\<open>if_stmt.c\<close>), \<^verbatim>\<open>Paths\<close>,
    \<^verbatim>\<open>Glob\<close>, \<^verbatim>\<open>Dist\<close>, \<^verbatim>\<open>Tup_Printf\<close> (name lists and the flags of a command), \<^verbatim>\<open>Vardb\<close>
    (\<^verbatim>\<open>vardb.c\<close>), \<^verbatim>\<open>Estring\<close> (\<^verbatim>\<open>estring.c\<close>), \<^verbatim>\<open>Vardict\<close> (\<^verbatim>\<open>vardict.c\<close>) and its client
    \<^verbatim>\<open>Varsed\<close> (\<^verbatim>\<open>varsed.c\<close>).
  \<^item> \<^verbatim>\<open>Samples\<close>: databases for the witnesses.

  \<^bold>\<open>What is shown.\<close>  Execution: for every interleaving the order of the edges is respected, the run ends within a bound, a failure stops
  exactly what depends on it, and a graph from \<^verbatim>\<open>build_graph\<close> never gets stuck.  Graph: its nodes are what the links reach,
  cycles are found exactly by \<^verbatim>\<open>trim_graph\<close> and by the group check, pruning keeps exactly what the targets need, where need is
  defined from the edges and the types of nodes, apart from the code.  Database: the links
  after writing are the declared and the observed ones, and a deletion ends, leaves nothing below a directory, keeps the
  invariant and loses no dependency: a command that read a deleted file will run again; and reclaiming removes exactly the ghosts and
  groups that are not in use (a coinductive set over rows and links).  Accesses: the list of files to write is what the command left, and it is accepted only if these are its
  outputs.  What is below an ignored directory is ignored, and \<^verbatim>\<open>varsed\<close> fills in exactly the references.  Parser:
  canonical paths and relative paths lead to the same place, globs find all files that are not behind a link, printed forms can be read back, quoted names survive the shell, and no
  text is written past its buffer.  Where the code does not do what it should, the model has the behaviour of the code and a
  theorem states it (cycles that the first loop misses, transient outputs, percent signs in names, groups and
  directories of one name).

  \<^bold>\<open>Bounds and recursion.\<close>  A loop that may not end is a \<^verbatim>\<open>partial_function (option)\<close> (\<^verbatim>\<open>build_loop\<close>, \<^verbatim>\<open>trim_graph\<close>,
  \<^verbatim>\<open>reclaim_loop\<close>, \<^verbatim>\<open>pop_edges\<close>, the doubling of a buffer), and that it ends is a property with a measure.  The mutually recursive deletion of
  directories gets the number of nested calls it may make, one more than there are rows, which is shown to be enough
  because the rows form a tree; out of calls (outer \<^term>\<open>None\<close>) differs from an error (inner \<^term>\<open>None\<close>).  The creation of a node gets two
  calls, enough unless the name is a group's, and then no number is.  Walks to the parents of an entry get as many steps as there
  are rows, or one more.  Ids of rows are \<^typ>\<open>int\<close> and the trees compare them as the code does, truncated to 32 bits; properties
  assume ids below \<^verbatim>\<open>2 ^ 31\<close> (part of \<^verbatim>\<open>db_ok\<close>).  Flags and bit stacks are words of their width, buffers carry their
  size.  The length that \<^verbatim>\<open>canonicalize_path_simple\<close> counts is an \<^verbatim>\<open>int\<close> that wraps; its properties assume
  paths short enough that it does not, and \<^verbatim>\<open>canonicalize_path_overrun\<close> shows that without the assumption the buffer is
  too small.

  \<^bold>\<open>Parameters.\<close>  SQLite is represented by lists of rows and \<^verbatim>\<open>sql_ok\<close>; what the operating system and a command
  do, by the records \<^verbatim>\<open>host\<close> (new row ids, stat, rmdir, unlink), \<^verbatim>\<open>shell\<close> (running a command, files,
  failing calls), \<^verbatim>\<open>file_system\<close> (links, renaming, times, matches of regular expressions) and \<^verbatim>\<open>fsys\<close> (the answers
  of \<^verbatim>\<open>lstat\<close> and \<^verbatim>\<open>readdir\<close> for globs); fnmatch, the
  exclusion regular expressions and the lookup of targets are arguments of the functions that use them.

  \<^bold>\<open>Not modelled.\<close>  The interpreter for Tupfiles around the modelled parts (reading, variables, rules, bins, the Lua
  front end): one recursive program over a large state.  The phases of an update other than the execution, the scan of the
  file system and the monitor, the servers that observe commands (FUSE, preloading, DLL injection), the commands of
  \<^verbatim>\<open>metatup\<close>, options, locks and terminal output: mostly system calls.  Transactions, schema upgrades and the
  configuration tables: SQL text.  Reference counts of cached entries, freeing of memory and error messages are left out everywhere; vendored
  libraries are parameters.
\<close>

end
